(* ===== verification/Mv_Prelude.thy ===== *)
theory Mv_Prelude
  imports Main "HOL-Library.Word" "HOL-Library.Monad_Syntax"
begin

text \<open>
  The prelude of the development: the fixed-width types of \<^verbatim>\<open>c/include/mv/types.h\<close>, the flat
  32-bit address space the C runtime of Mellivora runs in, and the generic lemmas on
  words, offsets and memory that the components share.

  \<^item> A pointer is a 32-bit word and memory maps every address to a byte, as in the flat
    memory model of the kernel; pointer arithmetic therefore wraps where the machine wraps.
  \<^item> \<open>char\<close> is signed on the i386 target: \<open>sc\<close> reads a byte the way an \<open>int\<close> promotion does.
  \<^item> A C loop that needs a terminator to stop is a \<^theory_text>\<open>partial_function (option)\<close>:
    \<open>None\<close> is the loop that never ends.
\<close>

unbundle bit_operations_syntax

type_synonym u8 = "8 word"
type_synonym u16 = "16 word"
type_synonym u32 = "32 word"
type_synonym u64 = "64 word"
type_synonym addr = "32 word"
type_synonym mem = "addr \<Rightarrow> u8"

named_theorems off_simps \<open>offset arithmetic on addresses\<close>
named_theorems str_specs \<open>what the string routines compute on terminated strings\<close>
named_theorems err_specs \<open>what the error paths of the system call shims compute\<close>

section \<open>Bytes, characters and signed values\<close>

abbreviation (input) NUL :: u8 where "NUL \<equiv> 0"

abbreviation (input) NULLP :: addr where "NULLP \<equiv> 0"

abbreviation (input) ch :: "char \<Rightarrow> u8" where "ch c \<equiv> of_char c"

definition bytes :: "string \<Rightarrow> u8 list" where
  "bytes s = map of_char s"

definition sc :: "u8 \<Rightarrow> int" where
  "sc b = sint b"

definition uc :: "u8 \<Rightarrow> int" where
  "uc b = uint b"

lemma bytes_Nil [simp]: "bytes [] = []"
  by (simp add: bytes_def)

lemma bytes_Cons [simp]: "bytes (c # s) = of_char c # bytes s"
  by (simp add: bytes_def)

lemma length_bytes [simp]: "length (bytes s) = length s"
  by (simp add: bytes_def)

lemma uc_inject [simp]: "uc x = uc y \<longleftrightarrow> x = y"
  by (simp add: uc_def word_uint_eq_iff)

lemma uc_range: "0 \<le> uc x" "uc x < 256"
  using uint_lt2p [of x] by (simp_all add: uc_def)

lemma uc_zero [simp]: "uc 0 = 0"
  by (simp add: uc_def)

lemma uc_eq_zero [simp]: "uc x = 0 \<longleftrightarrow> x = 0"
  by (simp add: uc_def uint_0_iff)

lemma uc_pos [simp]: "0 < uc x \<longleftrightarrow> x \<noteq> 0"
  using uc_range [of x] by (metis less_le uc_eq_zero)

lemma sc_inject [simp]: "sc x = sc y \<longleftrightarrow> x = y"
  unfolding sc_def by (metis signed_word_eqI)

section \<open>C division, which truncates towards zero\<close>

definition cdiv :: "int \<Rightarrow> int \<Rightarrow> int" where
  "cdiv a b = sgn a * sgn b * (\<bar>a\<bar> div \<bar>b\<bar>)"

definition cmod :: "int \<Rightarrow> int \<Rightarrow> int" where
  "cmod a b = a - cdiv a b * b"

lemma cdiv_nonneg [simp]: "0 \<le> a \<Longrightarrow> 0 < b \<Longrightarrow> cdiv a b = a div b"
  by (cases "a = 0") (simp_all add: cdiv_def)

lemma cmod_nonneg [simp]: "0 \<le> a \<Longrightarrow> 0 < b \<Longrightarrow> cmod a b = a mod b"
  by (simp add: cmod_def minus_div_mult_eq_mod)

lemma cdiv_neg: "a < 0 \<Longrightarrow> 0 < b \<Longrightarrow> cdiv a b = - ((- a) div b)"
  by (simp add: cdiv_def)

lemma cmod_neg: "a < 0 \<Longrightarrow> 0 < b \<Longrightarrow> cmod a b = - ((- a) mod b)"
  by (simp add: cmod_def cdiv_neg minus_div_mult_eq_mod [symmetric])

lemma cdiv_cmod_eq: "cdiv a b * b + cmod a b = a"
  by (simp add: cmod_def)

section \<open>Offsets from an address\<close>

lemma unat_lt_2p32: "unat (x :: u32) < 2 ^ 32"
  using unsigned_less [of x, where 'a = nat] by simp

lemma unat_le_2p32 [simp]: "unat (n :: u32) \<le> 4294967296"
  using unat_lt_2p32 [of n] by simp

lemma unat_of_nat_u32 [off_simps]: "n < 2 ^ 32 \<Longrightarrow> unat (of_nat n :: u32) = n"
  by (simp add: unat_of_nat)

lemma of_nat_inj_u32: "i < 2 ^ 32 \<Longrightarrow> j < 2 ^ 32 \<Longrightarrow> (of_nat i :: u32) = of_nat j \<longleftrightarrow> i = j"
  by (metis unat_of_nat_u32)

lemma off_inj [off_simps]:
  "i < 2 ^ 32 \<Longrightarrow> j < 2 ^ 32 \<Longrightarrow> (p + of_nat i :: u32) = p + of_nat j \<longleftrightarrow> i = j"
  by (simp add: of_nat_inj_u32)

lemma off_sub [off_simps]: "n < 2 ^ 32 \<Longrightarrow> unat (p + of_nat n - p :: u32) = n"
  by (simp add: unat_of_nat)

lemma unat_pred: "(x :: u32) \<noteq> 0 \<Longrightarrow> unat (x - 1) = unat x - 1"
  by (rule unat_minus_one)

lemma unat_succ: "unat (x :: u32) + 1 < 2 ^ 32 \<Longrightarrow> unat (x + 1) = unat x + 1"
  by (simp add: unat_word_ariths)

text \<open>The distance from \<open>b\<close> up to \<open>a\<close>, when neither is reached by wrapping.\<close>

lemma unat_diff_le: "(b :: u32) \<le> a \<Longrightarrow> unat (a - b) = unat a - unat b"
  by (rule unat_sub)

lemma unat_diff_gt: "(a :: u32) < b \<Longrightarrow> unat (a - b) = 2 ^ 32 - (unat b - unat a)"
  by (simp add: unat_sub_if' word_less_nat_alt)

text \<open>Below \<^verbatim>\<open>INT_MAX\<close> the signed reading of a word is its value.\<close>

lemma sint_small: "unat (x :: u32) < 2147483648 \<Longrightarrow> sint x = int (unat x)"
proof -
  assume a: "unat x < 2147483648"
  have u: "uint x = int (unat x)" by simp
  have ge: "- 2147483648 \<le> uint x" using uint_ge_0 [of x] by linarith
  have lt: "uint x < 2147483648" unfolding u using a by linarith
  have "sint x = signed_take_bit 31 (uint x)" by (simp add: sint_uint)
  also have "\<dots> = uint x"
    by (rule signed_take_bit_int_eq_self) (use lt ge in simp_all)
  finally show ?thesis using u by (rule trans)
qed

text \<open>The bytes of a region, as a list.\<close>

definition bytes_at :: "mem \<Rightarrow> addr \<Rightarrow> nat \<Rightarrow> u8 list" where
  "bytes_at m p n = map (\<lambda>i. m (p + of_nat i)) [0..<n]"

lemma length_bytes_at [simp]: "length (bytes_at m p n) = n"
  by (simp add: bytes_at_def)

lemma nth_bytes_at [simp]: "i < n \<Longrightarrow> bytes_at m p n ! i = m (p + of_nat i)"
  by (simp add: bytes_at_def)

lemma bytes_at_0 [simp]: "bytes_at m p 0 = []"
  by (simp add: bytes_at_def)

lemma bytes_at_Suc: "bytes_at m p (Suc n) = m p # bytes_at m (p + 1) n"
  by (rule nth_equalityI) (auto simp: nth_Cons' algebra_simps of_nat_diff)

lemma bytes_at_cong:
  "(\<And>i. i < n \<Longrightarrow> m (p + of_nat i) = m' (q + of_nat i)) \<Longrightarrow> bytes_at m p n = bytes_at m' q n"
  by (rule nth_equalityI) auto

lemma bytes_at_snoc: "bytes_at m p (Suc n) = bytes_at m p n @ [m (p + of_nat n)]"
  by (simp add: bytes_at_def)

text \<open>Memory with the bytes \<open>bs\<close> written from \<open>d\<close> on: what every copying routine leaves.\<close>

definition poke :: "mem \<Rightarrow> addr \<Rightarrow> u8 list \<Rightarrow> mem" where
  "poke m d bs = (\<lambda>a. if unat (a - d) < length bs then bs ! unat (a - d) else m a)"

lemma poke_Nil [simp]: "poke m d [] = m"
  by (simp add: poke_def)

lemma unat_of_nat_le: "unat (of_nat k :: u32) \<le> k"
  by (simp add: unat_of_nat)

lemma poke_off [simp]:
  "i < length bs \<Longrightarrow> length bs \<le> 2 ^ 32 \<Longrightarrow> poke m d bs (d + of_nat i) = bs ! i"
  by (simp add: poke_def unat_of_nat)

lemma poke_outside: "length bs \<le> unat (a - d) \<Longrightarrow> poke m d bs a = m a"
  by (simp add: poke_def)

lemma poke_Cons:
  assumes "Suc (length bs) \<le> 2 ^ 32"
  shows "poke m d (b # bs) = poke (m(d := b)) (d + 1) bs"
proof
  fix a
  show "poke m d (b # bs) a = poke (m(d := b)) (d + 1) bs a"
  proof (cases "a = d")
    case True
    have "unat (- 1 :: u32) = 2 ^ 32 - 1"
      by (simp add: unsigned_minus_1_eq_mask mask_eq_exp_minus_1)
    with True assms show ?thesis by (simp add: poke_def)
  next
    case False
    then have "unat (a - d) = Suc (unat (a - (d + 1)))"
      using unat_pred [of "a - d"] by (simp add: diff_diff_eq unat_gt_0)
    with False show ?thesis by (simp add: poke_def)
  qed
qed

lemma poke_snoc:
  assumes "Suc (length bs) \<le> 2 ^ 32"
  shows "poke m d (bs @ [b]) = poke (m(d + of_nat (length bs) := b)) d bs"
proof
  fix a
  have "unat (of_nat (length bs) :: u32) = length bs"
    using assms by (simp add: unat_of_nat)
  then have "unat (a - d) = length bs \<Longrightarrow> a - d = of_nat (length bs)"
    by (simp add: word_unat_eq_iff)
  then have eq: "a = d + of_nat (length bs) \<longleftrightarrow> unat (a - d) = length bs"
    using \<open>unat (of_nat (length bs) :: u32) = length bs\<close> by (auto simp: algebra_simps)
  show "poke m d (bs @ [b]) a = poke (m(d + of_nat (length bs) := b)) d bs a"
    using eq by (auto simp: poke_def nth_append less_Suc_eq)
qed

lemma poke_same [simp]: "poke m d (bytes_at m d n) = m"
  by (auto simp: poke_def)

lemma bytes_at_poke [simp]: "length bs \<le> 2 ^ 32 \<Longrightarrow> bytes_at (poke m d bs) d (length bs) = bs"
  by (rule nth_equalityI) auto

section \<open>Terminated strings\<close>

text \<open>
  \<open>cstr m p xs\<close>: the bytes \<open>xs\<close>, none of them NUL, stand at \<open>p\<close> and a NUL follows them.
\<close>

fun cstr :: "mem \<Rightarrow> addr \<Rightarrow> u8 list \<Rightarrow> bool" where
  "cstr m p [] = (m p = NUL)"
| "cstr m p (x # xs) = (m p = x \<and> x \<noteq> NUL \<and> cstr m (p + 1) xs)"

lemma cstr_nonzero: "cstr m p xs \<Longrightarrow> x \<in> set xs \<Longrightarrow> x \<noteq> 0"
  by (induction xs arbitrary: p) auto

lemma cstr_no_NUL: "cstr m p xs \<Longrightarrow> 0 \<notin> set xs"
  using cstr_nonzero by blast

lemma cstr_iff:
  "cstr m p xs \<longleftrightarrow>
     bytes_at m p (length xs) = xs \<and> 0 \<notin> set xs \<and> m (p + of_nat (length xs)) = 0"
  by (induction xs arbitrary: p) (auto simp: bytes_at_Suc add.assoc)

lemma cstr_nth: "cstr m p xs \<Longrightarrow> i < length xs \<Longrightarrow> m (p + of_nat i) = xs ! i"
  by (metis cstr_iff nth_bytes_at)

lemma cstr_end: "cstr m p xs \<Longrightarrow> m (p + of_nat (length xs)) = 0"
  by (simp add: cstr_iff)

lemma cstr_drop: "cstr m p xs \<Longrightarrow> n \<le> length xs \<Longrightarrow> cstr m (p + of_nat n) (drop n xs)"
proof (induction n arbitrary: p xs)
  case 0
  then show ?case by simp
next
  case (Suc n)
  then obtain x ys where "xs = x # ys" by (cases xs) auto
  with Suc.prems have "cstr m (p + 1) ys" "n \<le> length ys" by auto
  then have "cstr m (p + 1 + of_nat n) (drop n ys)" by (rule Suc.IH)
  with \<open>xs = x # ys\<close> show ?case by (simp add: ac_simps)
qed

text \<open>A terminated string is shorter than the address space: its NUL would otherwise be one
  of its own bytes.\<close>

lemma cstr_length: "cstr m p xs \<Longrightarrow> length xs < 2 ^ 32"
proof (rule ccontr)
  assume c: "cstr m p xs" and "\<not> length xs < 2 ^ 32"
  let ?j = "length xs mod 2 ^ 32"
  have "?j < length xs"
    using \<open>\<not> length xs < 2 ^ 32\<close> by (metis linorder_not_less mod_less_divisor less_le_trans zero_less_numeral zero_less_power)
  moreover have "(of_nat ?j :: u32) = of_nat (length xs)"
    by (simp add: word_of_nat_eq_iff take_bit_eq_mod)
  ultimately show False
    using c cstr_nth [OF c, of ?j] cstr_end [OF c] cstr_no_NUL [OF c] by (metis nth_mem)
qed

lemma cstr_unique: "cstr m p xs \<Longrightarrow> cstr m p ys \<Longrightarrow> xs = ys"
proof (induction xs arbitrary: p ys)
  case Nil
  then show ?case by (cases ys) auto
next
  case (Cons x xs)
  then show ?case by (cases ys) auto
qed

lemma cstr_cong:
  "(\<And>i. i \<le> length xs \<Longrightarrow> m (p + of_nat i) = m' (q + of_nat i)) \<Longrightarrow> cstr m p xs = cstr m' q xs"
  using bytes_at_cong [of "length xs" m p m' q] by (auto simp: cstr_iff)

text \<open>
  A string of the program: terminated, not at the null pointer, and not running over the end
  of the address space, so that no address inside it is null.
\<close>

definition str_at :: "mem \<Rightarrow> addr \<Rightarrow> u8 list \<Rightarrow> bool" where
  "str_at m p xs \<longleftrightarrow> cstr m p xs \<and> p \<noteq> 0 \<and> unat p + length xs < 2 ^ 32"

lemma str_at_cstr: "str_at m p xs \<Longrightarrow> cstr m p xs"
  by (simp add: str_at_def)

lemma str_at_off: "str_at m p xs \<Longrightarrow> i \<le> length xs \<Longrightarrow> unat (p + of_nat i) = unat p + i"
  by (simp add: str_at_def unat_word_ariths unat_of_nat)

lemma str_at_nonnull: "str_at m p xs \<Longrightarrow> i \<le> length xs \<Longrightarrow> p + of_nat i \<noteq> 0"
  using str_at_off [of m p xs i] by (auto simp: str_at_def unat_0_iff [symmetric])

lemma str_at_drop: "str_at m p xs \<Longrightarrow> n \<le> length xs \<Longrightarrow> str_at m (p + of_nat n) (drop n xs)"
  using cstr_drop [of m p xs n] str_at_nonnull [of m p xs n] str_at_off [of m p xs n]
  by (auto simp: str_at_def)

lemma str_at_Cons: "str_at m p (x # xs) \<Longrightarrow> m p = x \<and> x \<noteq> 0 \<and> str_at m (p + 1) xs"
  using str_at_drop [of m p "x # xs" 1] by (auto simp: str_at_def)

end
