(* ===== verification/Mv_String.thy ===== *)
theory Mv_String
  imports Mv_Prelude
begin

text \<open>
  The string and memory functions of \<^verbatim>\<open>c/rt/string.c\<close>, over the flat byte memory. Every
  function takes the memory it reads; one that writes returns the new memory beside the C
  return value. A loop with a counted bound is total; a loop that stops at a NUL is a
  \<^theory_text>\<open>partial_function (option)\<close>, and its correctness lemma shows that it returns on
  every terminated string.

  The lemmas say what each routine computes as a function of the strings (byte lists) that
  stand in memory, with the exact memory a writing routine leaves.
\<close>

section \<open>Counted loops over memory\<close>

primrec copy_up :: "nat \<Rightarrow> addr \<Rightarrow> addr \<Rightarrow> mem \<Rightarrow> mem" where
  "copy_up 0 d s m = m"
| "copy_up (Suc n) d s m = copy_up n (d + 1) (s + 1) (m(d := m s))"

primrec copy_down :: "nat \<Rightarrow> addr \<Rightarrow> addr \<Rightarrow> mem \<Rightarrow> mem" where
  "copy_down 0 d s m = m"
| "copy_down (Suc n) d s m = copy_down n (d - 1) (s - 1) (m(d - 1 := m (s - 1)))"

primrec fill_up :: "nat \<Rightarrow> addr \<Rightarrow> u8 \<Rightarrow> mem \<Rightarrow> mem" where
  "fill_up 0 d c m = m"
| "fill_up (Suc n) d c m = fill_up n (d + 1) c (m(d := c))"

definition memcpy :: "addr \<Rightarrow> addr \<Rightarrow> u32 \<Rightarrow> mem \<Rightarrow> addr \<times> mem" where
  "memcpy dst src n m = (dst, copy_up (unat n) dst src m)"

definition memmove :: "addr \<Rightarrow> addr \<Rightarrow> u32 \<Rightarrow> mem \<Rightarrow> addr \<times> mem" where
  "memmove dst src n m =
     (if dst = src \<or> n = 0 then (dst, m)
      else if dst < src then (dst, copy_up (unat n) dst src m)
      else (dst, copy_down (unat n) (dst + n) (src + n) m))"

definition memset :: "addr \<Rightarrow> int \<Rightarrow> u32 \<Rightarrow> mem \<Rightarrow> addr \<times> mem" where
  "memset dst c n m = (dst, fill_up (unat n) dst (word_of_int c) m)"

definition bzero :: "addr \<Rightarrow> u32 \<Rightarrow> mem \<Rightarrow> mem" where
  "bzero s n m = snd (memset s 0 n m)"

primrec memcmp_loop :: "nat \<Rightarrow> addr \<Rightarrow> addr \<Rightarrow> mem \<Rightarrow> int" where
  "memcmp_loop 0 p q m = 0"
| "memcmp_loop (Suc n) p q m =
     (if m p \<noteq> m q then uc (m p) - uc (m q) else memcmp_loop n (p + 1) (q + 1) m)"

definition memcmp :: "addr \<Rightarrow> addr \<Rightarrow> u32 \<Rightarrow> mem \<Rightarrow> int" where
  "memcmp a b n m = memcmp_loop (unat n) a b m"

primrec memchr_loop :: "nat \<Rightarrow> addr \<Rightarrow> u8 \<Rightarrow> mem \<Rightarrow> addr" where
  "memchr_loop 0 p c m = NULLP"
| "memchr_loop (Suc n) p c m = (if m p = c then p else memchr_loop n (p + 1) c m)"

definition memchr :: "addr \<Rightarrow> int \<Rightarrow> u32 \<Rightarrow> mem \<Rightarrow> addr" where
  "memchr s c n m = memchr_loop (unat n) s (word_of_int c) m"

section \<open>Lengths and comparisons\<close>

partial_function (option) strlen_loop :: "mem \<Rightarrow> addr \<Rightarrow> u32 \<Rightarrow> u32 option" where
  "strlen_loop m s n = (if m (s + n) \<noteq> NUL then strlen_loop m s (n + 1) else Some n)"

definition strlen :: "addr \<Rightarrow> mem \<Rightarrow> u32 option" where
  "strlen s m = strlen_loop m s 0"

partial_function (option) strcmp :: "addr \<Rightarrow> addr \<Rightarrow> mem \<Rightarrow> int option" where
  "strcmp a b m =
     (if m a \<noteq> NUL \<and> m a = m b then strcmp (a + 1) (b + 1) m
      else Some (uc (m a) - uc (m b)))"

definition strcoll :: "addr \<Rightarrow> addr \<Rightarrow> mem \<Rightarrow> int option" where
  "strcoll a b m = strcmp a b m"

primrec strncmp_loop :: "nat \<Rightarrow> addr \<Rightarrow> addr \<Rightarrow> mem \<Rightarrow> int" where
  "strncmp_loop 0 a b m = 0"
| "strncmp_loop (Suc n) a b m =
     (if m a \<noteq> NUL \<and> m a = m b then strncmp_loop n (a + 1) (b + 1) m
      else uc (m a) - uc (m b))"

definition strncmp :: "addr \<Rightarrow> addr \<Rightarrow> u32 \<Rightarrow> mem \<Rightarrow> int" where
  "strncmp a b n m = strncmp_loop (unat n) a b m"

primrec strnlen_loop :: "nat \<Rightarrow> addr \<Rightarrow> u32 \<Rightarrow> mem \<Rightarrow> u32" where
  "strnlen_loop 0 s n m = n"
| "strnlen_loop (Suc k) s n m = (if m (s + n) \<noteq> NUL then strnlen_loop k s (n + 1) m else n)"

definition strnlen :: "addr \<Rightarrow> u32 \<Rightarrow> mem \<Rightarrow> u32" where
  "strnlen s mx m = strnlen_loop (unat mx) s 0 m"

definition fold_case :: "u8 \<Rightarrow> int" where
  "fold_case c = (if sc c \<ge> 65 \<and> sc c \<le> 90 then sc c + 32 else sc c)"

partial_function (option) strcasecmp :: "addr \<Rightarrow> addr \<Rightarrow> mem \<Rightarrow> int option" where
  "strcasecmp a b m =
     (if m a \<noteq> NUL \<and> m b \<noteq> NUL then
        (if fold_case (m a) \<noteq> fold_case (m b)
         then Some (fold_case (m a) - fold_case (m b))
         else strcasecmp (a + 1) (b + 1) m)
      else Some (uc (m a) - uc (m b)))"

primrec strncasecmp_loop :: "nat \<Rightarrow> addr \<Rightarrow> addr \<Rightarrow> mem \<Rightarrow> int" where
  "strncasecmp_loop 0 a b m = 0"
| "strncasecmp_loop (Suc n) a b m =
     (if fold_case (m a) \<noteq> fold_case (m b) then fold_case (m a) - fold_case (m b)
      else if m a = NUL then 0
      else strncasecmp_loop n (a + 1) (b + 1) m)"

definition strncasecmp :: "addr \<Rightarrow> addr \<Rightarrow> u32 \<Rightarrow> mem \<Rightarrow> int" where
  "strncasecmp a b n m = strncasecmp_loop (unat n) a b m"

section \<open>Copying\<close>

definition strxfrm :: "addr \<Rightarrow> addr \<Rightarrow> u32 \<Rightarrow> mem \<Rightarrow> (u32 \<times> mem) option" where
  "strxfrm dst src n m =
     Option.bind (strlen src m) (\<lambda>len.
       (if dst \<noteq> NULLP \<and> n > 0 then
          (let copy = (if len < n - 1 then len else n - 1);
               m1 = snd (memcpy dst src copy m)
           in Some (len, m1(dst + copy := NUL)))
        else Some (len, m)))"

partial_function (option) strcpy_loop :: "addr \<Rightarrow> addr \<Rightarrow> mem \<Rightarrow> mem option" where
  "strcpy_loop d src m =
     (let m' = m(d := m src)
      in if m src \<noteq> NUL then strcpy_loop (d + 1) (src + 1) m' else Some m')"

definition strcpy :: "addr \<Rightarrow> addr \<Rightarrow> mem \<Rightarrow> (addr \<times> mem) option" where
  "strcpy dst src m = map_option (\<lambda>m'. (dst, m')) (strcpy_loop dst src m)"

primrec strncpy_loop :: "nat \<Rightarrow> addr \<Rightarrow> addr \<Rightarrow> mem \<Rightarrow> mem" where
  "strncpy_loop 0 d s m = m"
| "strncpy_loop (Suc k) d s m =
     (if m s \<noteq> NUL then strncpy_loop k (d + 1) (s + 1) (m(d := m s))
      else fill_up (Suc k) d NUL m)"

definition strncpy :: "addr \<Rightarrow> addr \<Rightarrow> u32 \<Rightarrow> mem \<Rightarrow> addr \<times> mem" where
  "strncpy dst src n m = (dst, strncpy_loop (unat n) dst src m)"

definition strcat :: "addr \<Rightarrow> addr \<Rightarrow> mem \<Rightarrow> (addr \<times> mem) option" where
  "strcat dst src m =
     Option.bind (strlen dst m) (\<lambda>n. map_option (\<lambda>r. (dst, snd r)) (strcpy (dst + n) src m))"

primrec strncat_loop :: "nat \<Rightarrow> addr \<Rightarrow> addr \<Rightarrow> mem \<Rightarrow> mem" where
  "strncat_loop 0 d src m = m(d := NUL)"
| "strncat_loop (Suc n) d src m =
     (if m src \<noteq> NUL then strncat_loop n (d + 1) (src + 1) (m(d := m src)) else m(d := NUL))"

definition strncat :: "addr \<Rightarrow> addr \<Rightarrow> u32 \<Rightarrow> mem \<Rightarrow> (addr \<times> mem) option" where
  "strncat dst src n m =
     map_option (\<lambda>len. (dst, strncat_loop (unat n) (dst + len) src m)) (strlen dst m)"

section \<open>Searching\<close>

partial_function (option) strchr_loop :: "addr \<Rightarrow> u8 \<Rightarrow> mem \<Rightarrow> addr option" where
  "strchr_loop s c m =
     (if m s = c then Some s
      else if m s = NUL then Some NULLP
      else strchr_loop (s + 1) c m)"

definition strchr :: "addr \<Rightarrow> int \<Rightarrow> mem \<Rightarrow> addr option" where
  "strchr s c m = strchr_loop s (word_of_int c) m"

partial_function (option) strrchr_loop :: "addr \<Rightarrow> u8 \<Rightarrow> addr \<Rightarrow> mem \<Rightarrow> addr option" where
  "strrchr_loop s c found m =
     (let found' = (if m s = c then s else found)
      in if m s = NUL then Some found' else strrchr_loop (s + 1) c found' m)"

definition strrchr :: "addr \<Rightarrow> int \<Rightarrow> mem \<Rightarrow> addr option" where
  "strrchr s c m = strrchr_loop s (word_of_int c) NULLP m"

partial_function (option) strstr_loop :: "addr \<Rightarrow> addr \<Rightarrow> u32 \<Rightarrow> mem \<Rightarrow> addr option" where
  "strstr_loop haystack needle n m =
     (if m haystack \<noteq> NUL then
        (if m haystack = m needle \<and> strncmp haystack needle n m = 0 then Some haystack
         else strstr_loop (haystack + 1) needle n m)
      else Some NULLP)"

definition strstr :: "addr \<Rightarrow> addr \<Rightarrow> mem \<Rightarrow> addr option" where
  "strstr haystack needle m =
     (if m needle = NUL then Some haystack
      else Option.bind (strlen needle m) (\<lambda>n. strstr_loop haystack needle n m))"

partial_function (option) span_loop :: "bool \<Rightarrow> addr \<Rightarrow> addr \<Rightarrow> u32 \<Rightarrow> mem \<Rightarrow> u32 option" where
  "span_loop want s cs n m =
     (if m (s + n) = NUL then Some n
      else Option.bind (strchr cs (sc (m (s + n))) m) (\<lambda>hit.
        if (hit \<noteq> NULLP) = want then span_loop want s cs (n + 1) m else Some n))"

definition strspn :: "addr \<Rightarrow> addr \<Rightarrow> mem \<Rightarrow> u32 option" where
  "strspn s accept m = span_loop True s accept 0 m"

definition strcspn :: "addr \<Rightarrow> addr \<Rightarrow> mem \<Rightarrow> u32 option" where
  "strcspn s reject m = span_loop False s reject 0 m"

partial_function (option) strpbrk :: "addr \<Rightarrow> addr \<Rightarrow> mem \<Rightarrow> addr option" where
  "strpbrk s accept m =
     (if m s \<noteq> NUL then
        Option.bind (strchr accept (sc (m s)) m) (\<lambda>hit.
          if hit \<noteq> NULLP then Some s else strpbrk (s + 1) accept m)
      else Some NULLP)"

section \<open>Tokens\<close>

text \<open>The caller's save pointer is passed and returned; \<open>strtok\<close> is the same with the static
  \<open>next\<close> of the source as that pointer.\<close>

definition strtok_r ::
    "addr \<Rightarrow> addr \<Rightarrow> addr \<Rightarrow> mem \<Rightarrow> (addr \<times> addr \<times> mem) option" where
  "strtok_r str delim save m =
     (let start = (if str \<noteq> NULLP then str else save)
      in if start = NULLP then Some (NULLP, start, m)
      else Option.bind (strspn start delim m) (\<lambda>k.
        let tok = start + k
        in if m tok = NUL then Some (NULLP, NULLP, m)
        else Option.bind (strcspn tok delim m) (\<lambda>l.
          let save' = tok + l
          in if m save' \<noteq> NUL then Some (tok, save' + 1, m(save' := NUL))
             else Some (tok, NULLP, m))))"

definition strtok :: "addr \<Rightarrow> addr \<Rightarrow> addr \<Rightarrow> mem \<Rightarrow> (addr \<times> addr \<times> mem) option" where
  "strtok str delim nxt m = strtok_r str delim nxt m"

section \<open>Error messages\<close>

definition error_texts :: "(int \<times> string) list" where
  "error_texts =
    [(0, ''Success''), (1, ''Operation not permitted''), (2, ''No such file or directory''),
     (3, ''No such process''), (4, ''Interrupted system call''), (5, ''Input/output error''),
     (8, ''Exec format error''), (9, ''Bad file descriptor''), (10, ''No child processes''),
     (11, ''Resource temporarily unavailable''), (12, ''Cannot allocate memory''),
     (13, ''Permission denied''), (14, ''Bad address''), (17, ''File exists''),
     (20, ''Not a directory''), (21, ''Is a directory''), (22, ''Invalid argument''),
     (23, ''Too many open files in system''), (24, ''Too many open files''),
     (25, ''Inappropriate ioctl for device''), (27, ''File too large''),
     (28, ''No space left on device''), (29, ''Illegal seek''),
     (30, ''Read-only file system''), (32, ''Broken pipe''),
     (34, ''Numerical result out of range''), (38, ''Function not implemented'')]"

definition digit_char :: "int \<Rightarrow> u8" where
  "digit_char d = word_of_int (48 + d)"

definition strerror :: "int \<Rightarrow> u8 list" where
  "strerror errnum =
     (case map_of error_texts errnum of
        Some text \<Rightarrow> bytes text
      | None \<Rightarrow> bytes ''Unknown error '' @
          [digit_char (cmod (cdiv errnum 100) 10), digit_char (cmod (cdiv errnum 10) 10),
           digit_char (cmod errnum 10)])"

section \<open>What the memory routines leave\<close>

lemma off_ne:
  assumes "Suc n \<le> unat (d - s :: u32)" "i < n"
  shows "s + 1 + of_nat i \<noteq> d"
proof
  assume "s + 1 + of_nat i = d"
  then have "d - s = of_nat (Suc i)" by (auto simp: algebra_simps)
  then have "unat (d - s) \<le> Suc i" by (metis unat_of_nat_le)
  with assms show False by simp
qed

lemma copy_up_poke:
  "n \<le> 2 ^ 32 \<Longrightarrow> d = s \<or> n \<le> unat (d - s) \<Longrightarrow>
     copy_up n d s m = poke m d (bytes_at m s n)"
proof (induction n arbitrary: d s m)
  case 0
  then show ?case by simp
next
  case (Suc n)
  let ?m = "m(d := m s)"
  have same: "bytes_at ?m (s + 1) n = bytes_at m (s + 1) n"
  proof (cases "d = s")
    case True
    then show ?thesis by simp
  next
    case False
    with Suc.prems(2) have "s + 1 + of_nat i \<noteq> d" if "i < n" for i
      using off_ne that by blast
    then show ?thesis by (auto intro: bytes_at_cong)
  qed
  have "copy_up n (d + 1) (s + 1) ?m = poke ?m (d + 1) (bytes_at ?m (s + 1) n)"
    by (rule Suc.IH) (use Suc.prems in auto)
  with same Suc.prems(1) show ?case
    by (simp add: bytes_at_Suc poke_Cons)
qed

lemma off_ne_down:
  assumes "Suc n \<le> unat (s - d :: u32)" "i < n"
  shows "s - 1 - of_nat n + of_nat i \<noteq> d - 1"
proof
  assume "s - 1 - of_nat n + of_nat i = d - 1"
  then have "s - d = of_nat n - of_nat i" by (auto simp: algebra_simps)
  also have "\<dots> = of_nat (n - i)" using assms(2) by (simp add: of_nat_diff)
  finally have "unat (s - d) \<le> n - i" by (metis unat_of_nat_le)
  with assms show False by simp
qed

lemma copy_down_poke:
  "n \<le> 2 ^ 32 \<Longrightarrow> d = s \<or> n \<le> unat (s - d) \<Longrightarrow>
     copy_down n d s m = poke m (d - of_nat n) (bytes_at m (s - of_nat n) n)"
proof (induction n arbitrary: d s m)
  case 0
  then show ?case by simp
next
  case (Suc n)
  let ?m = "m(d - 1 := m (s - 1))"
  have same: "bytes_at ?m (s - 1 - of_nat n) n = bytes_at m (s - 1 - of_nat n) n"
  proof (cases "d = s")
    case True
    then show ?thesis by simp
  next
    case False
    with Suc.prems(2) have "s - 1 - of_nat n + of_nat i \<noteq> d - 1" if "i < n" for i
      using off_ne_down that by blast
    then show ?thesis by (auto intro: bytes_at_cong)
  qed
  have "copy_down n (d - 1) (s - 1) ?m =
      poke ?m (d - 1 - of_nat n) (bytes_at ?m (s - 1 - of_nat n) n)"
    by (rule Suc.IH) (use Suc.prems in auto)
  moreover have eqs: "s - of_nat (Suc n) = s - 1 - of_nat n" "d - of_nat (Suc n) = d - 1 - of_nat n"
    by (simp_all add: algebra_simps)
  moreover have "bytes_at m (s - 1 - of_nat n) (Suc n) =
      bytes_at m (s - 1 - of_nat n) n @ [m (s - 1)]"
    by (simp add: bytes_at_snoc)
  ultimately show ?case
    unfolding eqs using same Suc.prems(1) by (simp add: poke_snoc)
qed

lemma fill_up_poke: "n \<le> 2 ^ 32 \<Longrightarrow> fill_up n d c m = poke m d (replicate n c)"
  by (induction n arbitrary: d m) (simp_all add: poke_Cons)

text \<open>Forward copying is right whenever the destination does not start inside the source.\<close>

lemma memcpy_poke [str_specs]:
  "d = s \<or> unat n \<le> unat (d - s) \<Longrightarrow> memcpy d s n m = (d, poke m d (bytes_at m s (unat n)))"
  by (simp add: memcpy_def copy_up_poke)

lemma memset_poke [str_specs]:
  "memset d c n m = (d, poke m d (replicate (unat n) (word_of_int c)))"
  by (simp add: memset_def fill_up_poke)

lemma memmove_poke [str_specs]:
  assumes "unat d + unat n \<le> 2 ^ 32" "unat s + unat n \<le> 2 ^ 32"
  shows "memmove d s n m = (d, poke m d (bytes_at m s (unat n)))"
proof -
  consider "d = s \<or> n = 0" | "d \<noteq> s" "n \<noteq> 0" "d < s" | "d \<noteq> s" "n \<noteq> 0" "s < d"
    by (meson linorder_less_linear)
  then show ?thesis
  proof cases
    case 1
    then show ?thesis by (auto simp: memmove_def)
  next
    case 2
    then have "unat n \<le> unat (d - s)"
      using assms by (simp add: unat_diff_gt word_less_nat_alt)
    with 2 show ?thesis by (simp add: memmove_def copy_up_poke)
  next
    case 3
    then have "unat n \<le> unat (s + n - (d + n))"
      using assms by (simp add: unat_diff_gt word_less_nat_alt)
    with 3 have "copy_down (unat n) (d + n) (s + n) m = poke m d (bytes_at m s (unat n))"
      by (simp add: copy_down_poke)
    with 3 show ?thesis by (auto simp: memmove_def)
  qed
qed

section \<open>What the comparisons compute\<close>

text \<open>The reference comparison of two strings as byte lists: the difference of the first bytes
  that differ, with a NUL behind each list.\<close>

fun byte_cmp :: "u8 list \<Rightarrow> u8 list \<Rightarrow> int" where
  "byte_cmp [] [] = 0"
| "byte_cmp [] (y # ys) = - uc y"
| "byte_cmp (x # xs) [] = uc x"
| "byte_cmp (x # xs) (y # ys) = (if x = y then byte_cmp xs ys else uc x - uc y)"

lemma byte_cmp_refl [simp]: "byte_cmp xs xs = 0"
  by (induction xs) auto

lemma byte_cmp_eq_0: "0 \<notin> set xs \<Longrightarrow> 0 \<notin> set ys \<Longrightarrow> byte_cmp xs ys = 0 \<longleftrightarrow> xs = ys"
  by (induction xs ys rule: byte_cmp.induct) auto

lemma byte_cmp_antisym: "byte_cmp ys xs = - byte_cmp xs ys"
  by (induction xs ys rule: byte_cmp.induct) auto

lemma uc_less: "uc x < uc y \<longleftrightarrow> x < y"
  by (simp add: uc_def word_less_def)

lemma byte_cmp_less:
  "0 \<notin> set xs \<Longrightarrow> 0 \<notin> set ys \<Longrightarrow>
     byte_cmp xs ys < 0 \<longleftrightarrow> (xs, ys) \<in> lexord {(x, y). x < y}"
  by (induction xs ys rule: byte_cmp.induct) (use uc_range in \<open>auto simp: uc_less not_less\<close>)

lemma strlen_loop_spec: "cstr m (s + n) xs \<Longrightarrow> strlen_loop m s n = Some (n + of_nat (length xs))"
proof (induction xs arbitrary: n)
  case Nil
  then show ?case by (simp add: strlen_loop.simps [of m s n])
next
  case (Cons x xs)
  then have "cstr m (s + (n + 1)) xs" by (simp add: add.assoc)
  with Cons show ?case by (simp add: strlen_loop.simps [of m s n] algebra_simps)
qed

lemma strlen_spec [str_specs]: "cstr m s xs \<Longrightarrow> strlen s m = Some (of_nat (length xs))"
  using strlen_loop_spec [of m s 0 xs] by (simp add: strlen_def)

lemma strcmp_spec [str_specs]:
  "cstr m a xs \<Longrightarrow> cstr m b ys \<Longrightarrow> strcmp a b m = Some (byte_cmp xs ys)"
proof (induction xs ys arbitrary: a b rule: byte_cmp.induct)
  case 1
  then show ?case by (simp add: strcmp.simps [of a b m])
next
  case 2
  then show ?case by (simp add: strcmp.simps [of a b m])
next
  case 3
  then show ?case by (auto simp add: strcmp.simps [of a b m])
next
  case 4
  then show ?case by (auto simp add: strcmp.simps [of a b m])
qed

lemma strncmp_loop_spec:
  "cstr m a xs \<Longrightarrow> cstr m b ys \<Longrightarrow> strncmp_loop n a b m = byte_cmp (take n xs) (take n ys)"
proof (induction n arbitrary: a b xs ys)
  case 0
  then show ?case by simp
next
  case (Suc n)
  then show ?case by (cases xs; cases ys) auto
qed

lemma strncmp_spec [str_specs]:
  "cstr m a xs \<Longrightarrow> cstr m b ys \<Longrightarrow>
     strncmp a b n m = byte_cmp (take (unat n) xs) (take (unat n) ys)"
  by (simp add: strncmp_def strncmp_loop_spec)

lemma strnlen_loop_spec:
  "cstr m (s + n) xs \<Longrightarrow> strnlen_loop k s n m = n + of_nat (min k (length xs))"
proof (induction k arbitrary: n xs)
  case 0
  then show ?case by simp
next
  case (Suc k)
  show ?case
  proof (cases xs)
    case Nil
    with Suc.prems show ?thesis by simp
  next
    case (Cons x ys)
    with Suc.prems have "cstr m (s + (n + 1)) ys" by (simp add: add.assoc)
    from Suc.IH [OF this] Suc.prems Cons show ?thesis by simp
  qed
qed

lemma strnlen_spec [str_specs]:
  "cstr m s xs \<Longrightarrow> strnlen s n m = of_nat (min (unat n) (length xs))"
  using strnlen_loop_spec [of m s 0 xs "unat n"] by (simp add: strnlen_def)

fun case_cmp :: "u8 list \<Rightarrow> u8 list \<Rightarrow> int" where
  "case_cmp [] [] = 0"
| "case_cmp [] (y # ys) = - uc y"
| "case_cmp (x # xs) [] = uc x"
| "case_cmp (x # xs) (y # ys) =
     (if fold_case x = fold_case y then case_cmp xs ys else fold_case x - fold_case y)"

lemma strcasecmp_spec [str_specs]:
  "cstr m a xs \<Longrightarrow> cstr m b ys \<Longrightarrow> strcasecmp a b m = Some (case_cmp xs ys)"
proof (induction xs ys arbitrary: a b rule: case_cmp.induct)
  case 1
  then show ?case by (simp add: strcasecmp.simps [of a b m])
next
  case 2
  then show ?case by (simp add: strcasecmp.simps [of a b m])
next
  case 3
  then show ?case by (simp add: strcasecmp.simps [of a b m])
next
  case 4
  then show ?case by (auto simp add: strcasecmp.simps [of a b m])
qed

lemma case_cmp_eq_0:
  "0 \<notin> set xs \<Longrightarrow> 0 \<notin> set ys \<Longrightarrow>
     case_cmp xs ys = 0 \<longleftrightarrow> map fold_case xs = map fold_case ys"
  by (induction xs ys rule: case_cmp.induct) auto

section \<open>What the copying routines leave\<close>

lemma cstr_upd:
  assumes "cstr m s (x # xs)" "d = s \<or> Suc (length (x # xs)) \<le> unat (d - s)"
  shows "cstr (m(d := m s)) (s + 1) xs"
proof (cases "d = s")
  case True
  then have eq: "m(d := m s) = m" by auto
  show ?thesis unfolding eq using assms(1) by simp
next
  case False
  with assms(2) have "s + 1 + of_nat i \<noteq> d" if "i \<le> length xs" for i
    using off_ne [of "Suc (length xs)" d s i] that by simp
  then have "cstr (m(d := m s)) (s + 1) xs = cstr m (s + 1) xs"
    by (intro cstr_cong) auto
  with assms show ?thesis by simp
qed

lemma strcpy_loop_spec:
  "cstr m s xs \<Longrightarrow> d = s \<or> Suc (length xs) \<le> unat (d - s) \<Longrightarrow>
     strcpy_loop d s m = Some (copy_up (Suc (length xs)) d s m)"
proof (induction xs arbitrary: d s m)
  case Nil
  then show ?case by (auto simp: strcpy_loop.simps [of d s m] fun_eq_iff)
next
  case (Cons x xs)
  let ?m = "m(d := m s)"
  from Cons.prems have "cstr ?m (s + 1) xs" by (rule cstr_upd)
  then have "strcpy_loop (d + 1) (s + 1) ?m = Some (copy_up (Suc (length xs)) (d + 1) (s + 1) ?m)"
    by (rule Cons.IH) (use Cons.prems in auto)
  with Cons.prems show ?case by (simp add: strcpy_loop.simps [of d s m])
qed

lemma cstr_bytes_at: "cstr m s xs \<Longrightarrow> bytes_at m s (Suc (length xs)) = xs @ [0]"
  by (simp add: bytes_at_snoc cstr_iff)

lemma strcpy_spec [str_specs]:
  assumes "cstr m s xs" "d = s \<or> Suc (length xs) \<le> unat (d - s)"
  shows "strcpy d s m = Some (d, poke m d (xs @ [0]))"
  using assms cstr_length [OF assms(1)] cstr_bytes_at [OF assms(1)]
  by (simp add: strcpy_def strcpy_loop_spec copy_up_poke del: copy_up.simps)

lemma strcat_spec [str_specs]:
  assumes "cstr m d xs" "cstr m s ys" "Suc (length ys) \<le> unat (d + of_nat (length xs) - s)"
  shows "strcat d s m = Some (d, poke m (d + of_nat (length xs)) (ys @ [0]))"
  using assms by (simp add: strcat_def strlen_spec strcpy_spec)

lemma strncpy_loop_spec:
  "cstr m s xs \<Longrightarrow> d = s \<or> Suc (length xs) \<le> unat (d - s) \<Longrightarrow> n \<le> 2 ^ 32 \<Longrightarrow>
     strncpy_loop n d s m = poke m d (take n xs @ replicate (n - length xs) 0)"
proof (induction n arbitrary: d s m xs)
  case 0
  then show ?case by simp
next
  case (Suc n)
  show ?case
  proof (cases xs)
    case Nil
    with Suc.prems show ?thesis by (simp add: fill_up_poke del: fill_up.simps replicate_Suc)
  next
    case (Cons x ys)
    with Suc.prems have "cstr (m(d := m s)) (s + 1) ys" by (metis cstr_upd)
    then have "strncpy_loop n (d + 1) (s + 1) (m(d := m s)) =
        poke (m(d := m s)) (d + 1) (take n ys @ replicate (n - length ys) 0)"
      by (rule Suc.IH) (use Suc.prems Cons in auto)
    with Suc.prems Cons show ?thesis by (simp add: poke_Cons)
  qed
qed

lemma strncpy_spec [str_specs]:
  "cstr m s xs \<Longrightarrow> d = s \<or> Suc (length xs) \<le> unat (d - s) \<Longrightarrow>
     strncpy d s n m = (d, poke m d (take (unat n) xs @ replicate (unat n - length xs) 0))"
  by (simp add: strncpy_def strncpy_loop_spec)

lemma strncat_loop_spec:
  "cstr m s ys \<Longrightarrow> Suc (length ys) \<le> unat (d - s) \<Longrightarrow>
     strncat_loop n d s m = poke m d (take n ys @ [0])"
proof (induction n arbitrary: d s m ys)
  case 0
  then show ?case by (simp add: poke_Cons)
next
  case (Suc n)
  show ?case
  proof (cases ys)
    case Nil
    with Suc.prems show ?thesis by (simp add: poke_Cons)
  next
    case (Cons y zs)
    with Suc.prems have "cstr (m(d := m s)) (s + 1) zs" by (metis cstr_upd)
    then have "strncat_loop n (d + 1) (s + 1) (m(d := m s)) =
        poke (m(d := m s)) (d + 1) (take n zs @ [0])"
      by (rule Suc.IH) (use Suc.prems Cons in auto)
    moreover have "length ys < 2 ^ 32" using Suc.prems(1) by (rule cstr_length)
    ultimately show ?thesis using Suc.prems Cons by (simp add: poke_Cons)
  qed
qed

lemma strncat_spec [str_specs]:
  assumes "cstr m d xs" "cstr m s ys" "Suc (length ys) \<le> unat (d + of_nat (length xs) - s)"
  shows "strncat d s n m = Some (d, poke m (d + of_nat (length xs)) (take (unat n) ys @ [0]))"
  using assms by (simp add: strncat_def strlen_spec strncat_loop_spec)

section \<open>What the searches find\<close>

lemma strchr_loop_spec:
  "cstr m s xs \<Longrightarrow>
     strchr_loop s c m =
       Some (if c = 0 then s + of_nat (length xs)
             else if c \<in> set xs then s + of_nat (length (takeWhile (\<lambda>x. x \<noteq> c) xs))
             else 0)"
proof (induction xs arbitrary: s)
  case Nil
  then show ?case by (simp add: strchr_loop.simps [of s c m])
next
  case (Cons x xs)
  then show ?case by (auto simp: strchr_loop.simps [of s c m] ac_simps)
qed

lemma word_of_int_sc [simp]: "word_of_int (sc b) = b"
  by (simp add: sc_def)

lemma strchr_hit:
  assumes "str_at m s ys" "b \<noteq> 0"
  shows "\<exists>p. strchr s (sc b) m = Some p \<and> (p \<noteq> 0 \<longleftrightarrow> b \<in> set ys)"
proof -
  have "length (takeWhile (\<lambda>x. x \<noteq> b) ys) \<le> length ys" by (rule length_takeWhile_le)
  then have "s + of_nat (length (takeWhile (\<lambda>x. x \<noteq> b) ys)) \<noteq> 0"
    using assms(1) str_at_nonnull by blast
  with assms show ?thesis
    by (simp add: strchr_def strchr_loop_spec [OF str_at_cstr [OF assms(1)]])
qed

lemma strrchr_loop_spec:
  "cstr m s xs \<Longrightarrow> c \<noteq> 0 \<Longrightarrow>
     (c \<notin> set xs \<longrightarrow> strrchr_loop s c found m = Some found) \<and>
     (\<forall>pre post. xs = pre @ c # post \<longrightarrow> c \<notin> set post \<longrightarrow>
        strrchr_loop s c found m = Some (s + of_nat (length pre)))"
proof (induction xs arbitrary: s found)
  case Nil
  then show ?case by (simp add: strrchr_loop.simps [of s c found m])
next
  case (Cons x xs)
  let ?f = "if m s = c then s else found"
  from Cons.prems have unf: "strrchr_loop s c found m = strrchr_loop (s + 1) c ?f m"
    by (simp add: strrchr_loop.simps [of s c found m])
  have IH: "(c \<notin> set xs \<longrightarrow> strrchr_loop (s + 1) c ?f m = Some ?f) \<and>
     (\<forall>pre post. xs = pre @ c # post \<longrightarrow> c \<notin> set post \<longrightarrow>
        strrchr_loop (s + 1) c ?f m = Some (s + 1 + of_nat (length pre)))"
    by (rule Cons.IH) (use Cons.prems in auto)
  have "strrchr_loop s c found m = Some (s + of_nat (length pre))"
    if "x # xs = pre @ c # post" "c \<notin> set post" for pre post
    using that IH unf Cons.prems by (cases pre) (auto simp: ac_simps)
  with IH unf Cons.prems show ?case by auto
qed

lemma span_loop_spec:
  "str_at m cs ys \<Longrightarrow> cstr m (s + n) xs \<Longrightarrow>
     span_loop w s cs n m =
       Some (n + of_nat (length (takeWhile (\<lambda>x. (x \<in> set ys) = w) xs)))"
proof (induction xs arbitrary: n)
  case Nil
  then show ?case by (simp add: span_loop.simps [of w s cs n m])
next
  case (Cons x xs)
  then have next_pos: "cstr m (s + (n + 1)) xs" by (simp add: add.assoc)
  from Cons.prems obtain p where "strchr cs (sc x) m = Some p" "p \<noteq> 0 \<longleftrightarrow> x \<in> set ys"
    using strchr_hit [of m cs ys x] by auto
  with Cons.prems Cons.IH [OF Cons.prems(1) next_pos] show ?case
    by (auto simp: span_loop.simps [of w s cs n m] ac_simps)
qed

lemma strspn_spec [str_specs]:
  "str_at m cs ys \<Longrightarrow> cstr m s xs \<Longrightarrow>
     strspn s cs m = Some (of_nat (length (takeWhile (\<lambda>x. x \<in> set ys) xs)))"
  using span_loop_spec [of m cs ys s 0 xs True] by (simp add: strspn_def)

lemma strcspn_spec [str_specs]:
  "str_at m cs ys \<Longrightarrow> cstr m s xs \<Longrightarrow>
     strcspn s cs m = Some (of_nat (length (takeWhile (\<lambda>x. x \<notin> set ys) xs)))"
  using span_loop_spec [of m cs ys s 0 xs False] by (simp add: strcspn_def)

lemma strpbrk_spec [str_specs]:
  "str_at m cs ys \<Longrightarrow> cstr m s xs \<Longrightarrow>
     strpbrk s cs m =
       Some (if set xs \<inter> set ys \<noteq> {} then s + of_nat (length (takeWhile (\<lambda>x. x \<notin> set ys) xs))
             else 0)"
proof (induction xs arbitrary: s)
  case Nil
  then show ?case by (simp add: strpbrk.simps [of s cs m])
next
  case (Cons x xs)
  from Cons.prems obtain p where "strchr cs (sc x) m = Some p" "p \<noteq> 0 \<longleftrightarrow> x \<in> set ys"
    using strchr_hit [of m cs ys x] by auto
  with Cons show ?case
    by (auto simp: strpbrk.simps [of s cs m] ac_simps)
qed

text \<open>\<open>strstr\<close> finds the first place where the needle stands, and null when there is none.\<close>

definition occurs :: "u8 list \<Rightarrow> u8 list \<Rightarrow> nat \<Rightarrow> bool" where
  "occurs ys xs i \<longleftrightarrow> take (length ys) (drop i xs) = ys"

lemma occurs_Cons_0: "ys \<noteq> [] \<Longrightarrow> occurs ys (x # xs) 0 \<Longrightarrow> x = hd ys"
  by (cases ys) (auto simp: occurs_def)

lemma occurs_Suc: "occurs ys (x # xs) (Suc i) = occurs ys xs i"
  by (simp add: occurs_def)

lemma strncmp_occurs:
  "cstr m h xs \<Longrightarrow> cstr m p ys \<Longrightarrow>
     strncmp h p (of_nat (length ys)) m = 0 \<longleftrightarrow> occurs ys xs 0"
  using byte_cmp_eq_0 [of "take (length ys) xs" ys] cstr_no_NUL [of m h xs] cstr_no_NUL [of m p ys]
    cstr_length [of m p ys] in_set_takeD [of 0 "length ys" xs]
  by (auto simp: strncmp_spec occurs_def unat_of_nat)

lemma strstr_loop_spec:
  "cstr m h xs \<Longrightarrow> cstr m p ys \<Longrightarrow> ys \<noteq> [] \<Longrightarrow>
     (\<exists>i. occurs ys xs i \<and> (\<forall>j < i. \<not> occurs ys xs j) \<and>
        strstr_loop h p (of_nat (length ys)) m = Some (h + of_nat i)) \<or>
     ((\<forall>i. \<not> occurs ys xs i) \<and> strstr_loop h p (of_nat (length ys)) m = Some 0)"
proof (induction xs arbitrary: h)
  case Nil
  then show ?case by (auto simp: strstr_loop.simps [of h p _ m] occurs_def)
next
  case (Cons x xs)
  let ?n = "of_nat (length ys)"
  have here: "strncmp h p ?n m = 0 \<longleftrightarrow> occurs ys (x # xs) 0"
    using Cons.prems by (intro strncmp_occurs)
  have first: "m p = hd ys" using Cons.prems by (cases ys) auto
  show ?case
  proof (cases "occurs ys (x # xs) 0")
    case True
    with Cons.prems here first have "strstr_loop h p ?n m = Some (h + of_nat 0)"
      by (auto simp: strstr_loop.simps [of h p _ m] dest: occurs_Cons_0)
    with True show ?thesis by blast
  next
    case False
    with Cons.prems here have unf: "strstr_loop h p ?n m = strstr_loop (h + 1) p ?n m"
      by (auto simp: strstr_loop.simps [of h p _ m])
    have "cstr m (h + 1) xs" using Cons.prems by simp
    from Cons.IH [OF this Cons.prems(2,3)] show ?thesis
    proof (elim disjE exE conjE)
      fix i assume i: "occurs ys xs i" "\<forall>j < i. \<not> occurs ys xs j"
        "strstr_loop (h + 1) p ?n m = Some (h + 1 + of_nat i)"
      have "\<forall>j < Suc i. \<not> occurs ys (x # xs) j"
        using False i(2) by (simp add: All_less_Suc2 occurs_Suc)
      with i unf show ?thesis by (auto simp: occurs_Suc ac_simps intro!: exI [of _ "Suc i"])
    next
      assume none: "\<forall>i. \<not> occurs ys xs i" "strstr_loop (h + 1) p ?n m = Some 0"
      have "\<not> occurs ys (x # xs) i" for i
        using False none(1) by (cases i) (simp_all add: occurs_Suc)
      with none unf show ?thesis by simp
    qed
  qed
qed

lemma strstr_spec:
  assumes "cstr m h xs" "cstr m p ys"
  shows "(\<exists>i. occurs ys xs i \<and> (\<forall>j < i. \<not> occurs ys xs j) \<and> strstr h p m = Some (h + of_nat i)) \<or>
     ((\<forall>i. \<not> occurs ys xs i) \<and> strstr h p m = Some 0)"
proof (cases ys)
  case Nil
  with assms have "occurs ys xs 0" "strstr h p m = Some (h + of_nat 0)"
    by (simp_all add: occurs_def strstr_def)
  then show ?thesis by blast
next
  case (Cons y zs)
  with assms have "strstr h p m = strstr_loop h p (of_nat (length ys)) m"
    using strlen_spec [OF assms(2)] by (auto simp: strstr_def)
  with strstr_loop_spec [OF assms] Cons show ?thesis by simp
qed

section \<open>Tokens\<close>

text \<open>
  One call takes the first token of the string it is given: it skips the delimiters, ends the
  token with a NUL and leaves the save pointer behind it.
\<close>

lemma strtok_r_none:
  assumes "str_at m s xs" "str_at m dl ds" "set xs \<subseteq> set ds"
  shows "strtok_r s dl save m = Some (0, 0, m)"
proof -
  have "takeWhile (\<lambda>x. x \<in> set ds) xs = xs" using assms(3) by (auto simp: takeWhile_eq_all_conv)
  with assms strspn_spec [OF assms(2) str_at_cstr [OF assms(1)]] cstr_end [OF str_at_cstr [OF assms(1)]]
  show ?thesis by (simp add: strtok_r_def str_at_def)
qed

lemma strtok_r_token:
  assumes s: "str_at m s xs" and d: "str_at m dl ds"
    and tok: "xs = sep @ t @ rest" "set sep \<subseteq> set ds" "set t \<inter> set ds = {}" "t \<noteq> []"
    and rest: "rest = [] \<or> hd rest \<in> set ds"
  shows "strtok_r s dl save m =
     (let p = s + of_nat (length sep); q = p + of_nat (length t)
      in if rest = [] then Some (p, 0, m) else Some (p, q + 1, m(q := 0)))"
proof -
  have tw1: "takeWhile (\<lambda>x. x \<in> set ds) xs = sep"
    using tok by (cases t) (auto simp: takeWhile_append)
  have tw2: "takeWhile (\<lambda>x. x \<notin> set ds) (t @ rest) = t"
    using tok(3) rest by (cases rest) (auto simp: takeWhile_append)
  have c1: "cstr m (s + of_nat (length sep)) (t @ rest)"
    using cstr_drop [OF str_at_cstr [OF s], of "length sep"] tok(1) by simp
  have c2: "cstr m (s + of_nat (length sep) + of_nat (length t)) rest"
    using cstr_drop [OF c1, of "length t"] by simp
  have ne: "m (s + of_nat (length sep)) \<noteq> 0"
    using c1 tok(4) by (cases t) auto
  have "m (s + of_nat (length sep) + of_nat (length t)) = 0 \<longleftrightarrow> rest = []"
    using c2 by (cases rest) auto
  then show ?thesis
    using s ne strspn_spec [OF d str_at_cstr [OF s]] strcspn_spec [OF d c1]
    by (simp add: strtok_r_def str_at_def tw1 tw2 Let_def)
qed

section \<open>Properties\<close>

text \<open>A memory holding one string at 0x1000 and another at 0x2000, to apply the properties to.\<close>

definition two_strings :: "string \<Rightarrow> string \<Rightarrow> mem" where
  "two_strings a b = poke (poke (\<lambda>_. 0) 0x1000 (bytes a)) 0x2000 (bytes b)"

text \<open>C8: \<open>memmove\<close> leaves in the destination the bytes the source held before the call and changes
  nothing else, also when the two regions overlap; it returns the destination.\<close>

theorem memmove_correct:
  assumes "unat d + unat n \<le> 2 ^ 32" "unat s + unat n \<le> 2 ^ 32"
  shows "fst (memmove d s n m) = d \<and>
     bytes_at (snd (memmove d s n m)) d (unat n) = bytes_at m s (unat n) \<and>
     (\<forall>a. unat n \<le> unat (a - d) \<longrightarrow> snd (memmove d s n m) a = m a)"
proof -
  have "bytes_at (poke m d (bytes_at m s (unat n))) d (length (bytes_at m s (unat n))) = bytes_at m s (unat n)"
    by (rule bytes_at_poke) simp
  then show ?thesis using memmove_poke [OF assms] by (simp add: poke_outside)
qed

theorem memmove_correct_witness:
  "bytes_at (snd (memmove 0x1002 0x1000 4 (two_strings ''abcdef'' ''''))) 0x1002 4 = bytes ''abcd''"
proof -
  have "bytes_at (two_strings ''abcdef'' '''') 0x1000 4 = bytes ''abcd''"
    by (simp add: two_strings_def poke_def bytes_at_def upt_rec)
  then show ?thesis
    using memmove_correct [of "0x1002" 4 "0x1000" "two_strings ''abcdef'' ''''"] by simp
qed

text \<open>\<open>strcmp\<close> on terminated strings returns, and its result is zero for equal strings, negative
  when the first comes first in the lexicographic order of unsigned bytes, positive otherwise.\<close>

theorem strcmp_correct:
  assumes "cstr m a xs" "cstr m b ys"
  shows "\<exists>r. strcmp a b m = Some r \<and> (r = 0 \<longleftrightarrow> xs = ys) \<and>
     (r < 0 \<longleftrightarrow> (xs, ys) \<in> lexord {(x, y). x < y}) \<and> (r > 0 \<longleftrightarrow> (ys, xs) \<in> lexord {(x, y). x < y})"
proof -
  have nz: "0 \<notin> set xs" "0 \<notin> set ys" using assms cstr_no_NUL by auto
  have "byte_cmp xs ys > 0 \<longleftrightarrow> byte_cmp ys xs < 0" using byte_cmp_antisym [of ys xs] by auto
  then show ?thesis
    using strcmp_spec [OF assms] byte_cmp_eq_0 [OF nz] byte_cmp_less [OF nz] byte_cmp_less [OF nz(2,1)]
    by simp
qed

lemma two_strings_cstr:
  "cstr (two_strings ''abcab'' ''ab'') 0x1000 (bytes ''abcab'')"
  "cstr (two_strings ''abcab'' ''ab'') 0x2000 (bytes ''ab'')"
  by (simp_all add: two_strings_def poke_def)

theorem strcmp_correct_witness:
  "\<exists>r. strcmp 0x1000 0x2000 (two_strings ''abcab'' ''ab'') = Some r \<and> r > 0"
proof -
  have "(bytes ''ab'', bytes ''abcab'') \<in> lexord {(x, y). x < y}" by simp
  then show ?thesis using strcmp_correct [OF two_strings_cstr] by auto
qed

text \<open>\<open>strstr\<close> on terminated strings returns the address of the first occurrence of the needle in
  the haystack, and the null pointer when there is none.\<close>

theorem strstr_correct:
  assumes "cstr m h xs" "cstr m p ys"
  shows "(\<exists>i. occurs ys xs i \<and> (\<forall>j < i. \<not> occurs ys xs j) \<and> strstr h p m = Some (h + of_nat i)) \<or>
     ((\<forall>i. \<not> occurs ys xs i) \<and> strstr h p m = Some 0)"
  using assms by (rule strstr_spec)

theorem strstr_correct_witness:
  "strstr 0x1000 0x2000 (two_strings ''abcab'' ''ab'') = Some 0x1000"
proof -
  have "occurs (bytes ''ab'') (bytes ''abcab'') 0" by (simp add: occurs_def)
  then obtain i where "\<forall>j < i. \<not> occurs (bytes ''ab'') (bytes ''abcab'') j"
      "strstr 0x1000 0x2000 (two_strings ''abcab'' ''ab'') = Some (0x1000 + of_nat i)"
    using strstr_correct [OF two_strings_cstr] by blast
  with \<open>occurs (bytes ''ab'') (bytes ''abcab'') 0\<close> have "i = 0" by blast
  with \<open>strstr _ _ _ = _\<close> show ?thesis by simp
qed

lemma str_cut:
  assumes c: "cstr m s xs" and k: "k < length xs"
  shows "cstr (m(s + of_nat k := 0)) s (take k xs)"
    "cstr (m(s + of_nat k := 0)) (s + of_nat (Suc k)) (drop (Suc k) xs)"
proof -
  have len: "length xs < 2 ^ 32" using cstr_length [OF c] .
  have ne: "s + of_nat i \<noteq> s + of_nat k" if "i \<le> length xs" "i \<noteq> k" for i
    using off_inj [of i k s] that k len by simp
  have "bytes_at (m(s + of_nat k := 0)) s k = take k xs"
    using ne k cstr_nth [OF c] by (intro nth_equalityI) (auto simp: min_def)
  then show "cstr (m(s + of_nat k := 0)) s (take k xs)"
    using k cstr_no_NUL [OF c] by (auto simp: cstr_iff min_def dest: in_set_takeD)
  have "cstr m (s + of_nat (Suc k)) (drop (Suc k) xs)" using cstr_drop [OF c, of "Suc k"] k by simp
  then show "cstr (m(s + of_nat k := 0)) (s + of_nat (Suc k)) (drop (Suc k) xs)"
  proof (subst cstr_cong [where m' = m and q = "s + of_nat (Suc k)"])
    fix i assume "i \<le> length (drop (Suc k) xs)"
    then have "s + of_nat (Suc k + i) \<noteq> s + of_nat k" using k by (intro ne) auto
    then show "(m(s + of_nat k := 0)) (s + of_nat (Suc k) + of_nat i) = m (s + of_nat (Suc k) + of_nat i)"
      by (simp add: ac_simps)
  qed
qed

text \<open>one call of \<open>strtok_r\<close> on a string that starts with separators \<open>sep\<close> followed by a maximal
  token \<open>t\<close> returns the token's address, ends the token with a NUL in place of the separator
  behind it, and leaves the rest of the string to the next call; it changes no other byte.\<close>

theorem strtok_r_correct:
  assumes "str_at m s xs" "str_at m dl ds" "xs = sep @ t @ rest" "set sep \<subseteq> set ds"
    "set t \<inter> set ds = {}" "t \<noteq> []" "rest = [] \<or> hd rest \<in> set ds"
  shows "\<exists>save' m'. strtok_r s dl save m = Some (s + of_nat (length sep), save', m') \<and>
     cstr m' (s + of_nat (length sep)) t \<and>
     (if rest = [] then save' = 0 \<and> m' = m
      else save' = s + of_nat (length sep + length t + 1) \<and> cstr m' save' (tl rest) \<and>
        (\<forall>a. a \<noteq> s + of_nat (length sep + length t) \<longrightarrow> m' a = m a))"
proof (cases "rest = []")
  case True
  then show ?thesis
    using strtok_r_token [OF assms] cstr_drop [OF str_at_cstr [OF assms(1)], of "length sep"] assms(3)
    by simp
next
  case False
  let ?k = "length sep + length t"
  have rest: "xs = sep @ t @ hd rest # tl rest" using False assms(3) by simp
  then have len: "?k < length xs" by simp
  then have "xs ! ?k = hd rest" "take ?k xs = sep @ t" "drop (Suc ?k) xs = tl rest" using rest
    by (simp_all add: nth_append)
  note cut = str_cut [OF str_at_cstr [OF assms(1)] len] this
  have "cstr (m(s + of_nat ?k := 0)) (s + of_nat (length sep)) t"
    using cstr_drop [OF cut(1), of "length sep"] cut(4) by simp
  moreover have "cstr (m(s + of_nat ?k := 0)) (s + of_nat (?k + 1)) (tl rest)"
    using cut(2,5) by simp
  moreover have "strtok_r s dl save m =
      Some (s + of_nat (length sep), s + of_nat (?k + 1), m(s + of_nat ?k := 0))"
    using strtok_r_token [OF assms, of save] False by (simp add: Let_def add.assoc)
  ultimately show ?thesis
    using False by (intro exI [of _ "s + of_nat (?k + 1)"] exI [of _ "m(s + of_nat ?k := 0)"])
      (simp del: of_nat_add of_nat_Suc)
qed

theorem strtok_r_correct_witness:
  "\<exists>m'. strtok_r 0x1000 0x2000 0 (two_strings '' ab c'' '' '') = Some (0x1001, 0x1004, m') \<and>
     cstr m' 0x1001 (bytes ''ab'') \<and> cstr m' 0x1004 (bytes ''c'')"
proof -
  have "str_at (two_strings '' ab c'' '' '') 0x1000 (bytes '' ab c'')"
    "str_at (two_strings '' ab c'' '' '') 0x2000 (bytes '' '')"
    by (simp_all add: two_strings_def poke_def str_at_def)
  then have "\<exists>save' m'. strtok_r 0x1000 0x2000 0 (two_strings '' ab c'' '' '') = Some (0x1000 + of_nat 1, save', m') \<and>
     cstr m' (0x1000 + of_nat 1) (bytes ''ab'') \<and>
     save' = 0x1000 + of_nat (1 + 2 + 1) \<and> cstr m' save' (bytes ''c'')"
    using strtok_r_correct [of "two_strings '' ab c'' '' ''" "0x1000" "bytes '' ab c''" "0x2000" "bytes '' ''" "bytes '' ''" "bytes ''ab''" "bytes '' c''" 0]
    by (simp del: cstr.simps) blast
  then show ?thesis by (simp del: cstr.simps)
qed

end
