(* ===== verification/Mv_Memory.thy ===== *)
theory Mv_Memory
  imports Mv_Prelude
begin

text \<open>
  Little-endian 32-bit words in the byte memory, as the i386 target stores a \<^verbatim>\<open>u32\<close> or a pointer,
  with the frame lemmas that say which addresses a store leaves alone.
\<close>

section \<open>Words in memory\<close>

definition ld32 :: "mem \<Rightarrow> addr \<Rightarrow> u32" where
  "ld32 m a = ucast (m a) OR push_bit 8 (ucast (m (a + 1))) OR
     push_bit 16 (ucast (m (a + 2))) OR push_bit 24 (ucast (m (a + 3)))"

definition st32 :: "mem \<Rightarrow> addr \<Rightarrow> u32 \<Rightarrow> mem" where
  "st32 m a v = m(a := ucast v, a + 1 := ucast (drop_bit 8 v),
     a + 2 := ucast (drop_bit 16 v), a + 3 := ucast (drop_bit 24 v))"

lemma bytes_of_word:
  "(ucast (ucast v :: u8) OR push_bit 8 (ucast (ucast (drop_bit 8 v) :: u8)) OR
     push_bit 16 (ucast (ucast (drop_bit 16 v) :: u8)) OR
     push_bit 24 (ucast (ucast (drop_bit 24 v) :: u8)) :: u32) = v"
proof (rule bit_word_eqI)
  fix n
  assume n: "n < LENGTH(32)"
  consider "n < 8" | "8 \<le> n" "n < 16" | "16 \<le> n" "n < 24" | "24 \<le> n" "n < 32"
    using n by fastforce
  then show "bit (ucast (ucast v :: u8) OR push_bit 8 (ucast (ucast (drop_bit 8 v) :: u8)) OR
     push_bit 16 (ucast (ucast (drop_bit 16 v) :: u8)) OR
     push_bit 24 (ucast (ucast (drop_bit 24 v) :: u8)) :: u32) n = bit v n"
    by cases (simp_all add: bit_or_iff bit_push_bit_iff bit_ucast_iff bit_drop_bit_eq less_diff_conv2)
qed

lemma ld32_st32 [simp]: "ld32 (st32 m a v) a = v"
  using bytes_of_word [of v] by (simp add: ld32_def st32_def)

lemma st32_other: "4 \<le> unat (x - a) \<Longrightarrow> st32 m a v x = m x"
  by (auto simp: st32_def)

lemma unat_diff_add:
  assumes "unat (b - a :: u32) + k < 2 ^ 32"
  shows "unat (b + of_nat k - a) = unat (b - a) + k"
proof -
  have "b + of_nat k - a = of_nat (unat (b - a) + k)" by simp
  then show ?thesis using assms unat_of_nat_u32 by metis
qed

lemma unat_diff_swap: "a \<noteq> b \<Longrightarrow> unat (b - a :: u32) = 2 ^ 32 - unat (a - b)"
  using unat_lt_2p32 [of a] unat_lt_2p32 [of b] by (auto simp: unat_sub_if' word_unat_eq_iff)

lemma st32_region:
  assumes "4 \<le> unat (b - a)" "n \<le> unat (a - b)" "k < n"
  shows "st32 m a v (b + of_nat k) = m (b + of_nat k)"
proof -
  have "a \<noteq> b" using assms(1) by auto
  then have "unat (b - a) + k < 2 ^ 32"
    using assms unat_diff_swap [of a b] unat_lt_2p32 [of "a - b"] by simp
  then show ?thesis using assms by (intro st32_other) (simp add: unat_diff_add)
qed

lemma ld32_st32_ne:
  assumes "4 \<le> unat (b - a)" "4 \<le> unat (a - b)"
  shows "ld32 (st32 m a v) b = ld32 m b"
  using st32_region [OF assms, of 0] st32_region [OF assms, of 1] st32_region [OF assms, of 2]
    st32_region [OF assms, of 3]
  by (simp add: ld32_def)

end
