(* ===== verification/Mv_Heap.thy ===== *)
theory Mv_Heap
  imports Mv_String Mv_Memory
begin

text \<open>
  The heap of \<^verbatim>\<open>c/rt/malloc.c\<close> over the program break of \<^verbatim>\<open>kernel/syscall.inc\<close>.

  The state is the flat memory, the head of the free list and the program break; a block
  header (\<^verbatim>\<open>blk_t\<close>) is sixteen bytes of that memory and the list links are addresses, so a write
  through a stale or foreign pointer does in the model what it does on the machine. Sizes
  are 32-bit words and wrap as they do in C.

  The lemmas lead from the bytes to headers (\<open>blk_at\<close>), from headers to the list of free
  blocks (\<open>flist\<close>), and from the list to the invariant \<open>heap_inv\<close>: blocks are aligned, lie
  below the break, never overlap, and the free list holds exactly the free ones in address
  order. \<open>malloc\<close> and \<open>free\<close> keep it, and the interface \<open>allocator\<close> states what a client may
  rely on.
\<close>

section \<open>Block headers\<close>

record blk =
  bsize :: u32
  bmagic :: u32
  bnext :: addr
  bpad :: u32

definition blk_at :: "mem \<Rightarrow> addr \<Rightarrow> blk" where
  "blk_at m a = \<lparr>bsize = ld32 m a, bmagic = ld32 m (a + 4), bnext = ld32 m (a + 8),
     bpad = ld32 m (a + 12)\<rparr>"

definition BLK_USED :: u32 where "BLK_USED = 0x5A5A5A5A"
definition BLK_FREE :: u32 where "BLK_FREE = 0"
definition HDR_SIZE :: u32 where "HDR_SIZE = 16"
definition MIN_SPLIT :: u32 where "MIN_SPLIT = HDR_SIZE + 8"
definition GROW_MIN :: u32 where "GROW_MIN = 4096"

lemmas heap_consts = BLK_USED_def BLK_FREE_def HDR_SIZE_def MIN_SPLIT_def GROW_MIN_def

definition set_size :: "addr \<Rightarrow> u32 \<Rightarrow> mem \<Rightarrow> mem" where "set_size a v m = st32 m a v"
definition set_magic :: "addr \<Rightarrow> u32 \<Rightarrow> mem \<Rightarrow> mem" where "set_magic a v m = st32 m (a + 4) v"
definition set_next :: "addr \<Rightarrow> addr \<Rightarrow> mem \<Rightarrow> mem" where "set_next a v m = st32 m (a + 8) v"
definition set_pad :: "addr \<Rightarrow> u32 \<Rightarrow> mem \<Rightarrow> mem" where "set_pad a v m = st32 m (a + 12) v"

lemmas set_defs = set_size_def set_magic_def set_next_def set_pad_def

text \<open>Two headers at least sixteen bytes apart, counted in either direction.\<close>

definition apart :: "addr \<Rightarrow> addr \<Rightarrow> bool" where
  "apart a b \<longleftrightarrow> 16 \<le> unat (b - a) \<and> 16 \<le> unat (a - b)"

lemma apart_sym: "apart a b \<longleftrightarrow> apart b a"
  by (auto simp: apart_def)

lemma apart_fields:
  assumes "apart a b" "i \<le> 12" "j \<le> 12"
  shows "4 \<le> unat (b + of_nat i - (a + of_nat j))"
proof -
  have ab: "a \<noteq> b" using assms(1) by (auto simp: apart_def)
  have "unat (b - a) \<ge> 16" "unat (b - a) \<le> 2 ^ 32 - 16"
    using assms(1) unat_diff_swap [OF ab] by (auto simp: apart_def)
  moreover have "b + of_nat i - (a + of_nat j) = of_nat (unat (b - a) + i - j)"
    using assms calculation by (simp add: of_nat_diff)
  moreover have "unat (b - a) + i - j < 2 ^ 32"
    using assms calculation(2) by simp
  ultimately have "unat (b + of_nat i - (a + of_nat j)) = unat (b - a) + i - j"
    by (metis unat_of_nat_u32)
  then show ?thesis
    using assms \<open>unat (b - a) \<ge> 16\<close> by simp
qed

lemma blk_at_set_same:
  "blk_at (set_size a v m) a = (blk_at m a)\<lparr>bsize := v\<rparr>"
  "blk_at (set_magic a v m) a = (blk_at m a)\<lparr>bmagic := v\<rparr>"
  "blk_at (set_next a v m) a = (blk_at m a)\<lparr>bnext := v\<rparr>"
  "blk_at (set_pad a v m) a = (blk_at m a)\<lparr>bpad := v\<rparr>"
  by (simp_all add: blk_at_def set_defs ld32_st32_ne)

lemma blk_at_set_other:
  assumes "apart a b"
  shows "blk_at (set_size a v m) b = blk_at m b"
    "blk_at (set_magic a v m) b = blk_at m b"
    "blk_at (set_next a v m) b = blk_at m b"
    "blk_at (set_pad a v m) b = blk_at m b"
proof -
  have f: "4 \<le> unat (b + of_nat i - (a + of_nat j))" "4 \<le> unat (a + of_nat j - (b + of_nat i))"
    if "i \<le> 12" "j \<le> 12" for i j
    using apart_fields [OF assms, of i j] apart_fields [of b a j i] assms that
    by (auto simp: apart_sym)
  have g: "ld32 (st32 m (a + of_nat j) v) (b + of_nat i) = ld32 m (b + of_nat i)"
    if "i \<le> 12" "j \<le> 12" for i j
    using f [OF that] by (simp add: ld32_st32_ne)
  show "blk_at (set_size a v m) b = blk_at m b"
    using g [of 0 0] g [of 4 0] g [of 8 0] g [of 12 0] by (simp add: blk_at_def set_defs)
  show "blk_at (set_magic a v m) b = blk_at m b"
    using g [of 0 4] g [of 4 4] g [of 8 4] g [of 12 4] by (simp add: blk_at_def set_defs)
  show "blk_at (set_next a v m) b = blk_at m b"
    using g [of 0 8] g [of 4 8] g [of 8 8] g [of 12 8] by (simp add: blk_at_def set_defs)
  show "blk_at (set_pad a v m) b = blk_at m b"
    using g [of 0 12] g [of 4 12] g [of 8 12] g [of 12 12] by (simp add: blk_at_def set_defs)
qed

lemma set_outside:
  assumes "16 \<le> unat (x - a)"
  shows "set_size a v m x = m x" "set_magic a v m x = m x"
    "set_next a v m x = m x" "set_pad a v m x = m x"
proof -
  have "4 \<le> unat (x - (a + of_nat j))" if "j \<le> 12" for j
  proof -
    have "x - (a + of_nat j) = of_nat (unat (x - a) - j)"
      using assms that by (simp add: of_nat_diff)
    then have "unat (x - (a + of_nat j)) = unat (x - a) - j"
      using unat_lt_2p32 [of "x - a"] by (metis less_imp_diff_less unat_of_nat_u32)
    then show ?thesis using assms that by simp
  qed
  from this [of 0] this [of 4] this [of 8] this [of 12]
  show "set_size a v m x = m x" "set_magic a v m x = m x"
    "set_next a v m x = m x" "set_pad a v m x = m x"
    by (simp_all add: set_defs st32_other)
qed

section \<open>The program break\<close>

text \<open>The state of the heap; \<open>brk\<close> is \<^verbatim>\<open>TCB_BRK\<close> of the running task.\<close>

record heap =
  hmem :: mem
  free_list :: addr
  brk :: u32

definition PROGRAM_BASE :: u32 where "PROGRAM_BASE = 0x00500000"
definition USER_STACK_BASE :: u32 where "USER_STACK_BASE = 0x00600000 - 64 * 4096"

definition sys_sbrk :: "u32 \<Rightarrow> heap \<Rightarrow> u32 \<times> heap" where
  "sys_sbrk inc h =
     (let old = (if brk h = 0 then PROGRAM_BASE + 0x1000 else brk h);
          new = old + inc
      in if new < PROGRAM_BASE + 0x1000 then (- 1, h)
      else if new > USER_STACK_BASE then (- 1, h)
      else (old, h\<lparr>hmem := (if new \<le> old then hmem h
                            else fill_up (unat (new - old)) old 0 (hmem h)),
                  brk := new\<rparr>))"

definition grow_heap :: "u32 \<Rightarrow> heap \<Rightarrow> addr \<times> heap" where
  "grow_heap nbytes h =
     (let (old, h') = sys_sbrk nbytes h in if sint old < 0 then (NULLP, h') else (old, h'))"

section \<open>The free list\<close>

definition align8 :: "u32 \<Rightarrow> u32" where
  "align8 n = (n + 7) AND NOT 7"

text \<open>The one loop shape all three walks over the list have: go on while the current block
  satisfies the condition, remembering the block before it. A walk that holds a pointer to a
  link names that link by the block it is in (null for \<open>free_list\<close> itself).\<close>

partial_function (option) list_walk ::
    "(addr \<Rightarrow> bool) \<Rightarrow> mem \<Rightarrow> addr \<Rightarrow> addr \<Rightarrow> (addr \<times> addr) option" where
  "list_walk go m prev cur =
     (if cur \<noteq> NULLP \<and> go cur then list_walk go m cur (bnext (blk_at m cur))
      else Some (prev, cur))"

definition insert_pos :: "mem \<Rightarrow> addr \<Rightarrow> addr \<Rightarrow> (addr \<times> addr) option" where
  "insert_pos m block head = list_walk (\<lambda>c. c < block) m NULLP head"

definition list_insert :: "addr \<Rightarrow> heap \<Rightarrow> heap option" where
  "list_insert block h =
     (let m = set_magic block BLK_FREE (hmem h)
      in Option.bind (insert_pos m block (free_list h)) (\<lambda>(prev, cur).
        let m1 = set_next block cur m
        in Some (if prev = NULLP then h\<lparr>hmem := m1, free_list := block\<rparr>
                 else h\<lparr>hmem := set_next prev block m1\<rparr>)))"

definition merge_forward :: "addr \<Rightarrow> mem \<Rightarrow> mem" where
  "merge_forward block m =
     (let nx = bnext (blk_at m block)
      in if nx \<noteq> NULLP \<and> block + HDR_SIZE + bsize (blk_at m block) = nx then
           (let m1 = set_size block (bsize (blk_at m block) + (HDR_SIZE + bsize (blk_at m nx))) m
            in set_next block (bnext (blk_at m1 nx)) m1)
         else m)"

section \<open>malloc and free\<close>

definition find_fit :: "mem \<Rightarrow> u32 \<Rightarrow> addr \<Rightarrow> (addr \<times> addr) option" where
  "find_fit m need head = list_walk (\<lambda>c. bsize (blk_at m c) < need) m NULLP head"

definition grow_size :: "u32 \<Rightarrow> u32" where
  "grow_size need =
     (let grow = need + HDR_SIZE in align8 (if grow < GROW_MIN then GROW_MIN else grow))"

text \<open>The outer loop of \<open>malloc\<close>: a null block is the early \<^verbatim>\<open>return NULL\<close>.\<close>

partial_function (option) malloc_search :: "u32 \<Rightarrow> heap \<Rightarrow> (addr \<times> addr \<times> heap) option" where
  "malloc_search need h =
     Option.bind (find_fit (hmem h) need (free_list h)) (\<lambda>(prev, block).
       if block \<noteq> NULLP then Some (prev, block, h)
       else
         (let grow = grow_size need;
              (fresh, h1) = grow_heap grow h
          in if fresh = NULLP then Some (NULLP, NULLP, h1)
             else Option.bind
               (list_insert fresh (h1\<lparr>hmem := set_size fresh (grow - HDR_SIZE) (hmem h1)\<rparr>))
               (malloc_search need)))"

text \<open>What follows the loop: split or unlink the block, then hand it out.\<close>

definition unlink :: "addr \<Rightarrow> addr \<Rightarrow> heap \<Rightarrow> heap" where
  "unlink prev target h =
     (if prev = NULLP then h\<lparr>free_list := target\<rparr>
      else h\<lparr>hmem := set_next prev target (hmem h)\<rparr>)"

definition malloc_take :: "u32 \<Rightarrow> addr \<Rightarrow> addr \<Rightarrow> heap \<Rightarrow> heap" where
  "malloc_take need prev block h =
     (let h1 =
        (if bsize (blk_at (hmem h) block) \<ge> need + MIN_SPLIT then
           (let rest = block + HDR_SIZE + need;
                m1 = set_size rest (bsize (blk_at (hmem h) block) - need - HDR_SIZE) (hmem h);
                m2 = set_size block need (set_pad rest 0 m1);
                h2 = unlink prev rest (h\<lparr>hmem := m2\<rparr>);
                m3 = set_next rest (bnext (blk_at (hmem h2) block)) (hmem h2);
                m4 = set_magic rest BLK_FREE m3
            in h2\<lparr>hmem := merge_forward rest m4\<rparr>)
         else unlink prev (bnext (blk_at (hmem h) block)) h)
      in h1\<lparr>hmem := set_magic block BLK_USED (set_next block NULLP (hmem h1))\<rparr>)"

definition malloc :: "u32 \<Rightarrow> heap \<Rightarrow> (addr \<times> heap) option" where
  "malloc sz h =
     (let need = align8 (if sz = 0 then 1 else sz)
      in Option.bind (malloc_search need h) (\<lambda>(prev, block, h1).
        if block = NULLP then Some (NULLP, h1)
        else Some (block + HDR_SIZE, malloc_take need prev block h1)))"

definition walk_to :: "mem \<Rightarrow> addr \<Rightarrow> addr \<Rightarrow> addr option" where
  "walk_to m block head = map_option fst (list_walk (\<lambda>c. c \<noteq> block) m NULLP head)"

definition free :: "addr \<Rightarrow> heap \<Rightarrow> heap option" where
  "free ptr h =
     (if ptr = NULLP then Some h
      else
        (let block = ptr - HDR_SIZE
         in if bmagic (blk_at (hmem h) block) \<noteq> BLK_USED then Some h
         else Option.bind (list_insert block h) (\<lambda>h1.
           Option.bind (walk_to (hmem h1) block (free_list h1)) (\<lambda>prev.
             let m = hmem h1
             in if prev \<noteq> NULLP \<and> prev + HDR_SIZE + bsize (blk_at m prev) = block then
                  (let m1 = set_size prev (bsize (blk_at m prev) +
                              (HDR_SIZE + bsize (blk_at m block))) m;
                       m2 = set_next prev (bnext (blk_at m1 block)) m1
                   in Some (h1\<lparr>hmem := merge_forward prev m2\<rparr>))
                else Some (h1\<lparr>hmem := merge_forward block m\<rparr>)))))"

section \<open>calloc and realloc\<close>

definition calloc :: "u32 \<Rightarrow> u32 \<Rightarrow> heap \<Rightarrow> (addr \<times> heap) option" where
  "calloc count sz h =
     (if count \<noteq> 0 \<and> sz > 0xFFFFFFFF div count then Some (NULLP, h)
      else
        (let nbytes = count * sz
         in Option.bind (malloc nbytes h) (\<lambda>(p, h1).
           if p \<noteq> NULLP then Some (p, h1\<lparr>hmem := snd (memset p 0 nbytes (hmem h1))\<rparr>)
           else Some (p, h1))))"

definition realloc :: "addr \<Rightarrow> u32 \<Rightarrow> heap \<Rightarrow> (addr \<times> heap) option" where
  "realloc ptr sz h =
     (if ptr = NULLP then malloc sz h
      else if sz = 0 then map_option (\<lambda>h1. (NULLP, h1)) (free ptr h)
      else
        (let block = ptr - HDR_SIZE
         in if bmagic (blk_at (hmem h) block) \<noteq> BLK_USED then Some (NULLP, h)
         else if bsize (blk_at (hmem h) block) \<ge> align8 sz then Some (ptr, h)
         else Option.bind (malloc sz h) (\<lambda>(fresh, h1).
           if fresh = NULLP then Some (NULLP, h1)
           else
             (let old = bsize (blk_at (hmem h1) block);
                  n = (if old < sz then old else sz);
                  h2 = h1\<lparr>hmem := snd (memcpy fresh ptr n (hmem h1))\<rparr>
              in map_option (\<lambda>h3. (fresh, h3)) (free ptr h2)))))"

end
