(* ===== verification/Mv_Heap_Inv.thy ===== *)
theory Mv_Heap_Inv
  imports Mv_Heap
begin

text \<open>
  The invariant of the heap: the free list as a list of addresses over an abstract map of block
  headers, the layout of the blocks between the base and the break, and what inserting, splitting and
  merging blocks do to both.
\<close>

section \<open>The free list as a list of addresses\<close>

fun fseg :: "(addr \<Rightarrow> blk) \<Rightarrow> addr \<Rightarrow> addr list \<Rightarrow> addr \<Rightarrow> bool" where
  "fseg B p [] q \<longleftrightarrow> p = q"
| "fseg B p (a # as) q \<longleftrightarrow> p = a \<and> a \<noteq> 0 \<and> fseg B (bnext (B a)) as q"

abbreviation flist :: "(addr \<Rightarrow> blk) \<Rightarrow> addr \<Rightarrow> addr list \<Rightarrow> bool" where
  "flist B p as \<equiv> fseg B p as 0"

definition head_of :: "addr list \<Rightarrow> addr" where
  "head_of as = (case as of [] \<Rightarrow> 0 | a # _ \<Rightarrow> a)"

lemma head_of_simps [simp]: "head_of [] = 0" "head_of (a # as) = a"
  by (simp_all add: head_of_def)

lemma fseg_append: "fseg B p (as @ bs) q \<longleftrightarrow> (\<exists>r. fseg B p as r \<and> fseg B r bs q)"
  by (induction as arbitrary: p) auto

lemma flist_head: "flist B p as \<Longrightarrow> p = head_of as"
  by (cases as) auto

lemma fseg_nonnull: "fseg B p as q \<Longrightarrow> a \<in> set as \<Longrightarrow> a \<noteq> 0"
  by (induction as arbitrary: p) auto

lemma fseg_cong:
  "(\<And>a. a \<in> set as \<Longrightarrow> bnext (B a) = bnext (B' a)) \<Longrightarrow> fseg B p as q = fseg B' p as q"
  by (induction as arbitrary: p) auto

lemma fseg_agree:
  "fseg B p as q \<Longrightarrow> (\<And>a. a \<in> set as \<Longrightarrow> bnext (B' a) = bnext (B a)) \<Longrightarrow> fseg B' p as q"
  using fseg_cong [of as B' B p q] by simp

lemma fseg_upd: "a \<notin> set as \<Longrightarrow> fseg (B(a := x)) p as q = fseg B p as q"
  by (rule fseg_cong) auto

lemma flist_next: "flist B p (pre @ a # post) \<Longrightarrow> bnext (B a) = head_of post"
  by (auto simp: fseg_append dest: flist_head)

text \<open>Redirecting the link that follows \<open>pre\<close>, the one way the list ever changes.\<close>

lemma flist_relink:
  assumes "fseg B p pre q" "distinct pre" "flist B' v new"
    and "\<And>a. a \<in> set (butlast pre) \<Longrightarrow> bnext (B' a) = bnext (B a)"
    and "pre \<noteq> [] \<Longrightarrow> bnext (B' (last pre)) = v"
  shows "flist B' (if pre = [] then v else p) (pre @ new)"
  using assms
proof (induction pre arbitrary: p)
  case Nil
  then show ?case by simp
next
  case (Cons a as)
  show ?case
  proof (cases "as = []")
    case True
    with Cons.prems show ?thesis by simp
  next
    case False
    have "flist B' (if as = [] then v else bnext (B a)) (as @ new)"
      by (rule Cons.IH) (use Cons.prems False in auto)
    with Cons.prems False show ?thesis by auto
  qed
qed

lemma list_walk_spec:
  "flist (blk_at m) cur (pre @ post) \<Longrightarrow> (\<And>a. a \<in> set pre \<Longrightarrow> go a) \<Longrightarrow>
     post = [] \<or> \<not> go (hd post) \<Longrightarrow>
     list_walk go m prev cur = Some (last (prev # pre), head_of post)"
proof (induction pre arbitrary: prev cur)
  case Nil
  then have "cur = head_of post" by (auto dest: flist_head)
  with Nil show ?case by (subst list_walk.simps) (cases post, auto)
next
  case (Cons a pre)
  then have "list_walk go m a (bnext (blk_at m a)) = Some (last (a # pre), head_of post)"
    by (intro Cons.IH) auto
  with Cons.prems show ?case by (subst list_walk.simps) auto
qed

section \<open>The invariant\<close>

definition blk_end :: "(addr \<Rightarrow> blk) \<Rightarrow> addr \<Rightarrow> nat" where
  "blk_end B a = unat a + 16 + unat (bsize (B a))"

definition wf_blk :: "(addr \<Rightarrow> blk) \<Rightarrow> u32 \<Rightarrow> addr \<Rightarrow> bool" where
  "wf_blk B k a \<longleftrightarrow> 8 dvd unat a \<and> 8 dvd unat (bsize (B a)) \<and> 0x501000 \<le> unat a \<and> blk_end B a \<le> unat k"

definition wf_brk :: "u32 \<Rightarrow> bool" where
  "wf_brk k \<longleftrightarrow> 8 dvd unat k \<and> 0x501000 \<le> unat k \<and> unat k \<le> 0x5C0000"

text \<open>The invariant over headers: \<open>fs\<close> the free blocks in list order, \<open>us\<close> the blocks handed out.\<close>

definition binv :: "(addr \<Rightarrow> blk) \<Rightarrow> addr \<Rightarrow> u32 \<Rightarrow> addr list \<Rightarrow> addr set \<Rightarrow> bool" where
  "binv B fl k fs us \<longleftrightarrow>
     flist B fl fs \<and> sorted_wrt (<) fs \<and> set fs \<inter> us = {} \<and> wf_brk k \<and>
     (\<forall>a \<in> set fs. bmagic (B a) = BLK_FREE) \<and> (\<forall>a \<in> us. bmagic (B a) = BLK_USED) \<and>
     (\<forall>a \<in> set fs \<union> us. wf_blk B k a) \<and>
     (\<forall>a \<in> set fs \<union> us. \<forall>b \<in> set fs \<union> us. a < b \<longrightarrow> blk_end B a \<le> unat b)"

definition heap_inv :: "heap \<Rightarrow> addr list \<Rightarrow> addr set \<Rightarrow> bool" where
  "heap_inv h fs us \<longleftrightarrow> binv (blk_at (hmem h)) (free_list h) (brk h) fs us"

lemma blk_end_cong: "B a = B' a \<Longrightarrow> blk_end B a = blk_end B' a"
  by (simp add: blk_end_def)

lemma binv_cong:
  assumes "\<And>a. a \<in> set fs \<union> us \<Longrightarrow> B a = B' a"
  shows "binv B fl k fs us = binv B' fl k fs us"
proof -
  have "flist B fl fs = flist B' fl fs" by (rule fseg_cong) (use assms in auto)
  moreover have "wf_blk B k a = wf_blk B' k a" "blk_end B a = blk_end B' a"
    if "a \<in> set fs \<union> us" for a
    using assms [OF that] by (simp_all add: wf_blk_def blk_end_def)
  ultimately show ?thesis using assms by (simp add: binv_def)
qed

lemma binv_agree:
  "binv B fl k fs us \<Longrightarrow> (\<And>a. a \<in> set fs \<union> us \<Longrightarrow> B' a = B a) \<Longrightarrow> binv B' fl k fs us"
  using binv_cong [of fs us B' B fl k] by simp

lemma apartI:
  assumes "unat a + 16 \<le> unat b" "unat b \<le> 0x5C0000"
  shows "apart a b"
proof -
  have "a \<le> b" "a < b" using assms by (simp_all add: word_le_nat_alt word_less_nat_alt)
  then have "unat (b - a) = unat b - unat a" "unat (a - b) = 2 ^ 32 - (unat b - unat a)"
    by (simp_all add: unat_diff_le unat_diff_gt)
  with assms show ?thesis unfolding apart_def by (intro conjI) simp_all
qed

lemma binv_wf: "binv B fl k fs us \<Longrightarrow> a \<in> set fs \<union> us \<Longrightarrow> wf_blk B k a"
  by (simp add: binv_def)

lemma binv_brk: "binv B fl k fs us \<Longrightarrow> wf_brk k"
  by (simp add: binv_def)

lemma binv_le: "binv B fl k fs us \<Longrightarrow> a \<in> set fs \<union> us \<Longrightarrow> blk_end B a \<le> 0x5C0000"
  using binv_wf [of B fl k fs us a] binv_brk [of B fl k fs us] by (simp add: wf_blk_def wf_brk_def)

lemma binv_end:
  "binv B fl k fs us \<Longrightarrow> a \<in> set fs \<union> us \<Longrightarrow> b \<in> set fs \<union> us \<Longrightarrow> a < b \<Longrightarrow>
     blk_end B a \<le> unat b"
  by (simp add: binv_def)

lemma binv_apart:
  assumes "binv B fl k fs us" "a \<in> set fs \<union> us" "b \<in> set fs \<union> us" "a \<noteq> b"
  shows "apart a b"
proof -
  have *: "apart a b" if "a \<in> set fs \<union> us" "b \<in> set fs \<union> us" "a < b" for a b
    using binv_end [OF assms(1) that] binv_le [OF assms(1) that(2)]
    by (intro apartI) (simp_all add: blk_end_def)
  show ?thesis using * [OF assms(2,3)] * [OF assms(3,2)] assms(4)
    by (metis apart_sym linorder_neqE)
qed

text \<open>A byte of a block's payload is in no other block's header.\<close>

definition in_payload :: "(addr \<Rightarrow> blk) \<Rightarrow> addr \<Rightarrow> addr \<Rightarrow> bool" where
  "in_payload B a x \<longleftrightarrow> unat a + 16 \<le> unat x \<and> unat x < blk_end B a"

lemma far_below:
  assumes "unat x < unat a" "unat a \<le> 0x5C0000"
  shows "16 \<le> unat (x - a :: u32)"
proof -
  have "x < a" using assms by (simp add: word_less_nat_alt)
  with assms show ?thesis by (simp add: unat_diff_gt)
qed

lemma far_above: "unat a + 16 \<le> unat x \<Longrightarrow> 16 \<le> unat (x - a :: u32)"
  by (simp add: unat_diff_le word_le_nat_alt)

lemma payload_not_header:
  assumes "binv B fl k fs us" "a \<in> set fs \<union> us" "b \<in> set fs \<union> us" "in_payload B b x"
  shows "16 \<le> unat (x - a)"
proof (cases "a \<le> b")
  case True
  then have "unat a \<le> unat b" by (simp add: word_le_nat_alt)
  with assms(4) show ?thesis by (intro far_above) (simp add: in_payload_def)
next
  case False
  then have "b < a" by simp
  then have "blk_end B b \<le> unat a" using binv_end [OF assms(1,3,2)] by simp
  with assms(4) binv_le [OF assms(1,2)] show ?thesis
    by (intro far_below) (simp_all add: in_payload_def blk_end_def)
qed

section \<open>The steps of the allocator, over headers\<close>

definition link :: "(addr \<Rightarrow> blk) \<Rightarrow> addr list \<Rightarrow> addr \<Rightarrow> (addr \<Rightarrow> blk)" where
  "link B pre v = (if pre = [] then B else B(last pre := (B (last pre))\<lparr>bnext := v\<rparr>))"

lemma link_fields [simp]:
  "bsize (link B pre v a) = bsize (B a)"
  "bmagic (link B pre v a) = bmagic (B a)"
  "blk_end (link B pre v) a = blk_end B a"
  "wf_blk (link B pre v) k a = wf_blk B k a"
  by (simp_all add: link_def blk_end_def wf_blk_def)

lemma link_other: "a \<notin> set pre \<Longrightarrow> link B pre v a = B a"
  by (auto simp: link_def)

lemma link_next:
  "pre \<noteq> [] \<Longrightarrow> bnext (link B pre v (last pre)) = v"
  "distinct pre \<Longrightarrow> a \<in> set (butlast pre) \<Longrightarrow> link B pre v a = B a"
  by (cases pre rule: rev_cases; auto simp: link_def)+

lemma flist_link:
  assumes "fseg B p pre q" "distinct pre" "flist B v new" "set new \<inter> set pre = {}"
  shows "flist (link B pre v) (if pre = [] then v else p) (pre @ new)"
proof -
  have "flist (link B pre v) v new"
    using assms(3) fseg_cong [of new "link B pre v" B v 0] assms(4)
    by (metis disjoint_iff link_other)
  with assms(1,2) show ?thesis
    by (rule flist_relink) (simp_all add: link_next assms(2))
qed

lemma binv_distinct: "binv B fl k fs us \<Longrightarrow> distinct fs"
  by (auto simp: binv_def sorted_wrt_iff_nth_less distinct_conv_nth) (metis linorder_neqE_nat less_irrefl)

text \<open>Taking a block out of the list.\<close>

lemma binv_remove:
  assumes inv: "binv B fl k (pre @ a # post) us"
  shows "binv (link B pre (head_of post)) (if pre = [] then head_of post else fl) k (pre @ post) us"
proof -
  have d: "distinct (pre @ a # post)" using inv by (rule binv_distinct)
  from inv have "flist B fl (pre @ a # post)" by (simp add: binv_def)
  then obtain q where q: "fseg B fl pre q" "q = a" "flist B (bnext (B a)) post"
    by (auto simp: fseg_append)
  then have "flist B (head_of post) post" using flist_head by metis
  with q d have "flist (link B pre (head_of post)) (if pre = [] then head_of post else fl) (pre @ post)"
    by (intro flist_link) auto
  with inv show ?thesis by (auto simp: binv_def sorted_wrt_append)
qed

text \<open>Putting a block into the list at its place.\<close>

definition fits :: "(addr \<Rightarrow> blk) \<Rightarrow> u32 \<Rightarrow> addr set \<Rightarrow> addr \<Rightarrow> bool" where
  "fits B k A b \<longleftrightarrow> wf_blk B k b \<and> b \<notin> A \<and>
     (\<forall>a \<in> A. (a < b \<longrightarrow> blk_end B a \<le> unat b) \<and> (b < a \<longrightarrow> blk_end B b \<le> unat a))"

lemma wf_blk_nonnull: "wf_blk B k b \<Longrightarrow> b \<noteq> 0"
  by (auto simp: wf_blk_def)

lemma binv_insert:
  assumes inv: "binv B fl k (ls @ rs) us"
    and b: "fits B k (set (ls @ rs) \<union> us) b" "bmagic (B b) = BLK_FREE" "bnext (B b) = head_of rs"
    and pos: "\<forall>a \<in> set ls. a < b" "\<forall>a \<in> set rs. b < a"
  shows "binv (link B ls b) (if ls = [] then b else fl) k (ls @ b # rs) us"
proof -
  have d: "distinct (ls @ rs)" using inv by (rule binv_distinct)
  from inv have "flist B fl (ls @ rs)" by (simp add: binv_def)
  then obtain q where q: "fseg B fl ls q" "flist B q rs" by (auto simp: fseg_append)
  have "b \<noteq> 0" "b \<notin> set (ls @ rs)" using b(1) wf_blk_nonnull by (auto simp: fits_def)
  then have "flist B b (b # rs)" using q(2) b(3) flist_head by fastforce
  then have "flist (link B ls b) (if ls = [] then b else fl) (ls @ b # rs)"
    using q(1) d \<open>b \<notin> set (ls @ rs)\<close> by (intro flist_link) auto
  moreover have "sorted_wrt (<) (ls @ b # rs)"
    using inv pos by (auto simp: binv_def sorted_wrt_append)
  ultimately show ?thesis
    using inv b unfolding binv_def fits_def by auto
qed

lemma binv_add_used:
  assumes "binv B fl k fs us" "fits B k (set fs \<union> us) a" "bmagic (B a) = BLK_USED"
  shows "binv B fl k fs (insert a us)"
  using assms unfolding binv_def fits_def by auto

lemma binv_drop_used: "binv B fl k fs us \<Longrightarrow> binv B fl k fs (us - {b})"
  unfolding binv_def by auto

lemma binv_grow: "binv B fl k fs us \<Longrightarrow> k \<le> k' \<Longrightarrow> wf_brk k' \<Longrightarrow> binv B fl k' fs us"
  unfolding binv_def wf_blk_def word_le_nat_alt by (auto intro: le_trans)

text \<open>Merging a free block with the one that follows it and touches it.\<close>

lemma binv_merge:
  assumes inv: "binv B fl k (pre @ a # b # post) us" and adj: "blk_end B a = unat b"
  shows "binv (B(a := (B a)\<lparr>bsize := bsize (B a) + (16 + bsize (B b)), bnext := bnext (B b)\<rparr>))
     fl k (pre @ a # post) us" (is "binv ?B fl k _ us")
proof -
  let ?A = "set (pre @ a # b # post) \<union> us"
  have d: "distinct (pre @ a # b # post)" using inv by (rule binv_distinct)
  have ab: "a < b" using inv by (auto simp: binv_def sorted_wrt_append)
  have bend: "blk_end B b \<le> 0x5C0000" using binv_le [OF inv] by simp
  have sz: "unat (bsize (B a) + (16 + bsize (B b))) = unat (bsize (B a)) + 16 + unat (bsize (B b))"
    using bend adj by (simp add: blk_end_def unat_word_ariths)
  then have ea: "blk_end ?B a = blk_end B b" using adj by (simp add: blk_end_def)
  have eo: "blk_end ?B x = blk_end B x" if "x \<noteq> a" for x using that by (simp add: blk_end_def)
  from inv have "flist B fl (pre @ a # b # post)" by (simp add: binv_def)
  then have segs: "fseg B fl pre a" "a \<noteq> 0" "flist B (bnext (B b)) post"
    by (auto simp: fseg_append)
  have "fseg ?B fl pre a" "flist ?B (bnext (B b)) post"
    using segs d by (simp_all add: fseg_upd)
  with segs have fl: "flist ?B fl (pre @ a # post)"
    by (auto simp: fseg_append)
  have wa: "wf_blk B k a" "wf_blk B k b" using binv_wf [OF inv] by auto
  have "wf_blk ?B k a" using wa ea sz by (simp add: wf_blk_def dvd_add)
  moreover have "wf_blk ?B k x" if "x \<in> ?A" "x \<noteq> a" for x
    using binv_wf [OF inv that(1)] that(2) eo by (simp add: wf_blk_def)
  moreover have "blk_end ?B x \<le> unat y"
    if "x \<in> set (pre @ a # post) \<union> us" "y \<in> set (pre @ a # post) \<union> us" "x < y" for x y
  proof (cases "x = a")
    case True
    have "y \<noteq> b" using d inv that(2) by (auto simp: binv_def)
    have "a < y" using True that(3) by simp
    then have "blk_end B a \<le> unat y" using binv_end [OF inv, of a y] that(2) by auto
    with adj \<open>y \<noteq> b\<close> have "b < y" by (simp add: word_less_nat_alt word_unat_eq_iff le_less)
    then have "blk_end B b \<le> unat y" using binv_end [OF inv, of b y] that(2) by auto
    with True ea show ?thesis by simp
  next
    case False
    with that eo binv_end [OF inv, of x y] show ?thesis by auto
  qed
  moreover have "sorted_wrt (<) (pre @ a # post)" using inv by (auto simp: binv_def sorted_wrt_append)
  ultimately show ?thesis
    using inv fl unfolding binv_def by auto
qed

section \<open>The steps of the allocator, over memory\<close>

text \<open>What an operation keeps of the blocks it does not own: their headers and payloads.\<close>

definition kept :: "heap \<Rightarrow> heap \<Rightarrow> addr set \<Rightarrow> bool" where
  "kept h h' us \<longleftrightarrow> (\<forall>c \<in> us. blk_at (hmem h') c = blk_at (hmem h) c \<and>
     (\<forall>x. in_payload (blk_at (hmem h)) c x \<longrightarrow> hmem h' x = hmem h x))"

lemma kept_refl [simp]: "kept h h us"
  by (simp add: kept_def)

lemma kept_mono: "kept h h' us \<Longrightarrow> vs \<subseteq> us \<Longrightarrow> kept h h' vs"
  by (auto simp: kept_def)

lemma in_payload_cong: "B c = B' c \<Longrightarrow> in_payload B c x = in_payload B' c x"
  by (simp add: in_payload_def blk_end_def)

lemma kept_trans: "kept h h1 us \<Longrightarrow> kept h1 h2 us \<Longrightarrow> kept h h2 us"
  unfolding kept_def by (metis in_payload_cong)

lemma fits_cong:
  assumes "\<And>a. a \<in> insert b A \<Longrightarrow> bsize (B a) = bsize (B' a)"
  shows "fits B k A b = fits B' k A b"
  using assms by (simp add: fits_def wf_blk_def blk_end_def)

lemma fits_agree:
  "fits B k A b \<Longrightarrow> (\<And>a. a \<in> insert b A \<Longrightarrow> bsize (B' a) = bsize (B a)) \<Longrightarrow> fits B' k A b"
  using fits_cong [of b A B' B k] by simp

lemma fits_apart:
  assumes "binv B fl k fs us" "fits B k (set fs \<union> us) b" "a \<in> set fs \<union> us"
  shows "apart a b"
proof -
  have "blk_end B b \<le> 0x5C0000"
    using assms(2) binv_brk [OF assms(1)] by (simp add: fits_def wf_blk_def wf_brk_def)
  moreover have "blk_end B a \<le> 0x5C0000" using binv_le [OF assms(1,3)] .
  moreover have "blk_end B a \<le> unat b \<or> blk_end B b \<le> unat a"
    using assms(2,3) unfolding fits_def by (metis linorder_neqE)
  ultimately show ?thesis
    using apartI [of a b] apartI [of b a] apart_sym by (auto simp: blk_end_def)
qed

lemma fits_payload:
  assumes "binv B fl k fs us" "fits B k (set fs \<union> us) b" "c \<in> us" "in_payload B c x"
  shows "16 \<le> unat (x - b)"
proof -
  have bb: "unat b \<le> 0x5C0000"
    using assms(2) binv_brk [OF assms(1)] by (simp add: fits_def wf_blk_def wf_brk_def blk_end_def)
  have "blk_end B c \<le> unat b \<or> blk_end B b \<le> unat c"
    using assms(2,3) unfolding fits_def by (metis UnI2 linorder_neqE)
  then show ?thesis
    using assms(4) far_below [OF _ bb, of x] far_above [of b x]
    by (auto simp: in_payload_def blk_end_def)
qed

text \<open>Three facts about one header write, for headers that are apart.\<close>

lemmas blk_at_sets = blk_at_set_same blk_at_set_other

lemma list_insert_inv:
  assumes inv: "heap_inv h (ls @ rs) us"
    and b: "fits (blk_at (hmem h)) (brk h) (set (ls @ rs) \<union> us) b"
    and pos: "\<forall>a \<in> set ls. a < b" "\<forall>a \<in> set rs. b < a"
  shows "\<exists>h'. list_insert b h = Some h' \<and> heap_inv h' (ls @ b # rs) us \<and> brk h' = brk h \<and>
     kept h h' us \<and>
     (\<forall>a \<in> insert b (set (ls @ rs) \<union> us). bsize (blk_at (hmem h') a) = bsize (blk_at (hmem h) a))"
proof -
  let ?B = "blk_at (hmem h)" and ?A = "set (ls @ rs) \<union> us"
  let ?m = "set_magic b BLK_FREE (hmem h)"
  let ?m1 = "set_next b (head_of rs) ?m"
  let ?m2 = "if ls = [] then ?m1 else set_next (last ls) b ?m1"
  let ?B1 = "?B(b := (?B b)\<lparr>bmagic := BLK_FREE, bnext := head_of rs\<rparr>)"
  let ?h = "h\<lparr>hmem := ?m2, free_list := (if ls = [] then b else free_list h)\<rparr>"
  note binv = inv [unfolded heap_inv_def]
  have nb: "b \<notin> ?A" "b \<noteq> 0" using b wf_blk_nonnull by (auto simp: fits_def)
  have ap: "apart a b" "apart b a" if "a \<in> ?A" for a
    using fits_apart [OF binv b that] by (auto simp: apart_sym)
  have bm: "blk_at ?m a = ?B a" if "a \<in> ?A" for a using ap [OF that] by (simp add: blk_at_sets)
  have bm1: "blk_at ?m1 a = ?B1 a" if "a \<in> insert b ?A" for a
    using that ap nb by (auto simp: blk_at_sets)
  have bm2: "blk_at ?m2 a = link ?B1 ls b a" if "a \<in> insert b ?A" for a
  proof (cases "ls = []")
    case True
    then show ?thesis using bm1 [OF that] by (simp add: link_def)
  next
    case False
    then have l: "last ls \<in> ?A" by simp
    show ?thesis
    proof (cases "a = last ls")
      case True
      with bm1 [OF that] \<open>ls \<noteq> []\<close> show ?thesis by (simp add: link_def blk_at_sets)
    next
      case ne: False
      have "apart (last ls) a"
        using that ne l ap binv_apart [OF binv, of "last ls" a] by auto
      with bm1 [OF that] \<open>ls \<noteq> []\<close> ne show ?thesis by (simp add: link_def blk_at_sets)
    qed
  qed
  have fl: "flist ?B (free_list h) (ls @ rs)" using binv by (simp add: binv_def)
  then have "flist (blk_at ?m) (free_list h) (ls @ rs)"
    by (rule fseg_agree) (use bm in auto)
  then have "insert_pos ?m b (free_list h) = Some (last (0 # ls), head_of rs)"
    unfolding insert_pos_def using pos by (intro list_walk_spec) (cases rs; auto)+
  moreover have "ls \<noteq> [] \<Longrightarrow> last ls \<noteq> 0"
    using fseg_nonnull [OF fl, of "last ls"] by simp
  ultimately have run: "list_insert b h = Some ?h"
    by (auto simp: list_insert_def Let_def)
  have "binv ?B1 (free_list h) (brk h) (ls @ rs) us"
    by (rule binv_agree [OF binv]) (use nb in auto)
  moreover have "fits ?B1 (brk h) ?A b" using b by (rule fits_agree) auto
  ultimately have "binv (link ?B1 ls b) (if ls = [] then b else free_list h) (brk h) (ls @ b # rs) us"
    using pos by (intro binv_insert) auto
  then have "binv (blk_at ?m2) (if ls = [] then b else free_list h) (brk h) (ls @ b # rs) us"
    by (rule binv_agree) (use bm2 in auto)
  then have "heap_inv ?h (ls @ b # rs) us" by (simp add: heap_inv_def)
  moreover have "kept h ?h us"
    unfolding kept_def
  proof (intro ballI conjI allI impI)
    fix c assume c: "c \<in> us"
    then have "c \<notin> set ls" "c \<noteq> b" using binv nb by (auto simp: binv_def)
    with bm2 [of c] c show "blk_at (hmem ?h) c = ?B c" by (simp add: link_other)
    fix x assume x: "in_payload ?B c x"
    have "16 \<le> unat (x - b)" using fits_payload [OF binv b c x] .
    moreover have "ls \<noteq> [] \<Longrightarrow> 16 \<le> unat (x - last ls)"
      using payload_not_header [OF binv _ _ x] c by simp
    ultimately show "hmem ?h x = hmem h x" by (simp add: set_outside)
  qed
  moreover have "\<forall>a \<in> insert b ?A. bsize (blk_at (hmem ?h) a) = bsize (?B a)"
    using bm2 by simp
  ultimately show ?thesis using run by auto
qed

lemma merge_forward_inv:
  assumes inv: "heap_inv h (pre @ a # post) us"
  shows "\<exists>post'. heap_inv (h\<lparr>hmem := merge_forward a (hmem h)\<rparr>) (pre @ a # post') us \<and>
     set post' \<subseteq> set post \<and> kept h (h\<lparr>hmem := merge_forward a (hmem h)\<rparr>) us"
proof -
  let ?B = "blk_at (hmem h)"
  note binv = inv [unfolded heap_inv_def]
  have nx: "bnext (?B a) = head_of post" using binv by (auto simp: binv_def intro: flist_next)
  show ?thesis
  proof (cases "post \<noteq> [] \<and> a + HDR_SIZE + bsize (?B a) = head_of post")
    case False
    moreover have "post \<noteq> [] \<Longrightarrow> head_of post \<noteq> 0"
      using binv fseg_nonnull [of ?B "free_list h" "pre @ a # post" 0] by (cases post) (auto simp: binv_def)
    ultimately have "merge_forward a (hmem h) = hmem h"
      using nx by (cases post) (auto simp: merge_forward_def Let_def)
    with inv show ?thesis by auto
  next
    case True
    then obtain b rest where post: "post = b # rest" by (cases post) auto
    have b0: "b \<noteq> 0" using binv fseg_nonnull [of ?B "free_list h" "pre @ a # post" 0] post
      by (auto simp: binv_def)
    have ends: "blk_end ?B a \<le> 0x5C0000" using binv_le [OF binv, of a] by simp
    have "b = a + 16 + bsize (?B a)" using True post by (simp add: HDR_SIZE_def)
    then have adj: "blk_end ?B a = unat b"
      using ends by (simp add: blk_end_def unat_word_ariths)
    have ap: "apart a b" using binv_apart [OF binv, of a b] binv_distinct [OF binv] post by auto
    let ?sz = "bsize (?B a) + (16 + bsize (?B b))"
    let ?B1 = "?B(a := (?B a)\<lparr>bsize := ?sz, bnext := bnext (?B b)\<rparr>)"
    let ?m = "set_next a (bnext (?B b)) (set_size a ?sz (hmem h))"
    have run: "merge_forward a (hmem h) = ?m"
      using True nx post b0 ap by (simp add: merge_forward_def Let_def blk_at_sets HDR_SIZE_def)
    have bm: "blk_at ?m c = ?B1 c" if "c \<in> set (pre @ a # post) \<union> us" for c
      using binv_apart [OF binv, of a c] that by (auto simp: blk_at_sets)
    have "binv ?B1 (free_list h) (brk h) (pre @ a # rest) us"
      using binv adj unfolding post by (rule binv_merge)
    then have "binv (blk_at ?m) (free_list h) (brk h) (pre @ a # rest) us"
      by (rule binv_agree) (use bm post in auto)
    then have "heap_inv (h\<lparr>hmem := ?m\<rparr>) (pre @ a # rest) us" by (simp add: heap_inv_def)
    moreover have "kept h (h\<lparr>hmem := ?m\<rparr>) us"
      unfolding kept_def
    proof (intro ballI conjI allI impI)
      fix c assume c: "c \<in> us"
      then have "c \<noteq> a" using binv by (auto simp: binv_def)
      with bm [of c] c show "blk_at (hmem (h\<lparr>hmem := ?m\<rparr>)) c = ?B c" by simp
      fix x assume x: "in_payload ?B c x"
      have "16 \<le> unat (x - a)" using payload_not_header [OF binv _ _ x, of a] c by simp
      then show "hmem (h\<lparr>hmem := ?m\<rparr>) x = hmem h x" by (simp add: set_outside)
    qed
    ultimately show ?thesis using run post by auto
  qed
qed

lemma binv_fits:
  assumes "binv B fl k (pre @ a # post) us"
  shows "fits B k (set (pre @ post) \<union> us) a"
  using assms binv_distinct [OF assms] unfolding fits_def binv_def by auto

lemma binv_used_fits:
  assumes "binv B fl k fs us" "a \<in> us"
  shows "fits B k (set fs \<union> (us - {a})) a"
  using assms unfolding fits_def binv_def by auto

text \<open>Handing a block out: it is in no list any more and becomes a used one.\<close>

lemma mark_used_inv:
  assumes inv: "heap_inv h fs us" and a: "fits (blk_at (hmem h)) (brk h) (set fs \<union> us) a"
  defines "h' \<equiv> h\<lparr>hmem := set_magic a BLK_USED (set_next a 0 (hmem h))\<rparr>"
  shows "heap_inv h' fs (insert a us)" "kept h h' us"
    "bsize (blk_at (hmem h') a) = bsize (blk_at (hmem h) a)"
proof -
  let ?B = "blk_at (hmem h)" and ?B' = "blk_at (hmem h')"
  note binv = inv [unfolded heap_inv_def]
  have ap: "apart a c" if "c \<in> set fs \<union> us" for c
    using fits_apart [OF binv a that] by (simp add: apart_sym)
  have other: "?B' c = ?B c" if "c \<in> set fs \<union> us" for c
    using ap [OF that] by (simp add: h'_def blk_at_sets)
  show own: "bsize (?B' a) = bsize (?B a)" by (simp add: h'_def blk_at_sets)
  have "bmagic (?B' a) = BLK_USED" by (simp add: h'_def blk_at_sets)
  moreover have "binv ?B' (free_list h) (brk h) fs us"
    using binv by (rule binv_agree) (use other in auto)
  moreover have "fits ?B' (brk h) (set fs \<union> us) a"
    using a by (rule fits_agree) (use other own in auto)
  ultimately show "heap_inv h' fs (insert a us)"
    by (simp add: heap_inv_def h'_def binv_add_used)
  show "kept h h' us"
    using other fits_payload [OF binv a] unfolding kept_def
    by (auto simp: h'_def set_outside)
qed

lemma unlink_memory:
  assumes "\<And>c. c \<in> set pre \<Longrightarrow> c \<noteq> 0"
  shows "hmem (unlink (last (0 # pre)) v h) = (if pre = [] then hmem h else set_next (last pre) v (hmem h))"
    "free_list (unlink (last (0 # pre)) v h) = (if pre = [] then v else free_list h)"
    "brk (unlink (last (0 # pre)) v h) = brk h"
  using assms [of "last pre"] by (auto simp: unlink_def)

lemma unlink_blk:
  assumes "\<And>c. c \<in> set pre \<Longrightarrow> c \<noteq> 0" "pre = [] \<or> a = last pre \<or> apart (last pre) a"
  shows "blk_at (hmem (unlink (last (0 # pre)) v h)) a = link (blk_at (hmem h)) pre v a"
  using assms unlink_memory [of pre v h]
  by (cases "a = last pre") (auto simp: link_def blk_at_sets)

lemma unlink_inv:
  assumes inv: "heap_inv h (pre @ a # post) us"
  defines "h' \<equiv> unlink (last (0 # pre)) (head_of post) h"
  shows "heap_inv h' (pre @ post) us" "kept h h' us" "brk h' = brk h"
    "blk_at (hmem h') a = blk_at (hmem h) a"
    "\<And>c. c \<in> set (pre @ a # post) \<union> us \<Longrightarrow> bsize (blk_at (hmem h') c) = bsize (blk_at (hmem h) c)"
proof -
  let ?B = "blk_at (hmem h)" and ?A = "set (pre @ a # post) \<union> us"
  note binv = inv [unfolded heap_inv_def]
  have nn: "c \<noteq> 0" if "c \<in> set pre" for c
    using binv fseg_nonnull [of ?B "free_list h" "pre @ a # post" 0 c] that by (simp add: binv_def)
  have eq: "blk_at (hmem h') c = link ?B pre (head_of post) c" if "c \<in> ?A" for c
  proof -
    have "pre = [] \<or> c = last pre \<or> apart (last pre) c"
      using binv_apart [OF binv, of "last pre" c] that by (cases "pre = [] \<or> c = last pre") auto
    then show ?thesis unfolding h'_def by (intro unlink_blk nn) auto
  qed
  have "binv (blk_at (hmem h')) (if pre = [] then head_of post else free_list h) (brk h) (pre @ post) us"
    using binv_remove [OF binv] by (rule binv_agree) (use eq in auto)
  moreover have "free_list h' = (if pre = [] then head_of post else free_list h)" "brk h' = brk h"
    unfolding h'_def by (intro unlink_memory nn; assumption)+
  ultimately show "heap_inv h' (pre @ post) us" "brk h' = brk h"
    by (simp_all add: heap_inv_def)
  have "a \<notin> set pre" using binv_distinct [OF binv] by simp
  then show "blk_at (hmem h') a = ?B a" using eq [of a] by (simp add: link_other)
  show "bsize (blk_at (hmem h') c) = bsize (?B c)" if "c \<in> ?A" for c using eq [OF that] by simp
  show "kept h h' us"
    unfolding kept_def
  proof (intro ballI conjI allI impI)
    fix c assume c: "c \<in> us"
    then have "c \<notin> set pre" using binv by (auto simp: binv_def)
    then show "blk_at (hmem h') c = ?B c" using eq [of c] c by (simp add: link_other)
    fix x assume x: "in_payload ?B c x"
    have m: "hmem h' = (if pre = [] then hmem h else set_next (last pre) (head_of post) (hmem h))"
      unfolding h'_def by (intro unlink_memory nn; assumption)
    show "hmem h' x = hmem h x"
      using payload_not_header [OF binv _ _ x, of "last pre"] c by (simp add: m set_outside)
  qed
qed

text \<open>Splitting: the tail \<open>r\<close> of the block takes its place in the list.\<close>

lemma split_arith:
  assumes inv: "binv B fl k (pre @ a # post) us"
    and need: "8 dvd unat need" "unat need + 24 \<le> unat (bsize (B a))"
  defines "r \<equiv> a + 16 + need"
  shows "unat r = unat a + 16 + unat need" "8 dvd unat r"
    "unat (bsize (B a) - need - 16) = unat (bsize (B a)) - unat need - 16"
    "a < r"
proof -
  have e: "blk_end B a \<le> 0x5C0000" using binv_le [OF inv] by simp
  have w: "wf_blk B k a" using binv_wf [OF inv] by simp
  have "unat (a + 16 + need) = unat a + 16 + unat need"
    using e need by (simp add: blk_end_def unat_word_ariths)
  then show ur: "unat r = unat a + 16 + unat need" by (simp add: r_def)
  with need w show "8 dvd unat r" by (simp add: wf_blk_def dvd_add)
  show "a < r" using ur by (simp add: word_less_nat_alt)
  have "need \<le> bsize (B a)" using need by (simp add: word_le_nat_alt)
  then have "unat (bsize (B a) - need) = unat (bsize (B a)) - unat need" by (rule unat_diff_le)
  moreover from this have "16 \<le> bsize (B a) - need" using need by (simp add: word_le_nat_alt)
  ultimately show "unat (bsize (B a) - need - 16) = unat (bsize (B a)) - unat need - 16"
    by (simp add: unat_diff_le)
qed

lemma split_fits:
  assumes inv: "binv B fl k (pre @ a # post) us"
    and need: "8 dvd unat need" "unat need + 24 \<le> unat (bsize (B a))"
    and r: "r = a + 16 + need"
    and B1: "\<And>c. c \<in> set (pre @ post) \<union> us \<Longrightarrow> bsize (B1 c) = bsize (B c)"
      "bsize (B1 r) = bsize (B a) - need - 16"
  shows "fits B1 k (set (pre @ post) \<union> us) r" "blk_end B1 r = blk_end B a"
proof -
  note ar = split_arith [OF inv need, folded r]
  show er: "blk_end B1 r = blk_end B a"
    using ar need B1(2) by (simp add: blk_end_def)
  have e: "blk_end B1 c = blk_end B c" if "c \<in> set (pre @ post) \<union> us" for c
    using B1(1) [OF that] by (simp add: blk_end_def)
  have fa: "fits B k (set (pre @ post) \<union> us) a" using inv by (rule binv_fits)
  have w: "wf_blk B k a" using binv_wf [OF inv] by simp
  have "8 dvd unat (bsize (B1 r))"
    using ar(3) need w B1(2) by (simp add: wf_blk_def dvd_diff_nat)
  then have "wf_blk B1 k r" using w ar er by (simp add: wf_blk_def)
  moreover have "r \<noteq> c \<and> (c < r \<longrightarrow> blk_end B1 c \<le> unat r) \<and> (r < c \<longrightarrow> blk_end B1 r \<le> unat c)"
    if c: "c \<in> set (pre @ post) \<union> us" for c
  proof (cases "c < a")
    case True
    then have "blk_end B c \<le> unat a" using fa c by (simp add: fits_def)
    with True ar(1,4) e [OF c] show ?thesis by (auto dest: less_trans)
  next
    case False
    moreover have "c \<noteq> a" using fa c by (auto simp: fits_def)
    ultimately have "a < c" by simp
    with fa c have "blk_end B a \<le> unat c" by (simp add: fits_def)
    then have "unat r < unat c" using er ar need by (simp add: blk_end_def)
    then have "r < c" by (simp add: word_less_nat_alt)
    with \<open>blk_end B a \<le> unat c\<close> er show ?thesis by auto
  qed
  ultimately show "fits B1 k (set (pre @ post) \<union> us) r" by (auto simp: fits_def)
qed

lemma merge_forward_frame:
  "apart r c \<Longrightarrow> blk_at (merge_forward r m) c = blk_at m c"
  "16 \<le> unat (x - r) \<Longrightarrow> merge_forward r m x = m x"
  by (simp_all add: merge_forward_def Let_def blk_at_sets set_outside)

lemma hmem_update_blk [simp]: "hmem (h\<lparr>hmem := m\<rparr>) = m"
  by simp

text \<open>The memory just before \<open>merge_forward\<close> in the splitting branch of \<open>malloc\<close>.\<close>

definition split_heap :: "u32 \<Rightarrow> addr \<Rightarrow> addr \<Rightarrow> heap \<Rightarrow> heap" where
  "split_heap need prev block h =
     (let rest = block + HDR_SIZE + need;
          m1 = set_size rest (bsize (blk_at (hmem h) block) - need - HDR_SIZE) (hmem h);
          m2 = set_size block need (set_pad rest 0 m1);
          h2 = unlink prev rest (h\<lparr>hmem := m2\<rparr>);
          m3 = set_next rest (bnext (blk_at (hmem h2) block)) (hmem h2)
      in h2\<lparr>hmem := set_magic rest BLK_FREE m3\<rparr>)"

lemma split_heap_inv:
  assumes inv: "heap_inv h (pre @ a # post) us"
    and need: "8 dvd unat need" "unat need + 24 \<le> unat (bsize (blk_at (hmem h) a))"
    and r: "r = a + 16 + need"
  defines "h' \<equiv> split_heap need (last (0 # pre)) a h"
  shows "heap_inv h' (pre @ r # post) us" "kept h h' us" "brk h' = brk h"
    "bsize (blk_at (hmem h') a) = need" "apart r a" "a < r"
    "\<And>c. c \<in> set (pre @ post) \<union> us \<Longrightarrow> bsize (blk_at (hmem h') c) = bsize (blk_at (hmem h) c)"
proof -
  let ?B = "blk_at (hmem h)" and ?A = "set (pre @ post) \<union> us"
  note binv = inv [unfolded heap_inv_def]
  note ar = split_arith [OF binv need, folded r]
  have nxa: "bnext (?B a) = head_of post" using binv by (auto simp: binv_def intro: flist_next)
  have dist: "distinct (pre @ a # post)" using binv by (rule binv_distinct)
  have nn: "c \<noteq> 0" if "c \<in> set pre" for c
    using binv fseg_nonnull [of ?B "free_list h" "pre @ a # post" 0 c] that by (simp add: binv_def)
  let ?v = "bsize (?B a) - need - 16"
  let ?m2 = "set_size a need (set_pad r 0 (set_size r ?v (hmem h)))"
  let ?m3 = "if pre = [] then ?m2 else set_next (last pre) r ?m2"
  let ?m5 = "set_magic r BLK_FREE (set_next r (head_of post) ?m3)"
  let ?L = "link ?B pre (head_of post)"
  let ?B1 = "?L(a := (?B a)\<lparr>bsize := need\<rparr>,
     r := (?B r)\<lparr>bsize := ?v, bpad := 0, bnext := head_of post, bmagic := BLK_FREE\<rparr>)"
  let ?fl = "if pre = [] then head_of post else free_list h"
  have na: "a \<notin> ?A" using binv dist by (auto simp: binv_def)
  have "unat r < blk_end ?B a" using ar(1) need(2) by (simp add: blk_end_def)
  then have nr: "r \<notin> ?A"
    using binv_end [OF binv, of a r] ar(4) by auto
  have fitr: "fits ?B1 (brk h) ?A r"
    by (rule split_fits [OF binv need r]) (use na nr in auto)
  have er: "blk_end ?B1 r = blk_end ?B a"
    by (rule split_fits [OF binv need r]) (use na nr in auto)
  have binv1: "binv ?B1 ?fl (brk h) (pre @ post) us"
    using binv_remove [OF binv] by (rule binv_agree) (use na nr in auto)
  have "blk_end ?B1 r \<le> 0x5C0000" using er binv_le [OF binv, of a] by simp
  then show apra: "apart r a"
    using apartI [of a r] ar(1) by (simp add: apart_sym blk_end_def)
  show "a < r" by (rule ar(4))
  have apr: "apart c r" "apart r c" if "c \<in> ?A" for c
    using fits_apart [OF binv1 fitr that] by (auto simp: apart_sym)
  have apa: "apart a c" if "c \<in> ?A" for c
    using binv_apart [OF binv, of a c] that na by auto
  have bm2: "blk_at ?m2 c = ?B c" if "c \<in> ?A" for c
    using apr [OF that] apa [OF that] by (simp add: blk_at_sets)
  have lp: "last pre \<in> ?A" if "pre \<noteq> []" using that by simp
  have bm3: "blk_at ?m3 c = link ?B pre r c" if "c \<in> ?A" for c
    using bm2 [OF that] binv_apart [OF binv, of "last pre" c] that
    by (cases "c = last pre") (auto simp: link_def blk_at_sets)
  have m3a: "blk_at ?m3 a = (?B a)\<lparr>bsize := need\<rparr>"
    using apra apa [OF lp] by (auto simp: blk_at_sets apart_sym)
  have m3r: "blk_at ?m3 r = (?B r)\<lparr>bsize := ?v, bpad := 0\<rparr>"
    using apra apr [OF lp] by (auto simp: blk_at_sets apart_sym)
  have "unlink (last (0 # pre)) r (h\<lparr>hmem := ?m2\<rparr>) =
      h\<lparr>hmem := ?m3, free_list := (if pre = [] then r else free_list h)\<rparr>"
    using nn [of "last pre"] by (auto simp: unlink_def)
  then have run: "h' = h\<lparr>hmem := ?m5, free_list := (if pre = [] then r else free_list h)\<rparr>"
    using m3a nxa by (simp add: h'_def split_heap_def Let_def HDR_SIZE_def r [symmetric])
  have bm5: "blk_at ?m5 c = link ?B1 pre r c" if "c \<in> insert r ?A" for c
  proof (cases "c = r")
    case True
    with m3r nr show ?thesis by (simp add: blk_at_sets link_other)
  next
    case False
    with that bm3 [of c] apr [of c] na show ?thesis
      by (cases "c = last pre") (auto simp: blk_at_sets link_def)
  qed
  have "sorted_wrt (<) (pre @ a # post)" using binv by (simp add: binv_def)
  then have "\<forall>c \<in> set pre. c < a" "\<forall>c \<in> set post. a < c" by (auto simp: sorted_wrt_append)
  then have "\<forall>c \<in> set pre. c < r" "\<forall>c \<in> set post. r < c"
    using ar(4) binv_end [OF binv, of a] \<open>unat r < blk_end ?B a\<close>
    by (fastforce simp: word_less_nat_alt dest: less_le_trans)+
  then have "binv (link ?B1 pre r) (if pre = [] then r else ?fl) (brk h) (pre @ r # post) us"
    using binv1 fitr ar(4) by (intro binv_insert) auto
  then have "binv (blk_at ?m5) (if pre = [] then r else ?fl) (brk h) (pre @ r # post) us"
    by (rule binv_agree) (use bm5 in auto)
  also have "(if pre = [] then r else ?fl) = (if pre = [] then r else free_list h)" by simp
  finally have "binv (blk_at ?m5) (if pre = [] then r else free_list h) (brk h) (pre @ r # post) us" .
  then show "heap_inv h' (pre @ r # post) us" by (simp add: heap_inv_def run)
  show "brk h' = brk h" by (simp add: run)
  show "bsize (blk_at (hmem h') a) = need" using m3a apra by (simp add: run blk_at_sets)
  show "bsize (blk_at (hmem h') c) = bsize (?B c)" if "c \<in> ?A" for c
    using bm5 [of c] that na nr by (auto simp: run)
  show "kept h h' us"
    unfolding kept_def
  proof (intro ballI conjI allI impI)
    fix c assume c: "c \<in> us"
    then have "c \<notin> set pre" "c \<noteq> r" "c \<noteq> a" using binv na nr by (auto simp: binv_def)
    then show "blk_at (hmem h') c = ?B c" using bm5 [of c] c by (simp add: run link_other)
    fix x assume x: "in_payload ?B c x"
    then have "in_payload ?B1 c x" using \<open>c \<noteq> r\<close> \<open>c \<noteq> a\<close> by (simp add: in_payload_def blk_end_def)
    then have "16 \<le> unat (x - r)" using fits_payload [OF binv1 fitr c] by simp
    moreover have "16 \<le> unat (x - a)" using payload_not_header [OF binv _ _ x, of a] c by simp
    moreover have "pre \<noteq> [] \<Longrightarrow> 16 \<le> unat (x - last pre)"
      using payload_not_header [OF binv _ _ x, of "last pre"] c by simp
    ultimately show "hmem h' x = hmem h x" by (simp add: run set_outside)
  qed
qed


lemma split_head_fits:
  assumes inv: "heap_inv h (pre @ a # post) us"
    and need: "8 dvd unat need" "unat need + 24 \<le> unat (bsize (blk_at (hmem h) a))"
    and r: "r = a + 16 + need" and A: "A \<subseteq> insert r (set (pre @ post) \<union> us)"
    and a: "bsize (B a) = need"
    and c: "\<And>c. c \<in> set (pre @ post) \<union> us \<Longrightarrow> bsize (B c) = bsize (blk_at (hmem h) c)"
  shows "fits B (brk h) A a"
proof -
  let ?B = "blk_at (hmem h)" and ?A = "set (pre @ post) \<union> us"
  note binv = inv [unfolded heap_inv_def]
  note ar = split_arith [OF binv need, folded r]
  have e: "blk_end B a = unat r" using ar(1) a by (simp add: blk_end_def)
  have le: "unat r \<le> blk_end ?B a" using ar(1) need(2) by (simp add: blk_end_def)
  have fa: "fits ?B (brk h) ?A a" using binv by (rule binv_fits)
  have ec: "blk_end B c = blk_end ?B c" if "c \<in> ?A" for c using c [OF that] by (simp add: blk_end_def)
  have "wf_blk B (brk h) a" using fa e le a need(1) by (simp add: fits_def wf_blk_def)
  moreover have "c \<noteq> a \<and> (c < a \<longrightarrow> blk_end B c \<le> unat a) \<and> (a < c \<longrightarrow> blk_end B a \<le> unat c)"
    if "c \<in> A" for c
  proof (cases "c = r")
    case True
    with ar(4) e show ?thesis by auto
  next
    case False
    with that A have "c \<in> ?A" by auto
    with fa e ec le show ?thesis by (fastforce simp: fits_def)
  qed
  ultimately show ?thesis by (auto simp: fits_def)
qed

lemma malloc_take_inv:
  assumes inv: "heap_inv h (pre @ a # post) us"
    and need: "8 dvd unat need" "need \<le> bsize (blk_at (hmem h) a)"
  defines "h' \<equiv> malloc_take need (last (0 # pre)) a h"
  shows "(\<exists>fs. heap_inv h' fs (insert a us)) \<and> kept h h' us \<and> brk h' = brk h \<and>
    need \<le> bsize (blk_at (hmem h') a) \<and> unat (bsize (blk_at (hmem h') a)) < unat need + 24"
proof -
  let ?B = "blk_at (hmem h)"
  note binv = inv [unfolded heap_inv_def]
  have "unat need + 24 < 2 ^ 32"
    using need(2) binv_le [OF binv, of a] by (simp add: blk_end_def word_le_nat_alt)
  then have u: "unat (need + MIN_SPLIT) = unat need + 24"
    by (simp add: heap_consts unat_word_ariths)
  have nx: "bnext (?B a) = head_of post" using binv by (auto simp: binv_def intro: flist_next)
  show ?thesis
  proof (cases "need + MIN_SPLIT \<le> bsize (?B a)")
    case True
    then have need': "unat need + 24 \<le> unat (bsize (?B a))" using u by (simp add: word_le_nat_alt)
    define r where "r = a + 16 + need"
    define h2 where "h2 = split_heap need (last (0 # pre)) a h"
    define h3 where "h3 = h2\<lparr>hmem := merge_forward r (hmem h2)\<rparr>"
    note sp = split_heap_inv [OF inv need(1) need' r_def, folded h2_def]
    have run: "h' = h3\<lparr>hmem := set_magic a BLK_USED (set_next a 0 (hmem h3))\<rparr>"
      using True by (simp add: h'_def h3_def h2_def malloc_take_def split_heap_def Let_def
          r_def HDR_SIZE_def)
    obtain post' where p: "heap_inv h3 (pre @ r # post') us" "set post' \<subseteq> set post" "kept h2 h3 us"
      using merge_forward_inv [OF sp(1)] by (auto simp: h3_def)
    have sa: "bsize (blk_at (hmem h3) a) = need"
      using merge_forward_frame(1) [OF sp(5), of "hmem h2"] sp(4) by (simp add: h3_def)
    have "bsize (blk_at (hmem h3) c) = bsize (?B c)" if "c \<in> set (pre @ post) \<union> us" for c
    proof -
      have "c \<noteq> r"
        using that binv_distinct [of _ _ _ "pre @ r # post" us] sp(1) by (auto simp: heap_inv_def binv_def)
      then have "apart r c" using binv_apart [OF sp(1) [unfolded heap_inv_def], of r c] that by auto
      then show ?thesis using sp(7) [OF that] by (simp add: h3_def merge_forward_frame)
    qed
    then have fit: "fits (blk_at (hmem h3)) (brk h) (set (pre @ r # post') \<union> us) a"
      by (intro split_head_fits [OF inv need(1) need' r_def]) (use p(2) sa in auto)
    have "brk h3 = brk h" by (simp add: h3_def sp(3))
    with fit p(1) have m: "heap_inv h' (pre @ r # post') (insert a us)" "kept h3 h' us"
        "bsize (blk_at (hmem h') a) = need" "brk h' = brk h"
      using mark_used_inv [of h3 "pre @ r # post'" us a] sa by (simp_all add: run)
    moreover have "kept h h' us" using sp(2) p(3) m(2) kept_trans by blast
    ultimately show ?thesis by auto
  next
    case False
    define h2 where "h2 = unlink (last (0 # pre)) (head_of post) h"
    note un = unlink_inv [OF inv, folded h2_def]
    have run: "h' = h2\<lparr>hmem := set_magic a BLK_USED (set_next a 0 (hmem h2))\<rparr>"
      using False nx by (simp add: h'_def h2_def malloc_take_def Let_def)
    have "fits (blk_at (hmem h2)) (brk h2) (set (pre @ post) \<union> us) a"
      unfolding un(3) by (rule fits_agree [OF binv_fits [OF binv]]) (use un(5) in auto)
    from mark_used_inv [OF un(1) this, folded run]
    have "heap_inv h' (pre @ post) (insert a us)" "kept h2 h' us"
      "bsize (blk_at (hmem h') a) = bsize (?B a)" using un(5) by auto
    moreover have "brk h' = brk h" by (simp add: run un(3))
    moreover have "unat (bsize (?B a)) < unat need + 24" using False u by (simp add: word_le_nat_alt)
    ultimately show ?thesis using need(2) un(2) kept_trans by auto
  qed
qed

end
