(* ===== verification/Mv_Alloc.thy ===== *)
theory Mv_Alloc
  imports Mv_Heap_Inv
begin

text \<open>
  \<open>malloc\<close>, \<open>free\<close>, \<open>calloc\<close> and \<open>realloc\<close> against the heap invariant: growth of the break,
  the search, what an allocation returns and what it leaves alone, and the interface
  \<open>allocator\<close> through which the rest of the runtime uses them.
\<close>

text \<open>A task that never called \<^verbatim>\<open>sbrk\<close> has the break 0, which stands for the first heap page.\<close>

definition eff_brk :: "heap \<Rightarrow> u32" where
  "eff_brk h = (if brk h = 0 then PROGRAM_BASE + 0x1000 else brk h)"

definition heap_ok :: "heap \<Rightarrow> addr list \<Rightarrow> addr set \<Rightarrow> bool" where
  "heap_ok h fs us \<longleftrightarrow> binv (blk_at (hmem h)) (free_list h) (eff_brk h) fs us"

lemma eff_brk_heap_inv: "heap_inv h fs us \<Longrightarrow> eff_brk h = brk h"
  by (auto simp: heap_inv_def binv_def wf_brk_def eff_brk_def)

lemma heap_inv_ok: "heap_inv h fs us \<Longrightarrow> heap_ok h fs us"
  using eff_brk_heap_inv [of h fs us] by (simp add: heap_inv_def heap_ok_def)

lemma heap_ok_inv:
  assumes "heap_ok h fs us" "a \<in> set fs \<union> us"
  shows "heap_inv h fs us"
proof -
  have "wf_blk (blk_at (hmem h)) (eff_brk h) a"
    using assms binv_wf unfolding heap_ok_def by blast
  then have "brk h \<noteq> 0"
    by (auto simp: wf_blk_def eff_brk_def blk_end_def PROGRAM_BASE_def)
  with assms(1) show ?thesis by (simp add: heap_ok_def heap_inv_def eff_brk_def)
qed

lemma unat_align8: "unat (align8 n) = unat (n + 7) - unat (n + 7) mod 8"
proof -
  let ?y = "n + 7"
  have t: "take_bit 3 ?y = ?y AND 7" by (simp add: take_bit_eq_mask mask_eq_exp_minus_1)
  have "align8 n + take_bit 3 ?y = (?y AND NOT 7) OR (?y AND 7)"
    unfolding align8_def t by (rule disjunctive_add) (auto simp: bit_simps)
  also have "\<dots> = ?y" by (simp add: bit_eq_iff bit_simps) blast
  finally have "align8 n = ?y - take_bit 3 ?y" by (simp add: eq_diff_eq)
  moreover have "unat (take_bit 3 ?y) = unat ?y mod 8"
    by (simp add: take_bit_eq_mod unat_mod)
  moreover from this have "take_bit 3 ?y \<le> ?y" by (simp add: word_le_nat_alt)
  ultimately show ?thesis by (simp add: unat_diff_le)
qed

lemma align8_spec:
  assumes "unat n \<le> 0xFFFFFFF8"
  shows "8 dvd unat (align8 n)" "unat n \<le> unat (align8 n)" "unat (align8 n) < unat n + 8"
proof -
  have u: "unat (n + 7) = unat n + 7" using assms by (simp add: unat_word_ariths)
  have "unat (align8 n) = 8 * ((unat n + 7) div 8)"
    unfolding unat_align8 u by (simp add: minus_mod_eq_mult_div)
  then show "8 dvd unat (align8 n)" "unat n \<le> unat (align8 n)" "unat (align8 n) < unat n + 8"
    by simp_all
qed

lemma align8_aligned [simp]:
  assumes "8 dvd unat n" shows "align8 n = n"
proof -
  have "unat n \<le> 0xFFFFFFF8" using assms unat_lt_2p32 [of n] by (auto elim!: dvdE)
  from align8_spec [OF this] assms have "unat (align8 n) = unat n" by (auto elim!: dvdE)
  then show ?thesis by (simp add: word_unat_eq_iff)
qed

text \<open>What \<open>grow_heap\<close> does below the 4 GB wrap: it refuses, or it moves the break up and
  hands out zeroed memory from the old break on.\<close>

lemma grow_heap_cases:
  assumes k: "wf_brk (eff_brk h)" and g: "0 < unat g" "unat g \<le> 0xFFA00000"
  shows "grow_heap g h =
     (if unat (eff_brk h) + unat g \<le> 0x5C0000
      then (eff_brk h, h\<lparr>hmem := poke (hmem h) (eff_brk h) (replicate (unat g) 0), brk := eff_brk h + g\<rparr>)
      else (0, h))"
proof -
  have k': "0x501000 \<le> unat (eff_brk h)" "unat (eff_brk h) \<le> 0x5C0000"
    using k by (simp_all add: wf_brk_def)
  have u: "unat (eff_brk h + g) = unat (eff_brk h) + unat g"
    using k' g by (simp add: unat_word_ariths)
  then have lt: "\<not> eff_brk h + g \<le> eff_brk h" using g(1) unfolding word_le_nat_alt by linarith
  have lo: "\<not> eff_brk h + g < PROGRAM_BASE + 0x1000"
    using u k' unfolding word_less_nat_alt PROGRAM_BASE_def by simp
  have hi: "eff_brk h + g > USER_STACK_BASE \<longleftrightarrow> \<not> unat (eff_brk h) + unat g \<le> 0x5C0000"
    using u unfolding word_less_nat_alt USER_STACK_BASE_def by (simp add: not_le)
  have sb: "sys_sbrk g h =
     (if unat (eff_brk h) + unat g \<le> 0x5C0000
      then (eff_brk h, h\<lparr>hmem := poke (hmem h) (eff_brk h) (replicate (unat g) 0), brk := eff_brk h + g\<rparr>)
      else (- 1, h))"
  proof -
    have "fill_up (unat (eff_brk h + g - eff_brk h)) (eff_brk h) 0 (hmem h) =
        poke (hmem h) (eff_brk h) (replicate (unat g) 0)" by (simp add: fill_up_poke)
    then have "(if eff_brk h + g \<le> eff_brk h then hmem h
        else fill_up (unat (eff_brk h + g - eff_brk h)) (eff_brk h) 0 (hmem h)) =
        poke (hmem h) (eff_brk h) (replicate (unat g) 0)" by (simp only: lt if_False)
    moreover have "sys_sbrk g h = (if eff_brk h + g < PROGRAM_BASE + 0x1000 then (- 1, h)
      else if eff_brk h + g > USER_STACK_BASE then (- 1, h)
      else (eff_brk h, h\<lparr>hmem := (if eff_brk h + g \<le> eff_brk h then hmem h
        else fill_up (unat (eff_brk h + g - eff_brk h)) (eff_brk h) 0 (hmem h)), brk := eff_brk h + g\<rparr>))"
      by (simp only: sys_sbrk_def Let_def eff_brk_def)
    ultimately show ?thesis using lo hi by (simp only: if_False simp_thms split: if_split) blast
  qed
  have "sint (eff_brk h) = int (unat (eff_brk h))"
    using k' by (intro sint_small) simp
  with sb show ?thesis by (simp add: grow_heap_def)
qed


lemma blk_at_agree:
  assumes "\<And>x. unat (x - a) < 16 \<Longrightarrow> m' x = m x"
  shows "blk_at m' a = blk_at m a"
proof -
  have "m' (a + of_nat i) = m (a + of_nat i)" if "i < 16" for i
    using that by (intro assms) (simp add: unat_of_nat)
  from this [of 0] this [of 1] this [of 2] this [of 3] this [of 4] this [of 5] this [of 6] this [of 7]
    this [of 8] this [of 9] this [of 10] this [of 11] this [of 12] this [of 13] this [of 14] this [of 15]
  show ?thesis by (simp add: blk_at_def ld32_def add.assoc)
qed

lemma heap_brk_hmem: "h\<lparr>brk := k, hmem := m\<rparr> = h\<lparr>hmem := m, brk := k\<rparr>"
  by (cases h) simp

lemma growth_inv:
  assumes ok: "heap_ok h fs us" and g: "8 dvd unat g" "16 \<le> unat g" "unat (eff_brk h) + unat g \<le> 0x5C0000"
  defines "b \<equiv> eff_brk h"
  defines "h' \<equiv> h\<lparr>hmem := set_size b (g - 16) (poke (hmem h) b (replicate (unat g) 0)), brk := b + g\<rparr>"
  shows "heap_inv h' fs us" "kept h h' us" "fits (blk_at (hmem h')) (brk h') (set fs \<union> us) b"
    "\<And>c. c \<in> set fs \<union> us \<Longrightarrow> blk_at (hmem h') c = blk_at (hmem h) c" "\<forall>c \<in> set fs. c < b"
    "bsize (blk_at (hmem h') b) = g - 16"
proof -
  let ?B = "blk_at (hmem h)" and ?B' = "blk_at (hmem h')"
  note binv = ok [unfolded heap_ok_def, folded b_def]
  have wk: "wf_brk b" using binv by (rule binv_brk)
  have ub: "unat (b + g) = unat b + unat g" "unat b \<le> 0x5C0000"
    using g(3) by (simp_all add: b_def unat_word_ariths)
  have wk': "wf_brk (b + g)" using wk g ub by (simp add: wf_brk_def b_def dvd_add)
  have e: "blk_end ?B c \<le> unat b" if "c \<in> set fs \<union> us" for c
    using binv_wf [OF binv that] by (simp add: wf_blk_def)
  have same: "hmem h' x = hmem h x" if "unat x < unat b" for x
  proof -
    have "x < b" using that by (simp add: word_less_nat_alt)
    then have "unat (x - b) = 2 ^ 32 - (unat b - unat x)" by (rule unat_diff_gt)
    then have "unat g \<le> unat (x - b)" using g(3) ub(2) by (simp add: b_def)
    moreover have "16 \<le> unat (x - b)" using far_below [OF that ub(2)] .
    ultimately show ?thesis by (simp add: h'_def set_outside poke_outside)
  qed
  show blk: "?B' c = ?B c" if "c \<in> set fs \<union> us" for c
  proof (rule blk_at_agree)
    fix x :: addr assume x: "unat (x - c) < 16"
    have c: "unat c + 16 \<le> unat b" using e [OF that] by (simp add: blk_end_def)
    have "unat (c + (x - c)) = unat c + unat (x - c)"
      using x c ub(2) by (simp only: unat_word_ariths) simp
    then have "unat x = unat c + unat (x - c)" by simp
    then show "hmem h' x = hmem h x" using x c by (intro same) simp
  qed
  show sz: "bsize (?B' b) = g - 16" by (simp add: h'_def blk_at_sets)
  have "b \<le> b + g" using ub by (simp add: word_le_nat_alt)
  then have "binv ?B (free_list h) (b + g) fs us" using binv_grow [OF binv _ wk'] by simp
  then have "binv ?B' (free_list h) (b + g) fs us" by (rule binv_agree) (use blk in auto)
  then show "heap_inv h' fs us" by (simp add: heap_inv_def h'_def)
  have ug: "unat (g - 16) = unat g - 16" using g(2) by (simp add: unat_diff_le word_le_nat_alt)
  show "kept h h' us"
    using blk e unfolding kept_def in_payload_def by (auto intro!: same dest: less_le_trans)
  have lt: "c < b" if "c \<in> set fs \<union> us" for c
    using e [OF that] by (simp add: blk_end_def word_less_nat_alt)
  then show "\<forall>c \<in> set fs. c < b" by simp
  have "wf_blk ?B' (brk h') b"
    using wk g ug ub sz by (simp add: wf_blk_def wf_brk_def h'_def blk_end_def dvd_diff_nat)
  then show "fits ?B' (brk h') (set fs \<union> us) b"
    using lt e blk by (force simp: fits_def blk_end_def)
qed

section \<open>Searching the list, growing the heap\<close>

definition grow_nat :: "u32 \<Rightarrow> nat" where
  "grow_nat need = max 4096 (unat need + 16)"

lemma unat_grow_size:
  assumes "8 dvd unat need" "unat need \<le> 0xFF000000"
  shows "unat (grow_size need) = grow_nat need" "8 dvd unat (grow_size need)"
proof -
  have u: "unat (need + 16) = unat need + 16" using assms(2) by (simp add: unat_word_ariths)
  let ?g = "if need + HDR_SIZE < GROW_MIN then GROW_MIN else need + HDR_SIZE"
  have "unat ?g = grow_nat need"
    using u by (simp add: heap_consts word_less_nat_alt grow_nat_def)
  moreover from this have "8 dvd unat ?g" using assms(1) by (simp add: grow_nat_def max_def dvd_add)
  ultimately show "unat (grow_size need) = grow_nat need" "8 dvd unat (grow_size need)"
    by (simp_all only: grow_size_def Let_def align8_aligned)
qed

lemma find_fit_hit:
  assumes "flist (blk_at m) head fs" "\<exists>a \<in> set fs. need \<le> bsize (blk_at m a)"
  shows "\<exists>pre a post. fs = pre @ a # post \<and> need \<le> bsize (blk_at m a) \<and>
     find_fit m need head = Some (last (0 # pre), a)"
proof -
  obtain pre a post where fs: "fs = pre @ a # post" "need \<le> bsize (blk_at m a)"
      "\<forall>c \<in> set pre. bsize (blk_at m c) < need"
    using split_list_first_prop [OF assms(2)] by (metis not_le)
  then have "list_walk (\<lambda>c. bsize (blk_at m c) < need) m 0 head = Some (last (0 # pre), head_of (a # post))"
    using assms(1) by (intro list_walk_spec) auto
  then show ?thesis using fs by (auto simp: find_fit_def)
qed

lemma find_fit_miss:
  assumes "flist (blk_at m) head fs" "\<forall>a \<in> set fs. bsize (blk_at m a) < need"
  shows "find_fit m need head = Some (last (0 # fs), 0)"
  using list_walk_spec [of m head fs "[]" "\<lambda>c. bsize (blk_at m c) < need" 0] assms
  by (simp add: find_fit_def)

lemma malloc_search_hit:
  assumes ok: "heap_ok h fs us" and ex: "\<exists>a \<in> set fs. need \<le> bsize (blk_at (hmem h) a)"
  shows "\<exists>pre a post. fs = pre @ a # post \<and> need \<le> bsize (blk_at (hmem h) a) \<and>
     malloc_search need h = Some (last (0 # pre), a, h)"
proof -
  have fl: "flist (blk_at (hmem h)) (free_list h) fs" using ok by (simp add: heap_ok_def binv_def)
  obtain pre a post where f: "fs = pre @ a # post" "need \<le> bsize (blk_at (hmem h) a)"
      "find_fit (hmem h) need (free_list h) = Some (last (0 # pre), a)"
    using find_fit_hit [OF fl ex] by blast
  have "a \<noteq> 0" using fseg_nonnull [OF fl] f(1) by simp
  then have "malloc_search need h = Some (last (0 # pre), a, h)"
    using f(3) by (subst malloc_search.simps) simp
  with f show ?thesis by blast
qed

text \<open>The two ways the loop ends: the break cannot move far enough and nothing has changed, or
  a block of the list is large enough.\<close>

lemma malloc_search_ok:
  assumes ok: "heap_ok h fs us" and need: "8 dvd unat need" "unat need \<le> 0xFF000000"
  shows "malloc_search need h = Some (0, 0, h) \<and> (\<forall>a \<in> set fs. bsize (blk_at (hmem h) a) < need) \<and>
        unat (eff_brk h) + grow_nat need > 0x5C0000 \<or>
      (\<exists>pre a post h'. malloc_search need h = Some (last (0 # pre), a, h') \<and> heap_inv h' (pre @ a # post) us \<and>
        need \<le> bsize (blk_at (hmem h') a) \<and> kept h h' us \<and>
        unat (brk h') \<le> unat (eff_brk h) + grow_nat need)"
    (is "?fail \<or> ?found")
proof (cases "\<exists>a \<in> set fs. need \<le> bsize (blk_at (hmem h) a)")
  case True
  then have inv: "heap_inv h fs us" using ok heap_ok_inv by blast
  with malloc_search_hit [OF ok True] show ?thesis
    using eff_brk_heap_inv [OF inv] by (metis kept_refl le_add1)
next
  case False
  then have small: "\<forall>a \<in> set fs. bsize (blk_at (hmem h) a) < need" by auto
  let ?g = "grow_size need" and ?b = "eff_brk h"
  note g = unat_grow_size [OF need]
  have fl: "flist (blk_at (hmem h)) (free_list h) fs" using ok by (simp add: heap_ok_def binv_def)
  have wk: "wf_brk ?b" using ok by (simp add: heap_ok_def binv_def)
  have miss: "find_fit (hmem h) need (free_list h) = Some (last (0 # fs), 0)"
    using fl small by (rule find_fit_miss)
  have "0 < unat ?g" "unat ?g \<le> 0xFFA00000" using g(1) need(2) by (simp_all add: grow_nat_def)
  note grow = grow_heap_cases [OF wk this]
  show ?thesis
  proof (cases "unat ?b + unat ?g \<le> 0x5C0000")
    case False
    then have "grow_heap ?g h = (0, h)" using grow by simp
    with miss have "malloc_search need h = Some (0, 0, h)"
      by (subst malloc_search.simps) (simp del: last.simps)
    with small False g(1) show ?thesis by simp
  next
    case True
    have g16: "16 \<le> unat ?g" "unat (?g - 16) = unat ?g - 16"
      using g(1) by (simp_all add: grow_nat_def unat_diff_le word_le_nat_alt)
    define h1 where "h1 = h\<lparr>hmem := set_size ?b (?g - 16) (poke (hmem h) ?b (replicate (unat ?g) 0)), brk := ?b + ?g\<rparr>"
    note gi = growth_inv [OF ok g(2) g16(1) True, folded h1_def]
    obtain h2 where h2: "list_insert ?b h1 = Some h2" "heap_inv h2 (fs @ [?b]) us" "kept h1 h2 us"
        "\<forall>a \<in> insert ?b (set fs \<union> us). bsize (blk_at (hmem h2) a) = bsize (blk_at (hmem h1) a)"
        "brk h2 = brk h1"
      using list_insert_inv [of h1 fs "[]" us ?b] gi by auto
    have "?b \<noteq> 0" using wk by (auto simp: wf_brk_def)
    moreover have "grow_heap ?g h = (?b, h\<lparr>hmem := poke (hmem h) ?b (replicate (unat ?g) 0), brk := ?b + ?g\<rparr>)"
      using grow True by simp
    ultimately have run: "malloc_search need h = malloc_search need h2"
      using miss h2(1) by (subst malloc_search.simps) (simp add: h1_def HDR_SIZE_def Let_def heap_brk_hmem del: last.simps)
    have "need \<le> bsize (blk_at (hmem h2) ?b)"
      using h2(4) gi(6) g16 g(1) by (simp add: word_le_nat_alt grow_nat_def)
    then obtain pre a post where p: "fs @ [?b] = pre @ a # post" "need \<le> bsize (blk_at (hmem h2) a)"
        "malloc_search need h2 = Some (last (0 # pre), a, h2)"
      using malloc_search_hit [OF heap_inv_ok [OF h2(2)], of need] by auto
    have "kept h h2 us" using gi(2) h2(3) by (rule kept_trans)
    moreover have "unat (brk h2) \<le> unat ?b + grow_nat need"
      using h2(5) g(1) True by (simp add: h1_def unat_word_ariths)
    ultimately show ?thesis using p h2(2) run by metis
  qed
qed


section \<open>malloc and free keep the invariant\<close>

lemma malloc_need:
  assumes "unat sz \<le> 0xFEFFFFF8"
  defines "need \<equiv> align8 (if sz = 0 then 1 else sz)"
  shows "8 dvd unat need" "unat need \<le> 0xFF000000" "unat sz \<le> unat need" "8 \<le> unat need"
    "unat need \<le> max 8 (unat sz + 7)"
proof -
  let ?s = "if sz = 0 then 1 else sz :: u32"
  have s: "unat ?s = max 1 (unat sz)" using unat_gt_0 [of sz] by (auto simp: max_def Suc_le_eq)
  then have "unat ?s \<le> 0xFFFFFFF8" using assms(1) by simp
  note a = align8_spec [OF this, folded need_def]
  show "8 dvd unat need" "unat need \<le> 0xFF000000" "unat sz \<le> unat need"
    "unat need \<le> max 8 (unat sz + 7)" using a s assms(1) by auto
  show "8 \<le> unat need" using a(1,2) s by (intro dvd_imp_le) auto
qed

lemma malloc_ok:
  assumes ok: "heap_ok h fs us" and n: "8 dvd unat need" "unat need \<le> 0xFF000000"
    and need_def: "need = align8 (if sz = 0 then 1 else sz)"
  shows "malloc sz h = Some (0, h) \<and> (\<forall>a \<in> set fs. bsize (blk_at (hmem h) a) < need) \<and>
        unat (eff_brk h) + grow_nat need > 0x5C0000 \<or>
      (\<exists>a h' fs'. malloc sz h = Some (a + 16, h') \<and> a \<notin> us \<and> heap_inv h' fs' (insert a us) \<and>
        need \<le> bsize (blk_at (hmem h') a) \<and> unat (bsize (blk_at (hmem h') a)) < unat need + 24 \<and>
        kept h h' us \<and> unat (brk h') \<le> unat (eff_brk h) + grow_nat need)"
proof -
  from malloc_search_ok [OF ok n(1,2)] show ?thesis
  proof (elim disjE conjE exE)
    assume "malloc_search need h = Some (0, 0, h)" "\<forall>a \<in> set fs. bsize (blk_at (hmem h) a) < need"
      "unat (eff_brk h) + grow_nat need > 0x5C0000"
    then show ?thesis by (simp add: malloc_def need_def)
  next
    fix pre a post h1
    assume s: "malloc_search need h = Some (last (0 # pre), a, h1)" "heap_inv h1 (pre @ a # post) us"
      "need \<le> bsize (blk_at (hmem h1) a)" "kept h h1 us" "unat (brk h1) \<le> unat (eff_brk h) + grow_nat need"
    let ?h = "malloc_take need (last (0 # pre)) a h1"
    note t = malloc_take_inv [OF s(2) n(1) s(3)]
    have "a \<noteq> 0" "a \<notin> us"
      using s(2) by (auto simp: heap_inv_def binv_def dest: fseg_nonnull)
    moreover from this s(1) have "malloc sz h = Some (a + 16, ?h)"
      by (simp add: malloc_def need_def HDR_SIZE_def del: last.simps)
    moreover have "kept h ?h us" using s(4) t kept_trans by blast
    ultimately show ?thesis using t s(5) by auto
  qed
qed

lemma sorted_split:
  fixes b :: "'a :: linorder"
  assumes "sorted_wrt (<) fs" "b \<notin> set fs"
  shows "\<exists>ls rs. fs = ls @ rs \<and> (\<forall>a \<in> set ls. a < b) \<and> (\<forall>a \<in> set rs. b < a)"
  using assms
proof (induction fs)
  case (Cons x xs)
  show ?case
  proof (cases "x < b")
    case True
    from Cons obtain ls rs where "xs = ls @ rs" "\<forall>a \<in> set ls. a < b" "\<forall>a \<in> set rs. b < a" by auto
    with True show ?thesis by (intro exI [of _ "x # ls"] exI [of _ rs]) auto
  next
    case False
    with Cons.prems have "\<forall>a \<in> set (x # xs). b < a" by auto
    then show ?thesis by (intro exI [of _ "[]"] exI [of _ "x # xs"]) simp
  qed
qed simp

lemma merge_forward_magic:
  "bmagic (blk_at (merge_forward r m) r) = bmagic (blk_at m r)"
  by (simp add: merge_forward_def Let_def blk_at_sets)

lemma list_insert_magic:
  assumes "list_insert b h = Some h'" "heap_inv h' (ls @ b # rs) us"
  shows "bmagic (blk_at (hmem h') b) = BLK_FREE"
  using assms by (simp add: heap_inv_def binv_def)

text \<open>\<open>free\<close> of a block that was handed out: it leaves the used blocks, every other used block
  keeps its header and its bytes, and the header it leaves behind says it is free, even when
  the block itself has been merged into its neighbour.\<close>

lemma free_used:
  assumes inv: "heap_inv h fs us" and b: "b \<in> us"
  shows "\<exists>h' fs'. free (b + 16) h = Some h' \<and> heap_inv h' fs' (us - {b}) \<and> brk h' = brk h \<and>
     kept h h' (us - {b}) \<and> bmagic (blk_at (hmem h') b) = BLK_FREE"
proof -
  note binv = inv [unfolded heap_inv_def]
  have used: "bmagic (blk_at (hmem h) b) = BLK_USED" using binv b by (simp add: binv_def)
  have nb: "b \<notin> set fs" "sorted_wrt (<) fs" using binv b by (auto simp: binv_def)
  obtain ls rs where fs: "fs = ls @ rs" "\<forall>a \<in> set ls. a < b" "\<forall>a \<in> set rs. b < a"
    using sorted_split [OF nb(2,1)] by blast
  have inv': "heap_inv h (ls @ rs) (us - {b})"
    using binv_drop_used [OF binv] fs(1) by (simp add: heap_inv_def)
  have "fits (blk_at (hmem h)) (brk h) (set (ls @ rs) \<union> (us - {b})) b"
    using binv_used_fits [OF binv b] fs(1) by simp
  from list_insert_inv [OF inv' this fs(2,3)] obtain h1 where h1: "list_insert b h = Some h1"
      "heap_inv h1 (ls @ b # rs) (us - {b})" "brk h1 = brk h" "kept h h1 (us - {b})"
    by blast
  note binv1 = h1(2) [unfolded heap_inv_def]
  let ?m = "hmem h1" and ?prev = "last (0 # ls)"
  have fl: "flist (blk_at ?m) (free_list h1) (ls @ b # rs)" using binv1 by (simp add: binv_def)
  have mg: "bmagic (blk_at ?m b) = BLK_FREE" by (rule list_insert_magic [OF h1(1,2)])
  have "list_walk (\<lambda>c. c \<noteq> b) ?m 0 (free_list h1) = Some (?prev, head_of (b # rs))"
    using fl fs(2) by (intro list_walk_spec) auto
  then have walk: "walk_to ?m b (free_list h1) = Some ?prev" by (simp add: walk_to_def)
  have b0: "b + 16 \<noteq> 0"
  proof -
    have "blk_end (blk_at (hmem h)) b \<le> 0x5C0000" using binv_le [OF binv] b by simp
    then have "unat (b + 16) = unat b + 16" by (simp add: blk_end_def unat_word_ariths)
    then show ?thesis by auto
  qed
  note run = used h1(1) walk b0
  show ?thesis
  proof (cases "?prev \<noteq> 0 \<and> ?prev + HDR_SIZE + bsize (blk_at ?m ?prev) = b")
    case True
    then have "ls \<noteq> []" by auto
    then obtain pre p where ls: "ls = pre @ [p]" by (metis rev_exhaust)
    have nxp: "bnext (blk_at ?m p) = b" using flist_next [of _ _ pre p "b # rs"] fl ls by simp
    have b1: "b \<noteq> 0" using fseg_nonnull [OF fl, of b] by simp
    have merged: "merge_forward p ?m =
        (let m1 = set_size p (bsize (blk_at ?m p) + (HDR_SIZE + bsize (blk_at ?m b))) ?m
         in set_next p (bnext (blk_at m1 b)) m1)"
      using True nxp b1 ls by (simp add: merge_forward_def)
    let ?h2 = "h1\<lparr>hmem := merge_forward p ?m\<rparr>"
    let ?h3 = "?h2\<lparr>hmem := merge_forward p (hmem ?h2)\<rparr>"
    have "heap_inv h1 (pre @ p # b # rs) (us - {b})" using h1(2) ls by simp
    from merge_forward_inv [OF this] obtain q where q: "heap_inv ?h2 (pre @ p # q) (us - {b})"
      "kept h1 ?h2 (us - {b})" by blast
    from merge_forward_inv [OF q(1)] obtain q' where q': "heap_inv ?h3 (pre @ p # q') (us - {b})"
      "kept ?h2 ?h3 (us - {b})" by blast
    have "free (b + 16) h = Some ?h3"
      using True run ls by (simp add: free_def HDR_SIZE_def merged Let_def)
    moreover have "apart p b" using binv_apart [OF binv1, of p b] binv_distinct [OF binv1] ls by auto
    then have "bmagic (blk_at (hmem ?h3) b) = BLK_FREE" using mg by (simp add: merge_forward_frame)
    moreover have "kept h ?h3 (us - {b})" using h1(4) q(2) q'(2) kept_trans by blast
    ultimately show ?thesis using q'(1) h1(3) by fastforce
  next
    case False
    let ?h2 = "h1\<lparr>hmem := merge_forward b ?m\<rparr>"
    obtain q where q: "heap_inv ?h2 (ls @ b # q) (us - {b})" "kept h1 ?h2 (us - {b})"
      using merge_forward_inv [OF h1(2)] by blast
    have "free (b + 16) h = Some ?h2"
      using False run by (auto simp: free_def HDR_SIZE_def Let_def)
    moreover have "bmagic (blk_at (hmem ?h2) b) = BLK_FREE"
      using mg by (simp add: merge_forward_magic)
    moreover have "kept h ?h2 (us - {b})" using h1(4) q(2) kept_trans by blast
    ultimately show ?thesis using q(1) h1(3) by fastforce
  qed
qed

lemma free_unused:
  "bmagic (blk_at (hmem h) b) \<noteq> BLK_USED \<Longrightarrow> free (b + 16) h = Some h"
  by (simp add: free_def HDR_SIZE_def Let_def)

section \<open>Pointers, capacities and what an operation leaves alone\<close>

definition hdr :: "addr \<Rightarrow> addr" where "hdr p = p - 16"

definition cap :: "heap \<Rightarrow> addr \<Rightarrow> nat" where
  "cap h p = unat (bsize (blk_at (hmem h) (hdr p)))"

definition live :: "heap \<Rightarrow> addr set \<Rightarrow> bool" where
  "live h L \<longleftrightarrow> (\<exists>fs. heap_ok h fs (hdr ` L))"

definition same_data :: "heap \<Rightarrow> heap \<Rightarrow> addr set \<Rightarrow> bool" where
  "same_data h h' L \<longleftrightarrow> (\<forall>p \<in> L. cap h' p = cap h p \<and>
     (\<forall>i < cap h p. hmem h' (p + of_nat i) = hmem h (p + of_nat i)))"

lemma hdr_inj [simp]: "hdr p = hdr q \<longleftrightarrow> p = q"
  by (simp add: hdr_def)

lemma hdr_add [simp]: "hdr (a + 16) = a" "hdr p + 16 = p"
  by (simp_all add: hdr_def)

lemma hdr_image: "hdr ` (L - {p}) = hdr ` L - {hdr p}" "hdr p \<in> hdr ` L \<longleftrightarrow> p \<in> L"
  by (auto simp: image_iff)

lemma live_inv:
  assumes "live h L" "p \<in> L"
  shows "\<exists>fs. heap_inv h fs (hdr ` L)"
  using assms heap_ok_inv [of h _ "hdr ` L" "hdr p"] unfolding live_def by blast

lemma live_arith:
  assumes "live h L" "p \<in> L"
  shows "unat p = unat (hdr p) + 16" "unat p + cap h p \<le> 0x5C0000" "0x501010 \<le> unat p" "8 dvd unat p"
    "blk_end (blk_at (hmem h)) (hdr p) = unat p + cap h p"
proof -
  obtain fs where inv: "binv (blk_at (hmem h)) (free_list h) (brk h) fs (hdr ` L)"
    using live_inv [OF assms] by (auto simp: heap_inv_def)
  have le: "blk_end (blk_at (hmem h)) (hdr p) \<le> 0x5C0000" using binv_le [OF inv] assms(2) by blast
  have wf: "wf_blk (blk_at (hmem h)) (brk h) (hdr p)" using binv_wf [OF inv] assms(2) by blast
  have "unat (hdr p + 16) = unat (hdr p) + 16"
    using le by (simp only: unat_word_ariths blk_end_def) simp
  then show u: "unat p = unat (hdr p) + 16" by simp
  then show e: "blk_end (blk_at (hmem h)) (hdr p) = unat p + cap h p" by (simp add: blk_end_def cap_def)
  show "unat p + cap h p \<le> 0x5C0000" using le e by simp
  show "0x501010 \<le> unat p" using wf u by (simp add: wf_blk_def)
  have "8 dvd unat (hdr p)" using wf by (simp add: wf_blk_def)
  then show "8 dvd unat p" unfolding u by (simp add: dvd_add)
qed

lemma live_off:
  assumes "live h L" "p \<in> L" "i < cap h p"
  shows "unat (p + of_nat i) = unat p + i" "in_payload (blk_at (hmem h)) (hdr p) (p + of_nat i)"
proof -
  note a = live_arith [OF assms(1,2)]
  show u: "unat (p + of_nat i) = unat p + i"
    using a(2) assms(3) by (simp add: unat_word_ariths unat_of_nat)
  then show "in_payload (blk_at (hmem h)) (hdr p) (p + of_nat i)"
    using a assms(3) by (simp add: in_payload_def)
qed

lemma live_disjoint:
  assumes "live h L" "p \<in> L" "q \<in> L" "p \<noteq> q"
  shows "unat p + cap h p \<le> unat (hdr q) \<or> unat q + cap h q \<le> unat (hdr p)"
proof -
  obtain fs where inv: "binv (blk_at (hmem h)) (free_list h) (brk h) fs (hdr ` L)"
    using live_inv [OF assms(1,2)] by (auto simp: heap_inv_def)
  have "hdr p < hdr q \<or> hdr q < hdr p" using assms(4) by (metis hdr_inj linorder_neqE)
  with inv assms live_arith(5) [OF assms(1,2)] live_arith(5) [OF assms(1,3)] show ?thesis
    using binv_end [OF inv, of "hdr p" "hdr q"] binv_end [OF inv, of "hdr q" "hdr p"] by auto
qed

lemma live_distance:
  assumes "live h L" "p \<in> L" "q \<in> L" "p \<noteq> q"
  shows "cap h p \<le> unat (q - p)"
proof (cases "p < q")
  case True
  then have "unat (q - p) = unat q - unat p" "unat p < unat q"
    by (simp_all add: unat_diff_le order_less_imp_le) (simp add: word_less_nat_alt)
  with live_disjoint [OF assms] live_arith(1) [OF assms(1,2)] live_arith(1) [OF assms(1,3)]
  show ?thesis by auto
next
  case False
  then have "q < p" using assms(4) by simp
  then have "unat (q - p) = 2 ^ 32 - (unat p - unat q)" by (rule unat_diff_gt)
  with live_arith(2) [OF assms(1,2)] show ?thesis by simp
qed

lemma same_data_refl [simp]: "same_data h h L"
  by (simp add: same_data_def)

lemma same_data_trans: "same_data h h1 L \<Longrightarrow> same_data h1 h2 L \<Longrightarrow> same_data h h2 L"
  by (simp add: same_data_def)

lemma same_data_mono: "same_data h h' L \<Longrightarrow> K \<subseteq> L \<Longrightarrow> same_data h h' K"
  by (auto simp: same_data_def)

lemma kept_same:
  assumes "live h L" "kept h h' (hdr ` K)" "K \<subseteq> L"
  shows "same_data h h' K"
  unfolding same_data_def
proof (intro ballI conjI allI impI)
  fix p assume p: "p \<in> K"
  then have k: "blk_at (hmem h') (hdr p) = blk_at (hmem h) (hdr p)"
      "\<And>x. in_payload (blk_at (hmem h)) (hdr p) x \<Longrightarrow> hmem h' x = hmem h x"
    using assms(2) by (auto simp: kept_def)
  show "cap h' p = cap h p" using k(1) by (simp add: cap_def)
  show "hmem h' (p + of_nat i) = hmem h (p + of_nat i)" if "i < cap h p" for i
    using k(2) live_off(2) [OF assms(1) _ that] p assms(3) by blast
qed

section \<open>The operations, in terms of pointers\<close>

lemma malloc_cases:
  assumes l: "live h L" and need: "8 dvd unat need" "unat need \<le> 0xFF000000"
    "need = align8 (if sz = 0 then 1 else sz)"
  obtains (none) "malloc sz h = Some (0, h)" "unat (eff_brk h) + grow_nat need > 0x5C0000"
  | (some) p h' where "malloc sz h = Some (p, h')" "p \<noteq> 0" "p \<notin> L" "live h' (insert p L)"
      "unat need \<le> cap h' p" "cap h' p < unat need + 24" "same_data h h' L"
      "unat (eff_brk h') \<le> unat (eff_brk h) + grow_nat need"
proof -
  obtain fs where ok: "heap_ok h fs (hdr ` L)" using l by (auto simp: live_def)
  from malloc_ok [OF ok need] consider
    "malloc sz h = Some (0, h)" "unat (eff_brk h) + grow_nat need > 0x5C0000"
  | a h' fs' where "malloc sz h = Some (a + 16, h')" "a \<notin> hdr ` L" "heap_inv h' fs' (insert a (hdr ` L))"
      "need \<le> bsize (blk_at (hmem h') a)" "unat (bsize (blk_at (hmem h') a)) < unat need + 24"
      "kept h h' (hdr ` L)" "unat (brk h') \<le> unat (eff_brk h) + grow_nat need"
    by blast
  then show ?thesis
  proof cases
    case 1
    then show ?thesis by (rule none)
  next
    case m: (2 a h' fs')
    have l': "live h' (insert (a + 16) L)"
      using heap_inv_ok [OF m(3)] by (auto simp: live_def)
    have "a + 16 \<noteq> 0" using live_arith(3) [OF l', of "a + 16"] by auto
    moreover have "a + 16 \<notin> L" using m(2) by (metis hdr_add(1) image_eqI)
    moreover have "unat need \<le> cap h' (a + 16)" "cap h' (a + 16) < unat need + 24"
      using m(4,5) by (simp_all add: cap_def word_le_nat_alt)
    ultimately show ?thesis
      using some m(1,7) l' kept_same [OF l m(6)] eff_brk_heap_inv [OF m(3)] by auto
  qed
qed

lemma malloc_live:
  assumes l: "live h L" and sz: "unat sz \<le> 0xFEFFFFF8"
  shows "\<exists>p h'. malloc sz h = Some (p, h') \<and>
     (if p = 0 then h' = h
      else p \<notin> L \<and> live h' (insert p L) \<and> unat sz \<le> cap h' p \<and> cap h' p < max 8 (unat sz + 7) + 24 \<and>
        same_data h h' L)"
proof -
  note n = malloc_need [OF sz]
  from l n(1,2) refl show ?thesis
  proof (cases rule: malloc_cases)
    case none
    then show ?thesis by auto
  next
    case (some p h')
    with n(3,5) show ?thesis by auto
  qed
qed

lemma free_live:
  assumes l: "live h L" and p: "p \<in> L"
  shows "\<exists>h'. free p h = Some h' \<and> live h' (L - {p}) \<and> same_data h h' (L - {p}) \<and> free p h' = Some h'"
proof -
  obtain fs where inv: "heap_inv h fs (hdr ` L)" using live_inv [OF l p] by blast
  obtain h' fs' where f: "free p h = Some h'" "heap_inv h' fs' (hdr ` L - {hdr p})"
      "kept h h' (hdr ` L - {hdr p})" "bmagic (blk_at (hmem h') (hdr p)) = BLK_FREE"
    using free_used [OF inv, of "hdr p"] p by (auto simp del: image_iff)
  have "live h' (L - {p})" using heap_inv_ok [OF f(2)] by (auto simp: live_def hdr_image)
  moreover have "same_data h h' (L - {p})" using f(3) l by (intro kept_same) (auto simp: hdr_image)
  moreover have "free p h' = Some h'" using free_unused [of h' "hdr p"] f(4) by (simp add: heap_consts)
  ultimately show ?thesis using f(1) by blast
qed

text \<open>A store inside a live block.\<close>

lemma write_live:
  fixes v :: u8
  assumes l: "live h L" and p: "p \<in> L" and i: "i < cap h p"
  defines "h' \<equiv> h\<lparr>hmem := (hmem h)(p + of_nat i := v)\<rparr>"
  shows "live h' L" "same_data h h' (L - {p})" "\<And>q. q \<in> L \<Longrightarrow> cap h' q = cap h q"
proof -
  obtain fs where inv: "binv (blk_at (hmem h)) (free_list h) (brk h) fs (hdr ` L)"
    using live_inv [OF l p] by (auto simp: heap_inv_def)
  have blk: "blk_at (hmem h') a = blk_at (hmem h) a" if "a \<in> set fs \<union> hdr ` L" for a
  proof (rule blk_at_agree)
    fix x :: addr assume "unat (x - a) < 16"
    moreover have "16 \<le> unat (p + of_nat i - a)"
      using payload_not_header [OF inv that _ live_off(2) [OF l p i]] p by simp
    ultimately show "hmem h' x = hmem h x" by (auto simp: h'_def)
  qed
  have "binv (blk_at (hmem h')) (free_list h) (brk h) fs (hdr ` L)"
    using inv by (rule binv_agree) (use blk in auto)
  then have "heap_inv h' fs (hdr ` L)" by (simp add: heap_inv_def h'_def)
  then show l': "live h' L" using heap_inv_ok live_def by blast
  show c: "cap h' q = cap h q" if "q \<in> L" for q
    using blk [of "hdr q"] that by (simp add: cap_def)
  have "hmem h' (q + of_nat j) = hmem h (q + of_nat j)" if q: "q \<in> L" "q \<noteq> p" "j < cap h q" for q j
  proof -
    have "unat (q + of_nat j) \<noteq> unat (p + of_nat i)"
      using live_disjoint [OF l p q(1)] live_off(1) [OF l p i] live_off(1) [OF l q(1,3)]
        live_arith(1) [OF l p] live_arith(1) [OF l q(1)] i q by auto
    then have "q + of_nat j \<noteq> p + of_nat i" by metis
    then show ?thesis by (simp add: h'_def)
  qed
  with c show "same_data h h' (L - {p})" by (auto simp: same_data_def)
qed

lemma poke_live:
  assumes "live h L" "p \<in> L" "i + length bs \<le> cap h p"
  shows "live (h\<lparr>hmem := poke (hmem h) (p + of_nat i) bs\<rparr>) L \<and>
     same_data h (h\<lparr>hmem := poke (hmem h) (p + of_nat i) bs\<rparr>) (L - {p}) \<and>
     (\<forall>q \<in> L. cap (h\<lparr>hmem := poke (hmem h) (p + of_nat i) bs\<rparr>) q = cap h q)"
  using assms
proof (induction bs arbitrary: h i)
  case Nil
  then show ?case by simp
next
  case (Cons b bs)
  have i: "i < cap h p" using Cons.prems(3) by simp
  define h1 where "h1 = h\<lparr>hmem := (hmem h)(p + of_nat i := b)\<rparr>"
  define h2 where "h2 = h1\<lparr>hmem := poke (hmem h1) (p + of_nat (Suc i)) bs\<rparr>"
  note w = write_live [OF Cons.prems(1,2) i, where v = b, folded h1_def]
  have "Suc (length bs) \<le> 2 ^ 32"
    using Cons.prems(3) live_arith(2) [OF Cons.prems(1,2)] by simp
  then have eq: "h\<lparr>hmem := poke (hmem h) (p + of_nat i) (b # bs)\<rparr> = h2"
    by (simp add: poke_Cons h1_def h2_def ac_simps)
  have "Suc i + length bs \<le> cap h1 p" using w(3) [OF Cons.prems(2)] Cons.prems(3) by simp
  from Cons.IH [OF w(1) Cons.prems(2) this, folded h2_def]
  show ?case unfolding eq using same_data_trans [OF w(2)] w(3) by simp
qed

lemma malloc_none_or:
  assumes "live h L" "unat sz \<le> 0xFEFFFFF8"
  obtains "malloc sz h = Some (0, h)"
  | p h' where "malloc sz h = Some (p, h')" "p \<noteq> 0" "p \<notin> L" "live h' (insert p L)" "unat sz \<le> cap h' p"
      "same_data h h' L"
  using malloc_live [OF assms] by (auto split: if_splits)

lemma calloc_overflow:
  assumes "unat count * unat sz \<ge> 2 ^ 32"
  shows "calloc count sz h = Some (0, h)"
proof -
  have c: "0 < unat count" using assms by (cases "unat count") auto
  have "unat sz > 0xFFFFFFFF div unat count"
  proof (rule ccontr)
    assume "\<not> ?thesis"
    then have "unat sz * unat count \<le> 0xFFFFFFFF"
      using c by (simp add: not_less less_eq_div_iff_mult_less_eq)
    with assms show False by (simp add: mult.commute)
  qed
  then have "sz > 0xFFFFFFFF div count" by (simp add: word_less_nat_alt unat_div)
  moreover have "count \<noteq> 0" using c by auto
  ultimately show ?thesis by (simp add: calloc_def)
qed

lemma calloc_live:
  assumes l: "live h L" and n: "unat count * unat sz \<le> 0xFEFFFFF8"
  shows "\<exists>p h'. calloc count sz h = Some (p, h') \<and>
     (if p = 0 then h' = h
      else p \<notin> L \<and> live h' (insert p L) \<and> unat count * unat sz \<le> cap h' p \<and>
        bytes_at (hmem h') p (unat count * unat sz) = replicate (unat count * unat sz) 0 \<and>
        same_data h h' L)"
proof -
  have u: "unat (count * sz) = unat count * unat sz" using n by (simp add: unat_word_ariths)
  have "\<not> (count \<noteq> 0 \<and> sz > 0xFFFFFFFF div count)"
  proof (cases "count = 0")
    case False
    then have "0 < unat count" by (simp add: unat_gt_0)
    then have "unat sz \<le> 0xFFFFFFFF div unat count"
      using n by (simp add: less_eq_div_iff_mult_less_eq mult.commute)
    then show ?thesis by (simp add: word_less_nat_alt unat_div)
  qed simp
  then have run: "calloc count sz h = Option.bind (malloc (count * sz) h) (\<lambda>(p, h1).
      if p \<noteq> 0 then Some (p, h1\<lparr>hmem := snd (memset p 0 (count * sz) (hmem h1))\<rparr>) else Some (p, h1))"
    by (simp only: calloc_def Let_def if_False)
  have "unat (count * sz) \<le> 0xFEFFFFF8" using u n by simp
  from l this show ?thesis
  proof (cases rule: malloc_none_or)
    case 1
    with run show ?thesis by auto
  next
    case (2 p h1)
    let ?bs = "replicate (unat (count * sz)) 0 :: u8 list"
    let ?h = "h1\<lparr>hmem := poke (hmem h1) p ?bs\<rparr>"
    have "calloc count sz h = Some (p, ?h)" using run 2 by (simp add: memset_def fill_up_poke)
    moreover have "live ?h (insert p L)" "same_data h1 ?h (insert p L - {p})" "cap ?h p = cap h1 p"
      using poke_live [OF 2(4), of p 0 ?bs] 2(5) by auto
    moreover have "bytes_at (hmem ?h) p (length ?bs) = ?bs"
      using bytes_at_poke [of ?bs "hmem h1" p] by simp
    moreover have "same_data h ?h L"
      using same_data_trans [OF 2(6), of ?h] calculation(3) 2(3) by simp
    ultimately show ?thesis using 2 u by auto
  qed
qed

text \<open>\<open>realloc\<close> of a live block: it may fail and change nothing, keep the block, or move it;
  the bytes that fit are kept in every case.\<close>

lemma realloc_live:
  assumes l: "live h L" and p: "p \<in> L" and sz: "0 < unat sz" "unat sz \<le> 0xFEFFFFF8"
  shows "\<exists>q h'. realloc p sz h = Some (q, h') \<and>
     (if q = 0 then h' = h
      else (q = p \<or> q \<notin> L) \<and> live h' (insert q (L - {p})) \<and> unat sz \<le> cap h' q \<and>
        (\<forall>i < min (cap h p) (unat sz). hmem h' (q + of_nat i) = hmem h (p + of_nat i)) \<and>
        same_data h h' (L - {p}))"
proof -
  have nz: "p \<noteq> 0" "sz \<noteq> 0" using live_arith(3) [OF l p] sz by auto
  obtain fs where inv: "heap_inv h fs (hdr ` L)" using live_inv [OF l p] by blast
  have used: "bmagic (blk_at (hmem h) (hdr p)) = BLK_USED"
    using inv p by (simp add: heap_inv_def binv_def)
  have a8: "unat sz \<le> unat (align8 sz)" using sz by (intro align8_spec) simp
  let ?sz = "bsize (blk_at (hmem h) (hdr p))"
  show ?thesis
  proof (cases "align8 sz \<le> ?sz")
    case True
    then have "realloc p sz h = Some (p, h)"
      using nz used by (simp add: realloc_def Let_def HDR_SIZE_def hdr_def)
    moreover have "unat sz \<le> cap h p" using True a8 by (simp add: cap_def word_le_nat_alt)
    ultimately show ?thesis using nz l p by (simp add: insert_absorb)
  next
    case False
    have run: "realloc p sz h = Option.bind (malloc sz h) (\<lambda>(fresh, h1).
           if fresh = NULLP then Some (NULLP, h1)
           else
             (let old = bsize (blk_at (hmem h1) (hdr p));
                  n = (if old < sz then old else sz);
                  h2 = h1\<lparr>hmem := snd (memcpy fresh p n (hmem h1))\<rparr>
              in map_option (\<lambda>h3. (fresh, h3)) (free p h2)))"
      using False nz used unfolding hdr_def by (simp add: realloc_def HDR_SIZE_def)
    from l sz(2) show ?thesis
    proof (cases rule: malloc_none_or)
      case 1
      with run show ?thesis by auto
    next
      case (2 q h1)
      let ?old = "bsize (blk_at (hmem h1) (hdr p))"
      define n where "n = (if ?old < sz then ?old else sz)"
      define h2 where "h2 = h1\<lparr>hmem := poke (hmem h1) q (bytes_at (hmem h1) p (unat n))\<rparr>"
      have c1: "cap h1 p = cap h p" using 2(6) p by (simp add: same_data_def)
      have n: "unat n = min (cap h p) (unat sz)"
        using c1 by (simp add: n_def cap_def min_def word_less_nat_alt)
      have pq: "p \<in> insert q L" "q \<in> insert q L" "p \<noteq> q" using p 2(3) by auto
      have "unat n \<le> unat (q - p)"
        using live_distance [OF 2(4) pq] n c1 by simp
      then have "snd (memcpy q p n (hmem h1)) = poke (hmem h1) q (bytes_at (hmem h1) p (unat n))"
        by (simp add: memcpy_poke)
      then have step: "realloc p sz h = map_option (\<lambda>h3. (q, h3)) (free p h2)"
        using run 2(1,2) by (simp add: n_def h2_def Let_def)
      have l2: "live h2 (insert q L)" "same_data h1 h2 (insert q L - {q})" "cap h2 q = cap h1 q"
        using poke_live [OF 2(4), of q 0 "bytes_at (hmem h1) p (unat n)"] 2(5) n by (simp_all add: h2_def)
      obtain h3 where h3: "free p h2 = Some h3" "live h3 (insert q L - {p})"
          "same_data h2 h3 (insert q L - {p})"
        using free_live [OF l2(1) pq(1)] by blast
      have "hmem h3 (q + of_nat i) = hmem h (p + of_nat i)" if i: "i < unat n" for i
      proof -
        have "hmem h3 (q + of_nat i) = hmem h2 (q + of_nat i)"
          using h3(3) pq i n l2(3) 2(5) by (auto simp: same_data_def)
        also have "\<dots> = hmem h1 (p + of_nat i)"
          using i by (simp add: h2_def)
        also have "\<dots> = hmem h (p + of_nat i)"
          using 2(6) p i n by (simp add: same_data_def)
        finally show ?thesis .
      qed
      moreover have "same_data h h3 (L - {p})"
        using 2(3,6) l2(2) h3(3)
        by (intro same_data_trans [of h h1 "L - {p}" h3] same_data_trans [of h1 h2 "L - {p}" h3])
          (auto elim!: same_data_mono)
      moreover have "cap h3 q = cap h1 q" using h3(3) pq l2(3) by (simp add: same_data_def)
      moreover have "insert q L - {p} = insert q (L - {p})" using pq by auto
      ultimately show ?thesis using step h3 2 n by auto
    qed
  qed
qed

section \<open>The interface of the allocator\<close>

text \<open>
  What the rest of the runtime relies on. \<open>valid s L\<close>: in the state \<open>s\<close> the pointers \<open>L\<close> are live;
  \<open>room s p\<close> bytes may be used at \<open>p\<close>. Requests up to \<open>limit\<close> bytes are honoured or refused.
\<close>

locale allocator =
  fixes valid :: "'s \<Rightarrow> addr set \<Rightarrow> bool"
    and room :: "'s \<Rightarrow> addr \<Rightarrow> nat"
    and memory :: "'s \<Rightarrow> mem"
    and store :: "addr \<Rightarrow> u8 list \<Rightarrow> 's \<Rightarrow> 's"
    and alloc :: "u32 \<Rightarrow> 's \<Rightarrow> (addr \<times> 's) option"
    and release :: "addr \<Rightarrow> 's \<Rightarrow> 's option"
    and limit :: nat
  assumes nonnull: "valid s L \<Longrightarrow> p \<in> L \<Longrightarrow> p \<noteq> 0 \<and> unat p + room s p < 2 ^ 32"
    and disjoint: "valid s L \<Longrightarrow> p \<in> L \<Longrightarrow> q \<in> L \<Longrightarrow> p \<noteq> q \<Longrightarrow>
      unat p + room s p \<le> unat q \<or> unat q + room s q \<le> unat p"
    and alloc_law: "valid s L \<Longrightarrow> unat n \<le> limit \<Longrightarrow> \<exists>p s'. alloc n s = Some (p, s') \<and>
      (if p = 0 then s' = s
       else p \<notin> L \<and> valid s' (insert p L) \<and> unat n \<le> room s' p \<and>
         (\<forall>q \<in> L. room s' q = room s q \<and> bytes_at (memory s') q (room s q) = bytes_at (memory s) q (room s q)))"
    and release_law: "valid s L \<Longrightarrow> p \<in> L \<Longrightarrow> \<exists>s'. release p s = Some s' \<and> valid s' (L - {p}) \<and>
      (\<forall>q \<in> L - {p}. room s' q = room s q \<and>
         bytes_at (memory s') q (room s q) = bytes_at (memory s) q (room s q))"
    and store_law: "valid s L \<Longrightarrow> p \<in> L \<Longrightarrow> length bs \<le> room s p \<Longrightarrow> valid (store p bs s) L \<and>
      memory (store p bs s) = poke (memory s) p bs \<and> (\<forall>q \<in> L. room (store p bs s) q = room s q)"
begin

lemma store_frame:
  assumes "valid s L" "p \<in> L" "q \<in> L" "p \<noteq> q" "length bs \<le> room s p"
  shows "bytes_at (memory (store p bs s)) q (room s q) = bytes_at (memory s) q (room s q)"
proof -
  have "length bs \<le> unat (q + of_nat i - p)" if i: "i < room s q" for i
  proof -
    have "unat (q + of_nat i) = unat q + i"
      using nonnull [OF assms(1,3)] i by (simp add: unat_word_ariths unat_of_nat)
    moreover have "unat p + length bs < 2 ^ 32" "unat q + room s q < 2 ^ 32"
      using nonnull [OF assms(1,2)] nonnull [OF assms(1,3)] assms(5) by simp_all
    ultimately show ?thesis
      using disjoint [OF assms(1-4)] i assms(5) by (auto simp: unat_sub_if')
  qed
  then show ?thesis
    using store_law [OF assms(1,2,5)] by (intro bytes_at_cong) (simp add: poke_outside)
qed

text \<open>Get a block and fill it: the pattern of every duplicating routine.\<close>

definition alloc_fill :: "u8 list \<Rightarrow> 's \<Rightarrow> (addr \<times> 's) option" where
  "alloc_fill bs s = Option.bind (alloc (of_nat (length bs)) s) (\<lambda>(p, s1).
     if p = 0 then Some (0, s1) else Some (p, store p bs s1))"

lemma alloc_fill_law:
  assumes "valid s L" "length bs \<le> limit" "length bs < 2 ^ 32"
  shows "\<exists>p s'. alloc_fill bs s = Some (p, s') \<and>
     (if p = 0 then s' = s
      else p \<notin> L \<and> valid s' (insert p L) \<and> bytes_at (memory s') p (length bs) = bs \<and>
        (\<forall>q \<in> L. room s' q = room s q \<and> bytes_at (memory s') q (room s q) = bytes_at (memory s) q (room s q)))"
proof -
  have u: "unat (of_nat (length bs) :: u32) = length bs" using assms(3) by (simp add: unat_of_nat)
  obtain p s1 where a: "alloc (of_nat (length bs)) s = Some (p, s1)"
    "if p = 0 then s1 = s
       else p \<notin> L \<and> valid s1 (insert p L) \<and> length bs \<le> room s1 p \<and>
         (\<forall>q \<in> L. room s1 q = room s q \<and> bytes_at (memory s1) q (room s q) = bytes_at (memory s) q (room s q))"
    using alloc_law [OF assms(1), of "of_nat (length bs)", unfolded u, OF assms(2)] by blast
  show ?thesis
  proof (cases "p = 0")
    case True
    with a show ?thesis by (simp add: alloc_fill_def)
  next
    case False
    with a have l: "p \<notin> L" "valid s1 (insert p L)" "length bs \<le> room s1 p"
      "\<forall>q \<in> L. room s1 q = room s q \<and> bytes_at (memory s1) q (room s q) = bytes_at (memory s) q (room s q)"
      by simp_all
    note st = store_law [OF l(2) _ l(3)]
    have "bytes_at (memory (store p bs s1)) q (room s q) = bytes_at (memory s) q (room s q)"
      if "q \<in> L" for q
      using store_frame [OF l(2) _ _ _ l(3), of q] l(1,4) that by auto
    moreover have "bytes_at (memory (store p bs s1)) p (length bs) = bs"
      using st assms(3) by simp
    ultimately show ?thesis using False a st l by (auto simp: alloc_fill_def)
  qed
qed

end

lemma same_data_bytes:
  "same_data h h' L \<Longrightarrow> q \<in> L \<Longrightarrow>
     cap h' q = cap h q \<and> bytes_at (hmem h') q (cap h q) = bytes_at (hmem h) q (cap h q)"
  by (auto simp: same_data_def intro: bytes_at_cong)

definition put_bytes :: "addr \<Rightarrow> u8 list \<Rightarrow> heap \<Rightarrow> heap" where
  "put_bytes p bs h = h\<lparr>hmem := poke (hmem h) p bs\<rparr>"

interpretation rt: allocator live cap hmem put_bytes malloc free "0xFEFFFFF8"
proof
  fix s L p q
  assume l: "live s L" "p \<in> L"
  show "p \<noteq> 0 \<and> unat p + cap s p < 2 ^ 32"
    using live_arith [OF l] by auto
  show "\<exists>s'. free p s = Some s' \<and> live s' (L - {p}) \<and>
      (\<forall>q \<in> L - {p}. cap s' q = cap s q \<and> bytes_at (hmem s') q (cap s q) = bytes_at (hmem s) q (cap s q))"
    using free_live [OF l] same_data_bytes by blast
  assume q: "q \<in> L" "p \<noteq> q"
  show "unat p + cap s p \<le> unat q \<or> unat q + cap s q \<le> unat p"
    using live_disjoint [OF l q] live_arith(1) [OF l] live_arith(1) [OF l(1) q(1)] by linarith
next
  fix s L p and bs :: "u8 list"
  assume "live s L" "p \<in> L" "length bs \<le> cap s p"
  then show "live (put_bytes p bs s) L \<and> hmem (put_bytes p bs s) = poke (hmem s) p bs \<and>
      (\<forall>q \<in> L. cap (put_bytes p bs s) q = cap s q)"
    using poke_live [of s L p 0 bs] by (simp add: put_bytes_def)
next
  fix s L and n :: u32
  assume l: "live s L" "unat n \<le> 0xFEFFFFF8"
  from l show "\<exists>p s'. malloc n s = Some (p, s') \<and>
      (if p = 0 then s' = s
       else p \<notin> L \<and> live s' (insert p L) \<and> unat n \<le> cap s' p \<and>
         (\<forall>q \<in> L. cap s' q = cap s q \<and> bytes_at (hmem s') q (cap s q) = bytes_at (hmem s) q (cap s q)))"
  proof (cases rule: malloc_none_or)
    case 1
    then show ?thesis by simp
  next
    case (2 p h')
    then show ?thesis using same_data_bytes [OF 2(6)] by simp
  qed
qed

section \<open>Every run of a client\<close>

text \<open>
  What a program does with the heap: it starts with no heap at all, calls the four routines on
  live pointers and stores into its live blocks. \<open>heap_run h L\<close>: such a run leads to the heap
  \<open>h\<close> with the live pointers \<open>L\<close>. A null result adds nothing to \<open>L\<close>.
\<close>

definition got :: "addr \<Rightarrow> addr set" where
  "got p = (if p = 0 then {} else {p})"

inductive heap_run :: "heap \<Rightarrow> addr set \<Rightarrow> bool" where
  run_start: "brk h = 0 \<Longrightarrow> free_list h = 0 \<Longrightarrow> heap_run h {}"
| run_malloc: "heap_run h L \<Longrightarrow> unat sz \<le> 0xFEFFFFF8 \<Longrightarrow> malloc sz h = Some (p, h') \<Longrightarrow>
    heap_run h' (L \<union> got p)"
| run_calloc: "heap_run h L \<Longrightarrow> unat count * unat sz \<le> 0xFEFFFFF8 \<Longrightarrow>
    calloc count sz h = Some (p, h') \<Longrightarrow> heap_run h' (L \<union> got p)"
| run_realloc: "heap_run h L \<Longrightarrow> p \<in> L \<Longrightarrow> 0 < unat sz \<Longrightarrow> unat sz \<le> 0xFEFFFFF8 \<Longrightarrow>
    realloc p sz h = Some (q, h') \<Longrightarrow> heap_run h' (if q = 0 then L else L - {p} \<union> {q})"
| run_free: "heap_run h L \<Longrightarrow> p \<in> L \<Longrightarrow> free p h = Some h' \<Longrightarrow> heap_run h' (L - {p})"
| run_store: "heap_run h L \<Longrightarrow> p \<in> L \<Longrightarrow> i < cap h p \<Longrightarrow>
    heap_run (h\<lparr>hmem := (hmem h)(p + of_nat i := v)\<rparr>) L"

inductive_cases heap_runE: "heap_run h L"

lemma live_start: "brk h = 0 \<Longrightarrow> free_list h = 0 \<Longrightarrow> live h {}"
  by (auto simp: live_def heap_ok_def binv_def eff_brk_def wf_brk_def PROGRAM_BASE_def
      intro: exI [of _ "[]"])

lemma heap_run_live: "heap_run h L \<Longrightarrow> live h L"
proof (induction rule: heap_run.induct)
  case (run_start h)
  then show ?case by (rule live_start)
next
  case (run_malloc h L sz p h')
  then show ?case using malloc_live [of h L sz] by (auto simp: got_def)
next
  case (run_calloc h L count sz p h')
  then show ?case using calloc_live [of h L count sz] by (auto simp: got_def)
next
  case (run_realloc h L p sz q h')
  then show ?case using realloc_live [of h L p sz] by (auto split: if_splits)
next
  case (run_free h L p h')
  then show ?case using free_live [of h L p] by auto
next
  case (run_store h L p i v)
  then show ?case by (intro write_live)
qed

section \<open>Properties\<close>

text \<open>Two heaps to apply the properties to: an untouched one, and one with a single live block
  of 4080 bytes.\<close>

definition heap_new :: heap where
  "heap_new = \<lparr>hmem = (\<lambda>_. 0), free_list = 0, brk = 0\<rparr>"

definition heap_one :: heap where
  "heap_one = \<lparr>hmem = set_magic 0x501000 BLK_USED (set_size 0x501000 4080 (\<lambda>_. 0)),
     free_list = 0, brk = 0x502000\<rparr>"

lemma live_heap_new: "live heap_new {}"
  by (rule live_start) (simp_all add: heap_new_def)

lemma heap_run_new: "heap_run heap_new {}"
  by (rule run_start) (simp_all add: heap_new_def)

lemma heap_one_blk:
  "bsize (blk_at (hmem heap_one) 0x501000) = 4080" "bmagic (blk_at (hmem heap_one) 0x501000) = BLK_USED"
  by (simp_all add: heap_one_def blk_at_sets)

lemma live_heap_one: "live heap_one {0x501010}"
proof -
  have "heap_ok heap_one [] (hdr ` {0x501010})"
    using heap_one_blk by (simp add: heap_ok_def binv_def eff_brk_def wf_brk_def wf_blk_def blk_end_def
        hdr_def) (simp add: heap_one_def)
  then show ?thesis unfolding live_def by blast
qed

lemma cap_heap_one: "cap heap_one 0x501010 = 4080"
  using heap_one_blk by (simp add: cap_def hdr_def)

lemma used_ptr_nonnull:
  assumes "heap_inv h fs (insert a us)" shows "a + 16 \<noteq> 0"
proof -
  have "blk_end (blk_at (hmem h)) a \<le> 0x5C0000"
    using assms binv_le unfolding heap_inv_def by blast
  then have "unat (a + 16) = unat a + 16" by (simp add: blk_end_def unat_word_ariths)
  then show ?thesis by auto
qed

lemma heap_ok_new: "heap_ok heap_new [] {}"
  by (simp add: heap_ok_def binv_def eff_brk_def wf_brk_def heap_new_def PROGRAM_BASE_def)

lemma eff_brk_new: "eff_brk heap_new = 0x501000"
  by (simp add: eff_brk_def heap_new_def PROGRAM_BASE_def)

lemma malloc_fits:
  assumes l: "live h L" and sz: "unat sz \<le> 4000" and room: "unat (eff_brk h) + 4096 \<le> 0x5C0000"
  shows "\<exists>p h'. malloc sz h = Some (p, h') \<and> p \<noteq> 0 \<and> p \<notin> L \<and> live h' (insert p L) \<and>
     unat (eff_brk h') \<le> unat (eff_brk h) + 4096"
proof -
  have "unat sz \<le> 0xFEFFFFF8" using sz by simp
  note n = malloc_need [OF this]
  have "grow_nat (align8 (if sz = 0 then 1 else sz)) = 4096" using n(5) sz by (simp add: grow_nat_def)
  with l n(1,2) refl show ?thesis
    by (cases rule: malloc_cases) (use room in auto)
qed

lemma malloc_new_big: "malloc 0x100000 heap_new = Some (0, heap_new)"
proof -
  have "8 dvd unat (0x100000 :: u32)" "unat (0x100000 :: u32) \<le> 0xFF000000"
      "0x100000 = align8 (if (0x100000 :: u32) = 0 then 1 else 0x100000)"
    by simp_all
  with live_heap_new show ?thesis
  proof (cases rule: malloc_cases)
    case (some p h')
    from live_arith(2) [OF some(4), of p] live_arith(3) [OF some(4), of p] some(5)
    show ?thesis by simp
  qed simp
qed

text \<open>C1: \<open>malloc\<close> on a well-formed heap always returns. A null result changes nothing; otherwise
  the pointer is new, aligned to eight bytes, has room for the request and wastes at most 30
  bytes, the heap stays well formed with the pointer live, and every other live block keeps its
  capacity and its bytes.\<close>

theorem malloc_correct:
  assumes "live h L" "unat sz \<le> 0xFEFFFFF8"
  shows "\<exists>p h'. malloc sz h = Some (p, h') \<and>
     (if p = 0 then h' = h
      else p \<notin> L \<and> live h' (insert p L) \<and> 8 dvd unat p \<and> unat sz \<le> cap h' p \<and>
        cap h' p \<le> max 8 (unat sz + 7) + 23 \<and> same_data h h' L)"
proof -
  obtain p h' where m: "malloc sz h = Some (p, h')"
    "if p = 0 then h' = h else p \<notin> L \<and> live h' (insert p L) \<and> unat sz \<le> cap h' p \<and>
       cap h' p < max 8 (unat sz + 7) + 24 \<and> same_data h h' L"
    using malloc_live [OF assms] by blast
  then show ?thesis using live_arith(4) [of h' "insert p L" p] by (cases "p = 0") auto
qed

theorem malloc_correct_witness:
  "live heap_new {} \<and> (\<exists>p h'. malloc 100 heap_new = Some (p, h') \<and>
     (p \<noteq> 0 \<longrightarrow> live h' {p} \<and> 8 dvd unat p \<and> 100 \<le> cap h' p \<and> cap h' p \<le> 130))"
  using malloc_correct [OF live_heap_new, of 100] live_heap_new by (auto split: if_splits)

text \<open>\<open>malloc\<close> refuses only when it has to: no block of the free list is large enough and the
  break cannot move up by the request (rounded up, plus its header, at least a page) without
  running into the user stack.\<close>

theorem malloc_refuses_when_full:
  assumes "heap_ok h fs us" "unat sz \<le> 0xFEFFFFF8" "malloc sz h = Some (0, h')"
  shows "h' = h \<and> (\<forall>a \<in> set fs. bsize (blk_at (hmem h) a) < align8 (if sz = 0 then 1 else sz)) \<and>
     unat (eff_brk h) + max 4096 (unat (align8 (if sz = 0 then 1 else sz)) + 16) > 0x5C0000"
  using malloc_ok [OF assms(1) malloc_need(1,2) [OF assms(2)] refl] assms(3) used_ptr_nonnull
  by (auto simp: grow_nat_def)

theorem malloc_refuses_when_full_witness:
  "heap_ok heap_new [] {} \<and> malloc 0x100000 heap_new = Some (0, heap_new) \<and>
   unat (eff_brk heap_new) + max 4096 (unat (align8 0x100000) + 16) > 0x5C0000"
  using malloc_refuses_when_full [OF heap_ok_new _ malloc_new_big] heap_ok_new malloc_new_big by simp

text \<open>C2: \<open>free\<close> of a live pointer returns, the pointer is no longer live, every other live block
  keeps its capacity and its bytes, and freeing the same pointer again changes nothing.\<close>

theorem free_correct:
  assumes "live h L" "p \<in> L"
  shows "\<exists>h'. free p h = Some h' \<and> live h' (L - {p}) \<and> same_data h h' (L - {p}) \<and> free p h' = Some h'"
  using assms by (rule free_live)

theorem free_correct_witness:
  "live heap_one {0x501010} \<and> (\<exists>h'. free 0x501010 heap_one = Some h' \<and> live h' {} \<and>
     free 0x501010 h' = Some h')"
  using free_correct [OF live_heap_one, of "0x501010"] live_heap_one by auto

text \<open>C4: \<open>realloc\<close> of a live block to a positive size either refuses and changes nothing, or gives a
  live block with room for the new size whose first bytes are those of the old one; the old
  pointer is no longer live unless it is the result, and every other block is untouched.\<close>

theorem realloc_correct:
  assumes "live h L" "p \<in> L" "0 < unat sz" "unat sz \<le> 0xFEFFFFF8"
  shows "\<exists>q h'. realloc p sz h = Some (q, h') \<and>
     (if q = 0 then h' = h
      else (q = p \<or> q \<notin> L) \<and> live h' (insert q (L - {p})) \<and> unat sz \<le> cap h' q \<and>
        (\<forall>i < min (cap h p) (unat sz). hmem h' (q + of_nat i) = hmem h (p + of_nat i)) \<and>
        same_data h h' (L - {p}))"
  using assms by (rule realloc_live)

theorem realloc_correct_witness:
  "live heap_one {0x501010} \<and> (\<exists>q h'. realloc 0x501010 5000 heap_one = Some (q, h') \<and>
     (q \<noteq> 0 \<longrightarrow> live h' {q} \<and> 5000 \<le> cap h' q))"
  using realloc_correct [OF live_heap_one, of "0x501010" 5000] live_heap_one by (auto split: if_splits)

text \<open>\<open>calloc\<close> gives a live, zeroed block of \<^verbatim>\<open>count * size\<close> bytes or refuses, and refuses without
  any effect whenever the product does not fit into 32 bits.\<close>

theorem calloc_correct:
  assumes "live h L"
  shows "(unat count * unat sz \<ge> 2 ^ 32 \<longrightarrow> calloc count sz h = Some (0, h)) \<and>
     (unat count * unat sz \<le> 0xFEFFFFF8 \<longrightarrow> (\<exists>p h'. calloc count sz h = Some (p, h') \<and>
       (if p = 0 then h' = h
        else p \<notin> L \<and> live h' (insert p L) \<and> unat count * unat sz \<le> cap h' p \<and>
          bytes_at (hmem h') p (unat count * unat sz) = replicate (unat count * unat sz) 0 \<and>
          same_data h h' L)))"
  using calloc_overflow calloc_live [OF assms] by blast

theorem calloc_correct_witness:
  "calloc 0x10000 0x10000 heap_new = Some (0, heap_new) \<and>
   (\<exists>p h'. calloc 3 5 heap_new = Some (p, h') \<and>
     (p \<noteq> 0 \<longrightarrow> live h' {p} \<and> bytes_at (hmem h') p 15 = replicate 15 0))"
  using calloc_correct [OF live_heap_new, of "0x10000" "0x10000"] calloc_correct [OF live_heap_new, of 3 5]
  by (auto split: if_splits)



lemma align8_wraps: "unat sz > 0xFFFFFFF8 \<Longrightarrow> align8 sz = 0"
proof -
  assume sz: "unat sz > 0xFFFFFFF8"
  have "unat (sz + 7) = unat sz + 7 - 2 ^ 32"
    using sz unat_lt_2p32 [of sz] by (simp add: unat_word_ariths mod_if)
  then have "unat (sz + 7) < 8" using unat_lt_2p32 [of sz] by simp
  then have "unat (align8 sz) = 0" by (simp add: unat_align8)
  then show ?thesis by (simp add: unat_eq_0)
qed

text \<open>a request of more than \<^verbatim>\<open>0xFFFFFFF8\<close> bytes wraps to zero in \<open>align8\<close>. While the heap can grow
  by a page, \<open>malloc\<close> then succeeds and returns a block of fewer than 24 bytes.\<close>

theorem malloc_size_wraps:
  assumes "live h L" "unat sz > 0xFFFFFFF8" "unat (eff_brk h) + 4096 \<le> 0x5C0000"
  shows "\<exists>p h'. malloc sz h = Some (p, h') \<and> p \<noteq> 0 \<and> live h' (insert p L) \<and> cap h' p < 24"
proof -
  have n: "8 dvd unat (0 :: u32)" "unat (0 :: u32) \<le> 0xFF000000"
      "(0 :: u32) = align8 (if sz = 0 then 1 else sz)"
    using assms(2) align8_wraps [of sz] by auto
  from assms(1) n show ?thesis
    by (cases rule: malloc_cases) (use assms(3) in \<open>auto simp: grow_nat_def\<close>)
qed

theorem malloc_size_wraps_witness:
  "live heap_new {} \<and> (\<exists>p h'. malloc 0xFFFFFFFF heap_new = Some (p, h') \<and> p \<noteq> 0 \<and> cap h' p < 24)"
  using malloc_size_wraps [OF live_heap_new, of "0xFFFFFFFF"] live_heap_new by (auto simp: eff_brk_new)

end
