(* ===== verification/Mv_Sort.thy ===== *)
theory Mv_Sort
  imports Mv_Alloc "HOL-Library.Multiset"
begin

text \<open>
  \<open>qsort\<close> and \<open>bsearch\<close> of \<^verbatim>\<open>c/rt/stdlib.c\<close>. The C code is modelled on the byte memory, with the
  comparison callback a function of the memory and two addresses; the reference is a stable
  insertion sort on lists of elements, and the merge passes on memory are shown to implement it.
\<close>

section \<open>Stable sorting by a comparison\<close>

text \<open>What \<open>qsort\<close> and \<open>bsearch\<close> rely on: the callback orders the elements consistently.\<close>

locale comparison =
  fixes c :: "'a \<Rightarrow> 'a \<Rightarrow> int"
  assumes flip: "c y x < 0 \<longleftrightarrow> c x y > 0"
    and trans_le: "c x y \<le> 0 \<Longrightarrow> c y z \<le> 0 \<Longrightarrow> c x z \<le> 0"
begin

lemma refl_le: "c x x \<le> 0"
  using flip [of x x] by linarith

lemma total_le: "c x y > 0 \<Longrightarrow> c y x \<le> 0"
  using flip [of y x] by linarith

end

fun ins :: "('a \<Rightarrow> 'a \<Rightarrow> int) \<Rightarrow> 'a \<Rightarrow> 'a list \<Rightarrow> 'a list" where
  "ins c x [] = [x]"
| "ins c x (y # ys) = (if c x y \<le> 0 then x # y # ys else y # ins c x ys)"

definition ssort :: "('a \<Rightarrow> 'a \<Rightarrow> int) \<Rightarrow> 'a list \<Rightarrow> 'a list" where
  "ssort c xs = foldr (ins c) xs []"

abbreviation sorted_by :: "('a \<Rightarrow> 'a \<Rightarrow> int) \<Rightarrow> 'a list \<Rightarrow> bool" where
  "sorted_by c \<equiv> sorted_wrt (\<lambda>x y. c x y \<le> 0)"

text \<open>The merge of the C code: the right element goes first only when it is strictly smaller.\<close>

fun merge :: "('a \<Rightarrow> 'a \<Rightarrow> int) \<Rightarrow> 'a list \<Rightarrow> 'a list \<Rightarrow> 'a list" where
  "merge c [] ys = ys"
| "merge c xs [] = xs"
| "merge c (x # xs) (y # ys) =
     (if c y x < 0 then y # merge c (x # xs) ys else x # merge c xs (y # ys))"

lemma merge_Nil2 [simp]: "merge c xs [] = xs"
  by (cases xs) auto

lemma length_merge [simp]: "length (merge c xs ys) = length xs + length ys"
  by (induction c xs ys rule: merge.induct) auto

lemma mset_ins [simp]: "mset (ins c x xs) = add_mset x (mset xs)"
  by (induction xs) auto

lemma set_ins [simp]: "set (ins c x xs) = insert x (set xs)"
  by (induction xs) (simp_all add: insert_commute)

lemma mset_ssort [simp]: "mset (ssort c xs) = mset xs"
  by (induction xs) (auto simp: ssort_def)

lemma length_ssort [simp]: "length (ssort c xs) = length xs"
  by (metis mset_ssort size_mset)

lemma ssort_Nil [simp]: "ssort c [] = []"
  by (simp add: ssort_def)

lemma ssort_single [simp]: "ssort c [x] = [x]"
  by (simp add: ssort_def)

context comparison
begin

lemma sorted_ins: "sorted_by c xs \<Longrightarrow> sorted_by c (ins c x xs)"
proof (induction xs)
  case (Cons y ys)
  then show ?case using total_le [of x y] trans_le [of x y] by auto
qed simp

lemma sorted_ssort: "sorted_by c (ssort c xs)"
  by (induction xs) (auto simp: ssort_def sorted_ins)

text \<open>Equal elements keep their order.\<close>

lemma filter_ins:
  "filter (\<lambda>y. c z y = 0 \<and> c y z = 0) (ins c x xs) = filter (\<lambda>y. c z y = 0 \<and> c y z = 0) (x # xs)"
proof (induction xs)
  case (Cons y ys)
  have "\<not> (c z x = 0 \<and> c x z = 0 \<and> c z y = 0 \<and> c y z = 0)" if "\<not> c x y \<le> 0"
    using that trans_le [of x z y] by auto
  with Cons show ?case by auto
qed simp

lemma stable_ssort:
  "filter (\<lambda>y. c z y = 0 \<and> c y z = 0) (ssort c xs) = filter (\<lambda>y. c z y = 0 \<and> c y z = 0) xs"
  by (induction xs) (auto simp: ssort_def filter_ins)

lemma ins_merge: "sorted_by c xs \<Longrightarrow> ins c x (merge c xs ys) = merge c (ins c x xs) ys"
proof (induction xs arbitrary: ys)
  case Nil
  show ?case
  proof (induction ys)
    case (Cons y ys)
    then show ?case using flip [of y x] by auto
  qed simp
next
  case (Cons z xs)
  note outer = Cons.IH and sz = Cons.prems
  show ?case
  proof (induction ys)
    case (Cons y ys)
    show ?case
    proof (cases "c y z < 0")
      case True
      have "c x y > 0 \<Longrightarrow> \<not> c x z \<le> 0 \<or> c y x < 0" using flip [of y x] by simp
      moreover have "\<not> c x y \<le> 0 \<Longrightarrow> c y x < 0" using flip [of y x] by simp
      moreover have "c x y \<le> 0 \<Longrightarrow> c x z \<le> 0" using True trans_le [of x y z] by auto
      moreover have "c x y \<le> 0 \<Longrightarrow> \<not> c y x < 0" using flip [of y x] by simp
      ultimately show ?thesis using True Cons.IH by (cases "c x y \<le> 0"; cases "c x z \<le> 0") auto
    next
      case False
      then have zy: "c z y \<le> 0" using flip [of y z] by auto
      show ?thesis
      proof (cases "c x z \<le> 0")
        case True
        then have "c x y \<le> 0" using zy trans_le by blast
        then have "\<not> c y x < 0" using flip [of y x] by simp
        with True False show ?thesis by simp
      next
        case nle: False
        with False outer [of "y # ys"] sz show ?thesis by simp
      qed
    qed
  qed simp
qed

lemma merge_ssort: "merge c (ssort c xs) (ssort c ys) = ssort c (xs @ ys)"
proof (induction xs)
  case (Cons x xs)
  have "merge c (ssort c (x # xs)) (ssort c ys) = ins c x (merge c (ssort c xs) (ssort c ys))"
    using ins_merge [OF sorted_ssort] by (simp add: ssort_def)
  also have "\<dots> = ssort c ((x # xs) @ ys)" using Cons.IH by (simp add: ssort_def)
  finally show ?case .
qed (simp add: ssort_def)

end

text \<open>Runs of a given width, each sorted, and one pass that merges neighbouring runs.\<close>

function runs :: "('a \<Rightarrow> 'a \<Rightarrow> int) \<Rightarrow> nat \<Rightarrow> 'a list \<Rightarrow> 'a list" where
  "runs c w xs = (if xs = [] \<or> w = 0 then [] else ssort c (take w xs) @ runs c w (drop w xs))"
  by pat_completeness auto
termination by (relation "measure (\<lambda>(c, w, xs). length xs)") auto

function pass :: "('a \<Rightarrow> 'a \<Rightarrow> int) \<Rightarrow> nat \<Rightarrow> 'a list \<Rightarrow> 'a list" where
  "pass c w xs = (if xs = [] \<or> w = 0 then []
     else merge c (take w xs) (take w (drop w xs)) @ pass c w (drop (2 * w) xs))"
  by pat_completeness auto
termination by (relation "measure (\<lambda>(c, w, xs). length xs)") auto

declare runs.simps [simp del] pass.simps [simp del]

lemma length_runs [simp]: "0 < w \<Longrightarrow> length (runs c w xs) = length xs"
proof (induction c w xs rule: runs.induct)
  case (1 c w xs)
  then show ?case by (subst runs.simps) (auto simp: min_def)
qed

lemma take_runs: "0 < w \<Longrightarrow> take w (runs c w xs) = ssort c (take w xs)"
  by (subst runs.simps) (cases "length xs \<le> w"; auto simp: min_def runs.simps)

lemma drop_runs: "0 < w \<Longrightarrow> drop w (runs c w xs) = runs c w (drop w xs)"
  by (subst runs.simps) (cases "length xs \<le> w"; auto simp: min_def runs.simps)

lemma runs_1: "runs c 1 xs = xs"
  by (induction xs) (simp_all add: runs.simps)

lemma runs_whole: "length xs \<le> w \<Longrightarrow> 0 < w \<Longrightarrow> runs c w xs = ssort c xs"
  by (subst runs.simps) (auto simp: runs.simps)

context comparison
begin

lemma pass_runs: "0 < w \<Longrightarrow> pass c w (runs c w xs) = runs c (2 * w) xs"
proof (induction "length xs" arbitrary: xs rule: less_induct)
  case less
  show ?case
  proof (cases "xs = []")
    case True
    then show ?thesis by (simp add: runs.simps pass.simps)
  next
    case False
    then have ne: "runs c w xs \<noteq> []" using less.prems by (metis length_0_conv length_runs)
    have "drop (2 * w) (runs c w xs) = runs c w (drop (2 * w) xs)"
      using drop_runs [OF less.prems, of c xs] drop_runs [OF less.prems, of c "drop w xs"]
      by (simp add: mult_2) (metis drop_drop add.commute)
    moreover have "pass c w (runs c w (drop (2 * w) xs)) = runs c (2 * w) (drop (2 * w) xs)"
      using less.hyps [of "drop (2 * w) xs"] less.prems False by simp
    moreover have "merge c (take w (runs c w xs)) (take w (drop w (runs c w xs))) = ssort c (take (2 * w) xs)"
      using less.prems by (simp add: take_runs drop_runs merge_ssort mult_2 take_add)
    ultimately show ?thesis
      using ne less.prems False by (subst pass.simps) (simp add: runs.simps [of c "2 * w" xs])
  qed
qed

end

section \<open>The C code\<close>

type_synonym cmp_fn = "mem \<Rightarrow> addr \<Rightarrow> addr \<Rightarrow> int"

definition copy_elem :: "u32 \<Rightarrow> addr \<Rightarrow> u32 \<Rightarrow> addr \<Rightarrow> u32 \<Rightarrow> mem \<Rightarrow> mem" where
  "copy_elem sz dst k src i m = snd (memcpy (dst + k * sz) (src + i * sz) sz m)"

partial_function (option) merge_both ::
    "cmp_fn \<Rightarrow> u32 \<Rightarrow> addr \<Rightarrow> addr \<Rightarrow> u32 \<Rightarrow> u32 \<Rightarrow> u32 \<Rightarrow> u32 \<Rightarrow> u32 \<Rightarrow> mem \<Rightarrow> (u32 \<times> u32 \<times> u32 \<times> mem) option" where
  "merge_both cmp sz src scratch mid right i j k m =
     (if i < mid \<and> j < right then
        (if cmp m (src + j * sz) (src + i * sz) < 0
         then merge_both cmp sz src scratch mid right i (j + 1) (k + 1) (copy_elem sz scratch k src j m)
         else merge_both cmp sz src scratch mid right (i + 1) j (k + 1) (copy_elem sz scratch k src i m))
      else Some (i, j, k, m))"

partial_function (option) merge_rest ::
    "u32 \<Rightarrow> addr \<Rightarrow> addr \<Rightarrow> u32 \<Rightarrow> u32 \<Rightarrow> u32 \<Rightarrow> mem \<Rightarrow> (u32 \<times> mem) option" where
  "merge_rest sz src scratch lim i k m =
     (if i < lim then merge_rest sz src scratch lim (i + 1) (k + 1) (copy_elem sz scratch k src i m)
      else Some (k, m))"

definition merge_run ::
    "cmp_fn \<Rightarrow> u32 \<Rightarrow> addr \<Rightarrow> addr \<Rightarrow> u32 \<Rightarrow> u32 \<Rightarrow> u32 \<Rightarrow> u32 \<Rightarrow> u32 \<Rightarrow> mem \<Rightarrow> mem option" where
  "merge_run cmp sz src scratch mid right i j k m =
     Option.bind (merge_both cmp sz src scratch mid right i j k m) (\<lambda>(i, j, k, m).
       Option.bind (merge_rest sz src scratch mid i k m) (\<lambda>(k, m).
         map_option snd (merge_rest sz src scratch right j k m)))"

partial_function (option) merge_pass ::
    "cmp_fn \<Rightarrow> u32 \<Rightarrow> u32 \<Rightarrow> addr \<Rightarrow> addr \<Rightarrow> u32 \<Rightarrow> u32 \<Rightarrow> mem \<Rightarrow> mem option" where
  "merge_pass cmp cnt sz src scratch width start m =
     (if start < cnt then
        (let mid = (if start + width > cnt then cnt else start + width);
             right = (if start + width * 2 > cnt then cnt else start + width * 2)
         in Option.bind (merge_run cmp sz src scratch mid right start (start + width) start m)
              (merge_pass cmp cnt sz src scratch width (start + width * 2)))
      else Some m)"

partial_function (option) merge_passes ::
    "cmp_fn \<Rightarrow> u32 \<Rightarrow> u32 \<Rightarrow> addr \<Rightarrow> addr \<Rightarrow> u32 \<Rightarrow> mem \<Rightarrow> (addr \<times> mem) option" where
  "merge_passes cmp cnt sz src scratch width m =
     (if width < cnt then
        Option.bind (merge_pass cmp cnt sz src scratch width 0 m)
          (merge_passes cmp cnt sz scratch src (width * 2))
      else Some (src, m))"

text \<open>The fallback when there is no memory for the scratch array.\<close>

primrec swap_bytes :: "nat \<Rightarrow> addr \<Rightarrow> addr \<Rightarrow> mem \<Rightarrow> mem" where
  "swap_bytes 0 l r m = m"
| "swap_bytes (Suc n) l r m = swap_bytes n (l + 1) (r + 1) (m(l := m r, r := m l))"

partial_function (option) isort_inner :: "cmp_fn \<Rightarrow> u32 \<Rightarrow> addr \<Rightarrow> u32 \<Rightarrow> mem \<Rightarrow> mem option" where
  "isort_inner cmp sz a j m =
     (if j > 0 then
        (let left = a + (j - 1) * sz; right = a + j * sz
         in if cmp m left right \<le> 0 then Some m
            else isort_inner cmp sz a (j - 1) (swap_bytes (unat sz) left right m))
      else Some m)"

partial_function (option) isort :: "cmp_fn \<Rightarrow> u32 \<Rightarrow> u32 \<Rightarrow> addr \<Rightarrow> u32 \<Rightarrow> mem \<Rightarrow> mem option" where
  "isort cmp cnt sz a i m =
     (if i < cnt then Option.bind (isort_inner cmp sz a i m) (isort cmp cnt sz a (i + 1)) else Some m)"

text \<open>\<open>qsort\<close> up to its last statement: the block it is about to free, and the heap.\<close>

definition qsort_work :: "cmp_fn \<Rightarrow> addr \<Rightarrow> u32 \<Rightarrow> u32 \<Rightarrow> heap \<Rightarrow> (addr \<times> heap) option" where
  "qsort_work cmp base cnt sz h =
     (if cnt < 2 \<or> sz = 0 then Some (NULLP, h)
      else Option.bind (malloc (cnt * sz) h) (\<lambda>(scratch, h1).
        if scratch = NULLP then
          map_option (\<lambda>m. (NULLP, h1\<lparr>hmem := m\<rparr>)) (isort cmp cnt sz base 1 (hmem h1))
        else
          Option.bind (merge_passes cmp cnt sz base scratch 1 (hmem h1)) (\<lambda>(src, m).
            Some (src, h1\<lparr>hmem := (if src \<noteq> base then snd (memcpy base src (cnt * sz) m) else m)\<rparr>))))"

definition qsort :: "cmp_fn \<Rightarrow> addr \<Rightarrow> u32 \<Rightarrow> u32 \<Rightarrow> heap \<Rightarrow> heap option" where
  "qsort cmp base cnt sz h =
     Option.bind (qsort_work cmp base cnt sz h) (\<lambda>(src, h1). if src = NULLP then Some h1 else free src h1)"

partial_function (option) bsearch_loop ::
    "cmp_fn \<Rightarrow> addr \<Rightarrow> u32 \<Rightarrow> mem \<Rightarrow> addr \<Rightarrow> u32 \<Rightarrow> addr option" where
  "bsearch_loop cmp key sz m lo n =
     (if n \<noteq> 0 then
        (let half = n div 2; mid = lo + half * sz; order = cmp m key mid
         in if order = 0 then Some mid
            else if order > 0 then bsearch_loop cmp key sz m (mid + sz) (n - (half + 1))
            else bsearch_loop cmp key sz m lo half)
      else Some NULLP)"

definition bsearch :: "cmp_fn \<Rightarrow> addr \<Rightarrow> addr \<Rightarrow> u32 \<Rightarrow> u32 \<Rightarrow> mem \<Rightarrow> addr option" where
  "bsearch cmp key base cnt sz m = bsearch_loop cmp key sz m base cnt"

section \<open>Arrays of elements in memory\<close>

definition elem :: "mem \<Rightarrow> addr \<Rightarrow> nat \<Rightarrow> nat \<Rightarrow> u8 list" where
  "elem m p sz i = bytes_at m (p + of_nat (i * sz)) sz"

definition arr :: "mem \<Rightarrow> addr \<Rightarrow> nat \<Rightarrow> nat \<Rightarrow> u8 list list" where
  "arr m p sz n = map (elem m p sz) [0..<n]"

lemma length_arr [simp]: "length (arr m p sz n) = n"
  by (simp add: arr_def)

lemma nth_arr [simp]: "i < n \<Longrightarrow> arr m p sz n ! i = elem m p sz i"
  by (simp add: arr_def)

text \<open>Two arrays of \<open>n\<close> bytes that share no byte, whichever way one counts.\<close>

definition separate :: "nat \<Rightarrow> addr \<Rightarrow> addr \<Rightarrow> bool" where
  "separate n p q \<longleftrightarrow> n \<le> unat (p - q) \<and> n \<le> unat (q - p)"

lemma separate_sym: "separate n p q \<longleftrightarrow> separate n q p"
  by (auto simp: separate_def)

lemma separate_off:
  assumes "separate n p q" "i < n" "j < n"
  shows "p + of_nat i \<noteq> q + of_nat j"
proof
  assume eq: "p + of_nat i = q + of_nat j"
  show False
  proof (cases "i \<le> j")
    case True
    then have "p - q = of_nat (j - i)" using eq by (simp add: of_nat_diff algebra_simps)
    then have "unat (p - q) \<le> j - i" using unat_of_nat_le by metis
    with assms show False unfolding separate_def by linarith
  next
    case False
    then have "q - p = of_nat (i - j)" using eq by (simp add: of_nat_diff algebra_simps)
    then have "unat (q - p) \<le> i - j" using unat_of_nat_le by metis
    with assms show False unfolding separate_def by linarith
  qed
qed

lemma poke_off_iff:
  assumes "o' + length bs \<le> n" "x < n" "n < 2 ^ 32"
  shows "poke m (d + of_nat o') bs (d + of_nat x) =
     (if o' \<le> x \<and> x < o' + length bs then bs ! (x - o') else m (d + of_nat x))"
proof (cases "o' \<le> x")
  case True
  then have e: "d + of_nat x - (d + of_nat o') = (of_nat (x - o') :: u32)" by (simp add: of_nat_diff)
  have "unat (d + of_nat x - (d + of_nat o')) = x - o'"
    unfolding e using assms by (simp add: unat_of_nat)
  with True show ?thesis by (auto simp: poke_def)
next
  case False
  then have e: "d + of_nat x - (d + of_nat o') = - (of_nat (o' - x) :: u32)" by (simp add: of_nat_diff)
  have "unat (of_nat (o' - x) :: u32) = o' - x" using assms by (simp add: unat_of_nat)
  then have "unat (- of_nat (o' - x) :: u32) = 2 ^ 32 - (o' - x)"
    using False unat_diff_gt [of 0 "of_nat (o' - x)"] by (simp add: word_less_nat_alt)
  then have "\<not> unat (d + of_nat x - (d + of_nat o')) < length bs" unfolding e using assms by simp
  then show ?thesis using False unfolding poke_def by simp
qed

lemma elem_index: "i < n \<Longrightarrow> b < sz \<Longrightarrow> i * sz + b < n * (sz :: nat)"
  by (metis add.commute mult_Suc less_le_trans add_less_cancel_right mult_le_mono1 Suc_leI)

lemma nth_elem: "b < sz \<Longrightarrow> elem m p sz i ! b = m (p + of_nat (i * sz + b))"
  by (simp add: elem_def add.assoc)

lemma hit_off: "unat (a - d :: u32) < l \<Longrightarrow> \<exists>t < l. a = d + of_nat t"
  by (rule exI [of _ "unat (a - d)"]) simp

lemma separate_elem:
  assumes "separate (n * sz) p q" "k < n" "y < n * sz"
  shows "sz \<le> unat (q + of_nat y - (p + of_nat (k * sz)))"
proof (rule ccontr)
  assume "\<not> ?thesis"
  then obtain t where t: "t < sz" "q + of_nat y = p + of_nat (k * sz) + of_nat t"
    using hit_off [of "q + of_nat y" "p + of_nat (k * sz)" sz] by auto
  then have "p + of_nat (k * sz + t) = q + of_nat y" by (simp add: add.assoc)
  moreover have "k * sz + t < n * sz" using assms(2) t(1) by (rule elem_index)
  ultimately show False using separate_off [OF assms(1) _ assms(3)] by blast
qed

lemma mul_word: "of_nat k * of_nat sz = (of_nat (k * sz) :: u32)"
  by simp

lemma same_elem:
  fixes sz :: nat
  assumes "b < sz"
  shows "k * sz \<le> j * sz + b \<and> j * sz + b < k * sz + sz \<longleftrightarrow> j = k"
proof
  assume a: "k * sz \<le> j * sz + b \<and> j * sz + b < k * sz + sz"
  have "(j * sz + b) div sz = j" using assms by simp
  moreover have "(j * sz + b) div sz = k"
    using a assms by (intro div_nat_eqI) (auto simp: mult.commute)
  ultimately show "j = k" by simp
qed (use assms in auto)

text \<open>Writing one element of an array.\<close>

lemma poke_elem:
  assumes n: "n * sz \<le> 2 ^ 30" and k: "k < n" and e: "length e = sz"
  shows "arr (poke m (p + of_nat (k * sz)) e) p sz n = (arr m p sz n)[k := e]"
proof (rule nth_equalityI)
  fix j assume "j < length (arr (poke m (p + of_nat (k * sz)) e) p sz n)"
  then have j: "j < n" by simp
  have kn: "k * sz + length e \<le> n * sz"
    using k e by (metis add.commute mult_Suc Suc_leI mult_le_mono1)
  have "elem (poke m (p + of_nat (k * sz)) e) p sz j = (if j = k then e else elem m p sz j)"
  proof (rule nth_equalityI)
    fix b assume "b < length (elem (poke m (p + of_nat (k * sz)) e) p sz j)"
    then have b: "b < sz" by (simp add: elem_def)
    have "poke m (p + of_nat (k * sz)) e (p + of_nat (j * sz + b)) =
        (if j = k then e ! b else m (p + of_nat (j * sz + b)))"
      using poke_off_iff [OF kn elem_index [OF j b], of m p] n same_elem [OF b, of k j] e by auto
    then show "elem (poke m (p + of_nat (k * sz)) e) p sz j ! b = (if j = k then e else elem m p sz j) ! b"
      using b by (simp add: nth_elem)
  qed (simp add: e elem_def)
  then show "arr (poke m (p + of_nat (k * sz)) e) p sz n ! j = (arr m p sz n)[k := e] ! j"
    using j by (auto simp: nth_list_update)
qed simp

lemma poke_elem_frame:
  assumes sep: "separate (n * sz) p q" and k: "k < n" and e: "length e = sz"
  shows "arr (poke m (p + of_nat (k * sz)) e) q sz n = arr m q sz n"
proof (rule nth_equalityI)
  fix j assume "j < length (arr (poke m (p + of_nat (k * sz)) e) q sz n)"
  then have j: "j < n" by simp
  have "elem (poke m (p + of_nat (k * sz)) e) q sz j ! b = elem m q sz j ! b" if b: "b < sz" for b
    using separate_elem [OF sep k elem_index [OF j b]] e b by (simp add: nth_elem poke_outside)
  then have "elem (poke m (p + of_nat (k * sz)) e) q sz j = elem m q sz j"
    by (intro nth_equalityI) (auto simp: elem_def)
  then show "arr (poke m (p + of_nat (k * sz)) e) q sz n ! j = arr m q sz n ! j" using j by simp
qed simp

lemma poke_elem_outside:
  assumes n: "n * sz \<le> 2 ^ 30" and k: "k < n" and e: "length e = sz" and x: "n * sz \<le> unat (x - p)"
  shows "poke m (p + of_nat (k * sz)) e x = m x"
proof (cases "unat (x - (p + of_nat (k * sz))) < sz")
  case True
  then obtain t where t: "t < sz" "x = p + of_nat (k * sz) + of_nat t" using hit_off by blast
  then have "x - p = of_nat (k * sz + t)" by simp
  then have "unat (x - p) \<le> k * sz + t" using unat_of_nat_le by metis
  with elem_index [OF k t(1)] x show ?thesis by simp
qed (simp add: poke_outside e)

text \<open>Copying one element between two separate arrays.\<close>

lemma copy_elem_spec:
  assumes sep: "separate (n * sz) p q" and n: "n * sz \<le> 2 ^ 30" and k: "k < n" "i < n" and sz: "0 < sz"
  shows "copy_elem (of_nat sz) p (of_nat k) q (of_nat i) m = poke m (p + of_nat (k * sz)) (elem m q sz i)"
proof -
  have "sz \<le> n * sz" using k by (cases n) auto
  then have "sz \<le> 2 ^ 30" using n by (rule le_trans)
  then have u: "unat (of_nat sz :: u32) = sz" by (simp add: unat_of_nat)
  have "i * sz < n * sz" using k(2) sz by simp
  from separate_elem [OF sep k(1) this] have d: "sz \<le> unat (p + of_nat (k * sz) - (q + of_nat (i * sz)))"
    using separate_elem [OF sep [unfolded separate_sym [of _ p q]] k(2), of "k * sz"] k(1) sz by simp
  then show ?thesis by (simp add: copy_elem_def memcpy_poke u elem_def mul_word del: of_nat_mult)
qed

section \<open>The passes on memory implement the passes on lists\<close>

definition put :: "nat \<Rightarrow> 'a list \<Rightarrow> 'a list \<Rightarrow> 'a list" where
  "put k zs ys = take k ys @ zs @ drop (k + length zs) ys"

lemma put_Nil [simp]: "put k [] ys = ys"
  by (simp add: put_def)

lemma put_step: "k < length ys \<Longrightarrow> put (Suc k) zs (ys[k := e]) = put k (e # zs) ys"
  by (simp add: put_def take_Suc_conv_app_nth take_update_swap drop_update_cancel list_update_append)

lemma put_put:
  assumes "k + length zs \<le> length ys"
  shows "put (k + length zs) ws (put k zs ys) = put k (zs @ ws) ys"
  using assms by (cases zs) (auto simp: put_def min_def drop_append ac_simps)

lemma put_all: "length zs = length ys \<Longrightarrow> put 0 zs ys = zs"
  by (simp add: put_def)

definition seg :: "nat \<Rightarrow> nat \<Rightarrow> 'a list \<Rightarrow> 'a list" where
  "seg i j xs = take (j - i) (drop i xs)"

lemma seg_empty [simp]: "j \<le> i \<Longrightarrow> seg i j xs = []"
  by (simp add: seg_def)

lemma seg_Cons: "i < j \<Longrightarrow> i < length xs \<Longrightarrow> seg i j xs = xs ! i # seg (Suc i) j xs"
  by (simp add: seg_def Cons_nth_drop_Suc [symmetric] take_Cons')

lemma length_seg [simp]: "j \<le> length xs \<Longrightarrow> length (seg i j xs) = j - i"
  by (simp add: seg_def)

text \<open>One stretch of a pass: the elements \<open>zs\<close> appear in the target from index \<open>k\<close> on, the source
  array and everything outside the target are as before.\<close>

definition wrote :: "nat \<Rightarrow> nat \<Rightarrow> addr \<Rightarrow> addr \<Rightarrow> nat \<Rightarrow> u8 list list \<Rightarrow> mem \<Rightarrow> mem \<Rightarrow> bool" where
  "wrote n sz S D k zs m m' \<longleftrightarrow> arr m' S sz n = arr m S sz n \<and> arr m' D sz n = put k zs (arr m D sz n) \<and>
     (\<forall>x. n * sz \<le> unat (x - D) \<longrightarrow> m' x = m x)"

lemma wrote_Nil [simp]: "wrote n sz S D k [] m m"
  by (simp add: wrote_def)

lemma wrote_append:
  "wrote n sz S D k zs m m1 \<Longrightarrow> wrote n sz S D (k + length zs) ws m1 m2 \<Longrightarrow> k + length zs \<le> n \<Longrightarrow>
     wrote n sz S D k (zs @ ws) m m2"
  by (simp add: wrote_def put_put)

text \<open>What holds of the two arrays throughout.\<close>

definition sort_pair :: "nat \<Rightarrow> nat \<Rightarrow> addr \<Rightarrow> addr \<Rightarrow> bool" where
  "sort_pair n sz S D \<longleftrightarrow> 0 < sz \<and> n * sz \<le> 2 ^ 30 \<and> separate (n * sz) D S"

lemma sort_pair_sym: "sort_pair n sz S D \<longleftrightarrow> sort_pair n sz D S"
  by (auto simp: sort_pair_def separate_sym)

lemma sort_pair_n: "sort_pair n sz S D \<Longrightarrow> n \<le> 2 ^ 30"
  unfolding sort_pair_def by (metis mult.right_neutral mult_le_mono2 Suc_leI One_nat_def le_trans)

lemma copy_step:
  fixes m :: mem
  assumes "sort_pair n sz S D" "k < n" "i < n"
  defines "m1 \<equiv> copy_elem (of_nat sz) D (of_nat k) S (of_nat i) m"
  assumes "wrote n sz S D (Suc k) zs m1 m2"
  shows "wrote n sz S D k (elem m S sz i # zs) m m2"
proof -
  have m1: "m1 = poke m (D + of_nat (k * sz)) (elem m S sz i)"
    using assms(1-3) unfolding m1_def sort_pair_def by (intro copy_elem_spec) auto
  have "arr m1 S sz n = arr m S sz n" "arr m1 D sz n = (arr m D sz n)[k := elem m S sz i]"
    "\<And>x. n * sz \<le> unat (x - D) \<Longrightarrow> m1 x = m x"
    using assms(1,2) poke_elem_frame [of n sz D S k "elem m S sz i" m] poke_elem [of n sz k "elem m S sz i" m D]
      poke_elem_outside [of n sz k "elem m S sz i" _ D m]
    by (auto simp: m1 sort_pair_def elem_def)
  with assms(2,5) show ?thesis by (simp add: wrote_def put_step)
qed

lemma word_nat_less: "i < 2 ^ 32 \<Longrightarrow> j < 2 ^ 32 \<Longrightarrow> (of_nat i :: u32) < of_nat j \<longleftrightarrow> i < j"
  by (simp add: word_less_nat_alt unat_of_nat)

lemma of_nat_succ: "(of_nat i + 1 :: u32) = of_nat (Suc i)"
  by simp

lemma wrote_src: "wrote n sz S D k zs m m' \<Longrightarrow> arr m' S sz n = arr m S sz n"
  by (simp add: wrote_def)

lemma copy_elem_src:
  assumes "sort_pair n sz S D" "k < n" "i < n"
  shows "arr (copy_elem (of_nat sz) D (of_nat k) S (of_nat i) m) S sz n = arr m S sz n"
  using copy_step [OF assms, where zs = "[]" and m = m and ?m2.0 = "copy_elem (of_nat sz) D (of_nat k) S (of_nat i) m"]
  by (simp add: wrote_def)

lemma merge_rest_spec:
  assumes p: "sort_pair n sz S D" and lim: "lim \<le> n" "k + (lim - i) \<le> n" "i \<le> 3 * 2 ^ 30"
  shows "\<exists>m'. merge_rest (of_nat sz) S D (of_nat lim) (of_nat i) (of_nat k) m =
       Some (of_nat (k + (lim - i)), m') \<and> wrote n sz S D k (seg i lim (arr m S sz n)) m m'"
  using lim(2,3)
proof (induction "lim - i" arbitrary: i k m)
  case 0
  note n = sort_pair_n [OF p]
  have "\<not> (of_nat i :: u32) < of_nat lim" using 0 lim(1) n word_nat_less [of i lim] by simp
  with 0 show ?case by (subst merge_rest.simps) simp
next
  case (Suc d)
  note n = sort_pair_n [OF p]
  have i: "i < lim" "i < n" "k < n" using Suc lim(1) by auto
  let ?m = "copy_elem (of_nat sz) D (of_nat k) S (of_nat i) m"
  have lt: "(of_nat i :: u32) < of_nat lim" using i(1) lim(1) n word_nat_less [of i lim] by simp
  have dec: "d = lim - Suc i" "Suc k + (lim - Suc i) \<le> n" "Suc i \<le> 3 * 2 ^ 30"
    using Suc.hyps(2) Suc.prems i n lim(1) by simp_all
  obtain m' where m': "merge_rest (of_nat sz) S D (of_nat lim) (of_nat (Suc i)) (of_nat (Suc k)) ?m =
       Some (of_nat (Suc k + (lim - Suc i)), m')" "wrote n sz S D (Suc k) (seg (Suc i) lim (arr ?m S sz n)) ?m m'"
    using Suc.hyps(1) [OF dec] by blast
  have "wrote n sz S D k (seg i lim (arr m S sz n)) m m'"
    using copy_step [OF p i(3,2) m'(2)] i lim(1) by (simp add: seg_Cons copy_elem_src [OF p i(3,2)])
  moreover have e: "Suc k + (lim - Suc i) = k + (lim - i)" using i by simp
  ultimately show ?case
    using lt m'(1) [unfolded e] by (subst merge_rest.simps) (simp add: of_nat_succ del: of_nat_Suc of_nat_add of_nat_diff)
qed

definition reads :: "cmp_fn \<Rightarrow> (u8 list \<Rightarrow> u8 list \<Rightarrow> int) \<Rightarrow> nat \<Rightarrow> bool" where
  "reads cmp c sz \<longleftrightarrow> (\<forall>m a b. cmp m a b = c (bytes_at m a sz) (bytes_at m b sz))"

lemma reads_elem: "reads cmp c sz \<Longrightarrow>
  cmp m (p + of_nat i * of_nat sz) (p + of_nat j * of_nat sz) = c (elem m p sz i) (elem m p sz j)"
  by (simp add: reads_def elem_def)

lemma merge_run_step:
  assumes "i < mid" "j < right"
  shows "merge_run cmp sz S D mid right i j k m =
    (if cmp m (S + j * sz) (S + i * sz) < 0
     then merge_run cmp sz S D mid right i (j + 1) (k + 1) (copy_elem sz D k S j m)
     else merge_run cmp sz S D mid right (i + 1) j (k + 1) (copy_elem sz D k S i m))"
  using assms unfolding merge_run_def
  by (subst merge_both.simps) simp

lemma merge_both_end:
  "\<not> (i < mid \<and> j < right) \<Longrightarrow> merge_both cmp sz S D mid right i j k m = Some (i, j, k, m)"
  by (subst merge_both.simps) (rule if_not_P)

lemma merge_run_tail:
  assumes p: "sort_pair n sz S D" and lim: "mid \<le> n" "right \<le> n"
    and k: "k + (mid - i) + (right - j) \<le> n" "i \<le> n" "j \<le> 3 * 2 ^ 30" and out: "\<not> (i < mid \<and> j < right)"
  shows "\<exists>m'. merge_run cmp (of_nat sz) S D (of_nat mid) (of_nat right) (of_nat i) (of_nat j) (of_nat k) m = Some m' \<and>
     wrote n sz S D k (merge c (seg i mid (arr m S sz n)) (seg j right (arr m S sz n))) m m'"
proof -
  note n = sort_pair_n [OF p]
  have k1: "k + (mid - i) \<le> n" "i \<le> 3 * 2 ^ 30" using k n by simp_all
  obtain m1 where m1: "merge_rest (of_nat sz) S D (of_nat mid) (of_nat i) (of_nat k) m =
       Some (of_nat (k + (mid - i)), m1)" "wrote n sz S D k (seg i mid (arr m S sz n)) m m1"
    using merge_rest_spec [OF p lim(1) k1] by blast
  obtain m2 where m2: "merge_rest (of_nat sz) S D (of_nat right) (of_nat j) (of_nat (k + (mid - i))) m1 =
       Some (of_nat (k + (mid - i) + (right - j)), m2)"
      "wrote n sz S D (k + (mid - i)) (seg j right (arr m1 S sz n)) m1 m2"
    using merge_rest_spec [OF p lim(2) k(1,3)] by blast
  have "\<not> ((of_nat i :: u32) < of_nat mid \<and> (of_nat j :: u32) < of_nat right)"
    using out k lim n by (simp add: word_nat_less)
  then have run: "merge_run cmp (of_nat sz) S D (of_nat mid) (of_nat right) (of_nat i) (of_nat j) (of_nat k) m = Some m2"
    using m1(1) m2(1) unfolding merge_run_def by (simp add: merge_both_end del: of_nat_add of_nat_diff)
  have "wrote n sz S D k (seg i mid (arr m S sz n) @ seg j right (arr m S sz n)) m m2"
    using wrote_append [OF m1(2), of "seg j right (arr m S sz n)" m2] m2(2) wrote_src [OF m1(2)] k1(1) lim
    by simp
  moreover have "merge c (seg i mid (arr m S sz n)) (seg j right (arr m S sz n)) =
      seg i mid (arr m S sz n) @ seg j right (arr m S sz n)"
    using out by auto
  ultimately show ?thesis using run by auto
qed

lemma merge_run_spec:
  assumes p: "sort_pair n sz S D" and r: "reads cmp c sz" and lim: "mid \<le> n" "right \<le> n"
    and k: "k + (mid - i) + (right - j) \<le> n" "i \<le> n" "j \<le> 3 * 2 ^ 30"
  shows "\<exists>m'. merge_run cmp (of_nat sz) S D (of_nat mid) (of_nat right) (of_nat i) (of_nat j) (of_nat k) m = Some m' \<and>
     wrote n sz S D k (merge c (seg i mid (arr m S sz n)) (seg j right (arr m S sz n))) m m'"
  using k
proof (induction "(mid - i) + (right - j)" arbitrary: i j k m)
  case 0
  then show ?case by (intro merge_run_tail [OF p lim]) auto
next
  case (Suc d)
  note n = sort_pair_n [OF p]
  let ?A = "arr m S sz n"
  have w: "(of_nat i :: u32) < of_nat mid \<longleftrightarrow> i < mid" "(of_nat j :: u32) < of_nat right \<longleftrightarrow> j < right"
    using Suc.prems lim n by (simp_all add: word_nat_less)
  show ?case
  proof (cases "i < mid \<and> j < right")
    case True
    then have ij: "i < n" "j < n" "k < n" using lim Suc.prems by auto
    show ?thesis
    proof (cases "c (elem m S sz j) (elem m S sz i) < 0")
      case lt: True
      let ?m = "copy_elem (of_nat sz) D (of_nat k) S (of_nat j) m"
      have dec: "d = (mid - i) + (right - Suc j)" "Suc k + (mid - i) + (right - Suc j) \<le> n" "i \<le> n" "Suc j \<le> 3 * 2 ^ 30"
        using Suc.hyps(2) Suc.prems True lim n by simp_all
      obtain m' where "merge_run cmp (of_nat sz) S D (of_nat mid) (of_nat right) (of_nat i) (of_nat (Suc j)) (of_nat (Suc k)) ?m = Some m'"
        "wrote n sz S D (Suc k) (merge c (seg i mid (arr ?m S sz n)) (seg (Suc j) right (arr ?m S sz n))) ?m m'"
        using Suc.hyps(1) [OF dec] by blast
      then show ?thesis
        using True lt w copy_step [OF p ij(3,2), where m = m and ?m2.0 = m'] copy_elem_src [OF p ij(3,2), of m] lim ij
        by (subst merge_run_step) (auto simp: reads_elem [OF r] of_nat_succ seg_Cons simp del: of_nat_Suc)
    next
      case nlt: False
      let ?m = "copy_elem (of_nat sz) D (of_nat k) S (of_nat i) m"
      have dec: "d = (mid - Suc i) + (right - j)" "Suc k + (mid - Suc i) + (right - j) \<le> n" "Suc i \<le> n" "j \<le> 3 * 2 ^ 30"
        using Suc.hyps(2) Suc.prems True lim n by simp_all
      obtain m' where "merge_run cmp (of_nat sz) S D (of_nat mid) (of_nat right) (of_nat (Suc i)) (of_nat j) (of_nat (Suc k)) ?m = Some m'"
        "wrote n sz S D (Suc k) (merge c (seg (Suc i) mid (arr ?m S sz n)) (seg j right (arr ?m S sz n))) ?m m'"
        using Suc.hyps(1) [OF dec] by blast
      then show ?thesis
        using True nlt w copy_step [OF p ij(3,1), where m = m and ?m2.0 = m'] copy_elem_src [OF p ij(3,1), of m] lim ij
        by (subst merge_run_step) (auto simp: reads_elem [OF r] of_nat_succ seg_Cons simp del: of_nat_Suc)
    qed
  next
    case False
    with Suc.prems show ?thesis by (intro merge_run_tail [OF p lim])
  qed
qed

lemma pass_Nil: "pass c w [] = []"
  by (simp add: pass.simps)

lemma word_clip:
  assumes "a + b < 2 ^ 32" "n < 2 ^ 32"
  shows "(if of_nat a + of_nat b > (of_nat n :: u32) then of_nat n else of_nat a + of_nat b) = (of_nat (min n (a + b)) :: u32)"
  using word_nat_less [OF assms(2,1)] by (auto simp: min_def)

text \<open>One pass, from the run that starts at \<open>start\<close> on.\<close>

lemma merge_pass_spec:
  assumes p: "sort_pair n sz S D" and r: "reads cmp c sz" and w: "0 < w" "w < n" and s: "start \<le> 3 * 2 ^ 30"
  shows "\<exists>m'. merge_pass cmp (of_nat n) (of_nat sz) S D (of_nat w) (of_nat start) m = Some m' \<and>
     wrote n sz S D start (pass c w (drop start (arr m S sz n))) m m'"
  using s
proof (induction "n - start" arbitrary: start m rule: less_induct)
  case less
  note n = sort_pair_n [OF p]
  let ?A = "arr m S sz n"
  show ?case
  proof (cases "start < n")
    case False
    then have "\<not> (of_nat start :: u32) < of_nat n" using less.prems n by (simp add: word_nat_less)
    then show ?thesis using False by (subst merge_pass.simps) (simp add: pass.simps)
  next
    case True
    let ?mid = "min n (start + w)" and ?right = "min n (start + 2 * w)"
    have lt: "(of_nat start :: u32) < of_nat n" using True n by (simp add: word_nat_less)
    have wd: "(if of_nat start + of_nat w > (of_nat n :: u32) then of_nat n else of_nat start + of_nat w) = (of_nat ?mid :: u32)"
        "(if of_nat start + of_nat w * 2 > (of_nat n :: u32) then of_nat n else of_nat start + of_nat w * 2) = (of_nat ?right :: u32)"
    proof -
      have e: "(of_nat (2 * w) :: u32) = of_nat w * 2" by simp
      show "(if of_nat start + of_nat w > (of_nat n :: u32) then of_nat n else of_nat start + of_nat w) = (of_nat ?mid :: u32)"
        using True w n by (intro word_clip) auto
      show "(if of_nat start + of_nat w * 2 > (of_nat n :: u32) then of_nat n else of_nat start + of_nat w * 2) = (of_nat ?right :: u32)"
        unfolding e [symmetric] using True w n by (intro word_clip) auto
    qed
    have pre: "start + (?mid - start) + (?right - (start + w)) \<le> n" "start \<le> n" "start + w \<le> 3 * 2 ^ 30"
      using True w n by auto
    obtain m1 where m1: "merge_run cmp (of_nat sz) S D (of_nat ?mid) (of_nat ?right) (of_nat start) (of_nat (start + w)) (of_nat start) m = Some m1"
        "wrote n sz S D start (merge c (seg start ?mid ?A) (seg (start + w) ?right ?A)) m m1"
      using merge_run_spec [OF p r min.cobounded1 min.cobounded1 pre] by blast
    have segs: "seg start ?mid ?A = take w (drop start ?A)" "seg (start + w) ?right ?A = take w (drop w (drop start ?A))"
      using True by (auto simp: seg_def min_def add.commute)
    have dec: "n - (start + 2 * w) < n - start" "start + 2 * w \<le> 3 * 2 ^ 30" using True w n by auto
    obtain m2 where m2: "merge_pass cmp (of_nat n) (of_nat sz) S D (of_nat w) (of_nat (start + 2 * w)) m1 = Some m2"
       "wrote n sz S D (start + 2 * w) (pass c w (drop (start + 2 * w) (arr m1 S sz n))) m1 m2"
      using less.hyps [OF dec] by blast
    let ?z = "merge c (take w (drop start ?A)) (take w (drop w (drop start ?A)))"
    have ps: "pass c w (drop start ?A) = ?z @ pass c w (drop (start + 2 * w) ?A)"
      using True w by (subst pass.simps) (simp add: add.commute)
    have "wrote n sz S D (start + length ?z) (pass c w (drop (start + 2 * w) ?A)) m1 m2"
      using m2(2) wrote_src [OF m1(2)]
      by (cases "start + 2 * w \<le> n") (auto simp: min_def wrote_def pass_Nil mult_2)
    then have "wrote n sz S D start (pass c w (drop start ?A)) m m2"
      unfolding ps using m1(2) unfolding segs by (intro wrote_append) (use True in auto)
    moreover have "merge_pass cmp (of_nat n) (of_nat sz) S D (of_nat w) (of_nat start) m = Some m2"
      using lt m1(1) m2(1) wd by (subst merge_pass.simps) (simp add: Let_def mult.commute)
    ultimately show ?thesis by blast
  qed
qed

text \<open>All passes. The sorted array ends up in \<open>S\<close> or in \<open>D\<close>, whichever the number of passes says;
  nothing outside the two arrays changes.\<close>

fun passes :: "nat \<Rightarrow> nat \<Rightarrow> nat \<Rightarrow> nat" where
  "passes 0 w n = 0"
| "passes (Suc f) w n = (if w < n then Suc (passes f (2 * w) n) else 0)"

definition n_passes :: "nat \<Rightarrow> nat" where
  "n_passes n = passes n 1 n"

lemma passes_enough: "0 < w \<Longrightarrow> n \<le> w + f \<Longrightarrow> passes (Suc f) w n = passes f w n"
proof (induction f arbitrary: w)
  case (Suc f)
  then have "passes (Suc f) (2 * w) n = passes f (2 * w) n" by (intro Suc.IH) auto
  then show ?case by simp
qed simp

lemma passes_step: "0 < w \<Longrightarrow> w < n \<Longrightarrow> n \<le> w + f \<Longrightarrow> passes f w n = Suc (passes f (2 * w) n)"
  using passes_enough [of "2 * w" n "f - 1"] by (cases f) auto

lemma merge_passes_spec:
  assumes c: "comparison c" and p: "sort_pair n sz S D" and r: "reads cmp c sz" and w: "0 < w" "w < 2 * n" and f: "n \<le> w + f"
    and runs: "arr m S sz n = runs c w xs" and xs: "length xs = n"
  shows "\<exists>m' P. merge_passes cmp (of_nat n) (of_nat sz) S D (of_nat w) m = Some (P, m') \<and>
     P = (if even (passes f w n) then S else D) \<and> arr m' P sz n = ssort c xs \<and>
     (\<forall>x. n * sz \<le> unat (x - S) \<and> n * sz \<le> unat (x - D) \<longrightarrow> m' x = m x)"
  using p w f runs
proof (induction "n - w" arbitrary: w S D m rule: less_induct)
  case less
  note n = sort_pair_n [OF less.prems(1)]
  show ?case
  proof (cases "w < n")
    case False
    then have "\<not> (of_nat w :: u32) < of_nat n" using less.prems n by (simp add: word_nat_less)
    moreover have "passes f w n = 0" using False by (cases f) auto
    moreover have "runs c w xs = ssort c xs" using False xs less.prems by (intro runs_whole) auto
    ultimately show ?thesis using less.prems by (subst merge_passes.simps) simp
  next
    case True
    have lt: "(of_nat w :: u32) < of_nat n" using True n by (simp add: word_nat_less)
    obtain m1 where m1: "merge_pass cmp (of_nat n) (of_nat sz) S D (of_nat w) (of_nat 0) m = Some m1"
        "wrote n sz S D 0 (pass c w (drop 0 (arr m S sz n))) m m1"
      using merge_pass_spec [OF less.prems(1) r less.prems(2) True, of 0 m] by auto
    have "pass c w (arr m S sz n) = runs c (2 * w) xs"
      using less.prems(2,5) by (simp add: comparison.pass_runs [OF c])
    then have "arr m1 D sz n = runs c (2 * w) xs"
      using m1(2) less.prems(2) xs by (simp add: wrote_def put_all)
    moreover have "sort_pair n sz D S" using less.prems(1) by (simp add: sort_pair_sym)
    moreover have dec: "n - 2 * w < n - w" "0 < 2 * w" "2 * w < 2 * n" "n \<le> 2 * w + f"
      using True less.prems(2,4) by simp_all
    ultimately obtain m2 P where m2: "merge_passes cmp (of_nat n) (of_nat sz) D S (of_nat (2 * w)) m1 = Some (P, m2)"
       "P = (if even (passes f (2 * w) n) then D else S)" "arr m2 P sz n = ssort c xs"
       "\<forall>x. n * sz \<le> unat (x - D) \<and> n * sz \<le> unat (x - S) \<longrightarrow> m2 x = m1 x"
      using less.hyps [OF _ _ dec(2-4), of D S m1] dec(1) by blast
    have "merge_passes cmp (of_nat n) (of_nat sz) S D (of_nat w) m = Some (P, m2)"
      using lt m1(1) m2(1) by (subst merge_passes.simps) (simp add: mult.commute)
    moreover have "P = (if even (passes f w n) then S else D)"
      using m2(2) passes_step [OF less.prems(2) True less.prems(4)] by simp
    moreover have "\<forall>x. n * sz \<le> unat (x - S) \<and> n * sz \<le> unat (x - D) \<longrightarrow> m2 x = m x"
      using m2(4) m1(2) by (simp add: wrote_def)
    ultimately show ?thesis using m2(3) by blast
  qed
qed

section \<open>The insertion sort used without a scratch array\<close>

lemma swap_bytes_spec:
  assumes "separate n l r" "n < 2 ^ 32"
  shows "(\<forall>t < n. swap_bytes n l r m (l + of_nat t) = m (r + of_nat t) \<and>
       swap_bytes n l r m (r + of_nat t) = m (l + of_nat t)) \<and>
     (\<forall>x. n \<le> unat (x - l) \<and> n \<le> unat (x - r) \<longrightarrow> swap_bytes n l r m x = m x)"
  using assms
proof (induction n arbitrary: l r m)
  case (Suc n)
  define m1 where "m1 = m(l := m r, r := m l)"
  have sb: "swap_bytes (Suc n) l r m = swap_bytes n (l + 1) (r + 1) m1" by (simp add: m1_def)
  have lr: "l \<noteq> r" using Suc.prems by (auto simp: separate_def)
  have sep: "separate n (l + 1) (r + 1)" using Suc.prems by (simp add: separate_def)
  have less: "n \<le> unat (x - (y + 1))" if "Suc n \<le> unat (x - y)" for x y :: addr
  proof -
    have "x - y \<noteq> 0" using that by auto
    then have "unat (x - y - 1) = unat (x - y) - 1" by (rule unat_pred)
    then show ?thesis using that by (simp add: diff_diff_eq)
  qed
  have self: "n \<le> unat (x - (x + 1))" for x :: addr
  proof -
    have "unat (- 1 :: u32) = 2 ^ 32 - 1" by (simp add: unsigned_minus_1_eq_mask mask_eq_exp_minus_1)
    then show ?thesis using Suc.prems by simp
  qed
  have n: "n < 2 ^ 32" using Suc.prems by simp
  note ih = Suc.IH [OF sep n, of m1]
  have m1: "m1 l = m r" "m1 r = m l" "\<And>x. x \<noteq> l \<Longrightarrow> x \<noteq> r \<Longrightarrow> m1 x = m x"
    using lr by (simp_all add: m1_def)
  have far: "n \<le> unat (l - (r + 1))" "n \<le> unat (r - (l + 1))"
    using Suc.prems less [of l r] less [of r l] by (auto simp: separate_def)
  have ne: "l + 1 + of_nat t \<noteq> l \<and> l + 1 + of_nat t \<noteq> r \<and> r + 1 + of_nat t \<noteq> l \<and> r + 1 + of_nat t \<noteq> r"
    if t: "t < n" for t
    using separate_off [OF Suc.prems(1), of 0 "Suc t"] separate_off [OF Suc.prems(1), of "Suc t" 0] t
      off_inj [of "Suc t" 0 l] off_inj [of "Suc t" 0 r] Suc.prems(2) by (auto simp: add.assoc)
  show ?case
  proof (intro conjI allI impI)
    fix t assume t: "t < Suc n"
    show "swap_bytes (Suc n) l r m (l + of_nat t) = m (r + of_nat t)"
    proof (cases t)
      case 0
      then show ?thesis using ih far self [of l] m1 unfolding sb by simp
    next
      case (Suc t')
      with t have "t' < n" by simp
      with Suc ih ne [of t'] m1 show ?thesis unfolding sb by (simp add: add.assoc)
    qed
    show "swap_bytes (Suc n) l r m (r + of_nat t) = m (l + of_nat t)"
    proof (cases t)
      case 0
      then show ?thesis using ih far self [of r] m1 unfolding sb by simp
    next
      case (Suc t')
      with t have "t' < n" by simp
      with Suc ih ne [of t'] m1 show ?thesis unfolding sb by (simp add: add.assoc)
    qed
  next
    fix x assume x: "Suc n \<le> unat (x - l) \<and> Suc n \<le> unat (x - r)"
    then have "x \<noteq> l" "x \<noteq> r" by auto
    with x ih less [of x l] less [of x r] m1 show "swap_bytes (Suc n) l r m x = m x" unfolding sb by simp
  qed
qed simp

lemma elem_apart:
  fixes p :: addr
  assumes n: "n * sz \<le> 2 ^ 30" and ij: "i < n" "j < n" "i \<noteq> j" and b: "b < sz"
  shows "sz \<le> unat (p + of_nat (i * sz + b) - (p + of_nat (j * sz)))"
proof (rule ccontr)
  assume "\<not> ?thesis"
  then obtain t where t: "t < sz" "p + of_nat (i * sz + b) = p + of_nat (j * sz) + of_nat t"
    using hit_off [of "p + of_nat (i * sz + b)" "p + of_nat (j * sz)" sz] by auto
  have "p + of_nat (i * sz + b) = p + of_nat (j * sz + t)" unfolding t(2) by (simp add: add.assoc)
  moreover have "i * sz + b < 2 ^ 32" "j * sz + t < 2 ^ 32"
    using elem_index [OF ij(1) b] elem_index [OF ij(2) t(1)] n by simp_all
  ultimately have "i * sz + b = j * sz + t" using off_inj by blast
  then have "j * sz \<le> i * sz + b \<and> i * sz + b < j * sz + sz" using t(1) by linarith
  with same_elem [OF b, of j i] ij(3) show False by simp
qed

lemma outside_elem:
  fixes p :: addr
  assumes k: "k < n" and x: "n * sz \<le> unat (x - p)"
  shows "sz \<le> unat (x - (p + of_nat (k * sz)))"
proof (rule ccontr)
  assume "\<not> ?thesis"
  then obtain t where t: "t < sz" "x = p + of_nat (k * sz) + of_nat t"
    using hit_off [of x "p + of_nat (k * sz)" sz] by auto
  then have "x - p = of_nat (k * sz + t)" by simp
  then have "unat (x - p) \<le> k * sz + t" using unat_of_nat_le by metis
  with elem_index [OF k t(1)] x show False by simp
qed

lemma swap_elems:
  assumes n: "n * sz \<le> 2 ^ 30" "0 < sz" and j: "Suc j < n"
  shows "arr (swap_bytes sz (p + of_nat (j * sz)) (p + of_nat (Suc j * sz)) m) p sz n =
       (arr m p sz n)[j := elem m p sz (Suc j), Suc j := elem m p sz j]"
    "\<And>x. n * sz \<le> unat (x - p) \<Longrightarrow> swap_bytes sz (p + of_nat (j * sz)) (p + of_nat (Suc j * sz)) m x = m x"
proof -
  let ?l = "p + of_nat (j * sz)" and ?r = "p + of_nat (Suc j * sz)"
  let ?m = "swap_bytes sz ?l ?r m"
  have sep: "separate sz ?l ?r"
    using elem_apart [OF n(1) j _ _ n(2), of j p] elem_apart [OF n(1) _ j _ n(2), of j p] j
    by (auto simp: separate_def)
  have "sz \<le> n * sz" using j by (cases n) auto
  then have "sz \<le> 2 ^ 30" using n(1) by (rule le_trans)
  then have "sz < 2 ^ 32" by simp
  note sw = swap_bytes_spec [OF sep this, of m]
  show "?m x = m x" if "n * sz \<le> unat (x - p)" for x
    using sw outside_elem [OF _ that, of j] outside_elem [OF _ that, of "Suc j"] j by auto
  show "arr ?m p sz n = (arr m p sz n)[j := elem m p sz (Suc j), Suc j := elem m p sz j]"
  proof (rule nth_equalityI)
    fix i assume "i < length (arr ?m p sz n)"
    then have i: "i < n" by simp
    have "elem ?m p sz i ! b = (if i = j then elem m p sz (Suc j) else if i = Suc j then elem m p sz j else elem m p sz i) ! b"
      if b: "b < sz" for b
    proof -
      have "?m (p + of_nat (i * sz + b)) = m (p + of_nat (i * sz + b))" if "i \<noteq> j" "i \<noteq> Suc j"
        using sw elem_apart [OF n(1) i _ that(1) b] elem_apart [OF n(1) i j that(2) b] j by auto
      moreover have "?m (p + of_nat (j * sz + b)) = m (p + of_nat (Suc j * sz + b))"
        "?m (p + of_nat (Suc j * sz + b)) = m (p + of_nat (j * sz + b))"
        using sw b by (simp_all add: add.assoc)
      ultimately show ?thesis using b by (auto simp: nth_elem simp del: of_nat_add mult_Suc)
    qed
    then have "elem ?m p sz i = (if i = j then elem m p sz (Suc j) else if i = Suc j then elem m p sz j else elem m p sz i)"
      by (intro nth_equalityI) (auto simp: elem_def)
    then show "arr ?m p sz n ! i = (arr m p sz n)[j := elem m p sz (Suc j), Suc j := elem m p sz j] ! i"
      using i by (auto simp: nth_list_update)
  qed simp
qed

context comparison
begin

lemma merge_snoc:
  "sorted_by c (xs @ [y]) \<Longrightarrow>
     merge c (xs @ [y]) [x] = (if c y x \<le> 0 then xs @ [y, x] else merge c xs [x] @ [y])"
proof (induction xs)
  case Nil
  then show ?case using flip [of x y] by auto
next
  case (Cons z xs)
  show ?case
  proof (cases "c y x \<le> 0")
    case True
    then have "c z x \<le> 0" using Cons.prems trans_le [of z y x] by auto
    then have "\<not> c x z < 0" using flip [of x z] by simp
    with Cons True show ?thesis by simp
  next
    case False
    with Cons show ?thesis by simp
  qed
qed

lemma ssort_snoc: "ssort c (xs @ [x]) = merge c (ssort c xs) [x]"
  using merge_ssort [of xs "[x]"] by simp

end

lemma isort_inner_spec:
  assumes c: "comparison c" and r: "reads cmp c sz" and n: "n * sz \<le> 2 ^ 30" "0 < sz"
  shows "arr m a sz n = xs @ x # rest \<Longrightarrow> sorted_by c xs \<Longrightarrow>
     \<exists>m'. isort_inner cmp (of_nat sz) a (of_nat (length xs)) m = Some m' \<and>
       arr m' a sz n = merge c xs [x] @ rest \<and> (\<forall>z. n * sz \<le> unat (z - a) \<longrightarrow> m' z = m z)"
proof (induction xs arbitrary: m rest rule: rev_induct)
  case Nil
  then show ?case by (subst isort_inner.simps) simp
next
  case (snoc y xs)
  let ?j = "length xs"
  have "length (arr m a sz n) = length ((xs @ [y]) @ x # rest)" using snoc.prems(1) by (rule arg_cong)
  then have len: "Suc ?j < n" by simp
  have "n \<le> n * sz" using n(2) by simp
  then have n30: "n \<le> 2 ^ 30" using n(1) by (rule le_trans)
  have el: "elem m a sz ?j = y" "elem m a sz (Suc ?j) = x"
    using arg_cong [OF snoc.prems(1), of "\<lambda>l. l ! ?j"] arg_cong [OF snoc.prems(1), of "\<lambda>l. l ! Suc ?j"] len
    by (simp_all add: nth_append)
  have ms: "merge c (xs @ [y]) [x] = (if c y x \<le> 0 then xs @ [y, x] else merge c xs [x] @ [y])"
    by (rule comparison.merge_snoc [OF c snoc.prems(2)])
  have pos: "(of_nat (Suc ?j) :: u32) > 0" "of_nat (Suc ?j) - 1 = (of_nat ?j :: u32)"
    using len n30 word_nat_less [of 0 "Suc ?j"] by simp_all
  have rd: "cmp m (a + of_nat ?j * of_nat sz) (a + of_nat (Suc ?j) * of_nat sz) = c y x"
    unfolding reads_elem [OF r] el ..
  have "sz \<le> n * sz" using len by (cases n) auto
  then have "sz \<le> 2 ^ 30" using n(1) by (rule le_trans)
  then have usz: "unat (of_nat sz :: u32) = sz" by (simp add: unat_of_nat)
  note step = isort_inner.simps [of cmp "of_nat sz" a "of_nat (Suc ?j)" m, unfolded pos(2) Let_def rd [unfolded mul_word] usz mul_word]
  show ?case
  proof (cases "c y x \<le> 0")
    case True
    then show ?thesis using step pos(1) ms snoc.prems(1) by (simp del: of_nat_Suc of_nat_mult mult_Suc)
  next
    case False
    let ?m = "swap_bytes sz (a + of_nat (?j * sz)) (a + of_nat (Suc ?j * sz)) m"
    have "arr ?m a sz n = xs @ x # (y # rest)"
      using swap_elems(1) [OF n len, of a m] el snoc.prems(1) by (simp add: list_update_append)
    moreover have "sorted_by c xs" using snoc.prems(2) by (simp add: sorted_wrt_append)
    ultimately obtain m' where m': "isort_inner cmp (of_nat sz) a (of_nat ?j) ?m = Some m'"
       "arr m' a sz n = merge c xs [x] @ y # rest" "\<forall>z. n * sz \<le> unat (z - a) \<longrightarrow> m' z = ?m z"
      using snoc.IH [of ?m "y # rest"] by blast
    have "isort_inner cmp (of_nat sz) a (of_nat (Suc ?j)) m = Some m'"
      using step False pos(1) m'(1) by (simp del: of_nat_Suc of_nat_mult mult_Suc)
    then show ?thesis using m' ms False swap_elems(2) [OF n len, of _ a m] by auto
  qed
qed

lemma isort_spec:
  assumes c: "comparison c" and r: "reads cmp c sz" and n: "n * sz \<le> 2 ^ 30" "0 < sz" and xs: "length xs = n"
  shows "i \<le> n \<Longrightarrow> arr m a sz n = ssort c (take i xs) @ drop i xs \<Longrightarrow>
     \<exists>m'. isort cmp (of_nat n) (of_nat sz) a (of_nat i) m = Some m' \<and> arr m' a sz n = ssort c xs \<and>
       (\<forall>z. n * sz \<le> unat (z - a) \<longrightarrow> m' z = m z)"
proof (induction "n - i" arbitrary: i m)
  case 0
  then show ?case using xs by (subst isort.simps) simp
next
  case (Suc d)
  have "n \<le> n * sz" using n(2) by simp
  then have "n \<le> 2 ^ 30" using n(1) by (rule le_trans)
  then have lt: "(of_nat i :: u32) < of_nat n" using Suc by (simp add: word_nat_less)
  have i: "i < n" using Suc by simp
  then have dr: "drop i xs = xs ! i # drop (Suc i) xs" using xs by (simp add: Cons_nth_drop_Suc)
  obtain m1 where m1: "isort_inner cmp (of_nat sz) a (of_nat i) m = Some m1"
      "arr m1 a sz n = merge c (ssort c (take i xs)) [xs ! i] @ drop (Suc i) xs"
      "\<forall>z. n * sz \<le> unat (z - a) \<longrightarrow> m1 z = m z"
    using isort_inner_spec [OF c r n Suc.prems(2) [unfolded dr] comparison.sorted_ssort [OF c]] i xs by auto
  have "merge c (ssort c (take i xs)) [xs ! i] = ssort c (take (Suc i) xs)"
    using i xs comparison.ssort_snoc [OF c, of "take i xs" "xs ! i"] by (simp add: take_Suc_conv_app_nth)
  moreover have dec: "d = n - Suc i" "Suc i \<le> n" using Suc.hyps(2) i by simp_all
  ultimately obtain m2 where m2: "isort cmp (of_nat n) (of_nat sz) a (of_nat (Suc i)) m1 = Some m2"
      "arr m2 a sz n = ssort c xs" "\<forall>z. n * sz \<le> unat (z - a) \<longrightarrow> m2 z = m1 z"
    using Suc.hyps(1) [OF dec, of m1] m1(2) by metis
  have "isort cmp (of_nat n) (of_nat sz) a (of_nat i) m = Some m2"
    using lt m1(1) m2(1) by (subst isort.simps) (simp add: add.commute)
  with m2 m1(3) show ?case by auto
qed

section \<open>qsort on a live array\<close>

lemma only_poke:
  fixes p :: addr
  assumes "n \<le> 2 ^ 32" "\<And>x. n \<le> unat (x - p) \<Longrightarrow> m' x = m x"
  shows "m' = poke m p (bytes_at m' p n)"
proof
  fix x
  show "m' x = poke m p (bytes_at m' p n) x"
    using assms(2) [of x] by (cases "unat (x - p) < n") (simp_all add: poke_def)
qed

lemma only_poke2:
  fixes p q :: addr
  assumes "n \<le> 2 ^ 32" "\<And>x. n \<le> unat (x - p) \<Longrightarrow> n \<le> unat (x - q) \<Longrightarrow> m' x = m x"
  shows "m' = poke (poke m p (bytes_at m' p n)) q (bytes_at m' q n)"
proof (rule only_poke [OF assms(1)])
  fix x assume x: "n \<le> unat (x - q)"
  show "m' x = poke m p (bytes_at m' p n) x"
    using assms(2) [OF _ x] by (cases "unat (x - p) < n") (simp_all add: poke_def)
qed

lemma arr_cong:
  assumes "\<And>i. i < n * sz \<Longrightarrow> m (p + of_nat i) = m' (q + of_nat i)"
  shows "arr m p sz n = arr m' q sz n"
  unfolding arr_def
proof (rule map_cong [OF refl])
  fix i assume "i \<in> set [0..<n]"
  then have "i < n" by simp
  then have "m (p + of_nat (i * sz) + of_nat b) = m' (q + of_nat (i * sz) + of_nat b)" if "b < sz" for b
    using assms [OF elem_index [OF _ that], of i] by (simp add: add.assoc)
  then show "elem m p sz i = elem m' q sz i" unfolding elem_def by (intro bytes_at_cong)
qed

text \<open>Rewriting two live blocks in any way keeps the heap and the other blocks.\<close>

lemma two_blocks_live:
  assumes l: "live h L" "p \<in> L" "q \<in> L" and n: "n \<le> cap h p" "n \<le> cap h q"
    and m: "\<And>x. n \<le> unat (x - p) \<Longrightarrow> n \<le> unat (x - q) \<Longrightarrow> m' x = hmem h x"
  shows "live (h\<lparr>hmem := m'\<rparr>) L \<and> same_data h (h\<lparr>hmem := m'\<rparr>) (L - {p, q}) \<and>
     (\<forall>r \<in> L. cap (h\<lparr>hmem := m'\<rparr>) r = cap h r)"
proof -
  have "n \<le> 2 ^ 32" using live_arith(2) [OF l(1,2)] n(1) by simp
  then have eq: "m' = poke (poke (hmem h) p (bytes_at m' p n)) q (bytes_at m' q n)"
    by (rule only_poke2) (use m in auto)
  define h1 where "h1 = h\<lparr>hmem := poke (hmem h) p (bytes_at m' p n)\<rparr>"
  have 1: "live h1 L" "same_data h h1 (L - {p})" "\<forall>r \<in> L. cap h1 r = cap h r"
    using poke_live [OF l(1,2), of 0 "bytes_at m' p n"] n l(3) by (simp_all add: h1_def)
  have "live (h1\<lparr>hmem := poke (hmem h1) q (bytes_at m' q n)\<rparr>) L"
    "same_data h1 (h1\<lparr>hmem := poke (hmem h1) q (bytes_at m' q n)\<rparr>) (L - {q})"
    "\<forall>r \<in> L. cap (h1\<lparr>hmem := poke (hmem h1) q (bytes_at m' q n)\<rparr>) r = cap h1 r"
    using poke_live [OF 1(1) l(3), of 0 "bytes_at m' q n"] n 1(3) l(3) by simp_all
  moreover have "h1\<lparr>hmem := poke (hmem h1) q (bytes_at m' q n)\<rparr> = h\<lparr>hmem := m'\<rparr>"
    using eq by (simp add: h1_def)
  ultimately have 2: "live (h\<lparr>hmem := m'\<rparr>) L" "same_data h1 (h\<lparr>hmem := m'\<rparr>) (L - {q})"
    "\<forall>r \<in> L. cap (h\<lparr>hmem := m'\<rparr>) r = cap h1 r" by simp_all
  have "same_data h (h\<lparr>hmem := m'\<rparr>) (L - {p, q})"
    by (rule same_data_trans [OF same_data_mono [OF 1(2)] same_data_mono [OF 2(2)]]) auto
  with 2(1,3) 1(3) show ?thesis by simp
qed

lemma qsort_work_spec:
  assumes c: "comparison c" and r: "reads cmp c (unat sz)" and l: "live h L" "base \<in> L"
    and fit: "unat cnt * unat sz \<le> cap h base" "0 < unat sz" "2 \<le> unat cnt"
  defines "n \<equiv> unat cnt" and "s \<equiv> unat sz"
  shows "\<exists>src h'. qsort_work cmp base cnt sz h = Some (src, h') \<and>
     arr (hmem h') base s n = ssort c (arr (hmem h) base s n) \<and> same_data h h' (L - {base}) \<and> cap h' base = cap h base \<and>
     (src = 0 \<and> malloc (cnt * sz) h = Some (0, h) \<and> live h' L \<or>
      (\<exists>scratch. scratch \<notin> L \<and> scratch \<noteq> 0 \<and> live h' (insert scratch L) \<and>
        src = (if even (n_passes n) then base else scratch)))"
proof -
  let ?N = "n * s"
  note a = live_arith [OF l]
  have N: "?N \<le> 0x5C0000" "?N \<le> cap h base" using a(2) fit(1) by (simp_all add: n_def s_def)
  have w: "of_nat n = cnt" "of_nat s = sz" by (simp_all add: n_def s_def)
  have uN: "unat (cnt * sz) = ?N" using N(1) by (simp add: unat_word_ariths n_def s_def)
  have n30: "?N \<le> 2 ^ 30" "0 < s" "2 \<le> n" using N fit by (simp_all add: s_def n_def)
  let ?xs = "arr (hmem h) base s n"
  have go: "\<not> (cnt < 2 \<or> sz = 0)" using fit(2,3) by (auto simp: word_less_nat_alt)
  have "unat (cnt * sz) \<le> 0xFEFFFFF8" using uN N(1) by simp
  from l(1) this show ?thesis
  proof (cases rule: malloc_none_or)
    case 1
    have "take 1 ?xs = [?xs ! 0]" using n30(3) take_Suc_conv_app_nth [of 0 ?xs] by simp
    then have "?xs = ssort c (take 1 ?xs) @ drop 1 ?xs"
      by (metis append_take_drop_id ssort_single)
    then obtain m' where m': "isort cmp cnt sz base 1 (hmem h) = Some m'"
        "arr m' base s n = ssort c ?xs" "\<forall>z. ?N \<le> unat (z - base) \<longrightarrow> m' z = hmem h z"
      using isort_spec [OF c r [folded s_def] n30(1,2), where xs = ?xs and i = 1 and m = "hmem h" and a = base]
        n30(3) w by auto
    have "live (h\<lparr>hmem := m'\<rparr>) L \<and> same_data h (h\<lparr>hmem := m'\<rparr>) (L - {base, base}) \<and>
        (\<forall>r \<in> L. cap (h\<lparr>hmem := m'\<rparr>) r = cap h r)"
      using m'(3) N(2) l by (intro two_blocks_live [where n = ?N]) auto
    moreover have "qsort_work cmp base cnt sz h = Some (0, h\<lparr>hmem := m'\<rparr>)"
      using go 1 m'(1) by (simp add: qsort_work_def)
    ultimately show ?thesis using 1 m'(2) l(2) by auto
  next
    case (2 scratch h1)
    have c1: "cap h1 base = cap h base" "arr (hmem h1) base s n = ?xs"
      using 2(6) l(2) N(2) by (auto simp: same_data_def intro!: arr_cong)
    have l1: "base \<in> insert scratch L" "scratch \<in> insert scratch L" "base \<noteq> scratch" using l(2) 2(3) by auto
    have sep: "separate ?N scratch base" "?N \<le> cap h1 scratch" "?N \<le> cap h1 base"
      using live_distance [OF 2(4) l1] live_distance [OF 2(4) l1(2,1)] l1(3) 2(5) uN c1(1) N(2)
      by (auto simp: separate_def)
    then have sp: "sort_pair n s base scratch" using n30 by (simp add: sort_pair_def)
    have "1 < 2 * n" "n \<le> 1 + n" using n30(3) by simp_all
    then obtain m' P where m': "merge_passes cmp cnt sz base scratch 1 (hmem h1) = Some (P, m')"
       "P = (if even (n_passes n) then base else scratch)" "arr m' P s n = ssort c ?xs"
       "\<forall>x. ?N \<le> unat (x - base) \<and> ?N \<le> unat (x - scratch) \<longrightarrow> m' x = hmem h1 x"
      using merge_passes_spec [OF c sp r [folded s_def] zero_less_one, where f = n and m = "hmem h1" and xs = ?xs] c1(2) w
      by (auto simp: runs_1 [unfolded One_nat_def] n_passes_def)
    define m2 where "m2 = (if P \<noteq> base then snd (memcpy base P (cnt * sz) m') else m')"
    have m2: "m2 = (if P \<noteq> base then poke m' base (bytes_at m' scratch ?N) else m')"
      using sep(1) m'(2) uN by (auto simp: m2_def memcpy_poke separate_def)
    have "arr m2 base s n = arr m' P s n"
    proof (cases "P = base")
      case False
      then have "P = scratch" "m2 = poke m' base (bytes_at m' scratch ?N)" using m'(2) m2 by (auto split: if_splits)
      then show ?thesis using n30(1) by (intro arr_cong) simp
    qed (simp add: m2)
    moreover have "\<And>x. ?N \<le> unat (x - base) \<Longrightarrow> ?N \<le> unat (x - scratch) \<Longrightarrow> m2 x = hmem h1 x"
      using m'(4) by (simp add: m2 poke_outside)
    then have "live (h1\<lparr>hmem := m2\<rparr>) (insert scratch L)"
      "same_data h1 (h1\<lparr>hmem := m2\<rparr>) (insert scratch L - {base, scratch})"
      "cap (h1\<lparr>hmem := m2\<rparr>) base = cap h base"
      using c1(1) l1(1) two_blocks_live [OF 2(4) l1(1,2) sep(3,2), of m2] by auto
    moreover from this(2) have "same_data h1 (h1\<lparr>hmem := m2\<rparr>) (L - {base})"
      by (rule same_data_mono) (use 2(3) in auto)
    then have "same_data h (h1\<lparr>hmem := m2\<rparr>) (L - {base})"
      using same_data_mono [OF 2(6), of "L - {base}"] same_data_trans by blast
    moreover have "qsort_work cmp base cnt sz h = Some (P, h1\<lparr>hmem := m2\<rparr>)"
      using go 2(1,2) m'(1) by (simp add: qsort_work_def m2_def)
    ultimately show ?thesis using m'(2,3) 2(2,3) by auto
  qed
qed

section \<open>bsearch on a sorted array\<close>

lemma word_half: "n < 2 ^ 32 \<Longrightarrow> (of_nat n :: u32) div 2 = of_nat (n div 2)"
  by (simp add: word_unat_eq_iff unat_div unat_of_nat)

lemma sorted_by_nth:
  assumes "comparison c" "sorted_by c xs" "i \<le> j" "j < length xs"
  shows "c (xs ! i) (xs ! j) \<le> 0"
  using assms comparison.refl_le [OF assms(1)] by (cases "i = j") (auto simp: sorted_wrt_iff_nth_less)

lemma bsearch_loop_spec:
  assumes c: "comparison c" and r: "reads cmp c sz" and srt: "sorted_by c (arr m base sz N)"
    and N: "N < 2 ^ 32" and key: "k = bytes_at m key sz"
  shows "l + n \<le> N \<Longrightarrow> \<exists>p. bsearch_loop cmp key (of_nat sz) m (base + of_nat (l * sz)) (of_nat n) = Some p \<and>
     ((\<exists>i \<ge> l. i < l + n \<and> p = base + of_nat (i * sz) \<and> c k (elem m base sz i) = 0) \<or>
      p = 0 \<and> (\<forall>i \<ge> l. i < l + n \<longrightarrow> c k (elem m base sz i) \<noteq> 0))"
proof (induction n arbitrary: l rule: less_induct)
  case (less n)
  note flip = comparison.flip [OF c] and trans = comparison.trans_le [OF c]
  let ?x = "elem m base sz"
  show ?case
  proof (cases "n = 0")
    case True
    then show ?thesis by (subst bsearch_loop.simps) simp
  next
    case False
    let ?h = "n div 2"
    have n32: "n < 2 ^ 32" using less.prems N by simp
    then have nz: "(of_nat n :: u32) \<noteq> 0" using False of_nat_inj_u32 [of n 0] by simp
    have le: "c (?x i) (?x j) \<le> 0" if "i \<le> j" "j < N" for i j
      using sorted_by_nth [OF c srt that(1)] that by simp
    have mid: "base + of_nat (l * sz) + of_nat n div 2 * of_nat sz = base + of_nat ((l + ?h) * sz)"
      using word_half [OF n32] by (simp add: algebra_simps)
    have rd: "cmp m key (base + of_nat ((l + ?h) * sz)) = c k (?x (l + ?h))"
      using r by (simp add: reads_def elem_def key)
    have up: "base + of_nat ((l + ?h) * sz) + of_nat sz = base + of_nat ((l + ?h + 1) * sz)"
      by (simp add: algebra_simps)
    have rest: "of_nat n - (of_nat n div 2 + 1) = (of_nat (n - (?h + 1)) :: u32)"
      using word_half [OF n32] False by (simp add: of_nat_diff)
    have step: "bsearch_loop cmp key (of_nat sz) m (base + of_nat (l * sz)) (of_nat n) =
        (if c k (?x (l + ?h)) = 0 then Some (base + of_nat ((l + ?h) * sz))
         else if c k (?x (l + ?h)) > 0
         then bsearch_loop cmp key (of_nat sz) m (base + of_nat ((l + ?h + 1) * sz)) (of_nat (n - (?h + 1)))
         else bsearch_loop cmp key (of_nat sz) m (base + of_nat (l * sz)) (of_nat ?h))"
      by (subst bsearch_loop.simps)
        (simp only: nz Let_def mid rd up rest simp_thms if_True not_False_eq_True, simp only: word_half [OF n32])
    consider "c k (?x (l + ?h)) = 0" | "c k (?x (l + ?h)) > 0" | "c k (?x (l + ?h)) < 0" by linarith
    then show ?thesis
    proof cases
      case 1
      then have "bsearch_loop cmp key (of_nat sz) m (base + of_nat (l * sz)) (of_nat n) = Some (base + of_nat ((l + ?h) * sz))"
        using step by simp
      moreover have "l \<le> l + ?h" "l + ?h < l + n" using False by auto
      ultimately show ?thesis using 1 by blast
    next
      case 2
      have no: "c k (?x i) \<noteq> 0" if "i \<le> l + ?h" for i
        using trans [of k "?x i" "?x (l + ?h)"] le [OF that] 2 less.prems False by auto
      have "l + ?h + 1 + (n - (?h + 1)) \<le> N" "n - (?h + 1) < n" and e: "l + ?h + 1 + (n - (?h + 1)) = l + n"
        using less.prems False by auto
      from less.IH [OF this(2,1)] obtain p where p:
        "bsearch_loop cmp key (of_nat sz) m (base + of_nat ((l + ?h + 1) * sz)) (of_nat (n - (?h + 1))) = Some p"
        "(\<exists>i \<ge> l + ?h + 1. i < l + n \<and> p = base + of_nat (i * sz) \<and> c k (?x i) = 0) \<or>
         p = 0 \<and> (\<forall>i \<ge> l + ?h + 1. i < l + n \<longrightarrow> c k (?x i) \<noteq> 0)"
        unfolding e by blast
      have "c k (?x i) \<noteq> 0" if "\<forall>i \<ge> l + ?h + 1. i < l + n \<longrightarrow> c k (?x i) \<noteq> 0" "i < l + n" for i
        using that no [of i] by (cases "i \<le> l + ?h") auto
      moreover have "bsearch_loop cmp key (of_nat sz) m (base + of_nat (l * sz)) (of_nat n) = Some p"
        using step 2 p(1) by (simp only: if_False if_True)  simp
      moreover have "l \<le> i" if "l + ?h + 1 \<le> i" for i using that by simp
      ultimately show ?thesis using p(2) by blast
    next
      case 3
      have no: "c k (?x i) \<noteq> 0" if "l + ?h \<le> i" "i < N" for i
        using trans [of "?x (l + ?h)" "?x i" k] le [OF that] 3 flip [of k "?x (l + ?h)"] flip [of k "?x i"] by auto
      have "l + ?h \<le> N" "?h < n" using less.prems False by auto
      from less.IH [OF this(2,1)] obtain p where p:
        "bsearch_loop cmp key (of_nat sz) m (base + of_nat (l * sz)) (of_nat ?h) = Some p"
        "(\<exists>i \<ge> l. i < l + ?h \<and> p = base + of_nat (i * sz) \<and> c k (?x i) = 0) \<or>
         p = 0 \<and> (\<forall>i \<ge> l. i < l + ?h \<longrightarrow> c k (?x i) \<noteq> 0)"
        by blast
      have "c k (?x i) \<noteq> 0" if "\<forall>i \<ge> l. i < l + ?h \<longrightarrow> c k (?x i) \<noteq> 0" "l \<le> i" "i < l + n" for i
        using that no [of i] less.prems by (cases "i < l + ?h") auto
      moreover have "i < l + n" if "i < l + ?h" for i using that False by simp
      moreover have "bsearch_loop cmp key (of_nat sz) m (base + of_nat (l * sz)) (of_nat n) = Some p"
        using step 3 p(1) by simp
      ultimately show ?thesis using p(2) by blast
    qed
  qed
qed

section \<open>A callback of the tree\<close>

text \<open>\<open>cmp_int\<close> of \<^verbatim>\<open>c/prog/libctest.c\<close>, which orders an array of \<^verbatim>\<open>int\<close>.\<close>

definition cmp_int :: cmp_fn where
  "cmp_int m a b =
     (let x = sint (ld32 m a); y = sint (ld32 m b) in if x < y then - 1 else if x > y then 1 else 0)"

definition le_int :: "u8 list \<Rightarrow> int" where
  "le_int bs = sint (ucast (bs ! 0) OR push_bit 8 (ucast (bs ! 1)) OR
     push_bit 16 (ucast (bs ! 2)) OR push_bit 24 (ucast (bs ! 3)) :: u32)"

definition int_order :: "u8 list \<Rightarrow> u8 list \<Rightarrow> int" where
  "int_order xs ys = (if le_int xs < le_int ys then - 1 else if le_int xs > le_int ys then 1 else 0)"

interpretation int_cmp: comparison int_order
  by unfold_locales (auto simp: int_order_def split: if_splits)

lemma cmp_int_reads: "reads cmp_int int_order 4"
  by (simp add: reads_def cmp_int_def int_order_def le_int_def ld32_def Let_def)

section \<open>Properties\<close>

text \<open>C5: when \<open>qsort\<close> makes an odd number of passes it returns with the array sorted: the new contents
  are the stable sort of the old, so they are in order, are a permutation, and equal elements
  keep their order. Every live block is still live, and no other block has changed.\<close>

theorem qsort_correct:
  assumes "comparison c" "reads cmp c (unat sz)" "live h L" "base \<in> L"
    "unat cnt * unat sz \<le> cap h base" "0 < unat sz" "2 \<le> unat cnt" "odd (n_passes (unat cnt))"
  defines "xs \<equiv> arr (hmem h) base (unat sz) (unat cnt)"
  shows "\<exists>h'. qsort cmp base cnt sz h = Some h' \<and> live h' L \<and> same_data h h' (L - {base}) \<and>
     (let ys = arr (hmem h') base (unat sz) (unat cnt)
      in sorted_by c ys \<and> mset ys = mset xs \<and>
         (\<forall>z. filter (\<lambda>y. c z y = 0 \<and> c y z = 0) ys = filter (\<lambda>y. c z y = 0 \<and> c y z = 0) xs))"
proof -
  have ss: "sorted_by c (ssort c xs)" "mset (ssort c xs) = mset xs"
      "\<And>z. filter (\<lambda>y. c z y = 0 \<and> c y z = 0) (ssort c xs) = filter (\<lambda>y. c z y = 0 \<and> c y z = 0) xs"
    using comparison.sorted_ssort [OF assms(1)] comparison.stable_ssort [OF assms(1)] by simp_all
  obtain src h1 where w: "qsort_work cmp base cnt sz h = Some (src, h1)"
      "arr (hmem h1) base (unat sz) (unat cnt) = ssort c xs" "same_data h h1 (L - {base})" "cap h1 base = cap h base"
      "src = 0 \<and> live h1 L \<or> src \<notin> L \<and> src \<noteq> 0 \<and> live h1 (insert src L)"
    using qsort_work_spec [OF assms(1-7)] assms(8) unfolding xs_def by auto
  from w(5) show ?thesis
  proof
    assume "src = 0 \<and> live h1 L"
    then have "qsort cmp base cnt sz h = Some h1 \<and> live h1 L" using w(1) by (auto simp: qsort_def)
    then show ?thesis using w(2,3) ss by (intro exI [of _ h1]) (simp add: Let_def)
  next
    assume s: "src \<notin> L \<and> src \<noteq> 0 \<and> live h1 (insert src L)"
    then obtain h2 where h2: "free src h1 = Some h2" "live h2 L" "same_data h1 h2 L"
      using free_live [of h1 "insert src L" src] by auto
    have "qsort cmp base cnt sz h = Some h2" using w(1) s h2(1) by (simp add: qsort_def)
    moreover have "arr (hmem h2) base (unat sz) (unat cnt) = ssort c xs"
    proof -
      have "arr (hmem h2) base (unat sz) (unat cnt) = arr (hmem h1) base (unat sz) (unat cnt)"
        using h2(3) assms(4,5) w(4) by (intro arr_cong) (simp add: same_data_def)
      then show ?thesis using w(2) by simp
    qed
    moreover have "same_data h h2 (L - {base})"
      using w(3) same_data_mono [OF h2(3), of "L - {base}"] same_data_trans by blast
    ultimately show ?thesis using h2(2) ss by (intro exI [of _ h2]) (simp add: Let_def)
  qed
qed

lemma n_passes_small: "n_passes 2 = 1" "n_passes 4 = 2"
  by code_simp+

theorem qsort_correct_witness:
  "\<exists>h'. qsort cmp_int 0x501010 2 4 heap_one = Some h' \<and> live h' {0x501010} \<and>
     sorted_by int_order (arr (hmem h') 0x501010 4 2)"
proof -
  have "odd (n_passes (unat (2 :: u32)))" using n_passes_small by simp
  moreover have "reads cmp_int int_order (unat (4 :: u32))" using cmp_int_reads by simp
  ultimately show ?thesis
    using qsort_correct [OF int_cmp.comparison_axioms _ live_heap_one, of cmp_int 4 "0x501010" 2]
    by (simp add: Let_def cap_heap_one) blast
qed

text \<open>C6: when the number of passes is even and the scratch array could be allocated, the sorted data
  is in the caller's array already, and the last statement of \<open>qsort\<close> frees that array: afterwards
  the caller's block is not live any more, and the scratch block stays allocated for good.\<close>

theorem qsort_frees_callers_array:
  assumes "comparison c" "reads cmp c (unat sz)" "live h L" "base \<in> L"
    "unat cnt * unat sz \<le> cap h base" "0 < unat sz" "2 \<le> unat cnt" "even (n_passes (unat cnt))"
    "unat (eff_brk h) + unat cnt * unat sz + 4096 \<le> 0x5C0000"
  shows "\<exists>h' scratch. qsort cmp base cnt sz h = Some h' \<and> scratch \<notin> L \<and>
     live h' (insert scratch (L - {base})) \<and> free base h' = Some h'"
proof -
  have N: "unat cnt * unat sz \<le> 0x5C0000" using assms(9) by simp
  then have u: "unat (cnt * sz) = unat cnt * unat sz" by (simp add: unat_word_ariths)
  have "malloc (cnt * sz) h \<noteq> Some (0, h)"
  proof -
    have "unat (cnt * sz) \<le> 0xFEFFFFF8" using u N by simp
    note n = malloc_need [OF this]
    have "grow_nat (align8 (if cnt * sz = 0 then 1 else cnt * sz)) \<le> unat cnt * unat sz + 4096"
      using n(5) u by (auto simp: grow_nat_def)
    with assms(3) n(1,2) refl show ?thesis
      by (cases rule: malloc_cases) (use assms(9) in auto)
  qed
  then obtain h1 scratch where w: "qsort_work cmp base cnt sz h = Some (base, h1)" "scratch \<notin> L"
      "live h1 (insert scratch L)"
    using qsort_work_spec [OF assms(1-7)] assms(8) by auto
  have "base \<in> insert scratch L" "base \<noteq> scratch" using assms(4) w(2) by auto
  then obtain h2 where h2: "free base h1 = Some h2" "live h2 (insert scratch L - {base})" "free base h2 = Some h2"
    using free_live [OF w(3)] by blast
  moreover have "base \<noteq> 0" using live_arith(3) [OF assms(3,4)] by auto
  moreover have "insert scratch L - {base} = insert scratch (L - {base})" using \<open>base \<noteq> scratch\<close> by auto
  ultimately show ?thesis using w by (auto simp: qsort_def)
qed

theorem qsort_frees_callers_array_witness:
  "\<exists>h' scratch. qsort cmp_int 0x501010 4 4 heap_one = Some h' \<and> scratch \<noteq> 0x501010 \<and> live h' {scratch} \<and>
     free 0x501010 h' = Some h'"
proof -
  have "even (n_passes (unat (4 :: u32)))" using n_passes_small by simp
  moreover have "reads cmp_int int_order (unat (4 :: u32))" using cmp_int_reads by simp
  moreover have "eff_brk heap_one = 0x502000" by (simp add: eff_brk_def heap_one_def)
  ultimately show ?thesis
    using qsort_frees_callers_array [OF int_cmp.comparison_axioms _ live_heap_one, of cmp_int 4 "0x501010" 4]
    by (simp add: cap_heap_one)
qed

text \<open>C7: \<open>bsearch\<close> on an array sorted by a consistent callback returns: the address of an element equal
  to the key if there is one, the null pointer if there is none.\<close>

theorem bsearch_correct:
  assumes "comparison c" "reads cmp c (unat sz)" "sorted_by c (arr m base (unat sz) (unat cnt))"
  shows "\<exists>p. bsearch cmp key base cnt sz m = Some p \<and>
     ((\<exists>i < unat cnt. p = base + of_nat (i * unat sz) \<and> c (bytes_at m key (unat sz)) (elem m base (unat sz) i) = 0) \<or>
      p = 0 \<and> (\<forall>i < unat cnt. c (bytes_at m key (unat sz)) (elem m base (unat sz) i) \<noteq> 0))"
  using bsearch_loop_spec [OF assms unat_lt_2p32 refl, of 0 "unat cnt"] by (auto simp: bsearch_def)

theorem bsearch_correct_witness:
  "bsearch cmp_int 0x2000 0x1000 1 4 (\<lambda>_. 0) = Some 0x1000"
proof -
  have "reads cmp_int int_order (unat (4 :: u32))" using cmp_int_reads by simp
  moreover have "sorted_by int_order (arr (\<lambda>_. 0) 0x1000 (unat (4 :: u32)) (unat (1 :: u32)))" by (simp add: arr_def)
  moreover have "int_order (bytes_at (\<lambda>_. 0) 0x2000 4) (elem (\<lambda>_. 0) 0x1000 4 0) = 0"
    by (simp add: int_order_def elem_def bytes_at_def)
  ultimately show ?thesis
    using bsearch_correct [OF int_cmp.comparison_axioms, of cmp_int 4 "\<lambda>_. 0" "0x1000" 1 "0x2000"] by auto
qed

end
