(* ===== verification/Mv_Stdlib.thy ===== *)
theory Mv_Stdlib
  imports Mv_Sort
begin

text \<open>
  The rest of \<^verbatim>\<open>c/rt/stdlib.c\<close>, and \<open>atoi\<close> and \<open>exit\<close> of \<^verbatim>\<open>c/rt/malloc.c\<close>: conversions, absolute
  values and division, the random generator, strings on the heap, the environment and the
  handlers that run when the process ends. \<^verbatim>\<open>int\<close> and \<^verbatim>\<open>long\<close> are 32-bit words read as signed.
\<close>

section \<open>Conversions\<close>

definition EINVAL :: int where "EINVAL = 22"

definition digit_value :: "int \<Rightarrow> int" where
  "digit_value c =
     (if c \<ge> 48 \<and> c \<le> 57 then c - 48
      else if c \<ge> 97 \<and> c \<le> 122 then c - 97 + 10
      else if c \<ge> 65 \<and> c \<le> 90 then c - 65 + 10
      else 99)"

definition is_blank :: "u8 \<Rightarrow> bool" where
  "is_blank b \<longleftrightarrow> b = 32 \<or> b = 9 \<or> b = 10 \<or> b = 13 \<or> b = 11 \<or> b = 12"

partial_function (option) skip_space :: "mem \<Rightarrow> addr \<Rightarrow> addr option" where
  "skip_space m s = (if is_blank (m s) then skip_space m (s + 1) else Some s)"

partial_function (option) digits_loop ::
    "mem \<Rightarrow> int \<Rightarrow> addr \<Rightarrow> u32 \<Rightarrow> nat \<Rightarrow> (addr \<times> u32 \<times> nat) option" where
  "digits_loop m base p val digits =
     (let d = digit_value (sc (m p))
      in if d \<ge> base then Some (p, val, digits)
         else digits_loop m base (p + 1) (val * word_of_int base + word_of_int d) (Suc digits))"

record conv =
  cval :: u32
  cend :: addr
  cerrno :: "int option"

text \<open>The first address behind the sign, and whether it was a minus.\<close>

definition take_sign :: "mem \<Rightarrow> addr \<Rightarrow> bool \<times> addr" where
  "take_sign m p = (if m p = 43 \<or> m p = 45 then (m p = 45, p + 1) else (False, p))"

definition take_prefix :: "mem \<Rightarrow> int \<Rightarrow> addr \<Rightarrow> int \<times> addr" where
  "take_prefix m base p =
     (if (base = 0 \<or> base = 16) \<and> m p = 48 \<and> (m (p + 1) = 120 \<or> m (p + 1) = 88) \<and>
         digit_value (sc (m (p + 2))) < 16 then (16, p + 2)
      else if base = 0 \<and> m p = 48 then (8, p)
      else if base = 0 then (10, p)
      else (base, p))"

definition strtol :: "addr \<Rightarrow> int \<Rightarrow> mem \<Rightarrow> conv option" where
  "strtol s base m =
     Option.bind (skip_space m s) (\<lambda>p.
       let (negative, p) = take_sign m p; (base, p) = take_prefix m base p
       in Option.bind (digits_loop m base p 0 0) (\<lambda>(p, val, digits).
         if digits = 0 then Some \<lparr>cval = 0, cend = s, cerrno = Some EINVAL\<rparr>
         else Some \<lparr>cval = (if negative then - val else val), cend = p, cerrno = None\<rparr>))"

definition strtoul :: "addr \<Rightarrow> int \<Rightarrow> mem \<Rightarrow> conv option" where
  "strtoul s base m = strtol s base m"

definition strtoll :: "addr \<Rightarrow> int \<Rightarrow> mem \<Rightarrow> (u64 \<times> addr \<times> int option) option" where
  "strtoll s base m = map_option (\<lambda>r. (scast (cval r), cend r, cerrno r)) (strtol s base m)"

definition strtoull :: "addr \<Rightarrow> int \<Rightarrow> mem \<Rightarrow> (u64 \<times> addr \<times> int option) option" where
  "strtoull s base m = map_option (\<lambda>r. (scast (cval r), cend r, cerrno r)) (strtol s base m)"

definition atol :: "addr \<Rightarrow> mem \<Rightarrow> (u32 \<times> int option) option" where
  "atol s m = map_option (\<lambda>r. (cval r, cerrno r)) (strtol s 10 m)"

definition atoll :: "addr \<Rightarrow> mem \<Rightarrow> (u64 \<times> int option) option" where
  "atoll s m = map_option (\<lambda>r. (scast (cval r), cerrno r)) (strtol s 10 m)"

partial_function (option) atoi_blanks :: "mem \<Rightarrow> addr \<Rightarrow> addr option" where
  "atoi_blanks m s = (if m s = 32 \<or> m s = 9 then atoi_blanks m (s + 1) else Some s)"

partial_function (option) atoi_digits :: "mem \<Rightarrow> addr \<Rightarrow> u32 \<Rightarrow> u32 option" where
  "atoi_digits m s val =
     (if sc (m s) \<ge> 48 \<and> sc (m s) \<le> 57
      then atoi_digits m (s + 1) (val * 10 + word_of_int (sc (m s) - 48)) else Some val)"

definition atoi :: "addr \<Rightarrow> mem \<Rightarrow> u32 option" where
  "atoi s m =
     Option.bind (atoi_blanks m s) (\<lambda>s.
       if m s = 45 then map_option (\<lambda>v. (- 1) * v) (atoi_digits m (s + 1) 0)
       else if m s = 43 then map_option (\<lambda>v. 1 * v) (atoi_digits m (s + 1) 0)
       else map_option (\<lambda>v. 1 * v) (atoi_digits m s 0))"

section \<open>Arithmetic\<close>

definition abs_int :: "u32 \<Rightarrow> u32" where
  "abs_int v = (if sint v < 0 then - v else v)"

definition labs :: "u32 \<Rightarrow> u32" where
  "labs v = (if sint v < 0 then - v else v)"

definition llabs :: "u64 \<Rightarrow> u64" where
  "llabs v = (if sint v < 0 then - v else v)"

text \<open>C division of \<^verbatim>\<open>int\<close>; None where the machine traps (a zero divisor, or the one quotient
  that does not fit).\<close>

definition div_int :: "u32 \<Rightarrow> u32 \<Rightarrow> (u32 \<times> u32) option" where
  "div_int num den =
     (if den = 0 \<or> sint num = - (2 ^ 31) \<and> sint den = - 1 then None
      else Some (word_of_int (cdiv (sint num) (sint den)), word_of_int (cmod (sint num) (sint den))))"

definition ldiv :: "u32 \<Rightarrow> u32 \<Rightarrow> (u32 \<times> u32) option" where
  "ldiv num den = div_int num den"

section \<open>Random numbers\<close>

definition RAND_MAX :: u32 where "RAND_MAX = 0x7FFFFFFF"

definition srand :: "u32 \<Rightarrow> u32" where
  "srand seed = (if seed = 0 then 1 else seed)"

text \<open>The result and the new state.\<close>

definition rand :: "u32 \<Rightarrow> u32 \<times> u32" where
  "rand rand_state =
     (let st = rand_state * 1664525 + 1013904223 in (drop_bit 1 st AND RAND_MAX, st))"

section \<open>Strings on the heap\<close>

definition strdup :: "addr \<Rightarrow> heap \<Rightarrow> (addr \<times> heap) option" where
  "strdup s h =
     Option.bind (strlen s (hmem h)) (\<lambda>len.
       let n = len + 1
       in Option.bind (malloc n h) (\<lambda>(copy, h1).
         if copy = NULLP then Some (NULLP, h1)
         else Some (copy, h1\<lparr>hmem := snd (memcpy copy s n (hmem h1))\<rparr>)))"

definition strndup :: "addr \<Rightarrow> u32 \<Rightarrow> heap \<Rightarrow> (addr \<times> heap) option" where
  "strndup s n h =
     (let len = strnlen s n (hmem h)
      in Option.bind (malloc (len + 1) h) (\<lambda>(copy, h1).
        if copy = NULLP then Some (NULLP, h1)
        else Some (copy, h1\<lparr>hmem := (snd (memcpy copy s len (hmem h1)))(copy + len := NUL)\<rparr>)))"

section \<open>The environment\<close>

text \<open>
  \<^verbatim>\<open>SYS_GETENV_SLOT\<close> is a parameter: the terminated entry of a slot, or None when the call is
  refused. The buffer comparison is \<open>strncmp\<close> on the two terminated strings.
\<close>

fun getenv_scan :: "(nat \<Rightarrow> u8 list option) \<Rightarrow> u8 list \<Rightarrow> nat list \<Rightarrow> u8 list option" where
  "getenv_scan slot name [] = None"
| "getenv_scan slot name (i # is) =
     (case slot i of
        None \<Rightarrow> getenv_scan slot name is
      | Some entry \<Rightarrow>
          let name_len = length name
          in if byte_cmp (take name_len entry) (take name_len name) \<noteq> 0 \<or>
                (entry @ [NUL]) ! name_len \<noteq> 61
             then getenv_scan slot name is
             else Some (drop (name_len + 1) entry))"

definition getenv :: "(nat \<Rightarrow> u8 list option) \<Rightarrow> u8 list \<Rightarrow> u8 list option" where
  "getenv slot name = (if name = [] then None else getenv_scan slot name [0..<32])"

section \<open>The end of the process\<close>

text \<open>The handler table: the registered functions, oldest first. Calling a handler is a
  parameter; it may register further handlers.\<close>

definition ATEXIT_MAX_FUNCS :: nat where "ATEXIT_MAX_FUNCS = 8"

definition atexit :: "addr \<Rightarrow> addr list \<Rightarrow> int \<times> addr list" where
  "atexit fn funcs =
     (if fn = NULLP \<or> length funcs \<ge> ATEXIT_MAX_FUNCS then (- 1, funcs) else (0, funcs @ [fn]))"

partial_function (option) mv_run_atexit ::
    "(addr \<Rightarrow> addr list \<times> 's \<Rightarrow> addr list \<times> 's) \<Rightarrow> addr list \<Rightarrow> 's \<Rightarrow> (addr list \<times> 's) option" where
  "mv_run_atexit call funcs st =
     (if funcs \<noteq> [] then
        (let fn = last funcs; (funcs', st') = call fn (butlast funcs, st)
         in mv_run_atexit call funcs' st')
      else Some (funcs, st))"

text \<open>\<open>exit\<close> runs the handlers and hands the status to the kernel (a parameter); \<open>abort\<close> is \<open>exit\<close>
  with status 134.\<close>

definition exit ::
    "(addr \<Rightarrow> addr list \<times> 's \<Rightarrow> addr list \<times> 's) \<Rightarrow> (int \<Rightarrow> 's \<Rightarrow> 's) \<Rightarrow> int \<Rightarrow> addr list \<Rightarrow> 's \<Rightarrow> 's option" where
  "exit call mv_exit status funcs st =
     map_option (\<lambda>(funcs', st'). mv_exit status st') (mv_run_atexit call funcs st)"

text \<open>\<^verbatim>\<open>_start\<close> of \<^verbatim>\<open>c/rt/start.c\<close>: the program is a function to its result, None when it does not return.\<close>

definition prog_start ::
    "(addr \<Rightarrow> addr list \<times> 's \<Rightarrow> addr list \<times> 's) \<Rightarrow> (int \<Rightarrow> 's \<Rightarrow> 's) \<Rightarrow>
     (addr list \<Rightarrow> 's \<Rightarrow> (int \<times> addr list \<times> 's) option) \<Rightarrow> addr list \<Rightarrow> 's \<Rightarrow> 's option" where
  "prog_start call mv_exit main funcs st = Option.bind (main funcs st) (\<lambda>(status, funcs, st). exit call mv_exit status funcs st)"

definition abort ::
    "(addr \<Rightarrow> addr list \<times> 's \<Rightarrow> addr list \<times> 's) \<Rightarrow> (int \<Rightarrow> 's \<Rightarrow> 's) \<Rightarrow> addr list \<Rightarrow> 's \<Rightarrow> 's option" where
  "abort call mv_exit funcs st = exit call mv_exit 134 funcs st"

section \<open>What the conversions compute\<close>

definition digit_of :: "u8 \<Rightarrow> int" where "digit_of b = digit_value (sc b)"

definition num_of :: "int \<Rightarrow> int \<Rightarrow> u8 list \<Rightarrow> int" where
  "num_of base v ds = foldl (\<lambda>v b. v * base + digit_of b) v ds"

definition is_digit :: "int \<Rightarrow> u8 \<Rightarrow> bool" where
  "is_digit base b \<longleftrightarrow> digit_of b < base"

lemma num_of_simps [simp]:
  "num_of base v [] = v" "num_of base v (d # ds) = num_of base (v * base + digit_of d) ds"
  by (simp_all add: num_of_def)

lemma digits_loop_spec:
  "cstr m p (ds @ rest) \<Longrightarrow> (\<forall>b \<in> set ds. is_digit base b) \<Longrightarrow> base \<le> 99 \<Longrightarrow>
     rest = [] \<or> \<not> is_digit base (hd rest) \<Longrightarrow>
     digits_loop m base p (word_of_int v) k =
       Some (p + of_nat (length ds), word_of_int (num_of base v ds), k + length ds)"
proof (induction ds arbitrary: p v k)
  case Nil
  have "base \<le> digit_value (sc (m p))"
  proof (cases rest)
    case Nil': Nil
    with Nil.prems(1) have "m p = 0" by simp
    then have "digit_value (sc (m p)) = 99" by (simp add: digit_value_def sc_def)
    with Nil.prems(3) show ?thesis by simp
  next
    case (Cons b bs)
    with Nil.prems show ?thesis by (simp add: is_digit_def digit_of_def)
  qed
  then show ?case by (subst digits_loop.simps) simp
next
  case (Cons d ds)
  then have d: "m p = d" "is_digit base d" "cstr m (p + 1) (ds @ rest)" by auto
  then have lt: "digit_value (sc (m p)) < base" by (simp add: is_digit_def digit_of_def)
  have "digits_loop m base (p + 1) (word_of_int (v * base + digit_of d)) (Suc k) =
      Some (p + 1 + of_nat (length ds), word_of_int (num_of base (v * base + digit_of d) ds), Suc k + length ds)"
    using Cons d by (intro Cons.IH) auto
  then show ?case using lt d(1)
    by (subst digits_loop.simps) (simp add: Let_def digit_of_def add.assoc)
qed

lemma skip_space_spec:
  "cstr m s (ws @ rest) \<Longrightarrow> (\<forall>b \<in> set ws. is_blank b) \<Longrightarrow> rest = [] \<or> \<not> is_blank (hd rest) \<Longrightarrow>
     skip_space m s = Some (s + of_nat (length ws))"
proof (induction ws arbitrary: s)
  case Nil
  then have "\<not> is_blank (m s)" by (cases rest) (auto simp: is_blank_def)
  then show ?case by (subst skip_space.simps) simp
next
  case (Cons w ws)
  then show ?case by (subst skip_space.simps) (simp add: add.assoc)
qed

lemma digit_not_blank:
  assumes "is_digit base b" "base \<le> 36"
  shows "\<not> is_blank b" "b \<noteq> 43" "b \<noteq> 45"
  using assms by (auto simp: is_digit_def digit_of_def is_blank_def digit_value_def sc_def)

definition sign_bytes :: "u8 list \<Rightarrow> bool" where
  "sign_bytes sg \<longleftrightarrow> sg = [] \<or> sg = [43] \<or> sg = [45]"

lemma take_sign_spec:
  assumes "cstr m p (sg @ rest)" "sign_bytes sg" "sg = [] \<Longrightarrow> rest = [] \<or> hd rest \<noteq> 43 \<and> hd rest \<noteq> 45"
  shows "take_sign m p = (sg = [45], p + of_nat (length sg))"
  using assms by (cases rest) (auto simp: take_sign_def sign_bytes_def)

lemma strtol_spec:
  assumes s: "cstr m s (ws @ sg @ ds @ rest)" and ws: "\<forall>b \<in> set ws. is_blank b" and sg: "sign_bytes sg"
    and ds: "ds \<noteq> []" "\<forall>b \<in> set ds. is_digit base b" and rest: "rest = [] \<or> \<not> is_digit base (hd rest)"
    and base: "2 \<le> base" "base \<le> 36" "base \<noteq> 16"
  shows "strtol s base m =
     Some \<lparr>cval = word_of_int ((if sg = [45] then - 1 else 1) * num_of base 0 ds),
           cend = s + of_nat (length ws + length sg + length ds), cerrno = None\<rparr>"
proof -
  obtain d ds' where d: "ds = d # ds'" "is_digit base d" using ds by (cases ds) auto
  note nb = digit_not_blank [OF d(2) base(2)]
  have "hd (sg @ ds @ rest) = d \<or> sg \<noteq> []" using d(1) by (cases sg) auto
  then have "\<not> is_blank (hd (sg @ ds @ rest))" using sg nb by (auto simp: sign_bytes_def is_blank_def)
  then have 1: "skip_space m s = Some (s + of_nat (length ws))"
    using s ws by (intro skip_space_spec) auto
  let ?p = "s + of_nat (length ws)"
  have c1: "cstr m ?p (sg @ ds @ rest)" using cstr_drop [OF s, of "length ws"] by simp
  have 2: "take_sign m ?p = (sg = [45], ?p + of_nat (length sg))"
    using take_sign_spec [OF c1 sg] nb d(1) by auto
  let ?q = "?p + of_nat (length sg)"
  have c2: "cstr m ?q (ds @ rest)" using cstr_drop [OF c1, of "length sg"] by simp
  have 3: "take_prefix m base ?q = (base, ?q)" using base by (simp add: take_prefix_def)
  have 4: "digits_loop m base ?q 0 0 = Some (?q + of_nat (length ds), word_of_int (num_of base 0 ds), length ds)"
    using digits_loop_spec [OF c2 ds(2) _ rest, of 0 0] base by simp
  show ?thesis using 1 2 3 4 ds(1) by (simp add: strtol_def Let_def add.assoc)
qed

lemma strtol_nothing:
  assumes s: "cstr m s (ws @ sg @ rest)" and ws: "\<forall>b \<in> set ws. is_blank b" and sg: "sign_bytes sg"
    and rest: "rest = [] \<or> \<not> is_digit base (hd rest)" "sg = [] \<Longrightarrow> rest = [] \<or> \<not> is_blank (hd rest) \<and> hd rest \<noteq> 43 \<and> hd rest \<noteq> 45"
    and base: "2 \<le> base" "base \<le> 36" "base \<noteq> 16"
  shows "strtol s base m = Some \<lparr>cval = 0, cend = s, cerrno = Some EINVAL\<rparr>"
proof -
  have "sg @ rest = [] \<or> \<not> is_blank (hd (sg @ rest))" using sg rest(2) by (auto simp: sign_bytes_def is_blank_def)
  then have 1: "skip_space m s = Some (s + of_nat (length ws))"
    using s ws by (intro skip_space_spec) auto
  let ?p = "s + of_nat (length ws)"
  have c1: "cstr m ?p (sg @ rest)" using cstr_drop [OF s, of "length ws"] by simp
  have 2: "take_sign m ?p = (sg = [45], ?p + of_nat (length sg))"
    using take_sign_spec [OF c1 sg] rest(2) by auto
  let ?q = "?p + of_nat (length sg)"
  have c2: "cstr m ?q ([] @ rest)" using cstr_drop [OF c1, of "length sg"] by simp
  have 3: "take_prefix m base ?q = (base, ?q)" using base by (simp add: take_prefix_def)
  have 4: "digits_loop m base ?q 0 0 = Some (?q, 0, 0)"
    using digits_loop_spec [OF c2 _ _ rest(1), of 0 0] base by simp
  show ?thesis using 1 2 3 4 by (simp add: strtol_def Let_def)
qed

section \<open>Duplicating a string of a live block\<close>

lemma inside_distance:
  assumes l: "live h L" "p \<in> L" "q \<in> L" "p \<noteq> q" and off: "off + n \<le> cap h q"
  shows "n \<le> unat (p - (q + of_nat off))"
proof -
  have "unat q + cap h q \<le> 0x5C0000" "unat p + cap h p \<le> 0x5C0000"
    using live_arith(2) [OF l(1)] l(2,3) by auto
  moreover from this have s: "unat (q + of_nat off) = unat q + off"
    using off by (simp add: unat_word_ariths unat_of_nat)
  moreover have "unat p \<noteq> unat q" using l(4) by (simp add: word_unat_eq_iff)
  ultimately show ?thesis
    using rt.disjoint [OF l(1,3,2)] l(4) off unfolding unat_sub_if' s by auto
qed

lemma strdup_is_fill:
  assumes l: "live h L" "q \<in> L" and s: "cstr (hmem h) (q + of_nat off) xs" "off + (length xs + 1) \<le> cap h q"
  shows "strdup (q + of_nat off) h = rt.alloc_fill (xs @ [0]) h"
proof -
  define n where "n = length xs + 1"
  let ?s = "q + of_nat off"
  have n: "n \<le> 0x5C0000" "off + n \<le> cap h q" using live_arith(2) [OF l] s(2) by (simp_all add: n_def)
  have w: "of_nat (length xs) + 1 = (of_nat n :: u32)" "length (xs @ [0]) = n" by (simp_all add: n_def)
  have u: "unat (of_nat n :: u32) = n" by (rule unat_of_nat_u32) (use n in simp)
  have run: "strdup ?s h = Option.bind (malloc (of_nat n) h) (\<lambda>(copy, h1).
         if copy = 0 then Some (0, h1)
         else Some (copy, h1\<lparr>hmem := snd (memcpy copy ?s (of_nat n) (hmem h1))\<rparr>))"
    by (simp only: strdup_def strlen_spec [OF s(1)] Let_def w Option.bind.simps)
  have "unat (of_nat n :: u32) \<le> 0xFEFFFFF8" using u n by simp
  from l(1) this show ?thesis
  proof (cases rule: malloc_none_or)
    case 1
    with run show ?thesis by (simp add: rt.alloc_fill_def w(2) del: length_append)
  next
    case (2 p h1)
    have c1: "cap h1 q = cap h q" using 2(6) l(2) by (simp add: same_data_def)
    have "n \<le> unat (p - ?s)"
      using 2(3) l(2) n(2) c1 by (intro inside_distance [OF 2(4)]) auto
    then have "snd (memcpy p ?s (of_nat n) (hmem h1)) = poke (hmem h1) p (bytes_at (hmem h1) ?s n)"
      by (simp add: memcpy_poke u)
    moreover have "bytes_at (hmem h1) ?s n = bytes_at (hmem h) ?s n"
    proof (rule bytes_at_cong)
      fix i assume "i < n"
      then have "off + i < cap h q" using n(2) by simp
      then have "hmem h1 (q + of_nat (off + i)) = hmem h (q + of_nat (off + i))"
        using 2(6) l(2) unfolding same_data_def by blast
      then show "hmem h1 (?s + of_nat i) = hmem h (?s + of_nat i)" by (simp add: add.assoc)
    qed
    moreover have "bytes_at (hmem h) ?s n = xs @ [0]"
      using s(1) by (simp add: cstr_iff bytes_at_snoc n_def)
    ultimately show ?thesis
      using run 2(1,2) by (simp add: rt.alloc_fill_def put_bytes_def w(2) del: length_append)
  qed
qed

lemma cstr_bytes: "bytes_at m p (length xs + 1) = xs @ [0] \<Longrightarrow> 0 \<notin> set xs \<Longrightarrow> cstr m p xs"
  by (simp add: cstr_iff bytes_at_snoc)

section \<open>The environment\<close>

lemma getenv_entry:
  assumes "0 \<notin> set name" "0 \<notin> set entry"
  shows "byte_cmp (take (length name) entry) (take (length name) name) \<noteq> 0 \<or> (entry @ [0]) ! length name \<noteq> 61 \<longleftrightarrow>
     \<not> (\<exists>v. entry = name @ 61 # v)"
proof -
  have "byte_cmp (take (length name) entry) name = 0 \<longleftrightarrow> take (length name) entry = name"
    using assms by (intro byte_cmp_eq_0) (auto dest: in_set_takeD)
  moreover have "take (length name) entry = name \<Longrightarrow> (entry @ [0]) ! length name = 61 \<longleftrightarrow> (\<exists>v. entry = name @ 61 # v)"
  proof -
    assume t: "take (length name) entry = name"
    then obtain e where e: "entry = name @ e" by (metis append_take_drop_id)
    then show ?thesis by (cases e) (auto simp: nth_append)
  qed
  ultimately show ?thesis by auto
qed

text \<open>The value of the first slot whose entry is the name, \<^verbatim>\<open>=\<close> and a value.\<close>

lemma getenv_scan_spec:
  assumes "0 \<notin> set name" "\<And>i e. slot i = Some e \<Longrightarrow> 0 \<notin> set e"
  shows "getenv_scan slot name is =
     (case filter (\<lambda>i. \<exists>v. slot i = Some (name @ 61 # v)) is of
        [] \<Rightarrow> None | i # _ \<Rightarrow> Some (drop (length name + 1) (the (slot i))))"
proof (induction "is")
  case (Cons i "is")
  show ?case
  proof (cases "slot i")
    case None
    with Cons show ?thesis by simp
  next
    case (Some e)
    with Cons getenv_entry [OF assms(1) assms(2) [OF Some]] show ?thesis
      by (cases "\<exists>v. e = name @ 61 # v") (auto simp: Let_def)
  qed
qed simp

section \<open>Handlers run newest first\<close>

lemma run_atexit_spec:
  "(\<And>fn fs st. call fn (fs, st) = (fs, eff fn st)) \<Longrightarrow>
     mv_run_atexit call fs st = Some ([], fold eff (rev fs) st)"
proof (induction fs arbitrary: st rule: rev_induct)
  case Nil
  then show ?case by (subst mv_run_atexit.simps) simp
next
  case (snoc f fs)
  then show ?case by (subst mv_run_atexit.simps) simp
qed

definition register_all :: "addr list \<Rightarrow> addr list \<Rightarrow> addr list" where
  "register_all fns funcs = fold (\<lambda>fn funcs. snd (atexit fn funcs)) fns funcs"

lemma register_all_spec:
  "\<forall>fn \<in> set fns. fn \<noteq> 0 \<Longrightarrow> register_all fns funcs = funcs @ take (ATEXIT_MAX_FUNCS - length funcs) fns"
proof (induction fns arbitrary: funcs)
  case (Cons f fns)
  then show ?case
    by (cases "length funcs \<ge> ATEXIT_MAX_FUNCS")
      (auto simp: register_all_def atexit_def ATEXIT_MAX_FUNCS_def take_Cons' not_le)
qed (simp add: register_all_def)

section \<open>Properties\<close>



text \<open>\<open>strdup\<close> of a terminated string inside a live block returns the null pointer and changes
  nothing, or a new live block that holds the same string; every other block keeps its bytes.\<close>

theorem strdup_correct:
  assumes "live h L" "q \<in> L" "cstr (hmem h) (q + of_nat off) xs" "off + (length xs + 1) \<le> cap h q"
  shows "\<exists>p h'. strdup (q + of_nat off) h = Some (p, h') \<and>
     (if p = 0 then h' = h
      else p \<notin> L \<and> live h' (insert p L) \<and> cstr (hmem h') p xs \<and>
        (\<forall>r \<in> L. cap h' r = cap h r \<and> bytes_at (hmem h') r (cap h r) = bytes_at (hmem h) r (cap h r)))"
proof -
  have n: "length (xs @ [0]) \<le> 0xFEFFFFF8" "length (xs @ [0]) < 2 ^ 32"
    using live_arith(2) [OF assms(1,2)] assms(4) by simp_all
  obtain p h' where f: "strdup (q + of_nat off) h = Some (p, h')"
     "if p = 0 then h' = h
      else p \<notin> L \<and> live h' (insert p L) \<and> bytes_at (hmem h') p (length (xs @ [0])) = xs @ [0] \<and>
        (\<forall>r \<in> L. cap h' r = cap h r \<and> bytes_at (hmem h') r (cap h r) = bytes_at (hmem h) r (cap h r))"
    using rt.alloc_fill_law [OF assms(1) n] strdup_is_fill [OF assms] by metis
  then show ?thesis using cstr_bytes [of "hmem h'" p xs] cstr_no_NUL [OF assms(3)] by (cases "p = 0") auto
qed

theorem strdup_correct_witness:
  "\<exists>p h'. strdup 0x501010 heap_one = Some (p, h') \<and> (p \<noteq> 0 \<longrightarrow> live h' {p, 0x501010} \<and> cstr (hmem h') p [])"
proof -
  have "cstr (hmem heap_one) 0x501010 []" by (simp add: heap_one_def set_outside)
  then show ?thesis
    using strdup_correct [OF live_heap_one, of "0x501010" 0 "[]"] by (auto simp: cap_heap_one split: if_splits)
qed

text \<open>\<open>getenv\<close> returns the value of the first of the 32 slots whose entry is the name followed by
  \<^verbatim>\<open>=\<close> and the value, and nothing when no slot has such an entry.\<close>

theorem getenv_correct:
  assumes "name \<noteq> []" "0 \<notin> set name" "\<And>i e. slot i = Some e \<Longrightarrow> 0 \<notin> set e"
  shows "(\<forall>i < 32. \<forall>v. slot i = Some (name @ 61 # v) \<and> (\<forall>j < i. \<forall>w. slot j \<noteq> Some (name @ 61 # w)) \<longrightarrow>
        getenv slot name = Some v) \<and>
     ((\<forall>i < 32. \<forall>v. slot i \<noteq> Some (name @ 61 # v)) \<longrightarrow> getenv slot name = None)"
proof -
  let ?P = "\<lambda>i. \<exists>v. slot i = Some (name @ 61 # v)"
  have run: "getenv slot name =
     (case filter ?P [0..<32] of [] \<Rightarrow> None | i # _ \<Rightarrow> Some (drop (length name + 1) (the (slot i))))"
    using getenv_scan_spec [OF assms(2,3)] assms(1) by (simp add: getenv_def)
  have "getenv slot name = Some v" if "i < 32" "slot i = Some (name @ 61 # v)" "\<forall>j < i. \<not> ?P j" for i v
  proof -
    have "[0..<32] = [0..<i] @ i # [Suc i..<32]"
      using upt_add_eq_append [of 0 i "32 - i"] upt_conv_Cons [of i 32] that(1) by simp
    moreover have "filter ?P [0..<i] = []" using that(3) by (simp add: filter_empty_conv)
    ultimately have "filter ?P [0..<32] = i # filter ?P [Suc i..<32]" using that(2) by simp
    then show ?thesis using run that(2) by simp
  qed
  moreover have "getenv slot name = None" if "\<forall>i < 32. \<not> ?P i"
  proof -
    have "filter ?P [0..<32] = []" using that by (simp add: filter_empty_conv)
    then show ?thesis using run by simp
  qed
  ultimately show ?thesis by blast
qed

theorem getenv_correct_witness:
  "getenv (\<lambda>i. if i = 1 then Some (bytes ''PATH=/bin'') else None) (bytes ''PATH'') = Some (bytes ''/bin'')"
proof -
  let ?slot = "\<lambda>i :: nat. if i = 1 then Some (bytes ''PATH=/bin'') else None"
  note g = getenv_correct [of "bytes ''PATH''" ?slot, THEN conjunct1, rule_format, of 1 "bytes ''/bin''"]
  show ?thesis by (rule g) (auto split: if_splits)
qed

text \<open>C10: of the handlers a program registers with \<open>atexit\<close> the first eight are kept; \<open>exit\<close> runs them
  newest first, each once, and only then ends the process with the given status.\<close>

theorem exit_runs_handlers:
  assumes "\<forall>fn \<in> set fns. fn \<noteq> 0" "\<And>fn fs st. call fn (fs, st) = (fs, eff fn st)"
  shows "exit call mv_exit status (register_all fns []) st =
     Some (mv_exit status (fold eff (rev (take 8 fns)) st))"
  using register_all_spec [OF assms(1), of "[]"] run_atexit_spec [of call eff, OF assms(2)]
  by (simp add: exit_def ATEXIT_MAX_FUNCS_def)

theorem exit_runs_handlers_witness:
  "exit (\<lambda>fn (fs, log). (fs, fn # log)) (\<lambda>status log. log) 0 (register_all [1, 2, 3] []) [] =
     Some [1, 2, 3 :: addr]"
  using exit_runs_handlers [of "[1, 2, 3]" "\<lambda>fn (fs, log). (fs, fn # log)" "\<lambda>fn log. fn # log" "\<lambda>status log. log" 0 "[]"]
  by simp

text \<open>A program that registers handlers and returns from \<^verbatim>\<open>main\<close> ends with the value of \<^verbatim>\<open>main\<close> as its status, after the
  handlers, the last one first.\<close>

theorem start_exits_with_result:
  assumes "main [] st = Some (status, register_all fns [], st')" "\<forall>fn \<in> set fns. fn \<noteq> 0"
    and "\<And>fn fs st. call fn (fs, st) = (fs, eff fn st)"
  shows "prog_start call mv_exit main [] st = Some (mv_exit status (fold eff (rev (take 8 fns)) st'))"
  using register_all_spec [OF assms(2), of "[]"] run_atexit_spec [of call eff, OF assms(3)] assms(1)
  by (simp add: prog_start_def exit_def ATEXIT_MAX_FUNCS_def)

end
