(* ===== verification/Mv_Utf.thy ===== *)
theory Mv_Utf
  imports Mv_Prelude
begin

text \<open>
  The Unicode boundary of \<^verbatim>\<open>c/rt/utf.c\<close>. A NUL-terminated UTF-8 string is the list of its bytes
  before the NUL; reading at the end of the list gives the NUL, which no loop of the code passes.
  A wide string is the list of its units before the zero unit. Code points are 32-bit words and
  the bit operations are those of the source; the lemmas read them as arithmetic.
\<close>

section \<open>One code point\<close>

definition MV_REPLACEMENT :: u32 where "MV_REPLACEMENT = 0xFFFD"

definition byte_at :: "u8 list \<Rightarrow> nat \<Rightarrow> u8" where
  "byte_at s i = (if i < length s then s ! i else NUL)"

text \<open>The continuation bytes from index \<open>i\<close> on; None is the jump to \<^verbatim>\<open>malformed\<close>.\<close>

fun decode_tail :: "u8 list \<Rightarrow> nat \<Rightarrow> nat \<Rightarrow> u32 \<Rightarrow> u32 option" where
  "decode_tail s i 0 cp = Some cp"
| "decode_tail s i (Suc n) cp =
     (if byte_at s i AND 0xC0 \<noteq> 0x80 then None
      else decode_tail s (Suc i) n (push_bit 6 cp OR ucast (byte_at s i AND 0x3F)))"

definition decode_lead :: "u8 \<Rightarrow> (u32 \<times> nat) option" where
  "decode_lead b =
     (if b AND 0xE0 = 0xC0 then
        (let cp = ucast (b AND 0x1F) in if cp < 2 then None else Some (cp, 1))
      else if b AND 0xF0 = 0xE0 then Some (ucast (b AND 0x0F), 2)
      else if b AND 0xF8 = 0xF0 then Some (ucast (b AND 0x07), 3)
      else None)"

definition rejected :: "nat \<Rightarrow> u32 \<Rightarrow> bool" where
  "rejected need cp \<longleftrightarrow> need = 2 \<and> cp < 0x800 \<or> need = 3 \<and> cp < 0x10000 \<or> cp > 0x10FFFF \<or>
     cp \<ge> 0xD800 \<and> cp \<le> 0xDFFF"

definition mv_utf8_decode :: "u8 list \<Rightarrow> u32 \<times> nat" where
  "mv_utf8_decode s =
     (let b = byte_at s 0
      in if b < 0x80 then (ucast b, 1)
         else case decode_lead b of
             None \<Rightarrow> (MV_REPLACEMENT, 1)
           | Some (cp, need) \<Rightarrow>
               (case decode_tail s 1 need cp of
                  None \<Rightarrow> (MV_REPLACEMENT, 1)
                | Some cp \<Rightarrow> if rejected need cp then (MV_REPLACEMENT, 1) else (cp, need + 1)))"

definition mv_utf8_encode :: "u32 \<Rightarrow> u8 list" where
  "mv_utf8_encode cp =
     (if cp < 0x80 then [ucast cp]
      else if cp < 0x800 then
        [ucast (0xC0 OR drop_bit 6 cp), ucast (0x80 OR (cp AND 0x3F))]
      else if cp < 0x10000 then
        [ucast (0xE0 OR drop_bit 12 cp), ucast (0x80 OR (drop_bit 6 cp AND 0x3F)),
         ucast (0x80 OR (cp AND 0x3F))]
      else
        [ucast (0xF0 OR drop_bit 18 cp), ucast (0x80 OR (drop_bit 12 cp AND 0x3F)),
         ucast (0x80 OR (drop_bit 6 cp AND 0x3F)), ucast (0x80 OR (cp AND 0x3F))])"

lemma decode_used_pos: "0 < snd (mv_utf8_decode s)"
  by (auto simp: mv_utf8_decode_def Let_def split: option.split prod.split)

lemma decode_shorter:
  "(cp, used) = mv_utf8_decode s \<Longrightarrow> s \<noteq> [] \<Longrightarrow> length (drop used s) < length s"
  using decode_used_pos [of s] by (cases "mv_utf8_decode s") auto

section \<open>Strings\<close>

function mv_utf16_len :: "u8 list \<Rightarrow> u32 \<Rightarrow> u32" where
  "mv_utf16_len utf8 units =
     (if utf8 = [] then units
      else let (cp, used) = mv_utf8_decode utf8
           in mv_utf16_len (drop used utf8) (units + (if cp > 0xFFFF then 2 else 1)))"
  by pat_completeness auto
termination
  by (relation "measure (length \<circ> fst)") (use decode_shorter in simp_all)

text \<open>The units written so far are the list \<open>out\<close>; \<^verbatim>\<open>written\<close> is its length.\<close>

function utf16_units :: "u8 list \<Rightarrow> u32 \<Rightarrow> u16 list \<Rightarrow> u16 list" where
  "utf16_units utf8 cap out =
     (if utf8 = [] then out
      else let (cp, used) = mv_utf8_decode utf8; written = of_nat (length out)
           in if cp > 0xFFFF then
                (if written + 2 \<ge> cap then out
                 else let cp = cp - 0x10000
                      in utf16_units (drop used utf8) cap
                           (out @ [ucast (0xD800 + drop_bit 10 cp), ucast (0xDC00 + (cp AND 0x3FF))]))
              else if written + 1 \<ge> cap then out
              else utf16_units (drop used utf8) cap (out @ [ucast cp]))"
  by pat_completeness auto
termination
  by (relation "measure (length \<circ> fst)") (use decode_shorter in simp_all)

text \<open>What the buffer holds afterwards, and the value returned.\<close>

definition mv_utf8_to_utf16 :: "u8 list \<Rightarrow> u32 \<Rightarrow> u16 list \<times> u32" where
  "mv_utf8_to_utf16 utf8 cap =
     (let out = utf16_units utf8 cap []
      in (if cap \<noteq> 0 then out @ [0] else out, of_nat (length out)))"

definition unit_at :: "u16 list \<Rightarrow> nat \<Rightarrow> u16" where
  "unit_at w i = (if i < length w then w ! i else 0)"

text \<open>One code point from a non-empty wide string, and the number of units it took.\<close>

definition wide_next :: "u16 list \<Rightarrow> u32 \<times> nat" where
  "wide_next wide =
     (let cp = ucast (unit_at wide 0) :: u32
      in if cp \<ge> 0xD800 \<and> cp \<le> 0xDBFF then
           (let low = ucast (unit_at wide 1)
            in if low \<ge> 0xDC00 \<and> low \<le> 0xDFFF
               then (0x10000 + push_bit 10 (cp - 0xD800) + (low - 0xDC00), 2)
               else (MV_REPLACEMENT, 1))
         else if cp \<ge> 0xDC00 \<and> cp \<le> 0xDFFF then (MV_REPLACEMENT, 1)
         else (cp, 1))"

lemma wide_next_pos: "0 < snd (wide_next w)"
  by (auto simp: wide_next_def Let_def)

lemma wide_shorter: "(cp, used) = wide_next w \<Longrightarrow> w \<noteq> [] \<Longrightarrow> length (drop used w) < length w"
  using wide_next_pos [of w] by (cases "wide_next w") auto

function utf8_bytes :: "u16 list \<Rightarrow> u32 \<Rightarrow> u8 list \<Rightarrow> u8 list" where
  "utf8_bytes wide cap out =
     (if wide = [] then out
      else let (cp, used) = wide_next wide; buf = mv_utf8_encode cp
           in if of_nat (length out) + of_nat (length buf) \<ge> cap then out
              else utf8_bytes (drop used wide) cap (out @ buf))"
  by pat_completeness auto
termination
  by (relation "measure (length \<circ> fst)") (use wide_shorter in simp_all)

definition mv_utf16_to_utf8 :: "u16 list \<Rightarrow> u32 \<Rightarrow> u8 list \<times> u32" where
  "mv_utf16_to_utf8 wide cap =
     (let out = utf8_bytes wide cap []
      in (if cap \<noteq> 0 then out @ [NUL] else out, of_nat (length out)))"

text \<open>The strings \<open>mv_printw\<close> hands to \<open>printf\<close>, in order: its buffer has 128 bytes.\<close>

function printw_chunks :: "u16 list \<Rightarrow> u8 list \<Rightarrow> u8 list list" where
  "printw_chunks wide buf =
     (if wide = [] then [buf]
      else let (cp, used) = wide_next wide; one = mv_utf8_encode cp
           in if length buf + length one \<ge> 128
              then buf # printw_chunks (drop used wide) one
              else printw_chunks (drop used wide) (buf @ one))"
  by pat_completeness auto
termination
  by (relation "measure (length \<circ> fst)") (use wide_shorter in simp_all)

definition mv_printw :: "u16 list \<Rightarrow> u8 list list" where
  "mv_printw wide = printw_chunks wide []"

text \<open>The bytes \<open>mv_putwc\<close> puts out one after the other.\<close>

definition mv_putwc :: "u32 \<Rightarrow> u8 list" where
  "mv_putwc cp = mv_utf8_encode cp"

declare mv_utf16_len.simps [simp del] utf16_units.simps [simp del] utf8_bytes.simps [simp del]
  printw_chunks.simps [simp del]

section \<open>The bit operations as arithmetic\<close>

lemma unat_and_mask:
  fixes x :: "'a :: len word"
  shows "unat (x AND mask n) = unat x mod 2 ^ n"
  by (simp only: take_bit_eq_mask [symmetric] unsigned_take_bit_eq) (simp only: take_bit_eq_mod)

lemma unat_and_not_mask:
  fixes x :: "'a :: len word"
  shows "unat (x AND NOT (mask n)) = unat x - unat x mod 2 ^ n"
proof -
  have "(x AND NOT (mask n)) + (x AND mask n) = (x AND NOT (mask n)) OR (x AND mask n)"
    by (rule disjunctive_add) (auto simp: bit_simps)
  also have "\<dots> = x" by (simp add: bit_eq_iff bit_simps) blast
  finally have "x AND NOT (mask n) = x - (x AND mask n)" by (simp add: eq_diff_eq)
  moreover have "x AND mask n \<le> x" unfolding word_le_nat_alt unat_and_mask by (rule mod_less_eq_dividend)
  ultimately show ?thesis by (simp add: unat_sub unat_and_mask)
qed

lemma high_bits:
  fixes v :: nat
  shows "v - v mod 32 = 192 \<longleftrightarrow> 192 \<le> v \<and> v < 224" "v - v mod 16 = 224 \<longleftrightarrow> 224 \<le> v \<and> v < 240"
    "v - v mod 8 = 240 \<longleftrightarrow> 240 \<le> v \<and> v < 248" "v - v mod 64 = 128 \<longleftrightarrow> 128 \<le> v \<and> v < 192"
  unfolding minus_mod_eq_mult_div by auto

lemma low_bits:
  fixes v :: nat
  shows "192 \<le> v \<Longrightarrow> v < 224 \<Longrightarrow> v mod 32 = v - 192" "224 \<le> v \<Longrightarrow> v < 240 \<Longrightarrow> v mod 16 = v - 224"
    "240 \<le> v \<Longrightarrow> v < 248 \<Longrightarrow> v mod 8 = v - 240" "128 \<le> v \<Longrightarrow> v < 192 \<Longrightarrow> v mod 64 = v - 128"
  by (metis high_bits(1) diff_diff_cancel mod_less_eq_dividend, metis high_bits(2) diff_diff_cancel mod_less_eq_dividend,
      metis high_bits(3) diff_diff_cancel mod_less_eq_dividend, metis high_bits(4) diff_diff_cancel mod_less_eq_dividend)

lemma lead_ranges:
  "b AND 0xE0 = 0xC0 \<longleftrightarrow> 0xC0 \<le> unat b \<and> unat b < 0xE0"
  "b AND 0xF0 = 0xE0 \<longleftrightarrow> 0xE0 \<le> unat b \<and> unat b < 0xF0"
  "b AND 0xF8 = 0xF0 \<longleftrightarrow> 0xF0 \<le> unat b \<and> unat b < 0xF8"
  "b AND 0xC0 = 0x80 \<longleftrightarrow> 0x80 \<le> unat b \<and> unat b < 0xC0" for b :: u8
proof -
  have e: "(- 32 :: u8) = 0xE0" "(- 16 :: u8) = 0xF0" "(- 8 :: u8) = 0xF8" "(- 64 :: u8) = 0xC0" by simp_all
  have "b AND 0xE0 = 0xC0 \<longleftrightarrow> unat b - unat b mod 32 = 0xC0" "b AND 0xF0 = 0xE0 \<longleftrightarrow> unat b - unat b mod 16 = 0xE0"
    "b AND 0xF8 = 0xF0 \<longleftrightarrow> unat b - unat b mod 8 = 0xF0" "b AND 0xC0 = 0x80 \<longleftrightarrow> unat b - unat b mod 64 = 0x80"
    using unat_and_not_mask [of b 5] unat_and_not_mask [of b 4] unat_and_not_mask [of b 3] unat_and_not_mask [of b 6]
    by (simp_all add: word_unat_eq_iff mask_eq_exp_minus_1 e)
  then show "b AND 0xE0 = 0xC0 \<longleftrightarrow> 0xC0 \<le> unat b \<and> unat b < 0xE0"
    "b AND 0xF0 = 0xE0 \<longleftrightarrow> 0xE0 \<le> unat b \<and> unat b < 0xF0"
    "b AND 0xF8 = 0xF0 \<longleftrightarrow> 0xF0 \<le> unat b \<and> unat b < 0xF8"
    "b AND 0xC0 = 0x80 \<longleftrightarrow> 0x80 \<le> unat b \<and> unat b < 0xC0"
    by (simp_all add: high_bits)
qed

lemma masks:
  fixes x :: "'a :: len word"
  shows "unat (x AND 0x3F) = unat x mod 64" "unat (x AND 0x1F) = unat x mod 32"
    "unat (x AND 0x0F) = unat x mod 16" "unat (x AND 0x07) = unat x mod 8" "unat (x AND 0x3FF) = unat x mod 1024"
  using unat_and_mask [of x 6] unat_and_mask [of x 5] unat_and_mask [of x 4] unat_and_mask [of x 3]
    unat_and_mask [of x 10] by (simp_all add: mask_eq_exp_minus_1)

lemma shifts: "unat (drop_bit n (x :: u32)) = unat x div 2 ^ n"
  by (simp only: unat_drop_bit_eq) (simp only: drop_bit_eq_div)

text \<open>Bits set above a value that is too small to reach them.\<close>

lemma or_high:
  fixes y z :: u32
  assumes "unat y < 2 ^ n" "unat z * 2 ^ n + 2 ^ n \<le> 2 ^ 32" "n < 32"
  shows "unat (push_bit n z OR y) = unat z * 2 ^ n + unat y"
proof -
  have "unat (take_bit n y) = unat y" using assms(1)
    by (simp only: unsigned_take_bit_eq) (simp only: take_bit_eq_mod mod_less)
  then have y: "take_bit n y = y" by (simp add: word_unat_eq_iff)
  have "push_bit n z OR take_bit n y = push_bit n z + take_bit n y"
    by (rule disjunctive_add [symmetric]) (auto simp: bit_simps)
  then have eq: "push_bit n z OR y = z * 2 ^ n + y" by (simp add: y push_bit_eq_mult)
  have "(2 :: nat) ^ n < 2 ^ 32" using assms(3) by (intro power_strict_increasing) auto
  then have p: "unat (2 ^ n :: u32) = 2 ^ n" using unat_of_nat_u32 [of "2 ^ n"] by simp
  show ?thesis unfolding eq using assms p by (simp add: unat_word_ariths)
qed

lemma unat_u8: "unat (b :: u8) < 256"
  using unsigned_less [of b, where 'a = nat] by simp

lemma unat_up: "unat (ucast (b :: u8) :: u32) = unat b"
  using unat_u8 [of b] by (simp add: unsigned_ucast_eq take_bit_eq_mod)

lemma unat_down: "unat (x :: u32) < 256 \<Longrightarrow> unat (ucast x :: u8) = unat x"
  by (simp add: unsigned_ucast_eq take_bit_eq_mod)

text \<open>The bytes of the encoding as numbers.\<close>

definition enc_nat :: "nat \<Rightarrow> nat list" where
  "enc_nat c =
     (if c < 0x80 then [c]
      else if c < 0x800 then [192 + c div 64, 128 + c mod 64]
      else if c < 0x10000 then [224 + c div 4096, 128 + c div 64 mod 64, 128 + c mod 64]
      else [240 + c div 262144, 128 + c div 4096 mod 64, 128 + c div 64 mod 64, 128 + c mod 64])"

lemma or_leads:
  fixes y :: u32
  shows "unat y < 32 \<Longrightarrow> unat (0xC0 OR y) = 192 + unat y" "unat y < 16 \<Longrightarrow> unat (0xE0 OR y) = 224 + unat y"
    "unat y < 8 \<Longrightarrow> unat (0xF0 OR y) = 240 + unat y" "unat y < 64 \<Longrightarrow> unat (0x80 OR y) = 128 + unat y"
  using or_high [of y 5 6] or_high [of y 4 14] or_high [of y 3 30] or_high [of y 6 2]
  by (simp_all add: push_bit_eq_mult)

lemma cont_byte: "unat (ucast (0x80 OR (x AND 0x3F) :: u32) :: u8) = 128 + unat x mod 64" for x :: u32
proof -
  have "unat (0x80 OR (x AND 0x3F) :: u32) = 128 + unat x mod 64" by (simp add: or_leads masks)
  moreover have "128 + unat x mod 64 < 256" by simp
  ultimately show ?thesis using unat_down by metis
qed

lemma encode_nat:
  assumes "unat cp < 0x200000"
  shows "map unat (mv_utf8_encode cp) = enc_nat (unat cp)"
proof -
  have lt: "(cp < 0x80) = (unat cp < 0x80)" "(cp < 0x800) = (unat cp < 0x800)" "(cp < 0x10000) = (unat cp < 0x10000)"
    by (simp_all add: word_less_nat_alt)
  have "unat cp < 0x800 \<Longrightarrow> unat (ucast (0xC0 OR drop_bit 6 cp) :: u8) = 192 + unat cp div 64"
    "unat cp < 0x10000 \<Longrightarrow> unat (ucast (0xE0 OR drop_bit 12 cp) :: u8) = 224 + unat cp div 4096"
    "unat (ucast (0xF0 OR drop_bit 18 cp) :: u8) = 240 + unat cp div 262144"
    using assms or_leads(1-3) [of "drop_bit 6 cp"] or_leads(2) [of "drop_bit 12 cp"] or_leads(3) [of "drop_bit 18 cp"]
    by (simp_all add: shifts unat_down)
  then show ?thesis using assms
    by (simp add: mv_utf8_encode_def enc_nat_def lt unat_down cont_byte shifts)
qed

text \<open>The decoder as arithmetic on the byte values.\<close>

definition cont :: "u8 \<Rightarrow> bool" where
  "cont b \<longleftrightarrow> 0x80 \<le> unat b \<and> unat b < 0xC0"

lemma eq_of_nat: "unat (x :: u32) = n \<Longrightarrow> x = of_nat n"
  by auto

lemma tail_step:
  fixes b :: u8 and cp :: u32
  assumes "unat cp < 2 ^ 26"
  shows "unat (push_bit 6 cp OR ucast (b AND 0x3F)) = unat cp * 64 + unat b mod 64"
proof -
  have "unat (ucast (b AND 0x3F) :: u32) = unat b mod 64" by (simp add: unat_up masks)
  then show ?thesis using or_high [of "ucast (b AND 0x3F)" 6 cp] assms by simp
qed

lemma decode_tail_Suc:
  assumes "unat cp < 2 ^ 26"
  shows "decode_tail s i (Suc n) cp =
     (if cont (byte_at s i) then decode_tail s (Suc i) n (of_nat (unat cp * 64 + unat (byte_at s i) mod 64)) else None)"
proof -
  have "push_bit 6 cp OR ucast (byte_at s i AND 0x3F) = of_nat (unat cp * 64 + unat (byte_at s i) mod 64)"
    using tail_step [OF assms, of "byte_at s i"] by (rule eq_of_nat)
  then show ?thesis by (simp add: lead_ranges cont_def)
qed

lemma lead_spec:
  "decode_lead b =
     (let v = unat b
      in if 0xC0 \<le> v \<and> v < 0xE0 then (if v < 0xC2 then None else Some (of_nat (v - 192), 1))
         else if 0xE0 \<le> v \<and> v < 0xF0 then Some (of_nat (v - 224), 2)
         else if 0xF0 \<le> v \<and> v < 0xF8 then Some (of_nat (v - 240), 3)
         else None)"
proof -
  have m: "ucast (b AND 0x1F) = (of_nat (unat b mod 32) :: u32)" "ucast (b AND 0x0F) = (of_nat (unat b mod 16) :: u32)"
    "ucast (b AND 0x07) = (of_nat (unat b mod 8) :: u32)"
    by (rule eq_of_nat, simp add: unat_up masks)+
  have "(of_nat (unat b mod 32) :: u32) < 2 \<longleftrightarrow> unat b mod 32 < 2"
    by (simp add: word_less_nat_alt unat_of_nat)
  then show ?thesis
    by (auto simp: decode_lead_def lead_ranges m Let_def low_bits)
qed

abbreviation val :: "u8 list \<Rightarrow> nat \<Rightarrow> nat" where
  "val s i \<equiv> unat (byte_at s i)"

definition scalar :: "nat \<Rightarrow> bool" where
  "scalar c \<longleftrightarrow> c \<le> 0x10FFFF \<and> \<not> (0xD800 \<le> c \<and> c \<le> 0xDFFF)"

lemma unat_of_nat_small: "c < 2 ^ 32 \<Longrightarrow> unat (of_nat c :: u32) = c"
  by (rule unat_of_nat_u32)

lemma tail_at:
  assumes "c < 2 ^ 26"
  shows "decode_tail s i (Suc n) (of_nat c) =
     (if cont (byte_at s i) then decode_tail s (Suc i) n (of_nat (c * 64 + (val s i - 128))) else None)"
proof -
  have u: "unat (of_nat c :: u32) = c" using assms by (intro unat_of_nat_u32) simp
  show ?thesis
  proof (cases "cont (byte_at s i)")
    case True
    then have "val s i mod 64 = val s i - 128" unfolding cont_def by (simp add: low_bits)
    then show ?thesis using decode_tail_Suc [of "of_nat c" s i n] assms u True by (simp only: if_True)
  next
    case False
    then show ?thesis using decode_tail_Suc [of "of_nat c" s i n] assms u by (simp only: if_False)
  qed
qed

lemma decode_tail_1:
  assumes "c < 2 ^ 8"
  shows "decode_tail s 1 1 (of_nat c) = (if cont (byte_at s 1) then Some (of_nat (c * 64 + (val s 1 - 128))) else None)"
  using tail_at [of c s 1 0] assms by (simp del: of_nat_add of_nat_mult)

lemma decode_tail_2:
  assumes "c < 2 ^ 8"
  shows "decode_tail s 1 2 (of_nat c) = (if cont (byte_at s 1) \<and> cont (byte_at s 2)
     then Some (of_nat ((c * 64 + (val s 1 - 128)) * 64 + (val s 2 - 128))) else None)"
proof -
  let ?c1 = "c * 64 + (val s 1 - 128)"
  have "?c1 < 2 ^ 26" "c < 2 ^ 26" using assms unat_u8 [of "byte_at s 1"] by simp_all
  note tail_at [OF this(2), of s 1 1] tail_at [OF this(1), of s 2 0]
  moreover have "Suc 1 = 2" "Suc 0 = 1" by simp_all
  ultimately show ?thesis by (simp only: decode_tail.simps(1) simp_thms split: if_split) metis
qed

lemma decode_tail_3:
  assumes "c < 2 ^ 8"
  shows "decode_tail s 1 3 (of_nat c) = (if cont (byte_at s 1) \<and> cont (byte_at s 2) \<and> cont (byte_at s 3)
     then Some (of_nat (((c * 64 + (val s 1 - 128)) * 64 + (val s 2 - 128)) * 64 + (val s 3 - 128))) else None)"
proof -
  let ?c1 = "c * 64 + (val s 1 - 128)"
  let ?c2 = "?c1 * 64 + (val s 2 - 128)"
  have "?c2 < 2 ^ 26" "?c1 < 2 ^ 26" "c < 2 ^ 26"
    using assms unat_u8 [of "byte_at s 1"] unat_u8 [of "byte_at s 2"] by simp_all
  note tail_at [OF this(3), of s 1 2] tail_at [OF this(2), of s 2 1] tail_at [OF this(1), of s 3 0]
  moreover have "Suc 2 = 3" "Suc 1 = 2" "Suc 0 = 1" by simp_all
  ultimately show ?thesis by (simp only: decode_tail.simps(1) simp_thms split: if_split) metis
qed

text \<open>All there is to the decoder: the four well-formed shapes, and the replacement for the rest.\<close>

definition dec_nat :: "u8 list \<Rightarrow> (nat \<times> nat) option" where
  "dec_nat s =
     (let c2 = (val s 0 - 192) * 64 + (val s 1 - 128);
          c3 = ((val s 0 - 224) * 64 + (val s 1 - 128)) * 64 + (val s 2 - 128);
          c4 = (((val s 0 - 240) * 64 + (val s 1 - 128)) * 64 + (val s 2 - 128)) * 64 + (val s 3 - 128)
      in if val s 0 < 0x80 then Some (val s 0, 1)
         else if 0xC2 \<le> val s 0 \<and> val s 0 < 0xE0 \<and> cont (byte_at s 1) then Some (c2, 2)
         else if 0xE0 \<le> val s 0 \<and> val s 0 < 0xF0 \<and> cont (byte_at s 1) \<and> cont (byte_at s 2) \<and>
           0x800 \<le> c3 \<and> scalar c3 then Some (c3, 3)
         else if 0xF0 \<le> val s 0 \<and> val s 0 < 0xF8 \<and> cont (byte_at s 1) \<and> cont (byte_at s 2) \<and>
           cont (byte_at s 3) \<and> 0x10000 \<le> c4 \<and> scalar c4 then Some (c4, 4)
         else None)"

lemma rejected_nat:
  assumes "c < 2 ^ 32"
  shows "rejected n (of_nat c) \<longleftrightarrow> n = 2 \<and> c < 0x800 \<or> n = 3 \<and> c < 0x10000 \<or> \<not> scalar c"
  using unat_of_nat_u32 [OF assms]
  by (auto simp: rejected_def scalar_def word_less_nat_alt word_le_nat_alt)

lemma decode_spec:
  "mv_utf8_decode s = (case dec_nat s of None \<Rightarrow> (MV_REPLACEMENT, 1) | Some (c, n) \<Rightarrow> (of_nat c, n))"
proof -
  let ?v = "val s 0"
  have u: "?v < 256" "val s 1 < 256" "val s 2 < 256" "val s 3 < 256" by (rule unat_u8)+
  have lt: "byte_at s 0 < 0x80 \<longleftrightarrow> ?v < 0x80" by (simp add: word_less_nat_alt)
  consider "?v < 0x80" | "0x80 \<le> ?v" "?v < 0xC2" | "0xC2 \<le> ?v" "?v < 0xE0" | "0xE0 \<le> ?v" "?v < 0xF0"
    | "0xF0 \<le> ?v" "?v < 0xF8" | "0xF8 \<le> ?v" by linarith
  then show ?thesis
  proof cases
    case 1
    then show ?thesis using eq_of_nat [OF unat_up, of "byte_at s 0"]
      by (simp add: mv_utf8_decode_def dec_nat_def lt)
  next
    case 2
    then show ?thesis by (simp add: mv_utf8_decode_def dec_nat_def lt lead_spec Let_def)
  next
    case 3
    let ?c = "(?v - 192) * 64 + (val s 1 - 128)"
    have "?c < 2 ^ 32" using u by simp
    from rejected_nat [OF this, of 1] 3 u have "cont (byte_at s 1) \<Longrightarrow> \<not> rejected 1 (of_nat ?c)"
      by (auto simp: scalar_def cont_def)
    then show ?thesis using 3 decode_tail_1 [of "?v - 192" s]
      by (simp add: mv_utf8_decode_def dec_nat_def lt lead_spec Let_def del: of_nat_add of_nat_mult)
  next
    case 4
    let ?c = "((?v - 224) * 64 + (val s 1 - 128)) * 64 + (val s 2 - 128)"
    have "?c < 2 ^ 32" using u by simp
    then show ?thesis using 4 decode_tail_2 [of "?v - 224" s] rejected_nat [of ?c 2]
      by (auto simp: mv_utf8_decode_def dec_nat_def lt lead_spec Let_def simp del: of_nat_add of_nat_mult)
  next
    case 5
    let ?c = "(((?v - 240) * 64 + (val s 1 - 128)) * 64 + (val s 2 - 128)) * 64 + (val s 3 - 128)"
    have "?c < 2 ^ 32" using u by simp
    then show ?thesis using 5 decode_tail_3 [of "?v - 240" s] rejected_nat [of ?c 3]
      by (auto simp: mv_utf8_decode_def dec_nat_def lt lead_spec Let_def simp del: of_nat_add of_nat_mult)
  next
    case 6
    then show ?thesis by (simp add: mv_utf8_decode_def dec_nat_def lt lead_spec Let_def)
  qed
qed

section \<open>Decoding inverts encoding, and accepts nothing else\<close>

lemma split_6:
  fixes c :: nat
  shows "c div 64 * 64 + c mod 64 = c" "c div 4096 * 64 + c div 64 mod 64 = c div 64"
    "c div 262144 * 64 + c div 4096 mod 64 = c div 4096"
  using div_mult_mod_eq [of c 64] div_mult_mod_eq [of "c div 64" 64] div_mult_mod_eq [of "c div 4096" 64]
  by (simp_all add: div_mult2_eq [symmetric])

lemma byte_at_app: "i < length xs \<Longrightarrow> val (xs @ rest) i = map unat xs ! i"
  by (simp add: byte_at_def nth_append)

lemma dec_enc:
  assumes s: "map unat xs = enc_nat c" and c: "scalar c"
  shows "dec_nat (xs @ rest) = Some (c, length (enc_nat c))"
proof -
  have len: "length xs = length (enc_nat c)" using arg_cong [OF s, of length] by simp
  have v: "val (xs @ rest) i = enc_nat c ! i" if "i < length (enc_nat c)" for i
    using byte_at_app [of i xs rest] that len s by simp
  have c': "c < 0x110000" using c by (simp add: scalar_def)
  consider "c < 0x80" | "0x80 \<le> c" "c < 0x800" | "0x800 \<le> c" "c < 0x10000" | "0x10000 \<le> c" by linarith
  then show ?thesis
  proof cases
    case 1
    then show ?thesis using v [of 0] by (simp add: enc_nat_def dec_nat_def)
  next
    case 2
    then have "val (xs @ rest) 0 = 192 + c div 64" "val (xs @ rest) 1 = 128 + c mod 64"
      using v [of 0] v [of 1] by (simp_all add: enc_nat_def)
    moreover have "194 \<le> 192 + c div 64" "192 + c div 64 < 224" "\<not> c < 128" using 2 by auto
    ultimately show ?thesis
      using 2(2) split_6 [of c] unfolding enc_nat_def dec_nat_def cont_def Let_def
      by (simp, intro conjI impI; linarith)
  next
    case 3
    then have "val (xs @ rest) 0 = 224 + c div 4096" "val (xs @ rest) 1 = 128 + c div 64 mod 64"
        "val (xs @ rest) 2 = 128 + c mod 64"
      using v [of 0] v [of 1] v [of 2] by (simp_all add: enc_nat_def)
    moreover have "c div 4096 < 16" using 3 by auto
    ultimately show ?thesis
      using 3 split_6 [of c] c by (simp add: enc_nat_def dec_nat_def cont_def Let_def)
  next
    case 4
    then have "val (xs @ rest) 0 = 240 + c div 262144" "val (xs @ rest) 1 = 128 + c div 4096 mod 64"
        "val (xs @ rest) 2 = 128 + c div 64 mod 64" "val (xs @ rest) 3 = 128 + c mod 64"
      using v [of 0] v [of 1] v [of 2] v [of 3] by (simp_all add: enc_nat_def)
    moreover have "c div 262144 < 8" using c' by auto
    ultimately show ?thesis
      using 4 split_6 [of c] c by (simp add: enc_nat_def dec_nat_def cont_def Let_def)
  qed
qed

lemma cont_inside: "cont (byte_at s i) \<Longrightarrow> i < length s"
  by (auto simp: cont_def byte_at_def split: if_splits)

lemma take_vals:
  assumes "n \<le> length s"
  shows "map unat (take n s) = map (val s) [0..<n]"
  using assms by (intro nth_equalityI) (auto simp: byte_at_def)

lemma upt_small: "[0..<2] = [0, 1]" "[0..<3] = [0, 1, 2]" "[0..<4] = [0, 1, 2, 3]"
  by code_simp+

lemma join_6:
  fixes a b :: nat
  assumes "128 \<le> b" "b < 192"
  shows "(a * 64 + (b - 128)) div 64 = a" "(a * 64 + (b - 128)) mod 64 = b - 128"
proof -
  obtain d where d: "b = 128 + d" using assms(1) le_Suc_ex by blast
  then have "d < 64" using assms(2) by simp
  then show "(a * 64 + (b - 128)) div 64 = a" "(a * 64 + (b - 128)) mod 64 = b - 128" unfolding d by simp_all
qed

lemma enc_dec:
  assumes s: "s \<noteq> []" and d: "dec_nat s = Some (c, n)"
  shows "scalar c \<and> n \<le> length s \<and> enc_nat c = map unat (take n s)"
proof -
  let ?v = "val s"
  have u: "?v i < 256" for i by (rule unat_u8)
  consider (1) "?v 0 < 0x80" "c = ?v 0" "n = 1"
    | (2) "0xC2 \<le> ?v 0" "?v 0 < 0xE0" "cont (byte_at s 1)" "c = (?v 0 - 192) * 64 + (?v 1 - 128)" "n = 2"
    | (3) "0xE0 \<le> ?v 0" "?v 0 < 0xF0" "cont (byte_at s 1)" "cont (byte_at s 2)" "0x800 \<le> c" "scalar c"
        "c = ((?v 0 - 224) * 64 + (?v 1 - 128)) * 64 + (?v 2 - 128)" "n = 3"
    | (4) "0xF0 \<le> ?v 0" "?v 0 < 0xF8" "cont (byte_at s 1)" "cont (byte_at s 2)" "cont (byte_at s 3)"
        "0x10000 \<le> c" "scalar c"
        "c = (((?v 0 - 240) * 64 + (?v 1 - 128)) * 64 + (?v 2 - 128)) * 64 + (?v 3 - 128)" "n = 4"
    using d by (auto simp: dec_nat_def Let_def split: if_splits)
  then show ?thesis
  proof cases
    case 1
    then show ?thesis using s take_vals [of 1 s] by (cases s) (auto simp: scalar_def enc_nat_def)
  next
    case 2
    then have b: "128 \<le> ?v 1" "?v 1 < 192" by (simp_all add: cont_def)
    have "c div 64 = ?v 0 - 192" "c mod 64 = ?v 1 - 128" unfolding 2(4) by (rule join_6 [OF b])+
    moreover have "0x80 \<le> c" "c < 0x800" using 2 b by simp_all
    ultimately show ?thesis
      using 2(1,2,5) b cont_inside [OF 2(3)] take_vals [of 2 s] by (simp add: enc_nat_def scalar_def upt_small)
  next
    case 3
    then have b: "128 \<le> ?v 1" "?v 1 < 192" "128 \<le> ?v 2" "?v 2 < 192" by (simp_all add: cont_def)
    have d1: "c div 64 = (?v 0 - 224) * 64 + (?v 1 - 128)" "c mod 64 = ?v 2 - 128"
      unfolding 3(7) by (rule join_6 [OF b(3,4)])+
    then have "c div 4096 = ?v 0 - 224" "c div 64 mod 64 = ?v 1 - 128"
      using join_6 [OF b(1,2), of "?v 0 - 224"] div_mult2_eq [of c 64 64] by simp_all
    moreover have "c < 0x10000" using 3 b by simp
    ultimately show ?thesis
      using 3(1,2,5,6,8) b d1(2) cont_inside [OF 3(4)] take_vals [of 3 s] by (simp add: enc_nat_def upt_small)
  next
    case 4
    then have b: "128 \<le> ?v 1" "?v 1 < 192" "128 \<le> ?v 2" "?v 2 < 192" "128 \<le> ?v 3" "?v 3 < 192"
      by (simp_all add: cont_def)
    have d1: "c div 64 = ((?v 0 - 240) * 64 + (?v 1 - 128)) * 64 + (?v 2 - 128)" "c mod 64 = ?v 3 - 128"
      unfolding 4(8) by (rule join_6 [OF b(5,6)])+
    then have d2: "c div 4096 = (?v 0 - 240) * 64 + (?v 1 - 128)" "c div 64 mod 64 = ?v 2 - 128"
      using join_6 [OF b(3,4), of "(?v 0 - 240) * 64 + (?v 1 - 128)"] div_mult2_eq [of c 64 64] by simp_all
    then have "c div 262144 = ?v 0 - 240" "c div 4096 mod 64 = ?v 1 - 128"
      using join_6 [OF b(1,2), of "?v 0 - 240"] div_mult2_eq [of c 4096 64] by simp_all
    then show ?thesis
      using 4(1,2,6,7,9) b d1(2) d2(2) cont_inside [OF 4(5)] take_vals [of 4 s] by (simp add: enc_nat_def upt_small)
  qed
qed

section \<open>Whole strings\<close>

text \<open>The code points a UTF-8 string means, and the units of one code point.\<close>

function codepoints :: "u8 list \<Rightarrow> u32 list" where
  "codepoints s =
     (if s = [] then [] else let (cp, used) = mv_utf8_decode s in cp # codepoints (drop used s))"
  by pat_completeness auto
termination by (relation "measure length") (use decode_shorter in simp_all)

declare codepoints.simps [simp del]

definition units16 :: "u32 \<Rightarrow> u16 list" where
  "units16 cp =
     (if cp > 0xFFFF then
        [ucast (0xD800 + drop_bit 10 (cp - 0x10000)), ucast (0xDC00 + ((cp - 0x10000) AND 0x3FF))]
      else [ucast cp])"

lemma codepoints_Nil [simp]: "codepoints [] = []"
  by (simp add: codepoints.simps)

lemma mv_utf16_len_spec:
  "mv_utf16_len s k = k + of_nat (length (concat (map units16 (codepoints s))))"
proof (induction s k rule: mv_utf16_len.induct)
  case (1 s k)
  show ?case
  proof (cases "s = []")
    case False
    obtain cp used where d: "mv_utf8_decode s = (cp, used)" by (cases "mv_utf8_decode s")
    with False 1 show ?thesis
      by (simp add: mv_utf16_len.simps [of s] codepoints.simps [of s] units16_def ac_simps)
  qed (simp add: mv_utf16_len.simps)
qed

text \<open>The conversion writes whole code points until one does not fit.\<close>

fun fitting :: "nat \<Rightarrow> nat \<Rightarrow> u32 list \<Rightarrow> u32 list" where
  "fitting room used [] = []"
| "fitting room used (cp # cps) =
     (if used + length (units16 cp) \<ge> room then [] else cp # fitting room (used + length (units16 cp)) cps)"

lemma cap_nat:
  fixes cap :: u32
  assumes "unat cap < 2 ^ 31" "a < 2 ^ 31" "b \<le> 4"
  shows "cap \<le> of_nat a + of_nat b \<longleftrightarrow> unat cap \<le> a + b"
proof -
  have "unat (of_nat (a + b) :: u32) = a + b" using assms by (intro unat_of_nat_u32) simp
  then show ?thesis by (simp add: word_le_nat_alt flip: of_nat_add)
qed

lemma units16_length: "length (units16 cp) = (if cp > 0xFFFF then 2 else 1)"
  by (simp add: units16_def)

lemma utf16_units_spec:
  assumes cap: "unat cap < 2 ^ 31"
  shows "length out < unat cap \<or> out = [] \<Longrightarrow>
     utf16_units s cap out = out @ concat (map units16 (fitting (unat cap) (length out) (codepoints s)))"
proof (induction "length s" arbitrary: s out rule: less_induct)
  case less
  show ?case
  proof (cases "s = []")
    case True
    then show ?thesis by (simp add: utf16_units.simps)
  next
    case False
    obtain cp used where d: "mv_utf8_decode s = (cp, used)" by (cases "mv_utf8_decode s")
    have sh: "length (drop used s) < length s" using decode_shorter [OF d [symmetric] False] .
    have lo: "length out < 2 ^ 31" using less.prems cap by auto
    have c: "cap \<le> of_nat (length out) + of_nat (length (units16 cp)) \<longleftrightarrow>
        unat cap \<le> length out + length (units16 cp)"
      using cap_nat [OF cap lo] by (simp add: units16_length)
    have step: "utf16_units s cap out =
        (if cap \<le> of_nat (length out) + of_nat (length (units16 cp)) then out
         else utf16_units (drop used s) cap (out @ units16 cp))"
      using False d by (simp add: utf16_units.simps [of s] Let_def units16_def)
    have cs: "codepoints s = cp # codepoints (drop used s)"
      using False d by (simp add: codepoints.simps [of s])
    show ?thesis
    proof (cases "unat cap \<le> length out + length (units16 cp)")
      case True
      then show ?thesis using step c cs by simp
    next
      case False
      then have "utf16_units (drop used s) cap (out @ units16 cp) = (out @ units16 cp) @
          concat (map units16 (fitting (unat cap) (length (out @ units16 cp)) (codepoints (drop used s))))"
        by (intro less.hyps [OF sh]) auto
      then show ?thesis using step c cs False by simp
    qed
  qed
qed

lemma fitting_prefix: "\<exists>rest. cps = fitting room used cps @ rest"
  by (induction room used cps rule: fitting.induct) auto

lemma fitting_bound: "used < room \<Longrightarrow> used + length (concat (map units16 (fitting room used cps))) < room"
  by (induction room used cps rule: fitting.induct) auto

lemma fitting_all:
  "used + length (concat (map units16 cps)) < room \<Longrightarrow> fitting room used cps = cps"
  by (induction room used cps rule: fitting.induct) auto

lemma fitting_0: "fitting 0 used cps = []"
  by (cases cps) auto

section \<open>Back and forth\<close>

lemma encode_eq: "map unat (mv_utf8_encode a) = map unat xs \<Longrightarrow> mv_utf8_encode a = xs"
  by (simp add: inj_map_eq_map [OF inj_onI] word_unat_eq_iff)

lemma decode_encode:
  assumes "scalar (unat cp)"
  shows "mv_utf8_decode (mv_utf8_encode cp @ rest) = (cp, length (mv_utf8_encode cp))"
proof -
  have e: "map unat (mv_utf8_encode cp) = enc_nat (unat cp)"
    using assms by (intro encode_nat) (simp add: scalar_def)
  then have "length (mv_utf8_encode cp) = length (enc_nat (unat cp))" by (metis length_map)
  then show ?thesis using dec_enc [OF e assms, of rest] by (simp add: decode_spec)
qed

lemma encode_nonempty: "mv_utf8_encode cp \<noteq> []"
  by (simp add: mv_utf8_encode_def)

lemma codepoints_encode:
  "\<forall>cp \<in> set cps. scalar (unat cp) \<Longrightarrow> codepoints (concat (map mv_utf8_encode cps)) = cps"
proof (induction cps)
  case (Cons cp cps)
  then show ?case
    using decode_encode [of cp "concat (map mv_utf8_encode cps)"] encode_nonempty [of cp]
    by (simp add: codepoints.simps [of "mv_utf8_encode cp @ _"])
qed simp

lemma unat_u16: "unat (x :: u32) < 65536 \<Longrightarrow> unat (ucast (ucast x :: u16) :: u32) = unat x"
  by (simp add: unsigned_ucast_eq take_bit_eq_mod unat_mod)

lemma u16_back: "unat (x :: u32) < 65536 \<Longrightarrow> ucast (ucast x :: u16) = x"
  using unat_u16 [of x] by (simp add: word_unat_eq_iff)

lemma wide_units:
  assumes "scalar (unat cp)"
  shows "wide_next (units16 cp @ rest) = (cp, length (units16 cp))"
proof (cases "cp > 0xFFFF")
  case False
  then have lt: "unat cp < 65536" by (simp add: word_less_nat_alt)
  have "\<not> (cp \<ge> 0xD800 \<and> cp \<le> 0xDFFF)" using assms by (simp add: scalar_def word_le_nat_alt)
  moreover have "cp \<le> 0xDBFF \<Longrightarrow> cp \<le> 0xDFFF" "cp \<ge> 0xDC00 \<Longrightarrow> cp \<ge> 0xD800"
    by (simp_all add: word_le_nat_alt)
  ultimately show ?thesis
    using False u16_back [OF lt] by (auto simp: wide_next_def units16_def unit_at_def Let_def)
next
  case True
  define d where "d = cp - 0x10000"
  have "0x10000 \<le> cp" using True by (simp add: word_le_nat_alt word_less_nat_alt)
  then have ud: "unat d = unat cp - 65536" unfolding d_def by (simp add: unat_diff_le)
  moreover have "unat cp \<le> 0x10FFFF" using assms by (simp add: scalar_def)
  ultimately have d20: "unat d < 2 ^ 20" by simp
  define hi lo where "hi = 0xD800 + drop_bit 10 d" and "lo = 0xDC00 + (d AND 0x3FF)"
  have uhi: "unat hi = 55296 + unat d div 1024"
    unfolding hi_def using d20 shifts [of 10 d] by (simp add: unat_word_ariths)
  have ulo: "unat lo = 56320 + unat d mod 1024"
    unfolding lo_def using masks(5) [of d] by (simp add: unat_word_ariths)
  have b: "unat hi < 65536" "unat lo < 65536" "hi \<ge> 0xD800" "hi \<le> 0xDBFF" "lo \<ge> 0xDC00" "lo \<le> 0xDFFF"
    using uhi ulo d20 by (simp_all add: word_le_nat_alt)
  have u: "units16 cp = [ucast hi, ucast lo]"
    using True by (simp add: units16_def hi_def lo_def d_def)
  have "0x10000 + push_bit 10 (hi - 0xD800) + (lo - 0xDC00) = 0x10000 + d"
  proof -
    have "hi - 0xD800 = drop_bit 10 d" "lo - 0xDC00 = take_bit 10 d"
      by (simp_all add: hi_def lo_def take_bit_eq_mask mask_eq_exp_minus_1)
    then show ?thesis
      using bits_ident [of 10 d] by (simp add: add.assoc)
  qed
  then have "wide_next ([ucast hi, ucast lo] @ rest) = (0x10000 + d, 2)"
    using b u16_back by (simp add: wide_next_def unit_at_def Let_def)
  then show ?thesis by (simp add: u d_def)
qed

lemma units16_nonempty: "units16 cp \<noteq> []"
  by (simp add: units16_def)

lemma encode_length: "length (mv_utf8_encode cp) \<le> 4"
  by (simp add: mv_utf8_encode_def)

lemma utf8_bytes_units:
  "unat cap < 2 ^ 31 \<Longrightarrow> \<forall>cp \<in> set cps. scalar (unat cp) \<Longrightarrow>
     length out + length (concat (map mv_utf8_encode cps)) < unat cap \<Longrightarrow>
     utf8_bytes (concat (map units16 cps)) cap out = out @ concat (map mv_utf8_encode cps)"
proof (induction cps arbitrary: out)
  case (Cons cp cps)
  have "\<not> cap \<le> of_nat (length out) + of_nat (length (mv_utf8_encode cp))"
    using cap_nat [OF Cons.prems(1), of "length out" "length (mv_utf8_encode cp)"] Cons.prems encode_length [of cp]
    by simp
  then show ?case
    using Cons wide_units [of cp "concat (map units16 cps)"] units16_nonempty [of cp]
    by (simp add: utf8_bytes.simps [of "units16 cp @ _"] Let_def)
qed (simp add: utf8_bytes.simps)

text \<open>What \<open>mv_printw\<close> prints.\<close>

function wide_points :: "u16 list \<Rightarrow> u32 list" where
  "wide_points w =
     (if w = [] then [] else let (cp, used) = wide_next w in cp # wide_points (drop used w))"
  by pat_completeness auto
termination by (relation "measure length") (use wide_shorter in simp_all)

declare wide_points.simps [simp del]

lemma printw_spec:
  "length buf < 128 \<Longrightarrow>
     concat (printw_chunks w buf) = buf @ concat (map mv_utf8_encode (wide_points w)) \<and>
     (\<forall>chunk \<in> set (printw_chunks w buf). length chunk < 128)"
proof (induction w buf rule: printw_chunks.induct)
  case (1 w buf)
  show ?case
  proof (cases "w = []")
    case True
    with 1 show ?thesis by (simp add: printw_chunks.simps wide_points.simps)
  next
    case False
    obtain cp used where d: "wide_next w = (cp, used)" by (cases "wide_next w")
    have l: "length (mv_utf8_encode cp) < 128" using encode_length [of cp] by simp
    show ?thesis
      using 1(1) [OF False d [symmetric] _ refl] 1(2) [OF False d [symmetric] _ refl] 1(3) False d l
      by (cases "128 \<le> length buf + length (mv_utf8_encode cp)")
        (auto simp: printw_chunks.simps [of w buf] wide_points.simps [of w] Let_def)
  qed
qed

section \<open>Properties\<close>

text \<open>C11: decoding the encoding of a Unicode scalar value, whatever follows it, gives the value back
  and consumes exactly the bytes of its encoding.\<close>

theorem utf8_decode_encode:
  assumes "scalar (unat cp)"
  shows "mv_utf8_decode (mv_utf8_encode cp @ rest) = (cp, length (mv_utf8_encode cp))"
  using assms by (rule decode_encode)

theorem utf8_decode_encode_witness:
  "mv_utf8_decode (mv_utf8_encode 0x1F600 @ [65]) = (0x1F600, 4)"
proof -
  have "scalar (unat (0x1F600 :: u32))" by (simp add: scalar_def)
  moreover have "length (mv_utf8_encode 0x1F600) = 4" by (simp add: mv_utf8_encode_def)
  ultimately show ?thesis using utf8_decode_encode [of "0x1F600" "[65]"] by simp
qed

text \<open>C12: on a non-empty string the decoder consumes between one and four of its bytes. Either they
  are the one encoding of the scalar value it returns, or it returns the replacement character
  for one byte, and then no encoding of any scalar value starts there: overlong forms, surrogates
  and values above \<^verbatim>\<open>0x10FFFF\<close> are never accepted.\<close>

theorem utf8_decode_sound:
  assumes "s \<noteq> []"
  shows "\<exists>cp n. mv_utf8_decode s = (cp, n) \<and> 0 < n \<and> n \<le> 4 \<and> n \<le> length s \<and>
     (scalar (unat cp) \<and> take n s = mv_utf8_encode cp \<or>
      cp = MV_REPLACEMENT \<and> n = 1 \<and>
        (\<forall>c rest. scalar (unat c) \<longrightarrow> s \<noteq> mv_utf8_encode c @ rest))"
proof (cases "dec_nat s")
  case None
  then have r: "mv_utf8_decode s = (MV_REPLACEMENT, 1)" by (simp add: decode_spec)
  have "s \<noteq> mv_utf8_encode c @ rest" if "scalar (unat c)" for c rest
  proof
    assume "s = mv_utf8_encode c @ rest"
    moreover have "map unat (mv_utf8_encode c) = enc_nat (unat c)"
      using that by (intro encode_nat) (simp add: scalar_def)
    ultimately show False using dec_enc [OF _ that] None by simp
  qed
  then show ?thesis using r assms by (cases s) auto
next
  case (Some cn)
  then obtain c n where cn: "dec_nat s = Some (c, n)" by (cases cn) auto
  have d: "mv_utf8_decode s = (of_nat c, n)" using cn by (simp add: decode_spec)
  note e = enc_dec [OF assms cn]
  have u: "unat (of_nat c :: u32) = c" using e by (intro unat_of_nat_u32) (simp add: scalar_def)
  have m: "map unat (mv_utf8_encode (of_nat c)) = map unat (take n s)"
    using e encode_nat [of "of_nat c"] u by (simp add: scalar_def)
  then have t: "take n s = mv_utf8_encode (of_nat c)" by (rule encode_eq [symmetric])
  have "n = length (mv_utf8_encode (of_nat c))" using arg_cong [OF t, of length] e by simp
  then have "n \<le> 4" "0 < n" using encode_length [of "of_nat c"] encode_nonempty [of "of_nat c"] by simp_all
  then show ?thesis using d e t u by auto
qed

theorem utf8_decode_sound_witness:
  "\<exists>cp n. mv_utf8_decode [0xED, 0xA0, 0x80] = (cp, n) \<and> 0 < n \<and> n \<le> 3"
  using utf8_decode_sound [of "[0xED, 0xA0, 0x80]"] by auto

text \<open>the UTF-16 conversion stores whole code points only, in order and from the first: what it
  writes is the encoding of a prefix of the string's code points, so no surrogate pair is ever
  cut. It leaves room for the terminating zero, which it writes unless the buffer is empty, and
  converts the whole string when that fits.\<close>

theorem utf8_to_utf16_truncates:
  assumes "unat cap < 2 ^ 31"
  shows "\<exists>cps rest. codepoints s = cps @ rest \<and>
     mv_utf8_to_utf16 s cap =
       (if cap = 0 then ([], 0)
        else (concat (map units16 cps) @ [0], of_nat (length (concat (map units16 cps))))) \<and>
     (cap \<noteq> 0 \<longrightarrow> length (concat (map units16 cps)) + 1 \<le> unat cap) \<and>
     (length (concat (map units16 (codepoints s))) < unat cap \<longrightarrow> rest = [])"
proof -
  define f where "f = fitting (unat cap) 0 (codepoints s)"
  have run: "utf16_units s cap [] = concat (map units16 f)"
    using utf16_units_spec [OF assms, of "[]" s] by (simp add: f_def)
  obtain rest where rest: "codepoints s = f @ rest" using fitting_prefix f_def by blast
  have "cap = 0 \<Longrightarrow> f = []" by (simp add: f_def fitting_0)
  then have "mv_utf8_to_utf16 s cap = (if cap = 0 then ([], 0)
      else (concat (map units16 f) @ [0], of_nat (length (concat (map units16 f)))))"
    using run by (simp add: mv_utf8_to_utf16_def Let_def)
  moreover have "cap \<noteq> 0 \<longrightarrow> length (concat (map units16 f)) + 1 \<le> unat cap"
    using fitting_bound [of 0 "unat cap" "codepoints s"] unat_gt_0 [of cap] by (auto simp: f_def)
  moreover have "length (concat (map units16 (codepoints s))) < unat cap \<longrightarrow> rest = []"
  proof
    assume "length (concat (map units16 (codepoints s))) < unat cap"
    then have "f = codepoints s" using fitting_all [of 0 "codepoints s" "unat cap"] by (simp add: f_def)
    with rest show "rest = []" by simp
  qed
  ultimately show ?thesis using rest by blast
qed

theorem utf8_to_utf16_truncates_witness:
  "\<exists>cps rest. codepoints (mv_utf8_encode 0x1F600) = cps @ rest \<and>
     mv_utf8_to_utf16 (mv_utf8_encode 0x1F600) 2 =
       (concat (map units16 cps) @ [0], of_nat (length (concat (map units16 cps)))) \<and>
     length (concat (map units16 cps)) \<le> 1"
  using utf8_to_utf16_truncates [of 2 "mv_utf8_encode 0x1F600"] by auto

text \<open>C13: a well-formed UTF-8 string converted to UTF-16 and back is unchanged, when both buffers are
  large enough.\<close>

theorem utf16_round_trip:
  assumes "\<forall>cp \<in> set cps. scalar (unat cp)" "unat wcap < 2 ^ 31" "unat cap < 2 ^ 31"
    "length (concat (map units16 cps)) < unat wcap" "length (concat (map mv_utf8_encode cps)) < unat cap"
  shows "\<exists>wide n. mv_utf8_to_utf16 (concat (map mv_utf8_encode cps)) wcap = (wide @ [0], n) \<and>
     mv_utf16_to_utf8 wide cap =
       (concat (map mv_utf8_encode cps) @ [0], of_nat (length (concat (map mv_utf8_encode cps))))"
proof -
  have nz: "wcap \<noteq> 0" "cap \<noteq> 0" using assms(4,5) by auto
  have "utf16_units (concat (map mv_utf8_encode cps)) wcap [] = concat (map units16 cps)"
    using utf16_units_spec [OF assms(2), of "[]" "concat (map mv_utf8_encode cps)"]
      fitting_all [of 0 cps "unat wcap"] assms(4) codepoints_encode [OF assms(1)] by simp
  then have "mv_utf8_to_utf16 (concat (map mv_utf8_encode cps)) wcap =
      (concat (map units16 cps) @ [0], of_nat (length (concat (map units16 cps))))"
    using nz by (simp add: mv_utf8_to_utf16_def Let_def)
  moreover have "mv_utf16_to_utf8 (concat (map units16 cps)) cap =
      (concat (map mv_utf8_encode cps) @ [0], of_nat (length (concat (map mv_utf8_encode cps))))"
    using utf8_bytes_units [OF assms(3,1), of "[]"] assms(5) nz by (simp add: mv_utf16_to_utf8_def Let_def)
  ultimately show ?thesis by blast
qed

theorem utf16_round_trip_witness:
  "\<exists>wide n. mv_utf8_to_utf16 (mv_utf8_encode 0x1F600 @ mv_utf8_encode 0x41) 8 = (wide @ [0], n) \<and>
     fst (mv_utf16_to_utf8 wide 8) = mv_utf8_encode 0x1F600 @ mv_utf8_encode 0x41 @ [0]"
proof -
  have "length (mv_utf8_encode 0x1F600) = 4" "length (mv_utf8_encode 0x41) = 1"
    "length (units16 0x1F600) = 2" "length (units16 0x41) = 1"
    by (simp_all add: mv_utf8_encode_def units16_def)
  then show ?thesis using utf16_round_trip [of "[0x1F600, 0x41]" 8 8] by (auto simp: scalar_def)
qed

text \<open>\<open>mv_printw\<close> hands \<open>printf\<close> strings that fit its 128-byte buffer with their terminator, and
  together they are the UTF-8 encoding of the whole wide string.\<close>

theorem printw_prints_all:
  "concat (mv_printw w) = concat (map mv_utf8_encode (wide_points w)) \<and>
   (\<forall>chunk \<in> set (mv_printw w). length chunk < 128)"
  using printw_spec [of "[]" w] by (simp add: mv_printw_def)

theorem printw_prints_all_witness:
  "concat (mv_printw [0x41, 0x42]) = concat (map mv_utf8_encode (wide_points [0x41, 0x42]))"
  using printw_prints_all [of "[0x41, 0x42]"] by simp

end
