(* ===== verification/Mv_Time.thy ===== *)
theory Mv_Time
  imports Mv_Prelude
begin

text \<open>
  \<^verbatim>\<open>c/rt/time.c\<close>: the civil calendar, broken-down time, \<open>mktime\<close>, \<open>difftime\<close> and \<open>strftime\<close>.
  \<^verbatim>\<open>i32\<close> values are integers; \<open>wrap32\<close> marks the additions and products that can leave the range,
  and \<open>cdiv\<close>/\<open>cmod\<close> are C's truncating division. The clock and the Sett are parameters: the
  seconds \<^verbatim>\<open>SYS_CLOCK_GETTIME\<close> reports and the text of the time-zone key, None for a failed call.
\<close>

definition wrap32 :: "int \<Rightarrow> int" where
  "wrap32 x = sint (word_of_int x :: u32)"

section \<open>The clock and the zone\<close>

definition time_now :: "int option \<Rightarrow> int" where
  "time_now clock = (case clock of None \<Rightarrow> 0 | Some s \<Rightarrow> s)"

fun tz_digits :: "u8 list \<Rightarrow> int \<Rightarrow> int" where
  "tz_digits [] v = v"
| "tz_digits (b # bs) v = (if 48 \<le> b \<and> b \<le> 57 then tz_digits bs (wrap32 (v * 10 + (uc b - 48))) else v)"

definition tz_parse :: "u8 list \<Rightarrow> int" where
  "tz_parse txt =
     (let p = dropWhile (\<lambda>b. b = 32) txt;
          (sign, p) = (if p \<noteq> [] \<and> hd p = 45 then (- 1, tl p)
                       else if p \<noteq> [] \<and> hd p = 43 then (1, tl p) else (1, p))
      in if p = [] \<or> hd p < 48 \<or> hd p > 57 then 0 else wrap32 (sign * tz_digits p 0))"

text \<open>The buffer has 32 bytes: the text is cut to 31.\<close>

definition tz_offset_minutes :: "u8 list option \<Rightarrow> int" where
  "tz_offset_minutes sett = (case sett of None \<Rightarrow> 0 | Some txt \<Rightarrow> tz_parse (take 31 txt))"

section \<open>The civil calendar\<close>

definition days_from_civil :: "int \<Rightarrow> int \<Rightarrow> int \<Rightarrow> int" where
  "days_from_civil y0 m d =
     (let y = y0 - (if m \<le> 2 then 1 else 0);
          era = cdiv (if y \<ge> 0 then y else y - 399) 400;
          yoe = y - era * 400;
          doy = cdiv (153 * (m + (if m > 2 then - 3 else 9)) + 2) 5 + d - 1;
          doe = yoe * 365 + yoe div 4 - yoe div 100 + doy
      in wrap32 (era * 146097 + doe - 719468))"

definition civil_from_days :: "int \<Rightarrow> int \<times> int \<times> int" where
  "civil_from_days z0 =
     (let z = z0 + 719468;
          era = cdiv (if z \<ge> 0 then z else z - 146096) 146097;
          doe = z - era * 146097;
          yoe = (doe - doe div 1460 + doe div 36524 - doe div 146096) div 365;
          y = yoe + era * 400;
          doy = doe - (365 * yoe + yoe div 4 - yoe div 100);
          mp = (5 * doy + 2) div 153;
          day = doy - (153 * mp + 2) div 5 + 1;
          month = (if mp < 10 then mp + 3 else mp - 9)
      in (y + (if month \<le> 2 then 1 else 0), month, day))"

record tm =
  tm_sec :: int
  tm_min :: int
  tm_hour :: int
  tm_mday :: int
  tm_mon :: int
  tm_year :: int
  tm_wday :: int
  tm_yday :: int
  tm_isdst :: int

definition fill_tm :: "int \<Rightarrow> tm" where
  "fill_tm secs =
     (let days0 = cdiv secs 86400; rem0 = cmod secs 86400;
          (days, rem) = (if rem0 < 0 then (days0 - 1, rem0 + 86400) else (days0, rem0));
          (year, month, day) = civil_from_days days
      in \<lparr>tm_sec = cmod rem 60, tm_min = cdiv (cmod rem 3600) 60, tm_hour = cdiv rem 3600,
          tm_mday = day, tm_mon = month - 1, tm_year = year - 1900,
          tm_wday = cmod (cmod days 7 + 11) 7, tm_yday = days - days_from_civil year 1 1,
          tm_isdst = 0\<rparr>)"

definition gmtime :: "int option \<Rightarrow> tm" where
  "gmtime t = fill_tm (case t of None \<Rightarrow> 0 | Some s \<Rightarrow> s)"

definition localtime :: "u8 list option \<Rightarrow> int option \<Rightarrow> tm" where
  "localtime sett t =
     fill_tm (wrap32 ((case t of None \<Rightarrow> 0 | Some s \<Rightarrow> s) + tz_offset_minutes sett * 60))"

text \<open>The result and the normalised structure.\<close>

definition mktime :: "u8 list option \<Rightarrow> tm \<Rightarrow> int \<times> tm" where
  "mktime sett t =
     (let days = days_from_civil (tm_year t + 1900) (tm_mon t + 1) (tm_mday t);
          secs = wrap32 (wrap32 (days * 86400 + tm_hour t * 3600 + tm_min t * 60 + tm_sec t) -
                   tz_offset_minutes sett * 60)
      in (secs, fill_tm (wrap32 (secs + tz_offset_minutes sett * 60))))"

definition difftime :: "int \<Rightarrow> int \<Rightarrow> int" where
  "difftime a b =
     (let d = a - b in if d > 2147483647 then 2147483647 else if d < - 2147483648 then - 2147483648 else d)"

section \<open>strftime\<close>

definition day_name :: "string list" where
  "day_name = [''Sun'', ''Mon'', ''Tue'', ''Wed'', ''Thu'', ''Fri'', ''Sat'']"

definition day_full :: "string list" where
  "day_full = [''Sunday'', ''Monday'', ''Tuesday'', ''Wednesday'', ''Thursday'', ''Friday'', ''Saturday'']"

definition mon_name :: "string list" where
  "mon_name = [''Jan'', ''Feb'', ''Mar'', ''Apr'', ''May'', ''Jun'', ''Jul'', ''Aug'', ''Sep'', ''Oct'',
     ''Nov'', ''Dec'']"

definition mon_full :: "string list" where
  "mon_full = [''January'', ''February'', ''March'', ''April'', ''May'', ''June'', ''July'', ''August'',
     ''September'', ''October'', ''November'', ''December'']"

record out =
  obuf :: "u8 list"
  osize :: nat
  overflow :: bool

definition put_ch :: "u8 \<Rightarrow> out \<Rightarrow> out" where
  "put_ch c out =
     (if length (obuf out) + 1 \<ge> osize out then out\<lparr>overflow := True\<rparr>
      else out\<lparr>obuf := obuf out @ [c]\<rparr>)"

definition put_text :: "u8 list \<Rightarrow> out \<Rightarrow> out" where
  "put_text s out = fold put_ch s out"

text \<open>The digits of a value, last first, at most \<open>n\<close> of them.\<close>

fun num_digits :: "nat \<Rightarrow> int \<Rightarrow> u8 list" where
  "num_digits 0 v = []"
| "num_digits (Suc n) v =
     word_of_int (48 + cmod v 10) # (if cdiv v 10 \<noteq> 0 then num_digits n (cdiv v 10) else [])"

definition put_num :: "int \<Rightarrow> nat \<Rightarrow> u8 \<Rightarrow> out \<Rightarrow> out" where
  "put_num v width pad out =
     (let (v, out) = (if v < 0 then (wrap32 (- v), put_ch 45 out) else (v, out));
          digits = num_digits 12 v;
          out = put_text (replicate (width - length digits) pad) out
      in put_text (rev digits) out)"

definition put_zone :: "u8 list option \<Rightarrow> out \<Rightarrow> out" where
  "put_zone sett out =
     (let minutes = tz_offset_minutes sett; mag = (if minutes < 0 then wrap32 (- minutes) else minutes)
      in put_num (cmod mag 60) 2 48 (put_ch 58 (put_num (cdiv mag 60) 2 48
           (put_ch (if minutes < 0 then 45 else 43) (put_text (bytes ''UTC'') out)))))"

text \<open>One conversion. The tables are indexed modulo their length; a negative remainder is outside
  the table, and the model then yields no text.\<close>

definition table :: "string list \<Rightarrow> int \<Rightarrow> u8 list" where
  "table names i = (if 0 \<le> i \<and> nat i < length names then bytes (names ! nat i) else [])"

definition put_field :: "u8 list option \<Rightarrow> tm \<Rightarrow> u8 \<Rightarrow> out \<Rightarrow> out" where
  "put_field sett t c out =
     (if c = ch CHR ''Y'' then put_num (tm_year t + 1900) 4 48 out
      else if c = ch CHR ''y'' then put_num (cmod (tm_year t + 1900) 100) 2 48 out
      else if c = ch CHR ''m'' then put_num (tm_mon t + 1) 2 48 out
      else if c = ch CHR ''d'' then put_num (tm_mday t) 2 48 out
      else if c = ch CHR ''e'' then put_num (tm_mday t) 2 32 out
      else if c = ch CHR ''H'' then put_num (tm_hour t) 2 48 out
      else if c = ch CHR ''I'' then
        (let h = cmod (tm_hour t) 12 in put_num (if h = 0 then 12 else h) 2 48 out)
      else if c = ch CHR ''M'' then put_num (tm_min t) 2 48 out
      else if c = ch CHR ''S'' then put_num (tm_sec t) 2 48 out
      else if c = ch CHR ''j'' then put_num (tm_yday t + 1) 3 48 out
      else if c = ch CHR ''a'' then put_text (table day_name (cmod (tm_wday t) 7)) out
      else if c = ch CHR ''A'' then put_text (table day_full (cmod (tm_wday t) 7)) out
      else if c = ch CHR ''b'' then put_text (table mon_name (cmod (tm_mon t) 12)) out
      else if c = ch CHR ''B'' then put_text (table mon_full (cmod (tm_mon t) 12)) out
      else if c = ch CHR ''p'' then put_text (bytes (if tm_hour t < 12 then ''AM'' else ''PM'')) out
      else if c = ch CHR ''Z'' then put_zone sett out
      else put_ch c out)"

fun strftime_loop :: "u8 list option \<Rightarrow> tm \<Rightarrow> u8 list \<Rightarrow> out \<Rightarrow> out" where
  "strftime_loop sett t [] out = out"
| "strftime_loop sett t [c] out = put_ch c out"
| "strftime_loop sett t (c # d # fmt) out =
     (if c \<noteq> 37 then strftime_loop sett t (d # fmt) (put_ch c out)
      else strftime_loop sett t fmt (put_field sett t d out))"

text \<open>The text left in the buffer before the NUL, and the value returned.\<close>

definition strftime :: "u8 list option \<Rightarrow> nat \<Rightarrow> u8 list \<Rightarrow> tm \<Rightarrow> u8 list \<times> nat" where
  "strftime sett sz fmt t =
     (if sz = 0 then ([], 0)
      else (let out = strftime_loop sett t fmt \<lparr>obuf = [], osize = sz, overflow = False\<rparr>
            in (obuf out, if overflow out then 0 else length (obuf out))))"

section \<open>The calendar against a reference\<close>

text \<open>Days before March 1st of a year of the 400-year era, and the estimate the code divides by 365.\<close>

definition year_start :: "int \<Rightarrow> int" where
  "year_start y = 365 * y + y div 4 - y div 100"

definition year_est :: "int \<Rightarrow> int" where
  "year_est doe = doe - doe div 1460 + doe div 36524 - doe div 146096"

definition year_end :: "int \<Rightarrow> int" where
  "year_end y = (if y = 399 then 146096 else year_start (y + 1) - 1)"

lemma sub_div_mono:
  fixes a b k :: int
  assumes "a \<le> b" "0 < k"
  shows "a - a div k \<le> b - b div k"
proof -
  have "(b - a) * 1 \<le> (b - a) * k" using assms by (intro mult_left_mono) simp_all
  then have "b div k \<le> (a + (b - a) * k) div k" using assms by (intro zdiv_mono1) simp_all
  also have "\<dots> = a div k + (b - a)" using assms by simp
  finally show ?thesis by simp
qed

lemma year_est_mono: "a \<le> b \<Longrightarrow> year_est a \<le> year_est b"
proof -
  assume ab: "a \<le> b"
  have q: "x div 146096 = x div 36524 div 4" for x :: int
    using zdiv_zmult2_eq [of 4 x 36524] by simp
  have "a div 36524 - a div 36524 div 4 \<le> b div 36524 - b div 36524 div 4"
    by (rule sub_div_mono) (use ab in \<open>simp_all add: zdiv_mono1\<close>)
  moreover have "a - a div 1460 \<le> b - b div 1460" using ab by (rule sub_div_mono) simp
  ultimately show ?thesis by (simp add: year_est_def q)
qed

lemma year_est_ends:
  "list_all (\<lambda>y. 365 * y \<le> year_est (year_start y) \<and> year_est (year_end y) < 365 * (y + 1)) [0..399]"
  by code_simp

lemma year_of_day:
  assumes y: "0 \<le> y" "y \<le> 399" and d: "year_start y \<le> doe" "doe \<le> year_end y"
  shows "year_est doe div 365 = y"
proof -
  have "365 * y \<le> year_est (year_start y)" "year_est (year_end y) < 365 * (y + 1)"
    using year_est_ends y by (auto simp: list_all_iff)
  with year_est_mono [OF d(1)] year_est_mono [OF d(2)]
  have "365 * y \<le> year_est doe" "year_est doe < 365 * (y + 1)" by linarith+
  then show ?thesis by (intro int_div_pos_eq [of _ _ _ "year_est doe - 365 * y"]) simp_all
qed

lemma year_exists:
  assumes "0 \<le> doe" "doe \<le> 146096"
  obtains y where "0 \<le> y" "y \<le> 399" "year_start y \<le> doe" "doe \<le> year_end y"
proof -
  have "\<exists>y. 0 \<le> y \<and> y \<le> int n \<and> year_start y \<le> doe \<and> doe \<le> year_end y"
    if "n \<le> 399" "doe \<le> year_end (int n)" for n
    using that
  proof (induction n)
    case 0
    then show ?case using assms by (intro exI [of _ 0]) (simp add: year_start_def year_end_def)
  next
    case (Suc n)
    show ?case
    proof (cases "year_start (int (Suc n)) \<le> doe")
      case True
      then show ?thesis using Suc.prems by (intro exI [of _ "int (Suc n)"]) simp
    next
      case False
      then have "doe \<le> year_end (int n)" using Suc.prems by (simp add: year_end_def add.commute)
      then show ?thesis using Suc by force
    qed
  qed
  from this [of 399] that assms show ?thesis by (auto simp: year_end_def)
qed


lemma floor_cdiv: "0 < k \<Longrightarrow> cdiv (if a \<ge> 0 then a else a - (k - 1)) k = a div k"
proof -
  assume k: "0 < k"
  have "cdiv (a - (k - 1)) k = a div k" if "a < 0"
  proof -
    have "(- (a - (k - 1))) div k = - (a div k)"
    proof (rule int_div_pos_eq)
      show "- (a - (k - 1)) = k * (- (a div k)) + (k - 1 - a mod k)"
        using div_mult_mod_eq [of a k] by (simp add: algebra_simps)
      show "0 \<le> k - 1 - a mod k" "k - 1 - a mod k < k" using k pos_mod_bound [of k a] pos_mod_sign [of k a] by linarith+
    qed
    then show ?thesis using that k by (simp add: cdiv_neg)
  qed
  then show ?thesis using k by simp
qed

lemma floor_400: "cdiv (if a \<ge> 0 then a else a - 399) 400 = a div 400"
  using floor_cdiv [of 400 a] by (simp split: if_splits)

lemma floor_era: "cdiv (if a \<ge> 0 then a else a - 146096) 146097 = a div 146097"
  using floor_cdiv [of 146097 a] by (simp split: if_splits)

text \<open>The reference calendar: leap years, the length of a month, valid dates, the next day.\<close>

definition leap :: "int \<Rightarrow> bool" where
  "leap y \<longleftrightarrow> y mod 4 = 0 \<and> (y mod 100 \<noteq> 0 \<or> y mod 400 = 0)"

definition month_days :: "int \<Rightarrow> int \<Rightarrow> int" where
  "month_days y m = (if m = 2 then (if leap y then 29 else 28) else if m \<in> {4, 6, 9, 11} then 30 else 31)"

definition valid_date :: "int \<times> int \<times> int \<Rightarrow> bool" where
  "valid_date = (\<lambda>(y, m, d). 1 \<le> m \<and> m \<le> 12 \<and> 1 \<le> d \<and> d \<le> month_days y m)"

definition next_day :: "int \<times> int \<times> int \<Rightarrow> int \<times> int \<times> int" where
  "next_day = (\<lambda>(y, m, d). if d < month_days y m then (y, m, d + 1)
     else if m < 12 then (y, m + 1, 1) else (y + 1, 1, 1))"

text \<open>Days before March 1st of any year, and the days of a March-based year before a month.\<close>

definition march_start :: "int \<Rightarrow> int" where
  "march_start y = 365 * y + y div 4 - y div 100 + y div 400"

definition month_start :: "int \<Rightarrow> int" where
  "month_start m = (153 * (m + (if m > 2 then - 3 else 9)) + 2) div 5"

lemma march_start_era:
  "march_start y = y div 400 * 146097 + year_start (y mod 400)"
proof -
  have y: "y = 400 * (y div 400) + y mod 400" by simp
  have "((100 * (y div 400)) * 4 + y mod 400) div 4 = 100 * (y div 400) + y mod 400 div 4"
    "((4 * (y div 400)) * 100 + y mod 400) div 100 = 4 * (y div 400) + y mod 400 div 100"
    by (rule div_mult_self3; simp)+
  then have "y div 4 = 100 * (y div 400) + y mod 400 div 4" "y div 100 = 4 * (y div 400) + y mod 400 div 100"
    using y by simp_all
  then have "march_start y = 365 * y + (100 * (y div 400) + y mod 400 div 4) -
      (4 * (y div 400) + y mod 400 div 100) + y div 400"
    unfolding march_start_def by (simp only:)
  also have "365 * y = 146000 * (y div 400) + 365 * (y mod 400)" using y by linarith
  finally show ?thesis by (simp add: year_start_def)
qed

lemma leap_div: "(y :: int) div k - (y - 1) div k = (if y mod k = 0 then 1 else 0)" if "0 < k"
proof (cases "y mod k = 0")
  case True
  then obtain q where q: "y = k * q" by blast
  have "(k * q - 1) div k = q - 1"
    by (rule int_div_pos_eq [of _ _ _ "k - 1"]) (use that in \<open>simp_all add: algebra_simps\<close>)
  then show ?thesis using True that q by simp
next
  case False
  have nz: "1 \<le> y mod k" "y mod k < 1 + k" using False pos_mod_sign [of k y] pos_mod_bound [of k y] that by linarith+
  have "(y - 1) div k = y div k"
    by (rule int_div_pos_eq [of _ _ _ "y mod k - 1"])
      (use nz that in \<open>simp_all add: algebra_simps\<close>)
  then show ?thesis using False by simp
qed

lemma leap_count:
  fixes y a b c a' b' c' :: int
  assumes "a - a' = (if p then 1 else 0)" "b - b' = (if q then 1 else 0)" "c - c' = (if r then 1 else 0)"
    and "r \<Longrightarrow> q" "q \<Longrightarrow> p"
  shows "365 * y + a - b + c = 365 * (y - 1) + a' - b' + c' + (if p \<and> (\<not> q \<or> r) then 366 else 365)"
  using assms by (auto split: if_splits)

lemma march_start_leap: "march_start y = march_start (y - 1) + (if leap y then 366 else 365)"
  unfolding march_start_def leap_def
proof (rule leap_count; (rule leap_div)?)
  show "y mod 400 = 0 \<Longrightarrow> y mod 100 = 0" "y mod 100 = 0 \<Longrightarrow> y mod 4 = 0"
    using mod_mod_cancel [of 100 400 y] mod_mod_cancel [of 4 100 y] by auto
qed simp_all

lemma succ_div_400:
  fixes y :: int
  shows "(y + 1) div 400 = y div 400 + (if y mod 400 = 399 then 1 else 0)"
    "(y + 1) mod 400 = (if y mod 400 = 399 then 0 else y mod 400 + 1)"
proof -
  define q r where "q = y div 400" and "r = y mod 400"
  have y: "y = 400 * q + r" and r: "0 \<le> r" "r < 400" by (simp_all add: q_def r_def)
  have "(y + 1) div 400 = q + (if r = 399 then 1 else 0)"
    by (rule int_div_pos_eq [of _ _ _ "if r = 399 then 0 else r + 1"]) (use y r in auto)
  then show "(y + 1) div 400 = y div 400 + (if y mod 400 = 399 then 1 else 0)" unfolding q_def r_def .
  have "(y + 1) mod 400 = (if r = 399 then 0 else r + 1)"
    by (rule int_mod_pos_eq [of _ _ "q + (if r = 399 then 1 else 0)"]) (use y r in auto)
  then show "(y + 1) mod 400 = (if y mod 400 = 399 then 0 else y mod 400 + 1)" unfolding r_def .
qed

lemma year_end_march: "year_end (y mod 400) + 1 - year_start (y mod 400) = (if leap (y + 1) then 366 else 365)"
proof -
  have "march_start (y + 1) = march_start y + (if leap (y + 1) then 366 else 365)"
    using march_start_leap [of "y + 1"] by simp
  moreover have "march_start (y + 1) = y div 400 * 146097 + year_end (y mod 400) + 1"
  proof (cases "y mod 400 = 399")
    case True
    have "(y + 1) div 400 = y div 400 + 1" "(y + 1) mod 400 = 0"
      using succ_div_400 [of y] True by simp_all
    then show ?thesis using True by (simp add: march_start_era year_end_def) (simp add: year_start_def)
  next
    case False
    have "(y + 1) div 400 = y div 400" "(y + 1) mod 400 = y mod 400 + 1"
      using succ_div_400 [of y] False by simp_all
    then show ?thesis using False by (simp add: march_start_era year_end_def)
  qed
  ultimately show ?thesis by (simp add: march_start_era)
qed


lemma days_from_civil_eq:
  assumes "1 \<le> m" "m \<le> 12"
  shows "days_from_civil y m d =
    wrap32 (march_start (y - (if m \<le> 2 then 1 else 0)) + month_start m + d - 1 - 719468)"
proof -
  define y' where "y' = y - (if m \<le> 2 then 1 else 0)"
  have e: "cdiv (if y' \<ge> 0 then y' else y' - 399) 400 = y' div 400" by (rule floor_400)
  have o: "y' - y' div 400 * 400 = y' mod 400" by (simp add: minus_div_mult_eq_mod)
  have c: "cdiv (153 * (m + (if m > 2 then - 3 else 9)) + 2) 5 = month_start m"
    unfolding month_start_def by (rule cdiv_nonneg) (use assms in auto)
  show ?thesis unfolding days_from_civil_def Let_def y'_def [symmetric] e o c march_start_era
    by (simp add: year_start_def mult.commute)
qed

definition march_month :: "int \<Rightarrow> int" where
  "march_month doy = (let mp = (5 * doy + 2) div 153 in if mp < 10 then mp + 3 else mp - 9)"

definition march_mday :: "int \<Rightarrow> int" where
  "march_mday doy = doy - (153 * ((5 * doy + 2) div 153) + 2) div 5 + 1"

lemma march_table:
  "list_all (\<lambda>doy. let m = march_month doy; d = march_mday doy
     in 1 \<le> m \<and> m \<le> 12 \<and> 1 \<le> d \<and> month_start m + d - 1 = doy \<and>
        d \<le> (if m = 2 then 29 else if m \<in> {4, 6, 9, 11} then 30 else 31) \<and>
        (doy < 365 \<longleftrightarrow> \<not> (m = 2 \<and> d = 29))) [0..365]"
  by code_simp

lemma month_table:
  "list_all (\<lambda>m. list_all (\<lambda>d. d \<le> (if m = 2 then 29 else if m \<in> {4, 6, 9, 11} then 30 else 31) \<longrightarrow>
     march_month (month_start m + d - 1) = m \<and> march_mday (month_start m + d - 1) = d \<and>
     0 \<le> month_start m + d - 1 \<and> (month_start m + d - 1 < (if m = 2 \<and> d = 29 then 366 else 365))) [1..31]) [1..12]"
  by code_simp

lemma civil_from_days_march:
  assumes doy: "0 \<le> doy" "doy < (if leap (y + 1) then 366 else 365)"
  shows "civil_from_days (march_start y + doy - 719468) =
    (y + (if march_month doy \<le> 2 then 1 else 0), march_month doy, march_mday doy)"
proof -
  define k where "k = y mod 400"
  define z where "z = march_start y + doy"
  have k: "0 \<le> k" "k \<le> 399" unfolding k_def using pos_mod_bound [of 400 y] by simp_all
  have hi: "year_start k + doy \<le> year_end k" using year_end_march [of y] doy unfolding k_def by linarith
  have lo: "0 \<le> year_start k" using k unfolding year_start_def by linarith
  have le: "year_end k \<le> 146096"
  proof -
    have "list_all (\<lambda>k. year_end k \<le> 146096) [0..399]" by code_simp
    with k show ?thesis by (auto simp: list_all_iff)
  qed
  have z: "z = 146097 * (y div 400) + (year_start k + doy)" unfolding z_def k_def march_start_era by simp
  have era: "z div 146097 = y div 400"
    by (rule int_div_pos_eq [OF z]) (use lo hi le doy in linarith)+
  have e: "cdiv (if z \<ge> 0 then z else z - 146096) 146097 = y div 400" using floor_era [of z] era by simp
  have doe: "z - y div 400 * 146097 = year_start k + doy" using z by simp
  have yoe: "year_est (year_start k + doy) div 365 = k"
    by (rule year_of_day [OF k _ hi]) (use doy in simp)
  have zz: "march_start y + doy - 719468 + 719468 = z" by (simp add: z_def)
  have yy: "k + y div 400 * 400 = y" unfolding k_def by simp
  have dd: "year_start k + doy - (365 * k + k div 4 - k div 100) = doy" by (simp add: year_start_def)
  show ?thesis
    unfolding civil_from_days_def Let_def zz e doe year_est_def [symmetric] yoe yy dd
    by (simp add: march_month_def march_mday_def Let_def)
qed

lemma march_exists:
  obtains y doy where "z = march_start y + doy - 719468" "0 \<le> doy" "doy < (if leap (y + 1) then 366 else 365)"
proof -
  define e where "e = (z + 719468) div 146097"
  define doe where "doe = (z + 719468) mod 146097"
  have r: "0 \<le> doe" "doe \<le> 146096" unfolding doe_def using pos_mod_bound [of 146097 "z + 719468"] by simp_all
  then obtain k where k: "0 \<le> k" "k \<le> 399" "year_start k \<le> doe" "doe \<le> year_end k" by (rule year_exists)
  define y where "y = 400 * e + k"
  have ym: "y mod 400 = k" "y div 400 = e" unfolding y_def using k by simp_all
  have "z = march_start y + (doe - year_start k) - 719468"
    unfolding march_start_era ym e_def doe_def by simp
  moreover have "doe - year_start k < (if leap (y + 1) then 366 else 365)"
    using year_end_march [of y] k unfolding ym by linarith
  ultimately show ?thesis using that k by simp
qed


lemma wrap32_id: "- 2147483648 \<le> x \<Longrightarrow> x \<le> 2147483647 \<Longrightarrow> wrap32 x = x"
  unfolding wrap32_def by (simp add: signed_of_int signed_take_bit_int_eq_self)

lemma wrap32_cong: "wrap32 (wrap32 x + y) = wrap32 (x + y)" "wrap32 (wrap32 x - y) = wrap32 (x - y)"
  unfolding wrap32_def by (simp_all add: wi_hom_syms)

lemma wrap32_range: "- 2147483648 \<le> wrap32 x" "wrap32 x \<le> 2147483647"
  unfolding wrap32_def using sint_ge [of "word_of_int x :: u32"] sint_lt [of "word_of_int x :: u32"] by simp_all

lemma march_tables:
  assumes "0 \<le> doy" "doy < (if leap (y + 1) then 366 else 365)"
  defines "m \<equiv> march_month doy" and "d \<equiv> march_mday doy"
  shows "valid_date (y + (if m \<le> 2 then 1 else 0), m, d) \<and> month_start m + d - 1 = doy"
proof -
  have "doy \<in> set [0..365]" using assms(1,2) by (auto split: if_splits)
  then have t: "1 \<le> m \<and> m \<le> 12 \<and> 1 \<le> d \<and> month_start m + d - 1 = doy \<and>
        d \<le> (if m = 2 then 29 else if m \<in> {4, 6, 9, 11} then 30 else 31) \<and>
        (doy < 365 \<longleftrightarrow> \<not> (m = 2 \<and> d = 29))"
    using march_table unfolding m_def d_def by (simp add: list_all_iff Let_def)
  then show ?thesis using assms(2) by (auto simp: valid_date_def month_days_def split: if_splits)
qed

lemma civil_valid: "valid_date (civil_from_days z)"
proof -
  obtain y doy where z: "z = march_start y + doy - 719468" "0 \<le> doy" "doy < (if leap (y + 1) then 366 else 365)"
    by (rule march_exists)
  then show ?thesis using civil_from_days_march [OF z(2,3)] march_tables [OF z(2,3)] by simp
qed

lemma days_civil: "(case civil_from_days z of (y, m, d) \<Rightarrow> days_from_civil y m d) = wrap32 z"
proof -
  obtain y doy where z: "z = march_start y + doy - 719468" "0 \<le> doy" "doy < (if leap (y + 1) then 366 else 365)"
    by (rule march_exists)
  have t: "valid_date (y + (if march_month doy \<le> 2 then 1 else 0), march_month doy, march_mday doy)"
    "month_start (march_month doy) + march_mday doy - 1 = doy"
    using march_tables [OF z(2,3)] by simp_all
  have y: "y + (if march_month doy \<le> 2 then 1 else 0) - (if march_month doy \<le> 2 then 1 else 0) = y" by simp
  have "days_from_civil (y + (if march_month doy \<le> 2 then 1 else 0)) (march_month doy) (march_mday doy) =
      wrap32 (march_start y + month_start (march_month doy) + march_mday doy - 1 - 719468)"
    using days_from_civil_eq [of "march_month doy" "y + (if march_month doy \<le> 2 then 1 else 0)" "march_mday doy"]
      t(1) unfolding y by (simp add: valid_date_def)
  also have "march_start y + month_start (march_month doy) + march_mday doy - 1 - 719468 = z"
    using t(2) z(1) by linarith
  finally show ?thesis using civil_from_days_march [OF z(2,3)] z(1) by simp
qed

text \<open>The day number of a valid date, without the wrap-around of the code.\<close>

definition day_number :: "int \<times> int \<times> int \<Rightarrow> int" where
  "day_number = (\<lambda>(y, m, d). march_start (y - (if m \<le> 2 then 1 else 0)) + month_start m + d - 1 - 719468)"

lemma days_from_civil_number:
  "valid_date (y, m, d) \<Longrightarrow> days_from_civil y m d = wrap32 (day_number (y, m, d))"
  using days_from_civil_eq [of m y d] by (simp add: valid_date_def day_number_def)

lemma civil_of_number:
  assumes "valid_date (y, m, d)"
  shows "civil_from_days (day_number (y, m, d)) = (y, m, d)"
proof -
  define y' where "y' = y - (if m \<le> 2 then 1 else 0)"
  define doy where "doy = month_start m + d - 1"
  have md: "d \<le> (if m = 2 then 29 else if m \<in> {4, 6, 9, 11} then 30 else 31)" "1 \<le> d" "1 \<le> m" "m \<le> 12"
    "m = 2 \<Longrightarrow> d = 29 \<Longrightarrow> leap y"
    using assms by (auto simp: valid_date_def month_days_def split: if_splits)
  have "m \<in> set [1..12]" "d \<in> set [1..31]" using md by (auto split: if_splits)
  then have t: "march_month doy = m" "march_mday doy = d" "0 \<le> doy" "doy < (if m = 2 \<and> d = 29 then 366 else 365)"
    using month_table md(1) unfolding doy_def list_all_iff by blast+
  have lt: "doy < (if leap (y' + 1) then 366 else 365)" using t(4) md(5) by (auto simp: y'_def split: if_splits)
  have "day_number (y, m, d) = march_start y' + doy - 719468" by (simp add: day_number_def y'_def doy_def)
  then show ?thesis using civil_from_days_march [OF t(3) lt] t by (simp add: y'_def)
qed

lemma day_number_next:
  assumes "valid_date (y, m, d)"
  shows "valid_date (next_day (y, m, d)) \<and> day_number (next_day (y, m, d)) = day_number (y, m, d) + 1"
proof -
  have "1 \<le> m" "m \<le> 12" using assms by (simp_all add: valid_date_def)
  then have m: "m = 1 \<or> m = 2 \<or> m = 3 \<or> m = 4 \<or> m = 5 \<or> m = 6 \<or> m = 7 \<or> m = 8 \<or> m = 9 \<or> m = 10 \<or> m = 11 \<or> m = 12"
    by presburger
  show ?thesis
    using m assms march_start_leap [of y]
    by (elim disjE)
      (simp_all add: next_day_def month_days_def valid_date_def day_number_def month_start_def
        split: if_splits)
qed

lemma civil_next: "civil_from_days (z + 1) = next_day (civil_from_days z)"
proof -
  obtain y m d where c: "civil_from_days z = (y, m, d)" by (metis prod_cases3)
  have v: "valid_date (y, m, d)" using civil_valid [of z] c by simp
  obtain y' doy where z: "z = march_start y' + doy - 719468" "0 \<le> doy" "doy < (if leap (y' + 1) then 366 else 365)"
    by (rule march_exists)
  have "day_number (civil_from_days z) = z"
    using civil_from_days_march [OF z(2,3)] march_tables [OF z(2,3)] z(1) by (simp add: day_number_def)
  then have n: "day_number (y, m, d) = z" using c by simp
  obtain y2 m2 d2 where x: "next_day (y, m, d) = (y2, m2, d2)" by (metis prod_cases3)
  show ?thesis using day_number_next [OF v] n c x civil_of_number [of y2 m2 d2] by simp
qed

section \<open>Broken-down time\<close>

lemma floor_86400:
  "(let days0 = cdiv s 86400; rem0 = cmod s 86400
    in if rem0 < 0 then (days0 - 1, rem0 + 86400) else (days0, rem0)) = (s div 86400, s mod 86400)"
proof (cases "0 \<le> s")
  case True
  then show ?thesis by (simp add: Let_def not_less)
next
  case False
  define q r where "q = (- s) div 86400" and "r = (- s) mod 86400"
  have s: "s = - (86400 * q + r)" and r: "0 \<le> r" "r < 86400" by (simp_all add: q_def r_def)
  have c: "cdiv s 86400 = - q" "cmod s 86400 = - r" using False by (simp_all add: cdiv_neg cmod_neg q_def r_def)
  have d: "s div 86400 = (if r = 0 then - q else - q - 1)"
    by (rule int_div_pos_eq [of _ _ _ "if r = 0 then 0 else 86400 - r"]) (use s r in auto)
  have m: "s mod 86400 = (if r = 0 then 0 else 86400 - r)"
    by (rule int_mod_pos_eq [of _ _ "if r = 0 then - q else - q - 1"]) (use s r in auto)
  show ?thesis using r unfolding c d m by (auto simp: Let_def)
qed

lemma week_day: "cmod (cmod d 7 + 11) 7 = (d + 4) mod 7"
proof (cases "0 \<le> d")
  case True
  then have "cmod (cmod d 7 + 11) 7 = (d mod 7 + 11) mod 7" by simp
  also have "\<dots> = (d + 11) mod 7" by (rule mod_add_left_eq)
  finally show ?thesis using mod_add_self2 [of "d + 4" 7] by (simp add: add.assoc)
next
  case False
  then have "cmod d 7 = - ((- d) mod 7)" by (simp add: cmod_neg)
  moreover have "0 \<le> - ((- d) mod 7) + 11" using pos_mod_bound [of 7 "- d"] by linarith
  ultimately have "cmod (cmod d 7 + 11) 7 = (- ((- d) mod 7) + 11) mod 7" by simp
  also have "\<dots> = (- (- d) + 11) mod 7" by (metis mod_add_left_eq mod_minus_eq)
  finally show ?thesis using mod_add_self2 [of "d + 4" 7] by (simp add: add.assoc)
qed

lemma fill_tm_eq:
  "fill_tm s = (let days = s div 86400; rem = s mod 86400; (year, month, day) = civil_from_days days
    in \<lparr>tm_sec = rem mod 60, tm_min = rem mod 3600 div 60, tm_hour = rem div 3600, tm_mday = day,
        tm_mon = month - 1, tm_year = year - 1900, tm_wday = (days + 4) mod 7,
        tm_yday = days - days_from_civil year 1 1, tm_isdst = 0\<rparr>)"
proof -
  have r: "0 \<le> s mod 86400" "0 \<le> s mod 86400 mod 3600" by simp_all
  show ?thesis
    using floor_86400 [of s] r
    by (simp add: fill_tm_def Let_def week_day split: prod.splits if_splits)
qed

lemma day_seconds: "(r :: int) div 3600 * 3600 + r mod 3600 div 60 * 60 + r mod 60 = r"
proof -
  have "r mod 3600 mod 60 = r mod 60" by (rule mod_mod_cancel) simp
  then show ?thesis using div_mult_mod_eq [of r 3600] div_mult_mod_eq [of "r mod 3600" 60] by linarith
qed

lemma seconds_of_fill:
  assumes "- 2147483648 \<le> s" "s \<le> 2147483647"
  shows "days_from_civil (tm_year (fill_tm s) + 1900) (tm_mon (fill_tm s) + 1) (tm_mday (fill_tm s)) * 86400 +
    tm_hour (fill_tm s) * 3600 + tm_min (fill_tm s) * 60 + tm_sec (fill_tm s) = s"
proof -
  obtain y m d where c: "civil_from_days (s div 86400) = (y, m, d)" by (metis prod_cases3)
  have "- 24856 \<le> s div 86400" "s div 86400 \<le> 24855"
    using zdiv_mono1 [OF assms(1), of 86400] zdiv_mono1 [OF assms(2), of 86400] by simp_all
  then have "days_from_civil y m d = s div 86400"
    using days_civil [of "s div 86400"] c by (simp add: wrap32_id)
  then have "days_from_civil y m d * 86400 + (s mod 86400 div 3600 * 3600 +
      s mod 86400 mod 3600 div 60 * 60 + s mod 86400 mod 60) = s"
    using day_seconds [of "s mod 86400"] div_mult_mod_eq [of s 86400] by simp
  moreover have "tm_year (fill_tm s) + 1900 = y" "tm_mon (fill_tm s) + 1 = m" "tm_mday (fill_tm s) = d"
    "tm_hour (fill_tm s) = s mod 86400 div 3600" "tm_min (fill_tm s) = s mod 86400 mod 3600 div 60"
    "tm_sec (fill_tm s) = s mod 86400 mod 60"
    using c by (simp_all add: fill_tm_eq Let_def)
  ultimately show ?thesis by (simp only: add.assoc)
qed

lemma day_number_civil: "day_number (civil_from_days z) = z"
proof -
  obtain y doy where z: "z = march_start y + doy - 719468" "0 \<le> doy" "doy < (if leap (y + 1) then 366 else 365)"
    by (rule march_exists)
  then show ?thesis using civil_from_days_march [OF z(2,3)] march_tables [OF z(2,3)] by (simp add: day_number_def)
qed

lemma year_day_number:
  assumes "valid_date (y, m, d)"
  shows "0 \<le> day_number (y, m, d) - day_number (y, 1, 1) \<and>
    day_number (y, m, d) - day_number (y, 1, 1) < (if leap y then 366 else 365)"
proof -
  have "1 \<le> m" "m \<le> 12" using assms by (simp_all add: valid_date_def)
  then have m: "m = 1 \<or> m = 2 \<or> m = 3 \<or> m = 4 \<or> m = 5 \<or> m = 6 \<or> m = 7 \<or> m = 8 \<or> m = 9 \<or> m = 10 \<or> m = 11 \<or> m = 12"
    by presburger
  show ?thesis
    using m assms march_start_leap [of y]
    by (elim disjE) (simp_all add: month_days_def valid_date_def day_number_def month_start_def split: if_splits)
qed

lemma year_day:
  assumes c: "civil_from_days z = (y, m, d)" and z: "- 1000000 \<le> z" "z \<le> 1000000"
  shows "days_from_civil y 1 1 = day_number (y, 1, 1)" "0 \<le> z - day_number (y, 1, 1)"
    "z - day_number (y, 1, 1) < (if leap y then 366 else 365)"
proof -
  have v: "valid_date (y, m, d)" "day_number (y, m, d) = z"
    using civil_valid [of z] day_number_civil [of z] c by simp_all
  show b: "0 \<le> z - day_number (y, 1, 1)" "z - day_number (y, 1, 1) < (if leap y then 366 else 365)"
    using year_day_number [OF v(1)] v(2) by simp_all
  have "valid_date (y, 1, 1)" by (simp add: valid_date_def month_days_def)
  then have "days_from_civil y 1 1 = wrap32 (day_number (y, 1, 1))" by (rule days_from_civil_number)
  also have "\<dots> = day_number (y, 1, 1)" using b z by (intro wrap32_id) (auto split: if_splits)
  finally show "days_from_civil y 1 1 = day_number (y, 1, 1)" .
qed

lemma day_number_bound:
  assumes "valid_date (y, m, d)" "\<bar>y\<bar> \<le> 5000000"
  shows "- 2000000000 \<le> day_number (y, m, d)" "day_number (y, m, d) \<le> 2000000000"
proof -
  define y' where "y' = y - (if m \<le> 2 then 1 else 0)"
  have y': "- 5000001 \<le> y'" "y' \<le> 5000001" using assms(2) by (auto simp: y'_def)
  have q: "- 1250001 \<le> y' div 4" "y' div 4 \<le> 1250001" "- 50001 \<le> y' div 100" "y' div 100 \<le> 50001"
    "- 12501 \<le> y' div 400" "y' div 400 \<le> 12501"
    using zdiv_mono1 [OF y'(1), of 4] zdiv_mono1 [OF y'(2), of 4] zdiv_mono1 [OF y'(1), of 100]
      zdiv_mono1 [OF y'(2), of 100] zdiv_mono1 [OF y'(1), of 400] zdiv_mono1 [OF y'(2), of 400] by simp_all
  have m: "1 \<le> m" "m \<le> 12" "1 \<le> d" "d \<le> 31"
    using assms(1) by (auto simp: valid_date_def month_days_def split: if_splits)
  then have "0 \<le> 153 * (m + (if m > 2 then - 3 else 9)) + 2" "153 * (m + (if m > 2 then - 3 else 9)) + 2 \<le> 1700"
    by auto
  then have "0 \<le> month_start m" "month_start m \<le> 340"
    using zdiv_mono1 [of 0 "153 * (m + (if m > 2 then - 3 else 9)) + 2" 5]
      zdiv_mono1 [of "153 * (m + (if m > 2 then - 3 else 9)) + 2" 1700 5] by (simp_all add: month_start_def)
  moreover have "day_number (y, m, d) = 365 * y' + y' div 4 - y' div 100 + y' div 400 + month_start m + d - 1 - 719468"
    by (simp add: day_number_def march_start_def y'_def)
  ultimately show "- 2000000000 \<le> day_number (y, m, d)" "day_number (y, m, d) \<le> 2000000000"
    using q y' m by linarith+
qed

section \<open>The text of strftime\<close>

text \<open>The reference: decimal digits, the text of each conversion, the text of a format.\<close>

function dec :: "int \<Rightarrow> u8 list" where
  "dec v = (if v < 10 then [word_of_int (48 + v)] else dec (v div 10) @ [word_of_int (48 + v mod 10)])"
  by auto
termination by (relation "measure nat") (auto simp: nat_less_eq_zless)

declare dec.simps [simp del]

definition num_text :: "int \<Rightarrow> nat \<Rightarrow> u8 \<Rightarrow> u8 list" where
  "num_text v width pad =
     (if v < 0 then [45] else []) @ replicate (width - length (dec \<bar>v\<bar>)) pad @ dec \<bar>v\<bar>"

definition zone_text :: "int \<Rightarrow> u8 list" where
  "zone_text minutes = bytes ''UTC'' @ [if minutes < 0 then 45 else 43] @
     num_text (\<bar>minutes\<bar> div 60) 2 48 @ [58] @ num_text (\<bar>minutes\<bar> mod 60) 2 48"

definition field_text :: "int \<Rightarrow> tm \<Rightarrow> u8 \<Rightarrow> u8 list" where
  "field_text minutes t c =
     (if c = ch CHR ''Y'' then num_text (tm_year t + 1900) 4 48
      else if c = ch CHR ''y'' then num_text (cmod (tm_year t + 1900) 100) 2 48
      else if c = ch CHR ''m'' then num_text (tm_mon t + 1) 2 48
      else if c = ch CHR ''d'' then num_text (tm_mday t) 2 48
      else if c = ch CHR ''e'' then num_text (tm_mday t) 2 32
      else if c = ch CHR ''H'' then num_text (tm_hour t) 2 48
      else if c = ch CHR ''I'' then num_text (if cmod (tm_hour t) 12 = 0 then 12 else cmod (tm_hour t) 12) 2 48
      else if c = ch CHR ''M'' then num_text (tm_min t) 2 48
      else if c = ch CHR ''S'' then num_text (tm_sec t) 2 48
      else if c = ch CHR ''j'' then num_text (tm_yday t + 1) 3 48
      else if c = ch CHR ''a'' then table day_name (cmod (tm_wday t) 7)
      else if c = ch CHR ''A'' then table day_full (cmod (tm_wday t) 7)
      else if c = ch CHR ''b'' then table mon_name (cmod (tm_mon t) 12)
      else if c = ch CHR ''B'' then table mon_full (cmod (tm_mon t) 12)
      else if c = ch CHR ''p'' then bytes (if tm_hour t < 12 then ''AM'' else ''PM'')
      else if c = ch CHR ''Z'' then zone_text minutes
      else [c])"

fun format_text :: "int \<Rightarrow> tm \<Rightarrow> u8 list \<Rightarrow> u8 list" where
  "format_text minutes t [] = []"
| "format_text minutes t [c] = [c]"
| "format_text minutes t (c # d # fmt) =
     (if c \<noteq> 37 then c # format_text minutes t (d # fmt)
      else field_text minutes t d @ format_text minutes t fmt)"

text \<open>The fields a program can hand over without an index or a negation leaving its range.\<close>

definition tm_ok :: "tm \<Rightarrow> bool" where
  "tm_ok t \<longleftrightarrow> \<bar>tm_year t\<bar> \<le> 1000000000 \<and> 0 \<le> tm_mon t \<and> tm_mon t \<le> 1000000000 \<and>
     \<bar>tm_mday t\<bar> \<le> 1000000000 \<and> \<bar>tm_hour t\<bar> \<le> 1000000000 \<and> \<bar>tm_min t\<bar> \<le> 1000000000 \<and>
     \<bar>tm_sec t\<bar> \<le> 1000000000 \<and> 0 \<le> tm_wday t \<and> \<bar>tm_yday t\<bar> \<le> 1000000000"

text \<open>What the emitter holds after writing a text.\<close>

definition emit :: "u8 list \<Rightarrow> out \<Rightarrow> out" where
  "emit s out = out\<lparr>obuf := obuf out @ take (osize out - 1 - length (obuf out)) s,
     overflow := (overflow out \<or> length (obuf out) + length s \<ge> osize out \<and> s \<noteq> [])\<rparr>"

lemma put_text_emit: "0 < osize out \<Longrightarrow> put_text s out = emit s out"
proof (induction s arbitrary: out)
  case Nil
  then show ?case by (simp add: put_text_def emit_def)
next
  case (Cons c s)
  have "put_text (c # s) out = put_text s (put_ch c out)" by (simp add: put_text_def)
  also have "\<dots> = emit s (put_ch c out)" by (rule Cons.IH) (use Cons.prems in \<open>simp add: put_ch_def\<close>)
  also have "\<dots> = emit (c # s) out"
  proof (cases "osize out \<le> Suc (length (obuf out))")
    case True
    then show ?thesis by (simp add: emit_def put_ch_def)
  next
    case False
    then have "osize out - Suc (length (obuf out)) = Suc (osize out - Suc (Suc (length (obuf out))))" by simp
    with False show ?thesis by (cases s) (simp_all add: emit_def put_ch_def)
  qed
  finally show ?case .
qed

lemma emit_emit: "0 < osize out \<Longrightarrow> emit t (emit s out) = emit (s @ t) out"
  using put_text_emit [of out s] put_text_emit [of out "s @ t"] put_text_emit [of "emit s out" t]
  by (simp add: put_text_def) (simp add: emit_def)

lemma osize_emit [simp]: "osize (emit s out) = osize out"
  by (simp add: emit_def)

lemma emit_Nil [simp]: "emit [] out = out"
  by (simp add: emit_def)

lemma put_ch_emit: "0 < osize out \<Longrightarrow> put_ch c out = emit [c] out"
  using put_text_emit [of out "[c]"] by (simp add: put_text_def)

lemma num_digits_dec:
  "0 \<le> v \<Longrightarrow> v < 10 ^ n \<Longrightarrow> 0 < n \<Longrightarrow> rev (num_digits n v) = dec v"
proof (induction n arbitrary: v)
  case (Suc n)
  show ?case
  proof (cases "v < 10")
    case True
    then show ?thesis using Suc.prems by (subst dec.simps) simp
  next
    case False
    then have "n \<noteq> 0" using Suc.prems by (intro notI) simp
    moreover have "v div 10 < 10 ^ n" using Suc.prems div_mult_mod_eq [of v 10] pos_mod_sign [of 10 v] by simp
    ultimately have "rev (num_digits n (v div 10)) = dec (v div 10)" using Suc by simp
    moreover have "v div 10 \<noteq> 0" using False Suc.prems zdiv_mono1 [of 10 v 10] by simp
    ultimately have "rev (num_digits n (v div 10)) = dec (v div 10)" "v div 10 \<noteq> 0" by simp_all
    then show ?thesis using False Suc.prems by (subst dec.simps) simp
  qed
qed simp

lemma put_num_emit:
  assumes "\<bar>v\<bar> \<le> 2147483647" "0 < osize out"
  shows "put_num v width pad out = emit (num_text v width pad) out"
proof -
  have d: "rev (num_digits 12 \<bar>v\<bar>) = dec \<bar>v\<bar>" using assms by (intro num_digits_dec) simp_all
  then have l: "length (num_digits 12 \<bar>v\<bar>) = length (dec \<bar>v\<bar>)" by (metis length_rev)
  have w: "wrap32 (- v) = \<bar>v\<bar>" if "v < 0" using that assms by (simp add: wrap32_id)
  show ?thesis
    using assms d l w
    by (auto simp: put_num_def num_text_def Let_def put_ch_emit put_text_emit emit_emit)
qed

lemma cmod_bound: "0 < k \<Longrightarrow> \<bar>cmod a k\<bar> < k"
  by (cases "0 \<le> a") (simp_all add: cmod_neg)

lemma put_zone_emit:
  assumes "\<bar>tz_offset_minutes sett\<bar> \<le> 2147483647" "0 < osize out"
  shows "put_zone sett out = emit (zone_text (tz_offset_minutes sett)) out"
proof -
  define n where "n = tz_offset_minutes sett"
  have w: "(if n < 0 then wrap32 (- n) else n) = \<bar>n\<bar>" using assms by (auto simp: wrap32_id n_def)
  have b: "\<bar>\<bar>n\<bar> div 60\<bar> \<le> 2147483647" "\<bar>\<bar>n\<bar> mod 60\<bar> \<le> 2147483647"
    using assms(1) zdiv_mono1 [of "\<bar>n\<bar>" 2147483647 60] pos_mod_bound [of 60 "\<bar>n\<bar>"]
    by (simp_all add: n_def pos_imp_zdiv_nonneg_iff)
  show ?thesis
    using assms(2) b
    by (simp add: put_zone_def zone_text_def Let_def n_def [symmetric] w put_num_emit put_ch_emit put_text_emit emit_emit)
qed

lemma if_emit: "(c \<Longrightarrow> a = emit x out) \<Longrightarrow> (\<not> c \<Longrightarrow> b = emit y out) \<Longrightarrow>
    (if c then a else b) = emit (if c then x else y) out"
  by simp

lemma put_field_emit:
  assumes "tm_ok t" "\<bar>tz_offset_minutes sett\<bar> \<le> 2147483647" "0 < osize out"
  shows "put_field sett t c out = emit (field_text (tz_offset_minutes sett) t c) out"
proof -
  have b: "\<bar>cmod (tm_year t + 1900) 100\<bar> \<le> 2147483647" "\<bar>cmod (tm_hour t) 12\<bar> \<le> 2147483647"
    using cmod_bound [of 100 "tm_year t + 1900"] cmod_bound [of 12 "tm_hour t"] by linarith+
  have r: "\<bar>tm_year t + 1900\<bar> \<le> 2147483647" "\<bar>tm_mon t + 1\<bar> \<le> 2147483647" "\<bar>tm_mday t\<bar> \<le> 2147483647"
    "\<bar>tm_hour t\<bar> \<le> 2147483647" "\<bar>tm_min t\<bar> \<le> 2147483647" "\<bar>tm_sec t\<bar> \<le> 2147483647" "\<bar>tm_yday t + 1\<bar> \<le> 2147483647"
    "\<bar>if cmod (tm_hour t) 12 = 0 then 12 else cmod (tm_hour t) 12\<bar> \<le> 2147483647"
    using assms(1) b by (auto simp: tm_ok_def)
  show ?thesis
    unfolding put_field_def field_text_def Let_def
    by (intro if_emit put_num_emit put_zone_emit put_ch_emit put_text_emit r b assms)
qed

lemma strftime_loop_emit:
  assumes "tm_ok t" "\<bar>tz_offset_minutes sett\<bar> \<le> 2147483647"
  shows "0 < osize out \<Longrightarrow> strftime_loop sett t fmt out = emit (format_text (tz_offset_minutes sett) t fmt) out"
proof (induction fmt arbitrary: out rule: induct_list012)
  case (3 c d fmt)
  then show ?case using assms by (auto simp: put_ch_emit put_field_emit emit_emit)
qed (use assms in \<open>auto simp: put_ch_emit\<close>)

text \<open>C14: The calendar is the Gregorian one: day 0 is 1970-01-01, the day after is the next calendar
  day by the month lengths and the leap rule, and the two conversions are inverse to each other.\<close>

theorem civil_calendar_correct:
  fixes z :: int
  assumes "- 2000000000 \<le> z" "z \<le> 2000000000"
  shows "civil_from_days 0 = (1970, 1, 1) \<and>
    civil_from_days (z + 1) = next_day (civil_from_days z) \<and>
    valid_date (civil_from_days z) \<and>
    (case civil_from_days z of (y, m, d) \<Rightarrow> days_from_civil y m d) = z \<and>
    (\<forall>y m d. valid_date (y, m, d) \<longrightarrow> days_from_civil y m d = z \<longrightarrow> \<bar>y\<bar> \<le> 5000000 \<longrightarrow>
       civil_from_days z = (y, m, d))"
proof (intro conjI allI impI)
  show "civil_from_days 0 = (1970, 1, 1)" by code_simp
  show "civil_from_days (z + 1) = next_day (civil_from_days z)" by (rule civil_next)
  show "valid_date (civil_from_days z)" by (rule civil_valid)
  show "(case civil_from_days z of (y, m, d) \<Rightarrow> days_from_civil y m d) = z"
    using days_civil [of z] assms by (simp add: wrap32_id)
  fix y m d
  assume v: "valid_date (y, m, d)" and e: "days_from_civil y m d = z" and b: "\<bar>y\<bar> \<le> 5000000"
  have "- 2147483648 \<le> day_number (y, m, d)" "day_number (y, m, d) \<le> 2147483647"
    using day_number_bound [OF v b] by simp_all
  then have "day_number (y, m, d) = z" using days_from_civil_number [OF v] e by (simp add: wrap32_id)
  then show "civil_from_days z = (y, m, d)" using civil_of_number [OF v] by simp
qed

theorem civil_calendar_correct_witness:
  "civil_from_days (19782 + 1) = (2024, 3, 1)"
proof -
  have "next_day (civil_from_days 19782) = (2024, 3, 1)" by code_simp
  then show ?thesis using civil_calendar_correct [of 19782] by simp
qed

text \<open>C15: \<open>mktime\<close> undoes \<open>localtime\<close>: for every 32-bit time and every zone setting the seconds come
  back and the structure is left as \<open>localtime\<close> filled it.\<close>

theorem mktime_localtime:
  assumes "- 2147483648 \<le> t" "t \<le> 2147483647"
  shows "mktime sett (localtime sett (Some t)) = (t, localtime sett (Some t))"
proof -
  define s where "s = wrap32 (t + tz_offset_minutes sett * 60)"
  have s: "- 2147483648 \<le> s" "s \<le> 2147483647" by (simp_all add: s_def wrap32_range)
  have b: "wrap32 (wrap32 s - tz_offset_minutes sett * 60) = t"
    using assms by (simp add: s_def wrap32_cong wrap32_id)
  show ?thesis
    unfolding mktime_def localtime_def option.case s_def [symmetric] Let_def seconds_of_fill [OF s] b
    by (simp add: s_def)
qed

theorem mktime_localtime_witness:
  "mktime (Some (bytes ''-330'')) (localtime (Some (bytes ''-330'')) (Some 1709210096)) =
     (1709210096, localtime (Some (bytes ''-330'')) (Some 1709210096))"
  using mktime_localtime [of 1709210096] by simp

text \<open>\<open>gmtime\<close> splits the seconds: the date of the day, the time of the day, the day of the week
  counted from a Thursday, and the day of the year, each in its range.\<close>

theorem gmtime_correct:
  assumes "- 2147483648 \<le> t" "t \<le> 2147483647"
  defines "tm \<equiv> gmtime (Some t)"
  shows "(tm_year tm + 1900, tm_mon tm + 1, tm_mday tm) = civil_from_days (t div 86400) \<and>
    tm_hour tm * 3600 + tm_min tm * 60 + tm_sec tm = t mod 86400 \<and>
    tm_hour tm \<in> {0..23} \<and> tm_min tm \<in> {0..59} \<and> tm_sec tm \<in> {0..59} \<and>
    tm_wday tm = (t div 86400 + 4) mod 7 \<and>
    tm_yday tm = t div 86400 - day_number (tm_year tm + 1900, 1, 1) \<and>
    tm_yday tm \<in> {0..<(if leap (tm_year tm + 1900) then 366 else 365)}"
proof (intro conjI)
  obtain y m d where c: "civil_from_days (t div 86400) = (y, m, d)" by (metis prod_cases3)
  have z: "- 1000000 \<le> t div 86400" "t div 86400 \<le> 1000000"
    using zdiv_mono1 [OF assms(1), of 86400] zdiv_mono1 [OF assms(2), of 86400] by simp_all
  have f: "tm = \<lparr>tm_sec = t mod 86400 mod 60, tm_min = t mod 86400 mod 3600 div 60, tm_hour = t mod 86400 div 3600,
      tm_mday = d, tm_mon = m - 1, tm_year = y - 1900, tm_wday = (t div 86400 + 4) mod 7,
      tm_yday = t div 86400 - day_number (y, 1, 1), tm_isdst = 0\<rparr>"
    using c year_day(1) [OF c z] by (simp add: tm_def gmtime_def fill_tm_eq Let_def)
  show "(tm_year tm + 1900, tm_mon tm + 1, tm_mday tm) = civil_from_days (t div 86400)"
    "tm_wday tm = (t div 86400 + 4) mod 7"
    "tm_yday tm = t div 86400 - day_number (tm_year tm + 1900, 1, 1)"
    "tm_yday tm \<in> {0..<(if leap (tm_year tm + 1900) then 366 else 365)}"
    using c year_day(2,3) [OF c z] by (simp_all add: f)
  show "tm_hour tm * 3600 + tm_min tm * 60 + tm_sec tm = t mod 86400" using day_seconds [of "t mod 86400"] by (simp add: f)
  have "t mod 86400 \<le> 86399" "t mod 86400 mod 3600 \<le> 3599"
    using pos_mod_bound [of 86400 t] pos_mod_bound [of 3600 "t mod 86400"] by simp_all
  then show "tm_hour tm \<in> {0..23}" "tm_min tm \<in> {0..59}"
    using zdiv_mono1 [of "t mod 86400" 86399 3600] zdiv_mono1 [of "t mod 86400 mod 3600" 3599 60]
    by (simp_all add: f pos_imp_zdiv_nonneg_iff)
  show "tm_sec tm \<in> {0..59}" using pos_mod_bound [of 60 "t mod 86400"] by (simp add: f)
qed

theorem gmtime_correct_witness:
  "tm_wday (gmtime (Some 1709210096)) = 4 \<and> tm_yday (gmtime (Some (- 1))) \<in> {0..<365}"
proof -
  have "\<not> leap (tm_year (gmtime (Some (- 1))) + 1900)" by code_simp
  then show ?thesis using gmtime_correct [of 1709210096] gmtime_correct [of "- 1"] by simp
qed

text \<open>C16: \<open>strftime\<close> writes the text of its format, cut to the buffer with room for the NUL, and
  returns its length when all of it fits and 0 otherwise.\<close>

theorem strftime_correct:
  fixes fmt :: "u8 list"
  assumes "tm_ok t" "\<bar>tz_offset_minutes sett\<bar> \<le> 2147483647" "0 < sz"
  defines "text \<equiv> format_text (tz_offset_minutes sett) t fmt"
  shows "strftime sett sz fmt t = (take (sz - 1) text, if length text < sz then length text else 0)"
  using assms
  by (simp add: strftime_def strftime_loop_emit emit_def Let_def)

theorem strftime_correct_witness:
  "strftime None 11 (bytes ''%Y-%m-%d'') (gmtime (Some 1709210096)) = (bytes ''2024-02-29'', 10)"
proof -
  have "tm_ok (gmtime (Some 1709210096))" by code_simp
  moreover have "format_text (tz_offset_minutes None) (gmtime (Some 1709210096)) (bytes ''%Y-%m-%d'') = bytes ''2024-02-29''"
    by code_simp
  ultimately show ?thesis
    using strftime_correct [of "gmtime (Some 1709210096)" None 11 "bytes ''%Y-%m-%d''"]
    by (simp add: tz_offset_minutes_def)
qed

end
