(* ===== verification/Mv_Posix.thy ===== *)
theory Mv_Posix
  imports Mv_Stdlib
begin

text \<open>
  \<^verbatim>\<open>c/rt/posix.c\<close>: the POSIX names over the system calls, \<open>getopt\<close>, the C locale and the character
  classes.

  The kernel is a parameter: a function from the call number, its five arguments, the memory of
  the program and the state of the kernel to the word left in \<^verbatim>\<open>EAX\<close>, the memory and the state
  afterwards. What a shim adds is its translation of the arguments and of a negative result into
  \<^verbatim>\<open>-1\<close> and \<^verbatim>\<open>errno\<close>. \<^verbatim>\<open>int\<close> arguments are handed over as the 32-bit words the call passes.
\<close>

section \<open>The system call interface\<close>

type_synonym 'w kernel = "u32 \<Rightarrow> u32 \<Rightarrow> u32 \<Rightarrow> u32 \<Rightarrow> u32 \<Rightarrow> u32 \<Rightarrow> mem \<Rightarrow> 'w \<Rightarrow> u32 \<times> mem \<times> 'w"

record 'w proc =
  errno :: int
  pmem :: mem
  kern :: 'w

definition mv_syscall ::
    "'w kernel \<Rightarrow> u32 \<Rightarrow> u32 \<Rightarrow> u32 \<Rightarrow> u32 \<Rightarrow> u32 \<Rightarrow> u32 \<Rightarrow> 'w proc \<Rightarrow> int \<times> 'w proc" where
  "mv_syscall K nr a b c d e st =
     (case K nr a b c d e (pmem st) (kern st) of (r, m, w) \<Rightarrow> (sint r, st\<lparr>pmem := m, kern := w\<rparr>))"

definition SYS_OPEN :: u32 where "SYS_OPEN = 5"
definition SYS_READ :: u32 where "SYS_READ = 6"
definition SYS_WRITE :: u32 where "SYS_WRITE = 7"
definition SYS_CLOSE :: u32 where "SYS_CLOSE = 8"
definition SYS_DELETE :: u32 where "SYS_DELETE = 9"
definition SYS_SEEK :: u32 where "SYS_SEEK = 10"
definition SYS_STAT :: u32 where "SYS_STAT = 11"
definition SYS_MKDIR :: u32 where "SYS_MKDIR = 12"
definition SYS_SLEEP :: u32 where "SYS_SLEEP = 16"
definition SYS_CHDIR :: u32 where "SYS_CHDIR = 26"
definition SYS_GETCWD :: u32 where "SYS_GETCWD = 27"
definition SYS_KILL :: u32 where "SYS_KILL = 53"
definition SYS_GETPID :: u32 where "SYS_GETPID = 54"
definition SYS_CHMOD :: u32 where "SYS_CHMOD = 68"
definition SYS_WAITPID :: u32 where "SYS_WAITPID = 92"
definition SYS_GETPPID :: u32 where "SYS_GETPPID = 102"
definition SYS_FORK :: u32 where "SYS_FORK = 103"
definition SYS_DUP :: u32 where "SYS_DUP = 116"
definition SYS_DUP2 :: u32 where "SYS_DUP2 = 117"
definition SYS_FCNTL :: u32 where "SYS_FCNTL = 118"
definition SYS_GETUID :: u32 where "SYS_GETUID = 127"
definition SYS_GETGID :: u32 where "SYS_GETGID = 129"
definition SYS_GETEUID :: u32 where "SYS_GETEUID = 131"
definition SYS_ACCESS :: u32 where "SYS_ACCESS = 133"
definition SYS_PIPE2 :: u32 where "SYS_PIPE2 = 134"
definition SYS_SIGACTION :: u32 where "SYS_SIGACTION = 143"
definition SYS_FSTAT :: u32 where "SYS_FSTAT = 145"
definition SYS_ISATTY :: u32 where "SYS_ISATTY = 151"
definition SYS_GETERRNO :: u32 where "SYS_GETERRNO = 181"
definition SYS_EXECVE :: u32 where "SYS_EXECVE = 182"

definition EPERM :: int where "EPERM = 1"
definition ENOENT :: int where "ENOENT = 2"
definition ESRCH :: int where "ESRCH = 3"
definition ENOEXEC :: int where "ENOEXEC = 8"
definition EBADF :: int where "EBADF = 9"
definition ECHILD :: int where "ECHILD = 10"
definition EAGAIN :: int where "EAGAIN = 11"
definition EACCES :: int where "EACCES = 13"
definition EFAULT :: int where "EFAULT = 14"
definition EEXIST :: int where "EEXIST = 17"
definition ERANGE :: int where "ERANGE = 34"
definition ENOSYS :: int where "ENOSYS = 38"

lemmas error_numbers = EINVAL_def EPERM_def ENOENT_def ESRCH_def ENOEXEC_def EBADF_def ECHILD_def EAGAIN_def EACCES_def EFAULT_def EEXIST_def ERANGE_def ENOSYS_def

definition errno_from_kernel :: "'w kernel \<Rightarrow> 'w proc \<Rightarrow> 'w proc" where
  "errno_from_kernel K st =
     (let (kernel_errno, st) = mv_syscall K SYS_GETERRNO 0 0 0 0 0 st
      in if kernel_errno > 0 then st\<lparr>errno := kernel_errno\<rparr> else st)"

text \<open>The tail that a dozen shims share: the kernel's reason, or a default when none is known.\<close>

definition reason :: "'w kernel \<Rightarrow> int \<Rightarrow> 'w proc \<Rightarrow> 'w proc" where
  "reason K dflt st =
     (let st = errno_from_kernel K st in if errno st = 0 then st\<lparr>errno := dflt\<rparr> else st)"

section \<open>Descriptors\<close>

definition open_fd :: "'w kernel \<Rightarrow> addr \<Rightarrow> u32 \<Rightarrow> 'w proc \<Rightarrow> int \<times> 'w proc" where
  "open_fd K path oflag st =
     (if path = NULLP then (- 1, st\<lparr>errno := EFAULT\<rparr>)
      else let (fd, st) = mv_syscall K SYS_OPEN path oflag 0 0 0 st
           in if fd < 0 then (- 1, reason K ENOENT st) else (fd, st))"

definition creat :: "'w kernel \<Rightarrow> addr \<Rightarrow> u32 \<Rightarrow> 'w proc \<Rightarrow> int \<times> 'w proc" where
  "creat K path mode st = open_fd K path (0x0001 OR 0x0040 OR 0x0200) st"

definition read_fd :: "'w kernel \<Rightarrow> u32 \<Rightarrow> u32 \<Rightarrow> u32 \<Rightarrow> 'w proc \<Rightarrow> int \<times> 'w proc" where
  "read_fd K fd buf cnt st =
     (let (r, st) = mv_syscall K SYS_READ fd buf cnt 0 0 st
      in if r < 0 then (- 1, reason K EBADF st) else (r, st))"

definition write_fd :: "'w kernel \<Rightarrow> u32 \<Rightarrow> u32 \<Rightarrow> u32 \<Rightarrow> 'w proc \<Rightarrow> int \<times> 'w proc" where
  "write_fd K fd buf cnt st =
     (let (r, st) = mv_syscall K SYS_WRITE fd buf cnt 0 0 st
      in if r < 0 then (- 1, reason K EBADF st) else (r, st))"

definition close_fd :: "'w kernel \<Rightarrow> u32 \<Rightarrow> 'w proc \<Rightarrow> int \<times> 'w proc" where
  "close_fd K fd st =
     (let (r, st) = mv_syscall K SYS_CLOSE fd 0 0 0 0 st
      in if r < 0 then (- 1, reason K EBADF st) else (0, st))"

definition lseek :: "'w kernel \<Rightarrow> u32 \<Rightarrow> u32 \<Rightarrow> u32 \<Rightarrow> 'w proc \<Rightarrow> int \<times> 'w proc" where
  "lseek K fd offset whence st =
     (let (r, st) = mv_syscall K SYS_SEEK fd offset whence 0 0 st
      in if r < 0 then (- 1, reason K EINVAL st) else (r, st))"

definition dup :: "'w kernel \<Rightarrow> u32 \<Rightarrow> 'w proc \<Rightarrow> int \<times> 'w proc" where
  "dup K fd st =
     (let (r, st) = mv_syscall K SYS_DUP fd 0 0 0 0 st
      in if r < 0 then (- 1, st\<lparr>errno := EBADF\<rparr>) else (r, st))"

definition dup2 :: "'w kernel \<Rightarrow> u32 \<Rightarrow> u32 \<Rightarrow> 'w proc \<Rightarrow> int \<times> 'w proc" where
  "dup2 K fd fd2 st =
     (let (r, st) = mv_syscall K SYS_DUP2 fd fd2 0 0 0 st
      in if r < 0 then (- 1, st\<lparr>errno := EBADF\<rparr>) else (r, st))"

definition fcntl :: "'w kernel \<Rightarrow> u32 \<Rightarrow> u32 \<Rightarrow> u32 \<Rightarrow> 'w proc \<Rightarrow> int \<times> 'w proc" where
  "fcntl K fd cmd arg st =
     (let (r, st) = mv_syscall K SYS_FCNTL fd cmd arg 0 0 st
      in if r < 0 then (- 1, st\<lparr>errno := EINVAL\<rparr>) else (r, st))"

section \<open>Files and directories\<close>

definition unlink_path :: "'w kernel \<Rightarrow> u32 \<Rightarrow> 'w proc \<Rightarrow> int \<times> 'w proc" where
  "unlink_path K path st =
     (let (r, st) = mv_syscall K SYS_DELETE path 0 0 0 0 st
      in if r < 0 then (- 1, reason K ENOENT st) else (0, st))"

definition rmdir :: "'w kernel \<Rightarrow> u32 \<Rightarrow> 'w proc \<Rightarrow> int \<times> 'w proc" where
  "rmdir K path st = unlink_path K path st"

definition access :: "'w kernel \<Rightarrow> u32 \<Rightarrow> u32 \<Rightarrow> 'w proc \<Rightarrow> int \<times> 'w proc" where
  "access K path mode st =
     (let (r, st) = mv_syscall K SYS_ACCESS path mode 0 0 0 st
      in if r < 0 then (- 1, reason K EACCES st) else (0, st))"

definition chdir :: "'w kernel \<Rightarrow> u32 \<Rightarrow> 'w proc \<Rightarrow> int \<times> 'w proc" where
  "chdir K path st =
     (let (r, st) = mv_syscall K SYS_CHDIR path 0 0 0 0 st
      in if r < 0 then (- 1, st\<lparr>errno := ENOENT\<rparr>) else (0, st))"

text \<open>The length loop of \<open>getcwd\<close> over its 256-byte buffer, and the copying loop.\<close>

function cwd_len :: "mem \<Rightarrow> addr \<Rightarrow> nat \<Rightarrow> nat" where
  "cwd_len m kernel_path len =
     (if m (kernel_path + of_nat len) \<noteq> NUL \<and> len < 256 then cwd_len m kernel_path (len + 1) else len)"
  by auto
termination by (relation "measure (\<lambda>(m, p, len). 256 - len)") auto

declare cwd_len.simps [simp del]

fun cwd_copy :: "addr \<Rightarrow> addr \<Rightarrow> nat list \<Rightarrow> mem \<Rightarrow> mem" where
  "cwd_copy buf kernel_path [] m = m"
| "cwd_copy buf kernel_path (i # is) m =
     cwd_copy buf kernel_path is (m(buf + of_nat i := m (kernel_path + of_nat i)))"

definition getcwd :: "'w kernel \<Rightarrow> addr \<Rightarrow> addr \<Rightarrow> u32 \<Rightarrow> 'w proc \<Rightarrow> addr \<times> 'w proc" where
  "getcwd K kernel_path buf sz st =
     (if buf = NULLP then (NULLP, st\<lparr>errno := EFAULT\<rparr>)
      else let (r, st) = mv_syscall K SYS_GETCWD kernel_path 0 0 0 0 st
           in if r < 0 then (NULLP, st\<lparr>errno := ENOENT\<rparr>)
              else let len = cwd_len (pmem st) kernel_path 0
                   in if len + 1 > unat sz then (NULLP, st\<lparr>errno := ERANGE\<rparr>)
                      else (buf, st\<lparr>pmem := cwd_copy buf kernel_path [0..<len + 1] (pmem st)\<rparr>))"

definition pipe :: "'w kernel \<Rightarrow> addr \<Rightarrow> 'w proc \<Rightarrow> int \<times> 'w proc" where
  "pipe K fds st =
     (if fds = NULLP then (- 1, st\<lparr>errno := EFAULT\<rparr>)
      else let (r, st) = mv_syscall K SYS_PIPE2 fds 0 0 0 0 st
           in if r < 0 then (- 1, st\<lparr>errno := ENOSYS\<rparr>) else (0, st))"

definition isatty :: "'w kernel \<Rightarrow> u32 \<Rightarrow> 'w proc \<Rightarrow> bool \<times> 'w proc" where
  "isatty K fd st = (let (r, st) = mv_syscall K SYS_ISATTY fd 0 0 0 0 st in (r = 1, st))"

definition stat :: "'w kernel \<Rightarrow> u32 \<Rightarrow> u32 \<Rightarrow> 'w proc \<Rightarrow> int \<times> 'w proc" where
  "stat K path buf st =
     (let (r, st) = mv_syscall K SYS_STAT path buf 0 0 0 st
      in if r < 0 then (- 1, reason K ENOENT st) else (0, st))"

definition fstat :: "'w kernel \<Rightarrow> u32 \<Rightarrow> u32 \<Rightarrow> 'w proc \<Rightarrow> int \<times> 'w proc" where
  "fstat K fd buf st =
     (let (r, st) = mv_syscall K SYS_FSTAT fd buf 0 0 0 st
      in if r < 0 then (- 1, st\<lparr>errno := EBADF\<rparr>) else (0, st))"

definition mkdir :: "'w kernel \<Rightarrow> u32 \<Rightarrow> u32 \<Rightarrow> 'w proc \<Rightarrow> int \<times> 'w proc" where
  "mkdir K path mode st =
     (let (r, st) = mv_syscall K SYS_MKDIR path 0 0 0 0 st
      in if r < 0 then (- 1, reason K EEXIST st) else (0, st))"

definition chmod :: "'w kernel \<Rightarrow> u32 \<Rightarrow> u32 \<Rightarrow> 'w proc \<Rightarrow> int \<times> 'w proc" where
  "chmod K path mode st =
     (let (r, st) = mv_syscall K SYS_CHMOD path mode 0 0 0 st
      in if r < 0 then (- 1, st\<lparr>errno := EPERM\<rparr>) else (0, st))"

section \<open>Processes\<close>

definition fork :: "'w kernel \<Rightarrow> 'w proc \<Rightarrow> int \<times> 'w proc" where
  "fork K st =
     (let (r, st) = mv_syscall K SYS_FORK 0 0 0 0 0 st
      in if r < 0 then (- 1, reason K EAGAIN st) else (r, st))"

definition execve :: "'w kernel \<Rightarrow> u32 \<Rightarrow> u32 \<Rightarrow> u32 \<Rightarrow> 'w proc \<Rightarrow> int \<times> 'w proc" where
  "execve K path argv envp st =
     (let (r, st) = mv_syscall K SYS_EXECVE path argv envp 0 0 st
      in if r < 0 then (- 1, reason K ENOEXEC st) else (0, st))"

text \<open>\<open>execl\<close> stores at most fifteen pointers of its argument list and a null pointer in an array at
  \<open>argv\<close> on its stack; the list is given up to its null pointer.\<close>

definition execl_args :: "addr list \<Rightarrow> addr list" where
  "execl_args args = (case args of [] \<Rightarrow> [] | arg # rest \<Rightarrow> arg # take 14 rest)"

fun store_words :: "addr \<Rightarrow> u32 list \<Rightarrow> mem \<Rightarrow> mem" where
  "store_words a [] m = m"
| "store_words a (v # vs) m = store_words (a + 4) vs (st32 m a v)"

definition execl :: "'w kernel \<Rightarrow> addr \<Rightarrow> addr \<Rightarrow> addr list \<Rightarrow> 'w proc \<Rightarrow> int \<times> 'w proc" where
  "execl K argv path args st =
     execve K path argv NULLP (st\<lparr>pmem := store_words argv (execl_args args @ [NULLP]) (pmem st)\<rparr>)"

definition getpid :: "'w kernel \<Rightarrow> 'w proc \<Rightarrow> int \<times> 'w proc" where
  "getpid K st = mv_syscall K SYS_GETPID 0 0 0 0 0 st"

definition getppid :: "'w kernel \<Rightarrow> 'w proc \<Rightarrow> int \<times> 'w proc" where
  "getppid K st = mv_syscall K SYS_GETPPID 0 0 0 0 0 st"

definition getuid :: "'w kernel \<Rightarrow> 'w proc \<Rightarrow> int \<times> 'w proc" where
  "getuid K st = mv_syscall K SYS_GETUID 0 0 0 0 0 st"

definition geteuid :: "'w kernel \<Rightarrow> 'w proc \<Rightarrow> int \<times> 'w proc" where
  "geteuid K st = mv_syscall K SYS_GETEUID 0 0 0 0 0 st"

definition getgid :: "'w kernel \<Rightarrow> 'w proc \<Rightarrow> int \<times> 'w proc" where
  "getgid K st = mv_syscall K SYS_GETGID 0 0 0 0 0 st"

definition sleep :: "'w kernel \<Rightarrow> u32 \<Rightarrow> 'w proc \<Rightarrow> int \<times> 'w proc" where
  "sleep K seconds st = (0, snd (mv_syscall K SYS_SLEEP (seconds * 100) 0 0 0 0 st))"

definition waitpid :: "'w kernel \<Rightarrow> u32 \<Rightarrow> addr \<Rightarrow> u32 \<Rightarrow> 'w proc \<Rightarrow> int \<times> 'w proc" where
  "waitpid K pid status options st =
     (let (r, st) = mv_syscall K SYS_WAITPID pid 0 0 0 0 st
      in if r < 0 then (- 1, st\<lparr>errno := ECHILD\<rparr>)
         else (sint pid, if status \<noteq> NULLP
                         then st\<lparr>pmem := st32 (pmem st) status (push_bit 8 (word_of_int r))\<rparr> else st))"

definition WEXITSTATUS :: "u32 \<Rightarrow> u32" where
  "WEXITSTATUS s = signed_drop_bit 8 s AND 0xFF"

definition wait :: "'w kernel \<Rightarrow> addr \<Rightarrow> 'w proc \<Rightarrow> int \<times> 'w proc" where
  "wait K status st = waitpid K (- 1) status 0 st"

section \<open>Signals\<close>

definition SIG_ERR :: addr where "SIG_ERR = - 1"

definition signal :: "'w kernel \<Rightarrow> u32 \<Rightarrow> addr \<Rightarrow> 'w proc \<Rightarrow> addr \<times> 'w proc" where
  "signal K sig func st =
     (let (r, st) = mv_syscall K SYS_SIGACTION sig func 0 0 0 st
      in if r < 0 then (SIG_ERR, st\<lparr>errno := EINVAL\<rparr>) else (func, st))"

definition kill :: "'w kernel \<Rightarrow> u32 \<Rightarrow> u32 \<Rightarrow> 'w proc \<Rightarrow> int \<times> 'w proc" where
  "kill K pid sig st =
     (let (r, st) = mv_syscall K SYS_KILL pid sig 0 0 0 st
      in if r < 0 then (- 1, reason K ESRCH st) else (0, st))"

definition raise :: "'w kernel \<Rightarrow> u32 \<Rightarrow> 'w proc \<Rightarrow> int \<times> 'w proc" where
  "raise K sig st = (let (pid, st) = getpid K st in kill K (word_of_int pid) sig st)"

section \<open>getopt\<close>

text \<open>
  The words of \<open>argv\<close> are byte lists without their NUL and \<open>argv\<close> is the list of its pointers. A
  pointer into a word is the word with an offset, and \<open>scanned\<close> is the static index into the word
  under \<open>optind\<close>. \<open>messages\<close> is what was written to \<^verbatim>\<open>stderr\<close>.
\<close>

record opts =
  optarg :: "(u8 list \<times> nat) option"
  optind :: nat
  opterr :: bool
  optopt :: u8
  scanned :: nat
  argv :: "u8 list list"
  messages :: "u8 list list"

definition char_at :: "u8 list \<Rightarrow> nat \<Rightarrow> u8" where
  "char_at w i = (if i < length w then w ! i else NUL)"

definition is_option :: "u8 list \<Rightarrow> bool" where
  "is_option w \<longleftrightarrow> char_at w 0 = 45 \<and> char_at w 1 \<noteq> NUL"

definition is_end :: "u8 list \<Rightarrow> bool" where
  "is_end w \<longleftrightarrow> char_at w 1 = 45 \<and> char_at w 2 = NUL"

text \<open>The first index from \<open>i\<close> on that holds an option word.\<close>

fun find_option :: "u8 list list \<Rightarrow> nat list \<Rightarrow> nat option" where
  "find_option v [] = None"
| "find_option v (i # is) = (if is_option (v ! i) then Some i else find_option v is)"

text \<open>The word at \<open>i\<close> moves down to \<open>at\<close>, the words between move up by one.\<close>

fun shift_word :: "nat \<Rightarrow> nat \<Rightarrow> u8 list list \<Rightarrow> u8 list list" where
  "shift_word at 0 v = v"
| "shift_word at (Suc i) v = (if Suc i > at then shift_word at i (v[Suc i := v ! i]) else v)"

definition bring_word :: "nat \<Rightarrow> nat \<Rightarrow> u8 list list \<Rightarrow> u8 list list" where
  "bring_word at i v = (let word = v ! i in (shift_word at i v)[at := word])"

text \<open>The search for the next option word: Some for a return of -1, None to go on with the word at
  \<open>optind\<close>.\<close>

definition next_word :: "bool \<Rightarrow> opts \<Rightarrow> int option \<times> opts" where
  "next_word stop_at_operand st =
     (let argc = length (argv st)
      in if optind st < argc then
           (let w = argv st ! optind st
            in if is_option w then
                 (if is_end w then (Some (- 1), st\<lparr>optind := optind st + 1\<rparr>)
                  else (None, st\<lparr>scanned := 1\<rparr>))
               else if stop_at_operand then (Some (- 1), st)
               else (case find_option (argv st) [optind st + 1..<argc] of
                       None \<Rightarrow> (Some (- 1), st)
                     | Some i \<Rightarrow> (None, st\<lparr>argv := bring_word (optind st) i (argv st), scanned := 1\<rparr>)))
         else (Some (- 1), st))"

text \<open>What follows an option letter in the option string; None when the letter is not in it.\<close>

fun spec_of :: "u8 \<Rightarrow> u8 list \<Rightarrow> u8 list option" where
  "spec_of c [] = (if c = NUL then Some [] else None)"
| "spec_of c (x # xs) = (if x = c then Some xs else spec_of c xs)"

definition message :: "string \<Rightarrow> u8 \<Rightarrow> opts \<Rightarrow> u8 list" where
  "message txt option st = (argv st ! 0) @ bytes '': '' @ bytes txt @ bytes '' -- '' @ [39, option, 39, 10]"

definition take_option :: "u8 list \<Rightarrow> opts \<Rightarrow> int \<times> opts" where
  "take_option optstring st =
     (let w = argv st ! optind st; option = char_at w (scanned st);
          spec = spec_of option optstring; last_char = (char_at w (scanned st + 1) = NUL);
          st = (if last_char then st\<lparr>optind := optind st + 1, scanned := 0\<rparr>
                else st\<lparr>scanned := scanned st + 1\<rparr>)
      in case spec of
           None \<Rightarrow> (63, st\<lparr>optopt := option, messages := messages st @
                       (if opterr st \<and> option \<noteq> 58 then [message ''invalid option'' option st] else [])\<rparr>)
         | Some follow \<Rightarrow>
             if option = 58 then (63, st\<lparr>optopt := option\<rparr>)
             else if char_at follow 0 = 58 then
               (if \<not> last_char
                then (uc option, st\<lparr>optarg := Some (argv st ! (optind st - 1), scanned st), scanned := 0\<rparr>)
                else if optind st < length (argv st)
                then (uc option, st\<lparr>optarg := Some (argv st ! optind st, 0), optind := optind st + 1\<rparr>)
                else (if char_at optstring 0 = 58 then 58 else 63,
                      st\<lparr>messages := messages st @
                        (if opterr st then [message ''option requires an argument'' option st] else [])\<rparr>))
             else (uc option, st))"

definition getopt :: "u8 list \<Rightarrow> opts \<Rightarrow> int \<times> opts" where
  "getopt optstring st =
     (let st = st\<lparr>optarg := None\<rparr>;
          (stop_at_operand, optstring) =
            (if char_at optstring 0 = 43 then (True, tl optstring) else (False, optstring));
          optstring = (if char_at optstring 0 = 45 then tl optstring else optstring)
      in if scanned st = 0 then
           (case next_word stop_at_operand st of
              (Some r, st) \<Rightarrow> (r, st)
            | (None, st) \<Rightarrow> take_option optstring st)
         else take_option optstring st)"

section \<open>The C locale\<close>

text \<open>The returned string, None for a null pointer; an absent locale argument is a query.\<close>

definition setlocale :: "u8 list option \<Rightarrow> 'w proc \<Rightarrow> u8 list option \<times> 'w proc" where
  "setlocale locale st =
     (case locale of
        None \<Rightarrow> (Some (bytes ''C''), st)
      | Some l \<Rightarrow>
          if char_at l 0 = ch CHR ''C'' \<and> char_at l 1 = NUL \<or> char_at l 0 = NUL \<or>
             char_at l 0 = ch CHR ''P'' \<and> char_at l 1 = ch CHR ''O'' \<and> char_at l 2 = ch CHR ''S'' \<and>
             char_at l 3 = ch CHR ''I'' \<and> char_at l 4 = ch CHR ''X'' \<and> char_at l 5 = NUL
          then (Some (bytes ''C''), st)
          else (None, st\<lparr>errno := EINVAL\<rparr>))"

record lconv =
  decimal_point :: "u8 list"
  thousands_sep :: "u8 list"
  currency_symbol :: "u8 list"
  int_curr_symbol :: "u8 list"

definition localeconv :: lconv where
  "localeconv = \<lparr>decimal_point = bytes ''.'', thousands_sep = [], currency_symbol = [], int_curr_symbol = []\<rparr>"

section \<open>Character classes\<close>

definition isdigit :: "int \<Rightarrow> bool" where "isdigit c \<longleftrightarrow> c \<ge> 48 \<and> c \<le> 57"
definition islower :: "int \<Rightarrow> bool" where "islower c \<longleftrightarrow> c \<ge> 97 \<and> c \<le> 122"
definition isupper :: "int \<Rightarrow> bool" where "isupper c \<longleftrightarrow> c \<ge> 65 \<and> c \<le> 90"
definition isalpha :: "int \<Rightarrow> bool" where "isalpha c \<longleftrightarrow> islower c \<or> isupper c"
definition isalnum :: "int \<Rightarrow> bool" where "isalnum c \<longleftrightarrow> isalpha c \<or> isdigit c"
definition isspace :: "int \<Rightarrow> bool" where
  "isspace c \<longleftrightarrow> c = 32 \<or> c = 9 \<or> c = 10 \<or> c = 11 \<or> c = 12 \<or> c = 13"
definition isprint :: "int \<Rightarrow> bool" where "isprint c \<longleftrightarrow> c \<ge> 0x20 \<and> c \<le> 0x7E"
definition iscntrl :: "int \<Rightarrow> bool" where "iscntrl c \<longleftrightarrow> (c \<ge> 0 \<and> c < 0x20) \<or> c = 0x7F"
definition isxdigit :: "int \<Rightarrow> bool" where
  "isxdigit c \<longleftrightarrow> isdigit c \<or> (c \<ge> 97 \<and> c \<le> 102) \<or> (c \<ge> 65 \<and> c \<le> 70)"
definition ispunct :: "int \<Rightarrow> bool" where "ispunct c \<longleftrightarrow> isprint c \<and> \<not> isalnum c \<and> \<not> isspace c"
definition toupper :: "int \<Rightarrow> int" where "toupper c = (if islower c then c - 97 + 65 else c)"
definition tolower :: "int \<Rightarrow> int" where "tolower c = (if isupper c then c - 65 + 97 else c)"

lemmas ctype_defs = isdigit_def islower_def isupper_def isalpha_def isalnum_def isspace_def isprint_def
  iscntrl_def isxdigit_def ispunct_def toupper_def tolower_def

section \<open>The contract of a shim\<close>

text \<open>What a caller may rely on: a call that the kernel accepts returns a value that is not negative
  and keeps \<^verbatim>\<open>errno\<close>; a call it refuses returns -1 and leaves a positive \<^verbatim>\<open>errno\<close>.\<close>

locale syscall_shim =
  fixes call :: "'w kernel \<Rightarrow> 'w proc \<Rightarrow> int \<times> 'w proc"
    and nr a b c :: u32
    and conv :: "int \<Rightarrow> int"
  assumes conv_nonneg: "0 \<le> r \<Longrightarrow> 0 \<le> conv r"
    and success: "mv_syscall K nr a b c 0 0 st = (r, st') \<Longrightarrow> 0 \<le> r \<Longrightarrow> call K st = (conv r, st')"
    and failure: "mv_syscall K nr a b c 0 0 st = (r, st') \<Longrightarrow> r < 0 \<Longrightarrow> 0 \<le> errno st \<Longrightarrow>
      \<exists>st''. call K st = (- 1, st'') \<and> 0 < errno st''"
begin

lemma outcome:
  assumes "call K st = (r, st')" "0 \<le> errno st"
  shows "0 \<le> r \<and> errno st' = errno st \<or> r = - 1 \<and> 0 < errno st'"
proof -
  obtain k st1 where k: "mv_syscall K nr a b c 0 0 st = (k, st1)" by fastforce
  then have e: "errno st1 = errno st" by (auto simp: mv_syscall_def split: prod.splits)
  show ?thesis
  proof (cases "0 \<le> k")
    case True
    then show ?thesis using success [OF k] conv_nonneg [of k] assms e by auto
  next
    case False
    then show ?thesis using failure [OF k _ assms(2)] assms(1) by auto
  qed
qed

lemma accepted:
  "fst (mv_syscall K nr a b c 0 0 st) \<ge> 0 \<Longrightarrow>
     call K st = (conv (fst (mv_syscall K nr a b c 0 0 st)), snd (mv_syscall K nr a b c 0 0 st))"
  by (rule success) simp_all

end

text \<open>The two ways a shim finds its \<^verbatim>\<open>errno\<close>: from the kernel with a default, or fixed.\<close>

locale kernel_reason_shim =
  fixes call :: "'w kernel \<Rightarrow> 'w proc \<Rightarrow> int \<times> 'w proc"
    and nr a b c :: u32
    and conv :: "int \<Rightarrow> int"
    and dflt :: int
  assumes nonneg: "0 \<le> r \<Longrightarrow> 0 \<le> conv r" and positive: "0 < dflt"
    and call_eq: "call K st = (let (r, st') = mv_syscall K nr a b c 0 0 st
      in if r < 0 then (- 1, reason K dflt st') else (conv r, st'))"

locale fixed_reason_shim =
  fixes call :: "'w kernel \<Rightarrow> 'w proc \<Rightarrow> int \<times> 'w proc"
    and nr a b c :: u32
    and conv :: "int \<Rightarrow> int"
    and dflt :: int
  assumes nonneg: "0 \<le> r \<Longrightarrow> 0 \<le> conv r" and positive: "0 < dflt"
    and call_eq: "call K st = (let (r, st') = mv_syscall K nr a b c 0 0 st
      in if r < 0 then (- 1, st'\<lparr>errno := dflt\<rparr>) else (conv r, st'))"

lemma errno_mv_syscall: "mv_syscall K nr a b c d e st = (r, st') \<Longrightarrow> errno st' = errno st"
  by (auto simp: mv_syscall_def split: prod.splits)

lemma reason_positive: "0 \<le> errno st \<Longrightarrow> 0 < dflt \<Longrightarrow> 0 < errno (reason K dflt st)"
  by (auto simp: reason_def errno_from_kernel_def Let_def split: prod.splits dest: errno_mv_syscall)

sublocale kernel_reason_shim \<subseteq> syscall_shim call nr a b c conv
proof
  show "call K st = (conv r, st')" if "mv_syscall K nr a b c 0 0 st = (r, st')" "0 \<le> r" for K st r st'
    using that by (simp add: call_eq [of K st])
  show "\<exists>st''. call K st = (- 1, st'') \<and> 0 < errno st''"
    if "mv_syscall K nr a b c 0 0 st = (r, st')" "r < 0" "0 \<le> errno st" for K st r st'
    using that errno_mv_syscall [OF that(1)] reason_positive [of st' dflt K] positive by (simp add: call_eq [of K st])
qed (rule nonneg)

sublocale fixed_reason_shim \<subseteq> syscall_shim call nr a b c conv
proof
  show "call K st = (conv r, st')" if "mv_syscall K nr a b c 0 0 st = (r, st')" "0 \<le> r" for K st r st'
    using that by (simp add: call_eq [of K st])
  show "\<exists>st''. call K st = (- 1, st'') \<and> 0 < errno st''"
    if "mv_syscall K nr a b c 0 0 st = (r, st')" "r < 0" "0 \<le> errno st" for K st r st'
    using that positive by (simp add: call_eq [of K st])
qed (rule nonneg)

interpretation rd: kernel_reason_shim "\<lambda>K. read_fd K fd buf cnt" SYS_READ fd buf cnt "\<lambda>r. r" EBADF
  for fd buf cnt
  by unfold_locales (simp_all add: read_fd_def error_numbers)

interpretation wr: kernel_reason_shim "\<lambda>K. write_fd K fd buf cnt" SYS_WRITE fd buf cnt "\<lambda>r. r" EBADF
  for fd buf cnt
  by unfold_locales (simp_all add: write_fd_def error_numbers)

interpretation cl: kernel_reason_shim "\<lambda>K. close_fd K fd" SYS_CLOSE fd 0 0 "\<lambda>r. 0" EBADF
  for fd
  by unfold_locales (simp_all add: close_fd_def error_numbers)

interpretation sk: kernel_reason_shim "\<lambda>K. lseek K fd offset whence" SYS_SEEK fd offset whence "\<lambda>r. r" EINVAL
  for fd offset whence
  by unfold_locales (simp_all add: lseek_def error_numbers)

interpretation du: fixed_reason_shim "\<lambda>K. dup K fd" SYS_DUP fd 0 0 "\<lambda>r. r" EBADF
  for fd
  by unfold_locales (simp_all add: dup_def error_numbers)

interpretation du2: fixed_reason_shim "\<lambda>K. dup2 K fd fd2" SYS_DUP2 fd fd2 0 "\<lambda>r. r" EBADF
  for fd fd2
  by unfold_locales (simp_all add: dup2_def error_numbers)

interpretation fc: fixed_reason_shim "\<lambda>K. fcntl K fd cmd arg" SYS_FCNTL fd cmd arg "\<lambda>r. r" EINVAL
  for fd cmd arg
  by unfold_locales (simp_all add: fcntl_def error_numbers)

interpretation ul: kernel_reason_shim "\<lambda>K. unlink_path K path" SYS_DELETE path 0 0 "\<lambda>r. 0" ENOENT
  for path
  by unfold_locales (simp_all add: unlink_path_def error_numbers)

interpretation ac: kernel_reason_shim "\<lambda>K. access K path mode" SYS_ACCESS path mode 0 "\<lambda>r. 0" EACCES
  for path mode
  by unfold_locales (simp_all add: access_def error_numbers)

interpretation cd: fixed_reason_shim "\<lambda>K. chdir K path" SYS_CHDIR path 0 0 "\<lambda>r. 0" ENOENT
  for path
  by unfold_locales (simp_all add: chdir_def error_numbers)

interpretation sta: kernel_reason_shim "\<lambda>K. stat K path buf" SYS_STAT path buf 0 "\<lambda>r. 0" ENOENT
  for path buf
  by unfold_locales (simp_all add: stat_def error_numbers)

interpretation fst: fixed_reason_shim "\<lambda>K. fstat K fd buf" SYS_FSTAT fd buf 0 "\<lambda>r. 0" EBADF
  for fd buf
  by unfold_locales (simp_all add: fstat_def error_numbers)

interpretation mkd: kernel_reason_shim "\<lambda>K. mkdir K path mode" SYS_MKDIR path 0 0 "\<lambda>r. 0" EEXIST
  for path mode
  by unfold_locales (simp_all add: mkdir_def error_numbers)

interpretation chm: fixed_reason_shim "\<lambda>K. chmod K path mode" SYS_CHMOD path mode 0 "\<lambda>r. 0" EPERM
  for path mode
  by unfold_locales (simp_all add: chmod_def error_numbers)

interpretation fk: kernel_reason_shim fork SYS_FORK 0 0 0 "\<lambda>r. r" EAGAIN
  by unfold_locales (simp_all add: fork_def error_numbers)

interpretation exv: kernel_reason_shim "\<lambda>K. execve K path args envp" SYS_EXECVE path args envp "\<lambda>r. 0" ENOEXEC
  for path args envp
  by unfold_locales (simp_all add: execve_def error_numbers)

interpretation kl: kernel_reason_shim "\<lambda>K. kill K pid sig" SYS_KILL pid sig 0 "\<lambda>r. 0" ESRCH
  for pid sig
  by unfold_locales (simp_all add: kill_def error_numbers)

lemma open_outcome:
  assumes "open_fd K path oflag st = (r, st')" "0 \<le> errno st"
  shows "0 \<le> r \<and> errno st' = errno st \<or> r = - 1 \<and> 0 < errno st'"
  using assms reason_positive [of _ ENOENT K]
  by (auto simp: open_fd_def error_numbers Let_def split: if_splits prod.splits dest!: errno_mv_syscall)

section \<open>Properties of the shims\<close>



text \<open>\<open>wait\<close> answers -1 whatever the kernel says: a child that was reaped is not reported by its
  number, although its status is stored and \<^verbatim>\<open>errno\<close> stays as it was.\<close>

theorem wait_always_fails:
  assumes "mv_syscall K SYS_WAITPID (- 1) 0 0 0 0 st = (code, st1)" "0 \<le> code" "status \<noteq> 0"
  shows "wait K status st = (- 1, st1\<lparr>pmem := st32 (pmem st1) status (push_bit 8 (word_of_int code))\<rparr>) \<and>
    errno st1 = errno st"
  using assms errno_mv_syscall [OF assms(1)] by (simp add: wait_def waitpid_def)

theorem wait_always_fails_witness:
  "fst (wait (\<lambda>nr a b c d e m w. (7, m, w)) 0x500000 \<lparr>errno = 0, pmem = \<lambda>a. 0, kern = ()\<rparr>) = - 1"
  using wait_always_fails [of "\<lambda>nr a b c d e m w. (7, m, w)" "\<lparr>errno = 0, pmem = \<lambda>a. 0, kern = ()\<rparr>" 7
      "\<lparr>errno = 0, pmem = \<lambda>a. 0, kern = ()\<rparr>" "0x500000"]
  by (simp add: mv_syscall_def)

section \<open>getopt\<close>

lemma length_shift_word [simp]: "length (shift_word at i v) = length v"
  by (induction at i v rule: shift_word.induct) auto

lemma nth_shift_word:
  "i < length v \<Longrightarrow> k < length v \<Longrightarrow>
     shift_word at i v ! k = (if at < k \<and> k \<le> i then v ! (k - 1) else v ! k)"
proof (induction at i v rule: shift_word.induct)
  case (2 at i v)
  then show ?case by (auto simp: nth_list_update not_le le_Suc_eq)
qed auto

lemma bring_word_eq:
  assumes "at < i" "i < length v"
  shows "bring_word at i v = take at v @ v ! i # drop at (take i v) @ drop (Suc i) v"
proof (rule nth_equalityI)
  fix k
  assume k: "k < length (bring_word at i v)"
  then have "k < length v" by (simp add: bring_word_def)
  with assms show "bring_word at i v ! k = (take at v @ v ! i # drop at (take i v) @ drop (Suc i) v) ! k"
    by (auto simp: bring_word_def nth_list_update nth_shift_word nth_append nth_Cons' Let_def)
qed (use assms in \<open>simp add: bring_word_def\<close>)

lemma find_option_Some:
  "find_option v [a..<n] = Some i \<Longrightarrow> a \<le> i \<and> i < n \<and> is_option (v ! i) \<and> (\<forall>j. a \<le> j \<and> j < i \<longrightarrow> \<not> is_option (v ! j))"
proof (induction "n - a" arbitrary: a)
  case (Suc k)
  then have an: "a < n" by simp
  then have u: "[a..<n] = a # [Suc a..<n]" by (rule upt_conv_Cons)
  show ?case
  proof (cases "is_option (v ! a)")
    case True
    then show ?thesis using Suc.prems an by (auto simp: u)
  next
    case False
    then have "find_option v [Suc a..<n] = Some i" using Suc.prems by (simp add: u)
    then have r: "Suc a \<le> i \<and> i < n \<and> is_option (v ! i) \<and> (\<forall>j. Suc a \<le> j \<and> j < i \<longrightarrow> \<not> is_option (v ! j))"
      using Suc.hyps(1) [of "Suc a"] Suc.hyps(2) by simp
    have "\<not> is_option (v ! j)" if "a \<le> j" "j < i" for j
      using that r False by (cases "j = a") auto
    then show ?thesis using r by auto
  qed
qed simp

lemma bring_word_filters:
  assumes "at < i" "i < length v" "is_option (v ! i)" "\<And>j. at \<le> j \<Longrightarrow> j < i \<Longrightarrow> \<not> is_option (v ! j)"
  shows "filter is_option (bring_word at i v) = filter is_option v"
    and "filter (\<lambda>w. \<not> is_option w) (bring_word at i v) = filter (\<lambda>w. \<not> is_option w) v"
proof -
  have v: "v = take at v @ drop at (take i v) @ v ! i # drop (Suc i) v"
    using assms(1,2) by (metis (no_types, lifting) append.assoc append_take_drop_id id_take_nth_drop less_imp_le_nat min.absorb1 take_take)
  have n: "\<forall>w \<in> set (drop at (take i v)). \<not> is_option w"
    using assms(1,2,4) by (auto simp: in_set_conv_nth)
  have e: "filter is_option (drop at (take i v)) = []" using n by (auto simp: filter_empty_conv)
  show "filter is_option (bring_word at i v) = filter is_option v"
    unfolding bring_word_eq [OF assms(1,2)] using arg_cong [OF v, of "filter is_option"] by (simp add: e assms(3))
  show "filter (\<lambda>w. \<not> is_option w) (bring_word at i v) = filter (\<lambda>w. \<not> is_option w) v"
    unfolding bring_word_eq [OF assms(1,2)]
    using arg_cong [OF v, of "filter (\<lambda>w. \<not> is_option w)"] by (simp add: assms(3))
qed

definition stable_words :: "u8 list list \<Rightarrow> u8 list list \<Rightarrow> bool" where
  "stable_words v v' \<longleftrightarrow> filter is_option v' = filter is_option v \<and>
     filter (\<lambda>w. \<not> is_option w) v' = filter (\<lambda>w. \<not> is_option w) v"

lemma next_word_stable: "next_word stop st = (r, st') \<Longrightarrow> stable_words (argv st) (argv st')"
  by (auto simp: next_word_def stable_words_def Let_def split: if_splits option.splits
      dest!: find_option_Some intro!: bring_word_filters)
    (metis bring_word_filters less_eq_Suc_le order_le_less)+

lemma take_option_argv: "argv (snd (take_option s st)) = argv st"
  by (auto simp: take_option_def Let_def split: option.splits)

lemma getopt_stable: "getopt s st = (r, st') \<Longrightarrow> stable_words (argv st) (argv st')"
proof -
  assume g: "getopt s st = (r, st')"
  have n: "stable_words (argv st) (argv x)" if "next_word stop (st\<lparr>optarg := None\<rparr>) = (q, x)" for stop q x
    using next_word_stable [OF that] by simp
  have t: "argv st' = argv x" if "take_option s' x = (r, st')" for s' x
    using take_option_argv [of s' x] that by simp
  have "stable_words (argv st) (argv st)" by (simp add: stable_words_def)
  with g show ?thesis
    by (auto simp: getopt_def Let_def split: if_splits option.splits prod.splits dest!: n t)
qed


text \<open>A letter that takes no argument, and one that does.\<close>

definition is_flag :: "u8 list \<Rightarrow> u8 \<Rightarrow> bool" where
  "is_flag s c \<longleftrightarrow> c \<noteq> 0 \<and> c \<noteq> 45 \<and> c \<noteq> 58 \<and>
     (case spec_of c s of None \<Rightarrow> False | Some follow \<Rightarrow> char_at follow 0 \<noteq> 58)"

definition takes_arg :: "u8 list \<Rightarrow> u8 \<Rightarrow> bool" where
  "takes_arg s c \<longleftrightarrow> c \<noteq> 0 \<and> c \<noteq> 45 \<and> c \<noteq> 58 \<and>
     (case spec_of c s of None \<Rightarrow> False | Some follow \<Rightarrow> char_at follow 0 = 58)"

definition plain_spec :: "u8 list \<Rightarrow> bool" where
  "plain_spec s \<longleftrightarrow> char_at s 0 \<noteq> 43 \<and> char_at s 0 \<noteq> 45"

primrec getopt_calls :: "nat \<Rightarrow> u8 list \<Rightarrow> opts \<Rightarrow> int list \<times> opts" where
  "getopt_calls 0 s st = ([], st)"
| "getopt_calls (Suc n) s st =
     (let (r, st) = getopt s st; (rs, st) = getopt_calls n s st in (r # rs, st))"

lemma char_at_Cons [simp]: "char_at (x # xs) 0 = x" "char_at (x # xs) (Suc i) = char_at xs i"
  by (simp_all add: char_at_def)

lemma char_at_append [simp]: "char_at (xs @ c # ys) (length xs) = c"
  by (simp add: char_at_def)

lemma char_at_last: "0 \<notin> set ys \<Longrightarrow> char_at (xs @ c # ys) (Suc (length xs)) = 0 \<longleftrightarrow> ys = []"
  by (cases ys) (auto simp: char_at_def nth_append)

lemma take_option_flag:
  assumes "is_flag s c" "argv st ! optind st = 45 # pre @ c # post" "scanned st = Suc (length pre)" "0 \<notin> set post"
  shows "take_option s st = (uc c, if post = [] then st\<lparr>optind := optind st + 1, scanned := 0\<rparr>
    else st\<lparr>scanned := Suc (Suc (length pre))\<rparr>)"
  using assms char_at_last [of post pre c]
  by (auto simp: take_option_def is_flag_def Let_def split: option.splits)

lemma getopt_flag:
  assumes f: "is_flag s c" and w: "argv st ! optind st = 45 # pre @ c # post" and p: "plain_spec s"
    and sc: "scanned st = (if pre = [] then 0 else Suc (length pre))" and z: "0 \<notin> set post"
    and i: "optind st < length (argv st)"
  shows "getopt s st = (uc c, if post = [] then st\<lparr>optarg := None, optind := optind st + 1, scanned := 0\<rparr>
    else st\<lparr>optarg := None, scanned := Suc (Suc (length pre))\<rparr>)"
proof (cases "pre = []")
  case True
  have "next_word False (st\<lparr>optarg := None\<rparr>) = (None, st\<lparr>optarg := None, scanned := 1\<rparr>)"
    using f w i True by (auto simp: next_word_def is_option_def is_end_def is_flag_def Let_def)
  moreover have "take_option s (st\<lparr>optarg := None, scanned := 1\<rparr>) =
      (uc c, if post = [] then st\<lparr>optarg := None, optind := optind st + 1, scanned := 0\<rparr>
       else st\<lparr>optarg := None, scanned := Suc (Suc (length pre))\<rparr>)"
    using take_option_flag [OF f, of "st\<lparr>optarg := None, scanned := 1\<rparr>" pre post] w True z by simp
  ultimately show ?thesis using p sc True by (simp add: getopt_def plain_spec_def)
next
  case False
  have "take_option s (st\<lparr>optarg := None\<rparr>) =
      (uc c, if post = [] then st\<lparr>optarg := None, optind := optind st + 1, scanned := 0\<rparr>
       else st\<lparr>optarg := None, scanned := Suc (Suc (length pre))\<rparr>)"
    using take_option_flag [OF f, of "st\<lparr>optarg := None\<rparr>" pre post] w False z sc by simp
  then show ?thesis using p sc False by (simp add: getopt_def plain_spec_def)
qed

lemma getopt_calls_flags:
  assumes "\<forall>c \<in> set (pre @ post). is_flag s c" "post \<noteq> []" "plain_spec s"
    "argv st ! optind st = 45 # pre @ post" "scanned st = (if pre = [] then 0 else Suc (length pre))"
    "optind st < length (argv st)"
  shows "getopt_calls (length post) s st =
    (map uc post, st\<lparr>optarg := None, optind := optind st + 1, scanned := 0\<rparr>)"
  using assms
proof (induction post arbitrary: pre st)
  case (Cons c post)
  have z: "0 \<notin> set post" using Cons.prems(1) by (auto simp: is_flag_def)
  have g: "getopt s st = (uc c, if post = [] then st\<lparr>optarg := None, optind := optind st + 1, scanned := 0\<rparr>
      else st\<lparr>optarg := None, scanned := Suc (Suc (length pre))\<rparr>)"
    by (rule getopt_flag) (use Cons.prems z in simp_all)
  show ?case
  proof (cases "post = []")
    case True
    then show ?thesis using g by simp
  next
    case False
    have "getopt_calls (length post) s (st\<lparr>optarg := None, scanned := Suc (Suc (length pre))\<rparr>) =
        (map uc post, st\<lparr>optarg := None, optind := optind st + 1, scanned := 0\<rparr>)"
      using Cons.IH [of "pre @ [c]" "st\<lparr>optarg := None, scanned := Suc (Suc (length pre))\<rparr>"] Cons.prems False by simp
    then show ?thesis using g False by simp
  qed
qed simp

lemma getopt_attached:
  assumes "plain_spec s" "takes_arg s c" "scanned st = 0" "optind st < length (argv st)"
    "argv st ! optind st = 45 # c # x # rest" "x \<noteq> 0"
  shows "getopt s st = (uc c, st\<lparr>optarg := Some (argv st ! (optind st - 1), 2)\<rparr>)"
proof -
  have "next_word False (st\<lparr>optarg := None\<rparr>) = (None, st\<lparr>optarg := None, scanned := 1\<rparr>)"
    using assms by (auto simp: next_word_def is_option_def is_end_def takes_arg_def Let_def)
  moreover have "take_option s (st\<lparr>optarg := None, scanned := 1\<rparr>) =
      (uc c, st\<lparr>optarg := Some (argv st ! (optind st - 1), 2)\<rparr>)"
    using assms by (auto simp: take_option_def takes_arg_def Let_def numeral_2_eq_2 split: option.splits)
  ultimately show ?thesis using assms by (simp add: getopt_def plain_spec_def)
qed

text \<open>\<open>getopt\<close> reorders the words but loses none: the option words keep their order among
  themselves and so do the other words.\<close>

theorem getopt_permutes_stably:
  assumes "getopt optstring st = (r, st')"
  shows "filter is_option (argv st') = filter is_option (argv st) \<and>
    filter (\<lambda>w. \<not> is_option w) (argv st') = filter (\<lambda>w. \<not> is_option w) (argv st)"
  using getopt_stable [OF assms] by (simp add: stable_words_def)

definition opts_start :: "u8 list list \<Rightarrow> opts" where
  "opts_start ws = \<lparr>optarg = None, optind = 1, opterr = True, optopt = 0, scanned = 0, argv = ws, messages = []\<rparr>"

theorem getopt_permutes_stably_witness:
  "\<exists>st'. getopt (bytes ''r'') (opts_start [bytes ''sort'', bytes ''f'', bytes ''-r'']) = (114, st') \<and>
     argv st' = [bytes ''sort'', bytes ''-r'', bytes ''f''] \<and>
     filter is_option (argv st') = filter is_option [bytes ''sort'', bytes ''f'', bytes ''-r'']"
proof -
  define st where "st = opts_start [bytes ''sort'', bytes ''f'', bytes ''-r'']"
  obtain r st' where g: "getopt (bytes ''r'') st = (r, st')" by fastforce
  have "fst (getopt (bytes ''r'') st) = 114" "argv (snd (getopt (bytes ''r'') st)) = [bytes ''sort'', bytes ''-r'', bytes ''f'']"
    unfolding st_def by code_simp+
  then show ?thesis
    using getopt_permutes_stably [OF g] g unfolding st_def by (simp add: opts_start_def)
qed

text \<open>A word of flags is delivered letter by letter: as many calls as it has letters return them
  in order, and \<open>optind\<close> moves to the next word.\<close>

theorem getopt_cluster:
  assumes "plain_spec optstring" "cs \<noteq> []" "\<forall>c \<in> set cs. is_flag optstring c" "scanned st = 0"
    "optind st < length (argv st)" "argv st ! optind st = 45 # cs"
  shows "getopt_calls (length cs) optstring st =
    (map uc cs, st\<lparr>optarg := None, optind := optind st + 1, scanned := 0\<rparr>)"
  using getopt_calls_flags [of "[]" cs optstring st] assms by simp

theorem getopt_cluster_witness:
  "fst (getopt_calls 3 (bytes ''abc'') (opts_start [bytes ''p'', bytes ''-cab''])) = [99, 97, 98]"
proof -
  have "plain_spec (bytes ''abc'')" "\<forall>c \<in> set (bytes ''cab''). is_flag (bytes ''abc'') c" by code_simp+
  then show ?thesis
    using getopt_cluster [of "bytes ''abc''" "bytes ''cab''" "opts_start [bytes ''p'', bytes ''-cab'']"]
    by (simp add: opts_start_def numeral_3_eq_3 uc_def)
qed

text \<open>An argument attached to its letter (\<^verbatim>\<open>-ofile\<close>) makes \<open>getopt\<close> stand still: every further call
  returns the same letter from the same word, and \<open>optarg\<close> points into the word before it.\<close>

theorem getopt_attached_loops:
  assumes "plain_spec optstring" "takes_arg optstring c" "scanned st = 0" "optind st < length (argv st)"
    "argv st ! optind st = 45 # c # x # rest" "x \<noteq> 0"
  shows "getopt_calls (Suc n) optstring st =
    (replicate (Suc n) (uc c), st\<lparr>optarg := Some (argv st ! (optind st - 1), 2)\<rparr>)"
proof -
  define st' where "st' = st\<lparr>optarg := Some (argv st ! (optind st - 1), 2)\<rparr>"
  have 1: "getopt optstring st = (uc c, st')" using getopt_attached [OF assms] by (simp add: st'_def)
  have 2: "getopt optstring st' = (uc c, st')"
    using getopt_attached [of optstring c st' x rest] assms by (simp add: st'_def)
  have "getopt_calls n optstring st' = (replicate n (uc c), st')" by (induction n) (simp_all add: 2)
  then show ?thesis using 1 by (simp add: st'_def)
qed

theorem getopt_attached_loops_witness:
  "fst (getopt_calls (Suc 100) (bytes ''o:'') (opts_start [bytes ''prog'', bytes ''-ofile''])) = replicate (Suc 100) 111"
proof -
  have "plain_spec (bytes ''o:'')" "takes_arg (bytes ''o:'') 111" by code_simp+
  then show ?thesis
    using getopt_attached_loops [of "bytes ''o:''" 111 "opts_start [bytes ''prog'', bytes ''-ofile'']" 102 "bytes ''ile''" 100]
    by (simp add: opts_start_def uc_def del: getopt_calls.simps replicate_Suc)
qed

end
