(* ===== verification/Mv_Stream.thy ===== *)
theory Mv_Stream
  imports Mv_Posix
begin

text \<open>
  The streams of \<^verbatim>\<open>c/rt/stdio.c\<close>. A \<^verbatim>\<open>FILE\<close> is a record, kept in a store under the number that stands
  for its pointer: 0 is the null pointer, 1, 2 and 3 are \<open>stdin\<close>, \<open>stdout\<close> and \<open>stderr\<close>. A pointer
  with no record is treated as null.

  The buffers are byte lists: \<open>wbuf\<close> holds the bytes that wait for the flush in a block of \<open>wcap\<close>
  bytes (0 when there is none yet), \<open>rbuf\<close> the copy of a file opened for reading. The system calls
  are parameters, collected in a record of functions over the state of the kernel; \<open>k_room\<close> tells
  whether \<open>malloc\<close> or \<open>realloc\<close> gives a block of a size. A reading call answers with a count and the
  bytes it stored.
\<close>

section \<open>Streams and the calls they make\<close>

record stream =
  fd :: int
  smode :: u32
  eof :: bool
  error :: bool
  ungot :: int
  is_console :: bool
  path :: "u8 list"
  wbuf :: "u8 list"
  wcap :: nat
  rbuf :: "u8 list option"
  rpos :: nat

record 'w calls =
  k_open :: "u8 list \<Rightarrow> u32 \<Rightarrow> 'w \<Rightarrow> int \<times> 'w"
  k_close :: "int \<Rightarrow> 'w \<Rightarrow> int \<times> 'w"
  k_seek :: "int \<Rightarrow> int \<Rightarrow> int \<Rightarrow> 'w \<Rightarrow> int \<times> 'w"
  k_delete :: "u8 list \<Rightarrow> 'w \<Rightarrow> int \<times> 'w"
  k_rename :: "u8 list \<Rightarrow> u8 list \<Rightarrow> 'w \<Rightarrow> int \<times> 'w"
  k_stat :: "u8 list \<Rightarrow> 'w \<Rightarrow> (int \<times> nat) \<times> 'w"
  k_read :: "int \<Rightarrow> nat \<Rightarrow> 'w \<Rightarrow> (int \<times> u8 list) \<times> 'w"
  k_fread :: "u8 list \<Rightarrow> 'w \<Rightarrow> (int \<times> u8 list) \<times> 'w"
  k_fwrite :: "u8 list \<Rightarrow> u8 list \<Rightarrow> 'w \<Rightarrow> int \<times> 'w"
  k_stdin :: "'w \<Rightarrow> (int \<times> u8 list) \<times> 'w"
  k_write :: "int \<Rightarrow> u8 list \<Rightarrow> 'w \<Rightarrow> int \<times> 'w"
  k_print :: "u8 list \<Rightarrow> 'w \<Rightarrow> 'w"
  k_geterrno :: "'w \<Rightarrow> int \<times> 'w"
  k_room :: "nat \<Rightarrow> 'w \<Rightarrow> bool \<times> 'w"

text \<open>\<open>piped\<close> is the static buffer of standard input, None before the first read.\<close>

record 'w io =
  ierrno :: int
  files :: "nat \<rightharpoonup> stream"
  fresh :: nat
  piped :: "u8 list option"
  piped_pos :: nat
  ikern :: 'w

abbreviation (input) f_stdin :: nat where "f_stdin \<equiv> 1"
abbreviation (input) f_stdout :: nat where "f_stdout \<equiv> 2"
abbreviation (input) f_stderr :: nat where "f_stderr \<equiv> 3"

definition ENOMEM :: int where "ENOMEM = 12"
definition EIO :: int where "EIO = 5"
definition EOF :: int where "EOF = - 1"
definition OUT_CHUNK :: nat where "OUT_CHUNK = 256"
definition O_RDONLY :: u32 where "O_RDONLY = 0"
definition O_WRONLY :: u32 where "O_WRONLY = 1"
definition O_RDWR :: u32 where "O_RDWR = 2"
definition O_ACCMODE :: u32 where "O_ACCMODE = 3"
definition O_CREAT :: u32 where "O_CREAT = 0x40"
definition O_TRUNC :: u32 where "O_TRUNC = 0x200"

lemmas open_flags = O_RDONLY_def O_WRONLY_def O_RDWR_def O_ACCMODE_def O_CREAT_def O_TRUNC_def

definition console_out :: stream where
  "console_out = \<lparr>fd = 1, smode = O_WRONLY, eof = False, error = False, ungot = - 1, is_console = True,
     path = [], wbuf = [], wcap = 0, rbuf = None, rpos = 0\<rparr>"

definition console_err :: stream where
  "console_err = \<lparr>fd = 2, smode = O_WRONLY, eof = False, error = False, ungot = - 1, is_console = True,
     path = [], wbuf = [], wcap = 0, rbuf = None, rpos = 0\<rparr>"

definition console_in :: stream where
  "console_in = \<lparr>fd = 0, smode = O_RDONLY, eof = False, error = False, ungot = - 1, is_console = False,
     path = [], wbuf = [], wcap = 0, rbuf = None, rpos = 0\<rparr>"

definition io_start :: "'w \<Rightarrow> 'w io" where
  "io_start w = \<lparr>ierrno = 0, files = [1 \<mapsto> console_in, 2 \<mapsto> console_out, 3 \<mapsto> console_err], fresh = 4,
     piped = None, piped_pos = 0, ikern = w\<rparr>"

text \<open>Storing a record back, and the way the shims under a stream set \<^verbatim>\<open>errno\<close>.\<close>

definition upd :: "nat \<Rightarrow> stream \<Rightarrow> 'w io \<Rightarrow> 'w io" where
  "upd f s io = io\<lparr>files := (files io)(f \<mapsto> s)\<rparr>"

definition io_reason :: "'w calls \<Rightarrow> int \<Rightarrow> 'w io \<Rightarrow> 'w io" where
  "io_reason K dflt io =
     (let (e, w) = k_geterrno K (ikern io); io = io\<lparr>ikern := w\<rparr>;
          io = (if e > 0 then io\<lparr>ierrno := e\<rparr> else io)
      in if ierrno io = 0 then io\<lparr>ierrno := dflt\<rparr> else io)"

section \<open>The console\<close>

text \<open>The translation loop: \<open>crlf\<close> is the 512-byte buffer, filled so far.\<close>

fun crlf_loop :: "u8 list \<Rightarrow> u8 list \<Rightarrow> u8 list" where
  "crlf_loop [] crlf = crlf"
| "crlf_loop (c # s) crlf =
     (if c = 10 \<and> length crlf + 1 < OUT_CHUNK * 2 then crlf_loop s (crlf @ [13, 10])
      else if length crlf < OUT_CHUNK * 2 - 1 then crlf_loop s (crlf @ [c])
      else crlf_loop s crlf)"

definition console_write :: "'w calls \<Rightarrow> u8 list \<Rightarrow> 'w io \<Rightarrow> 'w io" where
  "console_write K s io =
     (let crlf = crlf_loop s []; k = length crlf; (r, w) = k_write K 1 crlf (ikern io)
      in if r \<noteq> int k then io\<lparr>ikern := k_print K crlf w\<rparr> else io\<lparr>ikern := w\<rparr>)"

section \<open>Opening and closing\<close>

definition fileno :: "nat \<Rightarrow> 'w io \<Rightarrow> int" where
  "fileno f io = (case files io f of None \<Rightarrow> - 1 | Some s \<Rightarrow> fd s)"

definition stream_new :: "'w calls \<Rightarrow> int \<Rightarrow> u32 \<Rightarrow> 'w io \<Rightarrow> nat \<times> 'w io" where
  "stream_new K d mode io =
     (let (ok, w) = k_room K 308 (ikern io); io = io\<lparr>ikern := w\<rparr>
      in if \<not> ok then (0, io\<lparr>ierrno := ENOMEM\<rparr>)
         else let f = fresh io
              in (f, upd f \<lparr>fd = d, smode = mode, eof = False, error = False, ungot = - 1, is_console = False,
                            path = [], wbuf = [], wcap = 0, rbuf = None, rpos = 0\<rparr> (io\<lparr>fresh := f + 1\<rparr>)))"

text \<open>The open flags of a mode string and whether it appends; None for a mode it does not know.\<close>

definition mode_flags :: "u8 list \<Rightarrow> (u32 \<times> bool) option" where
  "mode_flags mode =
     (if char_at mode 0 = ch CHR ''r'' then Some (if char_at mode 1 = 43 then O_RDWR else O_RDONLY, False)
      else if char_at mode 0 = ch CHR ''w''
      then Some ((if char_at mode 1 = 43 then O_RDWR else O_WRONLY) OR O_CREAT OR O_TRUNC, False)
      else if char_at mode 0 = ch CHR ''a''
      then Some ((if char_at mode 1 = 43 then O_RDWR else O_WRONLY) OR O_CREAT, True)
      else None)"

section \<open>Writing\<close>

text \<open>The collecting loop: the bytes still to store and the number stored.\<close>

fun collect :: "'w calls \<Rightarrow> nat \<Rightarrow> u8 list \<Rightarrow> nat \<Rightarrow> 'w io \<Rightarrow> nat \<times> 'w io" where
  "collect K f [] done io = (done, io)"
| "collect K f (c # cs) done io =
     (case files io f of
        None \<Rightarrow> (done, io)
      | Some s \<Rightarrow>
          if length (wbuf s) = wcap s then
            (let bigger = (if wcap s = 0 then 1024 else wcap s * 2); (ok, w) = k_room K bigger (ikern io);
                 io = io\<lparr>ikern := w\<rparr>
             in if \<not> ok then (done, upd f (s\<lparr>error := True\<rparr>) (io\<lparr>ierrno := ENOMEM\<rparr>))
                else collect K f cs (Suc done) (upd f (s\<lparr>wcap := bigger, wbuf := wbuf s @ [c]\<rparr>) io))
          else collect K f cs (Suc done) (upd f (s\<lparr>wbuf := wbuf s @ [c]\<rparr>) io))"

definition fwrite :: "'w calls \<Rightarrow> u8 list \<Rightarrow> u32 \<Rightarrow> u32 \<Rightarrow> nat \<Rightarrow> 'w io \<Rightarrow> nat \<times> 'w io" where
  "fwrite K buf sz cnt f io =
     (case files io f of
        None \<Rightarrow> (0, io)
      | Some s \<Rightarrow>
          if sz = 0 \<or> cnt = 0 then (0, io)
          else let want = unat (sz * cnt)
               in if is_console s then (unat cnt, console_write K (take want buf) io)
                  else let (done, io) = collect K f (take want buf) 0 io in (done div unat sz, io))"

definition fflush :: "'w calls \<Rightarrow> nat \<Rightarrow> 'w io \<Rightarrow> int \<times> 'w io" where
  "fflush K f io =
     (case files io f of
        None \<Rightarrow> (0, io)
      | Some s \<Rightarrow>
          if wcap s = 0 \<or> wbuf s = [] then (0, io)
          else if is_console s \<or> path s = [] then (EOF, upd f (s\<lparr>error := True\<rparr>) io)
          else let (r, w) = k_fwrite K (path s) (wbuf s) (ikern io); io = io\<lparr>ikern := w\<rparr>
               in if r < 0 then (EOF, upd f (s\<lparr>error := True\<rparr>) (io\<lparr>ierrno := EIO\<rparr>))
                  else (0, upd f (s\<lparr>wbuf := []\<rparr>) io))"

text \<open>The copy of the file that a stream opened for reading takes, and the old bytes that a stream
  opened for appending carries along.\<close>

definition load_copy :: "'w calls \<Rightarrow> u8 list \<Rightarrow> nat \<Rightarrow> stream \<Rightarrow> 'w io \<Rightarrow> 'w io" where
  "load_copy K p f s io =
     (let ((r, sz), w) = k_stat K p (ikern io); io = io\<lparr>ikern := w\<rparr>
      in if r < 0 then io_reason K ENOENT io
         else let (ok, w) = k_room K (sz + 1) (ikern io); io = io\<lparr>ikern := w\<rparr>
              in if \<not> ok then io
                 else let ((n_got, copy), w) = k_fread K p (ikern io); io = io\<lparr>ikern := w\<rparr>
                      in upd f (s\<lparr>rbuf := Some (if n_got > 0 then take (nat n_got) copy else []), rpos := 0\<rparr>) io)"

definition carry_old :: "'w calls \<Rightarrow> u8 list \<Rightarrow> nat \<Rightarrow> 'w io \<Rightarrow> 'w io" where
  "carry_old K p f io =
     (let ((n_got, old), w) = k_fread K p (ikern io); io = io\<lparr>ikern := w\<rparr>
      in if n_got > 0 then snd (fwrite K old 1 (word_of_int n_got) f io) else io)"

definition fopen :: "'w calls \<Rightarrow> u8 list \<Rightarrow> u8 list \<Rightarrow> 'w io \<Rightarrow> nat \<times> 'w io" where
  "fopen K p mode io =
     (case mode_flags mode of
        None \<Rightarrow> (0, io\<lparr>ierrno := EINVAL\<rparr>)
      | Some (flags, appending) \<Rightarrow>
          let (d, w) = k_open K p flags (ikern io); io = io\<lparr>ikern := w\<rparr>
          in if d < 0 then (0, io_reason K ENOENT io)
             else let (f, io) = stream_new K d (flags AND O_ACCMODE) io
                  in if f = 0 then
                       (let (r, w) = k_close K d (ikern io); io = io\<lparr>ikern := w\<rparr>
                        in (0, if r < 0 then io_reason K EBADF io else io))
                     else
                       (let s = (the (files io f))\<lparr>path := take 259 p\<rparr>; io = upd f s io;
                            io = (if flags AND O_ACCMODE \<noteq> O_WRONLY then load_copy K p f s io else io);
                            io = (if appending then carry_old K p f io else io)
                        in (f, io)))"

definition fdopen :: "'w calls \<Rightarrow> int \<Rightarrow> u8 list \<Rightarrow> 'w io \<Rightarrow> nat \<times> 'w io" where
  "fdopen K d mode io =
     (case mode_flags mode of
        None \<Rightarrow> (0, io\<lparr>ierrno := EBADF\<rparr>)
      | Some (flags, appending) \<Rightarrow>
          if d < 0 then (0, io\<lparr>ierrno := EBADF\<rparr>) else stream_new K d (flags AND O_ACCMODE) io)"

definition fclose :: "'w calls \<Rightarrow> nat \<Rightarrow> 'w io \<Rightarrow> int \<times> 'w io" where
  "fclose K f io =
     (case files io f of
        None \<Rightarrow> (EOF, io)
      | Some s \<Rightarrow>
          if f = f_stdin \<or> f = f_stdout \<or> f = f_stderr then (EOF, upd f (s\<lparr>error := True\<rparr>) io)
          else let (r, io) = fflush K f io; rc = (if r = 0 then 0 else - 1 :: int);
                   (rc, io) = (if fd s \<ge> 0 then
                                 (let (r, w) = k_close K (fd s) (ikern io); io = io\<lparr>ikern := w\<rparr>
                                  in if r < 0 then (- 1, io_reason K EBADF io) else (rc, io))
                               else (rc, io))
               in (if rc = 0 then 0 else EOF, io\<lparr>files := (files io)(f := None)\<rparr>))"

section \<open>Reading\<close>

text \<open>The loop over \<^verbatim>\<open>SYS_READ\<close>: what it stored, and the two flags it may set.\<close>

function read_loop ::
    "'w calls \<Rightarrow> int \<Rightarrow> nat \<Rightarrow> u8 list \<Rightarrow> 'w \<Rightarrow> u8 list \<times> bool \<times> bool \<times> 'w" where
  "read_loop K d want dst w =
     (if length dst < want then
        (case k_read K d (want - length dst) w of ((n_got, text), w) \<Rightarrow>
           if n_got < 0 then (dst, False, True, w)
           else if n_got = 0 \<or> text = [] then (dst, True, False, w)
           else read_loop K d want (dst @ text) w)
      else (dst, False, False, w))"
  by auto
termination by (relation "measure (\<lambda>(K, d, want, dst, w). want - length dst)") (auto simp: neq_Nil_conv)

declare read_loop.simps [simp del]

text \<open>The bytes stored at the destination, the count returned and the state.\<close>

definition fread :: "'w calls \<Rightarrow> u32 \<Rightarrow> u32 \<Rightarrow> nat \<Rightarrow> 'w io \<Rightarrow> u8 list \<times> nat \<times> 'w io" where
  "fread K sz cnt f io =
     (case files io f of
        None \<Rightarrow> ([], 0, io)
      | Some s \<Rightarrow>
          if sz = 0 \<or> cnt = 0 then ([], 0, io)
          else
            (let want = unat (sz * cnt);
                 (dst, s) = (if ungot s \<ge> 0 \<and> 0 < want then ([word_of_int (ungot s)], s\<lparr>ungot := - 1\<rparr>)
                             else ([], s))
             in case rbuf s of
                  Some text \<Rightarrow>
                    (let some = take (want - length dst) (drop (rpos s) text);
                         pos = rpos s + length some;
                         s = s\<lparr>rpos := pos, eof := (if pos \<ge> length text then True else eof s)\<rparr>
                     in (dst @ some, length (dst @ some) div unat sz, upd f s io))
                | None \<Rightarrow>
                    if fd s = 0 then
                      (let io = (case piped io of
                                   Some _ \<Rightarrow> io
                                 | None \<Rightarrow> (case k_stdin K (ikern io) of ((n_got, text), w) \<Rightarrow>
                                     io\<lparr>piped := Some (if n_got < 0 then [] else take (nat n_got) text), piped_pos := 0,
                                        ikern := w\<rparr>));
                           some = take (want - length dst) (drop (piped_pos io) (the (piped io)));
                           io = io\<lparr>piped_pos := piped_pos io + length some\<rparr>;
                           s = (if length (dst @ some) < want then s\<lparr>eof := True\<rparr> else s)
                       in (dst @ some, length (dst @ some) div unat sz, upd f s io))
                    else
                      (case read_loop K (fd s) want dst (ikern io) of (dst, e, bad, w) \<Rightarrow>
                         (dst, length dst div unat sz,
                          upd f (s\<lparr>eof := (e \<or> eof s), error := (bad \<or> error s)\<rparr>) (io\<lparr>ikern := w\<rparr>)))))"

definition fgetc :: "'w calls \<Rightarrow> nat \<Rightarrow> 'w io \<Rightarrow> int \<times> 'w io" where
  "fgetc K f io =
     (case files io f of
        None \<Rightarrow> (EOF, io)
      | Some s \<Rightarrow>
          if ungot s \<ge> 0 then (ungot s, upd f (s\<lparr>ungot := - 1\<rparr>) io)
          else (case fread K 1 1 f io of (dst, n, io) \<Rightarrow> if n \<noteq> 1 then (EOF, io) else (uc (hd dst), io)))"

definition getc :: "'w calls \<Rightarrow> nat \<Rightarrow> 'w io \<Rightarrow> int \<times> 'w io" where
  "getc K f io = fgetc K f io"

definition getchar :: "'w calls \<Rightarrow> 'w io \<Rightarrow> int \<times> 'w io" where
  "getchar K io = fgetc K f_stdin io"

definition ungetc :: "int \<Rightarrow> nat \<Rightarrow> 'w io \<Rightarrow> int \<times> 'w io" where
  "ungetc c f io =
     (case files io f of
        None \<Rightarrow> (EOF, io)
      | Some s \<Rightarrow>
          if c = EOF then (EOF, io)
          else let b = uc (word_of_int c) in (b, upd f (s\<lparr>ungot := b, eof := False\<rparr>) io))"

text \<open>The loop of \<open>fgets\<close> over a source of characters: at most \<open>n\<close> of them, up to a newline.\<close>

fun fgets_loop :: "('s \<Rightarrow> int \<times> 's) \<Rightarrow> nat \<Rightarrow> 's \<Rightarrow> u8 list \<times> 's" where
  "fgets_loop get 0 s = ([], s)"
| "fgets_loop get (Suc n) s =
     (let (c, s) = get s
      in if c = EOF then ([], s)
         else if c = 10 then ([word_of_int c], s)
         else let (rest, s) = fgets_loop get n s in (word_of_int c # rest, s))"

text \<open>The line left in the buffer before its NUL; None for a null pointer.\<close>

definition fgets :: "'w calls \<Rightarrow> int \<Rightarrow> nat \<Rightarrow> 'w io \<Rightarrow> u8 list option \<times> 'w io" where
  "fgets K sz f io =
     (if sz \<le> 0 \<or> files io f = None then (None, io)
      else let (line, io) = fgets_loop (fgetc K f) (nat (sz - 1)) io
           in (if line = [] then None else Some line, io))"

text \<open>The loop of \<open>getdelim\<close>: the bytes read so far and the capacity of the line buffer. The result is
  the line and its capacity, Inl for a failed \<open>realloc\<close>; None for a stream that never ends.\<close>

partial_function (option) delim_loop ::
    "('s \<Rightarrow> int \<times> 's) \<Rightarrow> (nat \<Rightarrow> 's \<Rightarrow> bool \<times> 's) \<Rightarrow> int \<Rightarrow> u8 list \<Rightarrow> nat \<Rightarrow> 's \<Rightarrow>
     ((int + u8 list \<times> nat) \<times> 's) option" where
  "delim_loop get room delim used n s =
     (let (c, s) = get s
      in if c = EOF then (if used = [] then Some (Inl 0, s) else Some (Inr (used, n), s))
         else let (ok, s, n') = (if length used + 1 \<ge> n
                                 then (let (ok, s) = room (n * 2) s in (ok, s, n * 2)) else (True, s, n))
              in if \<not> ok then Some (Inl ENOMEM, s)
                 else if c = delim then Some (Inr (used @ [word_of_int c], n'), s)
                 else delim_loop get room delim (used @ [word_of_int c]) n' s)"

text \<open>The caller's line buffer is given by its capacity, 0 when there is none yet. The result is the
  line, its length and the capacity, or None for the value -1.\<close>

definition getdelim ::
    "'w calls \<Rightarrow> nat \<Rightarrow> int \<Rightarrow> nat \<Rightarrow> 'w io \<Rightarrow> ((u8 list \<times> nat) option \<times> 'w io) option" where
  "getdelim K n delim f io =
     (if files io f = None then Some (None, io\<lparr>ierrno := EINVAL\<rparr>)
      else let (ok, w) = (if n = 0 then k_room K 64 (ikern io) else (True, ikern io)); io = io\<lparr>ikern := w\<rparr>
           in if \<not> ok then Some (None, io\<lparr>ierrno := ENOMEM\<rparr>)
              else map_option (\<lambda>(r, io). case r of
                     Inl e \<Rightarrow> (None, if e = 0 then io else io\<lparr>ierrno := e\<rparr>)
                   | Inr line \<Rightarrow> (Some line, io))
                 (delim_loop (fgetc K f) (\<lambda>b io. let (ok, w) = k_room K b (ikern io) in (ok, io\<lparr>ikern := w\<rparr>))
                    delim [] (if n = 0 then 64 else n) io))"

definition getline :: "'w calls \<Rightarrow> nat \<Rightarrow> nat \<Rightarrow> 'w io \<Rightarrow> ((u8 list \<times> nat) option \<times> 'w io) option" where
  "getline K n f io = getdelim K n 10 f io"

section \<open>Characters and strings out\<close>

definition fputc :: "'w calls \<Rightarrow> int \<Rightarrow> nat \<Rightarrow> 'w io \<Rightarrow> int \<times> 'w io" where
  "fputc K c f io =
     (let (n, io) = fwrite K [word_of_int c] 1 1 f io in (if n \<noteq> 1 then EOF else uc (word_of_int c), io))"

definition fputs :: "'w calls \<Rightarrow> u8 list \<Rightarrow> nat \<Rightarrow> 'w io \<Rightarrow> int \<times> 'w io" where
  "fputs K s f io =
     (let (n, io) = fwrite K s 1 (of_nat (length s)) f io in (if n \<noteq> length s then EOF else 0, io))"

definition puts :: "'w calls \<Rightarrow> u8 list \<Rightarrow> 'w io \<Rightarrow> int \<times> 'w io" where
  "puts K s io =
     (let (r, io) = fputs K s f_stdout io
      in if r = EOF then (EOF, io)
         else let (r, io) = fputc K 10 f_stdout io in (if r = EOF then EOF else 1, io))"

definition putchar :: "'w calls \<Rightarrow> int \<Rightarrow> 'w io \<Rightarrow> int \<times> 'w io" where
  "putchar K c io =
     (let (r, io) = fputc K c f_stdout io in (if r = EOF then EOF else uc (word_of_int c), io))"

section \<open>Position and status\<close>

definition io_lseek :: "'w calls \<Rightarrow> int \<Rightarrow> int \<Rightarrow> int \<Rightarrow> 'w io \<Rightarrow> int \<times> 'w io" where
  "io_lseek K d offset whence io =
     (let (r, w) = k_seek K d offset whence (ikern io); io = io\<lparr>ikern := w\<rparr>
      in if r < 0 then (- 1, io_reason K EINVAL io) else (r, io))"

definition fseek :: "'w calls \<Rightarrow> nat \<Rightarrow> int \<Rightarrow> int \<Rightarrow> 'w io \<Rightarrow> int \<times> 'w io" where
  "fseek K f offset whence io =
     (case files io f of
        None \<Rightarrow> (- 1, io)
      | Some s \<Rightarrow>
          let s = s\<lparr>ungot := - 1, eof := False\<rparr>; io = upd f s io
          in case rbuf s of
               Some text \<Rightarrow>
                 (let target = (if whence = 0 then offset else if whence = 1 then int (rpos s) + offset
                                else int (length text) + offset)
                  in if target < 0 \<or> target > int (length text) then (- 1, io\<lparr>ierrno := EINVAL\<rparr>)
                     else (0, upd f (s\<lparr>rpos := nat target\<rparr>) io))
             | None \<Rightarrow>
                 (let (r, io) = io_lseek K (fd s) offset whence io
                  in if r < 0 then (- 1, upd f (s\<lparr>error := True\<rparr>) io) else (0, io)))"

definition ftell :: "'w calls \<Rightarrow> nat \<Rightarrow> 'w io \<Rightarrow> int \<times> 'w io" where
  "ftell K f io =
     (case files io f of
        None \<Rightarrow> (- 1, io)
      | Some s \<Rightarrow> (case rbuf s of Some text \<Rightarrow> (int (rpos s), io) | None \<Rightarrow> io_lseek K (fd s) 0 1 io))"

definition rewind :: "'w calls \<Rightarrow> nat \<Rightarrow> 'w io \<Rightarrow> 'w io" where
  "rewind K f io = (if files io f = None then io else snd (fseek K f 0 0 io))"

definition feof :: "nat \<Rightarrow> 'w io \<Rightarrow> bool" where
  "feof f io = (case files io f of None \<Rightarrow> False | Some s \<Rightarrow> eof s)"

definition ferror :: "nat \<Rightarrow> 'w io \<Rightarrow> bool" where
  "ferror f io = (case files io f of None \<Rightarrow> False | Some s \<Rightarrow> error s)"

definition clearerr :: "nat \<Rightarrow> 'w io \<Rightarrow> 'w io" where
  "clearerr f io =
     (case files io f of None \<Rightarrow> io | Some s \<Rightarrow> upd f (s\<lparr>eof := False, error := False\<rparr>) io)"

definition remove_path :: "'w calls \<Rightarrow> u8 list \<Rightarrow> 'w io \<Rightarrow> int \<times> 'w io" where
  "remove_path K p io =
     (let (r, w) = k_delete K p (ikern io); io = io\<lparr>ikern := w\<rparr>
      in if r < 0 then (- 1, io_reason K ENOENT io) else (0, io))"

definition rename :: "'w calls \<Rightarrow> u8 list \<Rightarrow> u8 list \<Rightarrow> 'w io \<Rightarrow> int \<times> 'w io" where
  "rename K from to io =
     (let (r, w) = k_rename K from to (ikern io) in (if r < 0 then - 1 else 0, io\<lparr>ikern := w\<rparr>))"

text \<open>\<open>perror\<close> builds its line in 96 bytes: 64 of the prefix, the message up to 90.\<close>

definition perror_line :: "u8 list option \<Rightarrow> int \<Rightarrow> u8 list" where
  "perror_line prefix e =
     (let start = (case prefix of None \<Rightarrow> [] | Some p \<Rightarrow> if p = [] then [] else take 64 p @ [58, 32])
      in start @ take (90 - length start) (strerror e) @ [10])"

definition perror :: "'w calls \<Rightarrow> u8 list option \<Rightarrow> 'w io \<Rightarrow> 'w io" where
  "perror K prefix io =
     (let line = perror_line prefix (ierrno io) in snd (fwrite K line 1 (of_nat (length line)) f_stderr io))"

section \<open>The store of streams\<close>

lemma files_upd [simp]: "files (upd f s io) = (files io)(f \<mapsto> s)"
  by (simp add: upd_def)

lemma upd_fields [simp]: "ierrno (upd f s io) = ierrno io" "ikern (upd f s io) = ikern io"
    "fresh (upd f s io) = fresh io" "piped (upd f s io) = piped io" "piped_pos (upd f s io) = piped_pos io"
  by (simp_all add: upd_def)

lemma files_io_reason [simp]: "files (io_reason K e io) = files io" "fresh (io_reason K e io) = fresh io"
    "piped (io_reason K e io) = piped io" "piped_pos (io_reason K e io) = piped_pos io"
  by (simp_all add: io_reason_def Let_def split: prod.splits)

lemma console_write_fields [simp]: "files (console_write K s io) = files io"
    "fresh (console_write K s io) = fresh io" "ierrno (console_write K s io) = ierrno io"
    "piped (console_write K s io) = piped io" "piped_pos (console_write K s io) = piped_pos io"
  by (simp_all add: console_write_def Let_def split: prod.splits)

lemma uc_wi [simp]: "uc (word_of_int (uc x)) = uc x" "word_of_int (uc x) = x"
  by (simp_all add: uc_def)

section \<open>A source of characters\<close>

text \<open>What \<open>fgets\<close> and \<open>getdelim\<close> need of the function they read with: it delivers the bytes that
  are left, one by one, and -1 when there are none.\<close>

fun first_line :: "nat \<Rightarrow> u8 list \<Rightarrow> u8 list" where
  "first_line 0 xs = []"
| "first_line (Suc n) [] = []"
| "first_line (Suc n) (x # xs) = (if x = 10 then [x] else x # first_line n xs)"

fun to_delim :: "int \<Rightarrow> u8 list \<Rightarrow> u8 list" where
  "to_delim d [] = []"
| "to_delim d (x # xs) = (if uc x = d then [x] else x # to_delim d xs)"

locale byte_source =
  fixes get :: "'s \<Rightarrow> int \<times> 's"
    and left :: "'s \<Rightarrow> u8 list"
    and ok :: "'s \<Rightarrow> bool"
  assumes at_end: "ok s \<Longrightarrow> left s = [] \<Longrightarrow> \<exists>s'. get s = (EOF, s') \<and> ok s' \<and> left s' = []"
    and next_byte: "ok s \<Longrightarrow> left s = x # xs \<Longrightarrow> \<exists>s'. get s = (uc x, s') \<and> ok s' \<and> left s' = xs"
begin

lemma fgets_loop_spec:
  "ok s \<Longrightarrow> \<exists>s'. fgets_loop get n s = (first_line n (left s), s') \<and> ok s' \<and>
     left s' = drop (length (first_line n (left s))) (left s)"
proof (induction n arbitrary: s)
  case (Suc n)
  show ?case
  proof (cases "left s")
    case Nil
    then show ?thesis using at_end [OF Suc.prems] by auto
  next
    case (Cons x xs)
    obtain s1 where s1: "get s = (uc x, s1)" "ok s1" "left s1 = xs" using next_byte [OF Suc.prems Cons] by blast
    have ne: "uc x \<noteq> EOF" using uc_range(1) [of x] by (simp add: EOF_def)
    have nl: "uc x = 10 \<longleftrightarrow> x = 10" using uc_inject [of x 10] by (simp add: uc_def)
    show ?thesis using Suc.IH [OF s1(2)] s1 ne nl Cons by auto
  qed
qed simp

lemma delim_loop_spec:
  assumes room: "\<And>b s. ok s \<Longrightarrow> \<exists>s'. room b s = (True, s') \<and> ok s' \<and> left s' = left s"
  shows "ok s \<Longrightarrow> used \<noteq> [] \<or> left s \<noteq> [] \<Longrightarrow> \<exists>n' s'. delim_loop get room d used n s = Some (Inr (used @ to_delim d (left s), n'), s') \<and>
     ok s' \<and> left s' = drop (length (to_delim d (left s))) (left s)"
proof (induction "left s" arbitrary: s used n)
  case Nil
  then show ?case using at_end [OF Nil.prems(1)] by (subst delim_loop.simps) (auto simp: Let_def)
next
  case (Cons x xs)
  obtain s1 where s1: "get s = (uc x, s1)" "ok s1" "left s1 = xs"
    using next_byte [OF Cons.prems(1) Cons.hyps(2) [symmetric]] by blast
  have ne: "uc x \<noteq> EOF" using uc_range(1) [of x] by (simp add: EOF_def)
  define r where "r = (if length used + 1 \<ge> n then (let (ok, s) = room (n * 2) s1 in (ok, s, n * 2)) else (True, s1, n))"
  obtain s2 n' where r: "r = (True, s2, n')" "ok s2" "left s2 = xs"
    using room [OF s1(2), of "n * 2"] s1 unfolding r_def by (cases "length used + 1 \<ge> n") auto
  have "delim_loop get room d used n s =
      (if uc x = d then Some (Inr (used @ [x], n'), s2) else delim_loop get room d (used @ [x]) n' s2)"
    using s1(1) ne r(1) unfolding r_def by (subst delim_loop.simps) (auto simp: Let_def)
  then show ?case using Cons.hyps(1) [of s2 "used @ [x]" n'] r Cons.hyps(2) [symmetric] by auto
qed

end

text \<open>The bytes a stream still has to deliver: the pushed-back one, then the rest of its copy of the
  file or of the piped input.\<close>

definition pushed :: "stream \<Rightarrow> u8 list" where
  "pushed s = (if ungot s \<ge> 0 then [word_of_int (ungot s)] else [])"

definition stdin_text :: "'w calls \<Rightarrow> 'w io \<Rightarrow> u8 list" where
  "stdin_text K io =
     (case piped io of
        Some text \<Rightarrow> drop (piped_pos io) text
      | None \<Rightarrow> (case k_stdin K (ikern io) of ((n_got, text), w) \<Rightarrow> if n_got < 0 then [] else take (nat n_got) text))"

definition unread :: "'w calls \<Rightarrow> nat \<Rightarrow> 'w io \<Rightarrow> u8 list" where
  "unread K f io =
     (case files io f of
        None \<Rightarrow> []
      | Some s \<Rightarrow> pushed s @ (case rbuf s of Some text \<Rightarrow> drop (rpos s) text | None \<Rightarrow> stdin_text K io))"

definition readable :: "nat \<Rightarrow> 'w io \<Rightarrow> bool" where
  "readable f io =
     (case files io f of
        None \<Rightarrow> False
      | Some s \<Rightarrow> (rbuf s \<noteq> None \<or> fd s = 0) \<and> - 1 \<le> ungot s \<and> ungot s \<le> 255)"

lemma byte_cases: "(c :: int) = - 1 \<or> (\<exists>b :: u8. c = uc b)" if "- 1 \<le> c" "c \<le> 255"
proof (cases "c = - 1")
  case False
  then have "uc (word_of_int c) = c" using that by (simp add: uc_def uint_word_of_int)
  then show ?thesis by metis
qed simp

lemma fgetc_pushed:
  assumes "files io f = Some s" "ungot s = uc b"
  shows "fgetc K f io = (uc b, upd f (s\<lparr>ungot := - 1\<rparr>) io)"
  using assms uc_range(1) [of b] by (simp add: fgetc_def)

lemma fgetc_copy:
  assumes "files io f = Some s" "ungot s < 0" "rbuf s = Some tx"
  shows "drop (rpos s) tx = [] \<Longrightarrow> fgetc K f io = (EOF, upd f (s\<lparr>eof := True\<rparr>) io)"
    and "drop (rpos s) tx = x # xs \<Longrightarrow> fgetc K f io =
      (uc x, upd f (s\<lparr>rpos := rpos s + 1, eof := (if rpos s + 1 \<ge> length tx then True else eof s)\<rparr>) io)"
  using assms by (simp_all add: fgetc_def fread_def Let_def)

text \<open>The piped input once it has been asked for.\<close>

definition loaded :: "'w calls \<Rightarrow> 'w io \<Rightarrow> 'w io" where
  "loaded K io = (case piped io of
     Some tx \<Rightarrow> io
   | None \<Rightarrow> (case k_stdin K (ikern io) of ((n_got, tx), w) \<Rightarrow>
       io\<lparr>piped := Some (if n_got < 0 then [] else take (nat n_got) tx), piped_pos := 0, ikern := w\<rparr>))"

lemma loaded_text: "\<exists>tx. piped (loaded K io) = Some tx \<and> drop (piped_pos (loaded K io)) tx = stdin_text K io"
  by (auto simp: loaded_def stdin_text_def split: option.splits prod.splits)

lemma loaded_files [simp]: "files (loaded K io) = files io"
  by (auto simp: loaded_def split: option.splits prod.splits)

lemma fgetc_stdin:
  assumes "files io f = Some s" "ungot s < 0" "rbuf s = None" "fd s = 0"
  shows "stdin_text K io = [] \<Longrightarrow> fgetc K f io = (EOF, upd f (s\<lparr>eof := True\<rparr>) (loaded K io))"
    and "stdin_text K io = x # xs \<Longrightarrow>
      fgetc K f io = (uc x, upd f s ((loaded K io)\<lparr>piped_pos := piped_pos (loaded K io) + 1\<rparr>))"
proof -
  obtain tx where t: "piped (loaded K io) = Some tx" "drop (piped_pos (loaded K io)) tx = stdin_text K io"
    using loaded_text by blast
  have u: "(case piped io of Some _ \<Rightarrow> io | None \<Rightarrow> (case k_stdin K (ikern io) of ((n_got, tx), w) \<Rightarrow>
      io\<lparr>piped := Some (if n_got < 0 then [] else take (nat n_got) tx), piped_pos := 0, ikern := w\<rparr>)) = loaded K io"
    by (simp add: loaded_def)
  show "fgetc K f io = (EOF, upd f (s\<lparr>eof := True\<rparr>) (loaded K io))" if "stdin_text K io = []"
    using assms t that unfolding fgetc_def fread_def u by (simp add: Let_def)
  show "fgetc K f io = (uc x, upd f s ((loaded K io)\<lparr>piped_pos := piped_pos (loaded K io) + 1\<rparr>))"
    if "stdin_text K io = x # xs"
  proof -
    have "length (drop (piped_pos (loaded K io)) tx) = Suc (length xs)" using t(2) that by simp
    then have "min (length tx - piped_pos (loaded K io)) (Suc 0) = Suc 0" by simp
    then show ?thesis using assms t that unfolding fgetc_def fread_def u by (simp add: Let_def)
  qed
qed

lemma drop_eq_Cons: "drop n xs = y # ys \<Longrightarrow> drop (Suc n) xs = ys"
  by (metis drop_Suc list.sel(3) tl_drop)

lemma stdin_text_upd [simp]: "stdin_text K (upd f s io) = stdin_text K io"
  by (simp add: stdin_text_def split: option.splits)

lemma stdin_text_loaded: "stdin_text K (loaded K io) = stdin_text K io"
  by (auto simp: loaded_def stdin_text_def split: option.splits prod.splits)

lemma stdin_text_step:
  assumes "stdin_text K io = x # xs"
  shows "stdin_text K ((loaded K io)\<lparr>piped_pos := piped_pos (loaded K io) + 1\<rparr>) = xs"
proof -
  obtain tx where t: "piped (loaded K io) = Some tx" "drop (piped_pos (loaded K io)) tx = x # xs"
    using loaded_text [of K io] assms by auto
  then show ?thesis using drop_eq_Cons [OF t(2)] by (simp add: stdin_text_def)
qed

lemma fgetc_next:
  assumes "readable f io" "unread K f io = x # xs"
  shows "\<exists>io'. fgetc K f io = (uc x, io') \<and> readable f io' \<and> unread K f io' = xs"
proof -
  obtain s where s: "files io f = Some s" "rbuf s \<noteq> None \<or> fd s = 0" "- 1 \<le> ungot s" "ungot s \<le> 255"
    using assms(1) by (auto simp: readable_def split: option.splits)
  consider (pushed) b where "ungot s = uc b" | (copy) tx where "ungot s = - 1" "rbuf s = Some tx"
    | (stdin) "ungot s = - 1" "rbuf s = None" "fd s = 0"
    using byte_cases [OF s(3,4)] s(2) by (cases "rbuf s") auto
  then show ?thesis
  proof cases
    case pushed
    then show ?thesis
      using fgetc_pushed [OF s(1) pushed] assms(2) s uc_range(1) [of b]
      by (auto simp: unread_def pushed_def readable_def split: option.splits)
  next
    case copy
    then have d: "drop (rpos s) tx = x # xs" using assms(2) s(1) by (simp add: unread_def pushed_def)
    then show ?thesis
      using fgetc_copy(2) [OF s(1) _ copy(2) d, of K] copy drop_eq_Cons [OF d]
      by (auto simp: unread_def pushed_def readable_def)
  next
    case stdin
    then have d: "stdin_text K io = x # xs" using assms(2) s(1) by (simp add: unread_def pushed_def)
    then show ?thesis
      using fgetc_stdin(2) [OF s(1) _ stdin(2,3) d] stdin stdin_text_step [OF d]
      by (auto simp: unread_def pushed_def readable_def)
  qed
qed

lemma fgetc_end:
  assumes "readable f io" "unread K f io = []"
  shows "\<exists>io'. fgetc K f io = (EOF, io') \<and> readable f io' \<and> unread K f io' = []"
proof -
  obtain s where s: "files io f = Some s" "rbuf s \<noteq> None \<or> fd s = 0" "- 1 \<le> ungot s" "ungot s \<le> 255"
    using assms(1) by (auto simp: readable_def split: option.splits)
  have u: "ungot s < 0" using assms(2) s(1) by (auto simp: unread_def pushed_def split: if_splits)
  show ?thesis
  proof (cases "rbuf s")
    case None
    then have d: "stdin_text K io = []" using assms(2) s(1) by (simp add: unread_def)
    then show ?thesis
      using fgetc_stdin(1) [OF s(1) u None _ d] s None u
      by (auto simp: unread_def pushed_def readable_def stdin_text_loaded)
  next
    case (Some tx)
    then have d: "drop (rpos s) tx = []" using assms(2) s(1) by (simp add: unread_def)
    then show ?thesis
      using fgetc_copy(1) [OF s(1) u Some d, of K] s Some u by (auto simp: unread_def pushed_def readable_def)
  qed
qed

interpretation rd_stream: byte_source "fgetc K f" "unread K f" "readable f"
  for K f
  by unfold_locales (auto intro: fgetc_next fgetc_end)


section \<open>Collecting and flushing\<close>

text \<open>What the collecting loop leaves of a stream: a prefix of the bytes, all of them unless a block
  was refused.\<close>

lemma collect_spec:
  assumes "files io f = Some s" "length (wbuf s) \<le> wcap s"
  shows "\<exists>n io' s'. collect K f cs d io = (d + n, io') \<and> n \<le> length cs \<and> files io' = (files io)(f \<mapsto> s') \<and>
    fresh io' = fresh io \<and> wbuf s' = wbuf s @ take n cs \<and> length (wbuf s') \<le> wcap s' \<and>
    (s' = s\<lparr>wbuf := wbuf s', wcap := wcap s', error := (error s \<or> n < length cs)\<rparr>) \<and>
    ierrno io' = (if n < length cs then ENOMEM else ierrno io)"
  using assms
proof (induction cs arbitrary: d io s)
  case Nil
  then show ?case by (intro exI [of _ 0] exI [of _ io] exI [of _ s]) auto
next
  case (Cons c cs)
  define full where "full = (length (wbuf s) = wcap s)"
  define bigger where "bigger = (if wcap s = 0 then 1024 else wcap s * 2)"
  obtain ok w where r: "k_room K bigger (ikern io) = (ok, w)" by fastforce
  have st: "collect K f (c # cs) d io =
      (if full then if \<not> ok then (d, upd f (s\<lparr>error := True\<rparr>) (io\<lparr>ikern := w, ierrno := ENOMEM\<rparr>))
         else collect K f cs (Suc d) (upd f (s\<lparr>wcap := bigger, wbuf := wbuf s @ [c]\<rparr>) (io\<lparr>ikern := w\<rparr>))
       else collect K f cs (Suc d) (upd f (s\<lparr>wbuf := wbuf s @ [c]\<rparr>) io))"
    using Cons.prems(1) r by (simp add: full_def bigger_def Let_def)
  show ?case
  proof (cases "full \<and> \<not> ok")
    case True
    then show ?thesis
      by (intro exI [of _ 0] exI [of _ "upd f (s\<lparr>error := True\<rparr>) (io\<lparr>ikern := w, ierrno := ENOMEM\<rparr>)"]
          exI [of _ "s\<lparr>error := True\<rparr>"]) (use st Cons.prems in auto)
  next
    case False
    define s1 where "s1 = (if full then s\<lparr>wcap := bigger, wbuf := wbuf s @ [c]\<rparr> else s\<lparr>wbuf := wbuf s @ [c]\<rparr>)"
    define io1 where "io1 = upd f s1 (if full then io\<lparr>ikern := w\<rparr> else io)"
    have c: "collect K f (c # cs) d io = collect K f cs (Suc d) io1"
      using st False by (auto simp: s1_def io1_def)
    have "files io1 f = Some s1" "length (wbuf s1) \<le> wcap s1"
      using Cons.prems(2) by (auto simp: io1_def s1_def full_def bigger_def)
    from Cons.IH [OF this, of "Suc d"] obtain n io' s' where i:
      "collect K f cs (Suc d) io1 = (Suc d + n, io')" "n \<le> length cs" "files io' = (files io1)(f \<mapsto> s')"
      "fresh io' = fresh io1" "wbuf s' = wbuf s1 @ take n cs" "length (wbuf s') \<le> wcap s'"
      "s' = s1\<lparr>wbuf := wbuf s', wcap := wcap s', error := (error s1 \<or> n < length cs)\<rparr>"
      "ierrno io' = (if n < length cs then ENOMEM else ierrno io1)" by blast
    have s1: "wbuf s1 = wbuf s @ [c]" "s1\<lparr>wbuf := a, wcap := b, error := e\<rparr> = s\<lparr>wbuf := a, wcap := b, error := e\<rparr>"
      "error s1 = error s" for a b e
      by (simp_all add: s1_def)
    have io1: "files io1 = (files io)(f \<mapsto> s1)" "fresh io1 = fresh io" "ierrno io1 = ierrno io"
      by (simp_all add: io1_def)
    show ?thesis
    proof (intro exI [of _ "Suc n"] exI [of _ io'] exI [of _ s'] conjI)
      show "s' = s\<lparr>wbuf := wbuf s', wcap := wcap s', error := (error s \<or> Suc n < length (c # cs))\<rparr>"
        using i(7) s1 by simp
    qed (use c i s1 io1 in simp_all)
  qed
qed

lemma fwrite_file:
  assumes "files io f = Some s" "length (wbuf s) \<le> wcap s" "\<not> is_console s" "length cs < 2 ^ 32"
  shows "\<exists>n io' s'. fwrite K cs 1 (of_nat (length cs)) f io = (n, io') \<and> n \<le> length cs \<and>
    files io' = (files io)(f \<mapsto> s') \<and> fresh io' = fresh io \<and> wbuf s' = wbuf s @ take n cs \<and>
    length (wbuf s') \<le> wcap s' \<and>
    s' = s\<lparr>wbuf := wbuf s', wcap := wcap s', error := (error s \<or> n < length cs)\<rparr> \<and>
    ierrno io' = (if n < length cs then ENOMEM else ierrno io)"
proof (cases "cs = []")
  case True
  then show ?thesis using assms by (intro exI [of _ 0] exI [of _ io] exI [of _ s]) (auto simp: fwrite_def)
next
  case False
  then have u: "unat (of_nat (length cs) :: u32) = length cs" "(of_nat (length cs) :: u32) \<noteq> 0"
    using assms(4) unat_of_nat_u32 [of "length cs"] by auto
  show ?thesis
    using collect_spec [OF assms(1,2), of K cs 0] assms(1,3) u
    by (simp add: fwrite_def)
qed

section \<open>Every sequence of stream calls keeps the records sound\<close>

definition stream_ok :: "stream \<Rightarrow> bool" where
  "stream_ok s \<longleftrightarrow> length (wbuf s) \<le> wcap s \<and> - 1 \<le> ungot s \<and> ungot s \<le> 255 \<and> length (path s) \<le> 259 \<and>
     (is_console s \<longrightarrow> wcap s = 0) \<and> (\<forall>tx. rbuf s = Some tx \<longrightarrow> rpos s \<le> length tx)"

definition io_ok :: "'w io \<Rightarrow> bool" where
  "io_ok io \<longleftrightarrow> files io 0 = None \<and> 4 \<le> fresh io \<and> {1, 2, 3} \<subseteq> dom (files io) \<and>
     (\<forall>f s. files io f = Some s \<longrightarrow> f < fresh io \<and> stream_ok s)"

lemma io_ok_cong: "files io' = files io \<Longrightarrow> fresh io' = fresh io \<Longrightarrow> io_ok io' = io_ok io"
  by (simp add: io_ok_def)

lemma io_ok_stream: "io_ok io \<Longrightarrow> files io f = Some s \<Longrightarrow> stream_ok s"
  by (simp add: io_ok_def)

lemma io_ok_upd: "io_ok io \<Longrightarrow> files io f = Some s \<Longrightarrow> stream_ok s' \<Longrightarrow> io_ok (upd f s' io)"
  by (cases "f = 0") (auto simp: io_ok_def)

lemma io_ok_write:
  assumes "io_ok io" "files io f = Some s" "stream_ok s'" "files io' = (files io)(f \<mapsto> s')" "fresh io' = fresh io"
  shows "io_ok io'"
  using io_ok_upd [OF assms(1-3)] assms(4,5) io_ok_cong [of io' "upd f s' io"] by simp

lemma io_ok_fields [simp]:
  "io_ok (io\<lparr>ierrno := e\<rparr>) = io_ok io" "io_ok (io\<lparr>ikern := w\<rparr>) = io_ok io"
  "io_ok (io\<lparr>piped := p\<rparr>) = io_ok io" "io_ok (io\<lparr>piped_pos := n\<rparr>) = io_ok io"
  "io_ok (io_reason K e' io) = io_ok io" "io_ok (console_write K t io) = io_ok io"
  by (rule io_ok_cong; simp)+

lemma io_ok_collect:
  assumes "io_ok io" "files io f = Some s" "\<not> is_console s"
  shows "io_ok (snd (collect K f cs d io))"
proof -
  have w: "length (wbuf s) \<le> wcap s" "stream_ok s"
    using io_ok_stream [OF assms(1,2)] by (simp_all add: stream_ok_def)
  obtain n io' s' where c: "collect K f cs d io = (d + n, io')" "files io' = (files io)(f \<mapsto> s')"
      "fresh io' = fresh io" "length (wbuf s') \<le> wcap s'"
      "s' = s\<lparr>wbuf := wbuf s', wcap := wcap s', error := (error s \<or> n < length cs)\<rparr>"
    using collect_spec [OF assms(2) w(1), of K cs d] by blast
  have "stream_ok s'" using w(2) c(4) assms(3) by (subst c(5)) (simp add: stream_ok_def)
  then show ?thesis using io_ok_write [OF assms(1,2) _ c(2,3)] c(1) by simp
qed

lemma io_ok_fwrite: "io_ok io \<Longrightarrow> io_ok (snd (fwrite K cs sz cnt f io))"
  using io_ok_collect [of io f _ K "take (unat (sz * cnt)) cs" 0]
  by (auto simp: fwrite_def Let_def split: option.splits prod.splits)

lemma io_ok_fflush: "io_ok io \<Longrightarrow> io_ok (snd (fflush K f io))"
  by (auto simp: fflush_def Let_def split: option.splits prod.splits
      intro!: io_ok_upd dest: io_ok_stream simp: stream_ok_def)

lemma io_ok_stream_new:
  assumes "io_ok io" "stream_new K d m io = (f, io')"
  shows "io_ok io' \<and> (f \<noteq> 0 \<longrightarrow> (\<exists>s. files io' f = Some s \<and> stream_ok s \<and> \<not> is_console s \<and> rbuf s = None))"
  using assms by (auto simp: stream_new_def io_ok_def stream_ok_def Let_def upd_def less_Suc_eq split: prod.splits if_splits)

lemma io_ok_fdopen: "io_ok io \<Longrightarrow> io_ok (snd (fdopen K d m io))"
  using io_ok_stream_new [of io K d]
  by (auto simp: fdopen_def split: option.splits prod.splits) (metis surjective_pairing)

lemma io_ok_del:
  "io_ok x \<Longrightarrow> f \<notin> {1, 2, 3} \<Longrightarrow> fresh y = fresh x \<Longrightarrow> io_ok (y\<lparr>files := (files x)(f := None)\<rparr>)"
  by (auto simp: io_ok_def)

lemma io_ok_fclose: "io_ok io \<Longrightarrow> io_ok (snd (fclose K f io))"
  using io_ok_fflush [of io K f]
  by (auto simp: fclose_def Let_def stream_ok_def split: option.splits prod.splits
      intro!: io_ok_upd intro: io_ok_del dest: io_ok_stream)

lemma io_ok_load_copy:
  "io_ok io \<Longrightarrow> files io f = Some s' \<Longrightarrow> stream_ok s \<Longrightarrow> io_ok (load_copy K p f s io)"
  by (auto simp: load_copy_def Let_def stream_ok_def split: prod.splits intro!: io_ok_upd)

lemma io_ok_carry_old: "io_ok io \<Longrightarrow> io_ok (carry_old K p f io)"
  by (auto simp: carry_old_def Let_def split: prod.splits intro!: io_ok_fwrite)

lemma io_ok_fopen: "io_ok io \<Longrightarrow> io_ok (snd (fopen K p m io))"
proof (cases "mode_flags m")
  case None
  then show "io_ok io \<Longrightarrow> ?thesis" by (simp add: fopen_def)
next
  case (Some fa)
  assume ok: "io_ok io"
  obtain flags ap where fa: "fa = (flags, ap)" by fastforce
  obtain d w where d: "k_open K p flags (ikern io) = (d, w)" by fastforce
  obtain f io1 where n: "stream_new K d (flags AND O_ACCMODE) (io\<lparr>ikern := w\<rparr>) = (f, io1)" by fastforce
  have ok1: "io_ok io1" using io_ok_stream_new [OF _ n] ok by simp
  show ?thesis
  proof (cases "f = 0 \<or> d < 0")
    case True
    then show ?thesis using Some fa d n ok ok1 by (auto simp: fopen_def Let_def split: prod.splits)
  next
    case False
    then obtain s where s: "files io1 f = Some s" "stream_ok s" using io_ok_stream_new [OF _ n] ok by auto
    have s': "stream_ok (s\<lparr>path := take 259 p\<rparr>)" using s(2) by (simp add: stream_ok_def)
    then have "io_ok (upd f (s\<lparr>path := take 259 p\<rparr>) io1)" by (rule io_ok_upd [OF ok1 s(1)])
    then show ?thesis
      using Some fa d n False s s' io_ok_load_copy [of "upd f (s\<lparr>path := take 259 p\<rparr>) io1" f _ "s\<lparr>path := take 259 p\<rparr>" K p]
      by (auto simp: fopen_def Let_def intro!: io_ok_carry_old)
  qed
qed

lemma io_ok_loaded [simp]: "io_ok (loaded K io) = io_ok io"
  by (rule io_ok_cong) (auto simp: loaded_def split: option.splits prod.splits)

lemma io_ok_fread: "io_ok io \<Longrightarrow> io_ok (snd (snd (fread K sz cnt f io)))"
proof (cases "files io f = None \<or> sz = 0 \<or> cnt = 0")
  case True
  then show "io_ok io \<Longrightarrow> ?thesis" by (auto simp: fread_def split: option.splits)
next
  case False
  assume ok: "io_ok io"
  obtain s where s: "files io f = Some s" "stream_ok s" using False io_ok_stream [OF ok] by auto
  define want where "want = unat (sz * cnt)"
  define r where "r = (if ungot s \<ge> 0 \<and> 0 < want then ([word_of_int (ungot s)], s\<lparr>ungot := - 1\<rparr>) else ([] :: u8 list, s))"
  obtain dst s1 where r: "r = (dst, s1)" by fastforce
  have s1: "stream_ok s1" using r s(2) unfolding r_def by (auto simp: stream_ok_def split: if_splits)
  have u: "(case piped io of Some _ \<Rightarrow> io | None \<Rightarrow> (case k_stdin K (ikern io) of ((n_got, tx), w) \<Rightarrow>
      io\<lparr>piped := Some (if n_got < 0 then [] else take (nat n_got) tx), piped_pos := 0, ikern := w\<rparr>)) = loaded K io"
    by (simp add: loaded_def)
  have eq: "fread K sz cnt f io = (case rbuf s1 of
      Some tx \<Rightarrow> (let some = take (want - length dst) (drop (rpos s1) tx); pos = rpos s1 + length some
        in (dst @ some, length (dst @ some) div unat sz,
            upd f (s1\<lparr>rpos := pos, eof := (if pos \<ge> length tx then True else eof s1)\<rparr>) io))
    | None \<Rightarrow> if fd s1 = 0 then
        (let some = take (want - length dst) (drop (piped_pos (loaded K io)) (the (piped (loaded K io))))
         in (dst @ some, length (dst @ some) div unat sz,
             upd f (if length (dst @ some) < want then s1\<lparr>eof := True\<rparr> else s1)
               ((loaded K io)\<lparr>piped_pos := piped_pos (loaded K io) + length some\<rparr>)))
      else (case read_loop K (fd s1) want dst (ikern io) of (dst, e, bad, w) \<Rightarrow>
         (dst, length dst div unat sz,
          upd f (s1\<lparr>eof := (e \<or> eof s1), error := (bad \<or> error s1)\<rparr>) (io\<lparr>ikern := w\<rparr>))))"
    using False s(1) r unfolding fread_def u r_def want_def by (cases "rbuf s1") (simp_all add: Let_def)
  show ?thesis
    unfolding eq using s(1) s1 ok
    by (auto simp: Let_def stream_ok_def split: option.splits prod.splits intro!: io_ok_upd)
qed

lemma io_ok_fgetc: "io_ok io \<Longrightarrow> io_ok (snd (fgetc K f io))"
  using io_ok_fread [of io K 1 1 f]
  by (auto simp: fgetc_def stream_ok_def split: option.splits prod.splits intro!: io_ok_upd dest: io_ok_stream)

lemma io_ok_ungetc: "io_ok io \<Longrightarrow> io_ok (snd (ungetc c f io))"
  using uc_range [of "word_of_int c"]
  by (auto simp: ungetc_def stream_ok_def Let_def split: option.splits intro!: io_ok_upd dest: io_ok_stream)

lemma io_lseek_fields: "files (snd (io_lseek K d off wh io)) = files io" "fresh (snd (io_lseek K d off wh io)) = fresh io"
  by (simp_all add: io_lseek_def Let_def split: prod.splits)

lemma io_ok_fseek: "io_ok io \<Longrightarrow> io_ok (snd (fseek K f off wh io))"
proof (cases "files io f")
  case None
  then show "io_ok io \<Longrightarrow> ?thesis" by (simp add: fseek_def)
next
  case (Some s)
  assume ok: "io_ok io"
  define s1 where "s1 = s\<lparr>ungot := - 1, eof := False\<rparr>"
  define io1 where "io1 = upd f s1 io"
  have s1: "stream_ok s1" using io_ok_stream [OF ok Some] by (simp add: s1_def stream_ok_def)
  have ok1: "io_ok io1" "files io1 f = Some s1" unfolding io1_def using io_ok_upd [OF ok Some s1] by simp_all
  obtain r io2 where l: "io_lseek K (fd s1) off wh io1 = (r, io2)" by fastforce
  then have ok2: "io_ok io2" "files io2 f = Some s1"
    using io_lseek_fields [of K "fd s1" off wh io1] io_ok_cong [of io2 io1] ok1 by simp_all
  show ?thesis
    unfolding fseek_def Some option.case Let_def s1_def [symmetric] io1_def [symmetric] l
    using ok1 ok2 s1
    by (auto simp: stream_ok_def split: option.splits intro!: io_ok_upd)
qed

lemma io_ok_clearerr: "io_ok io \<Longrightarrow> io_ok (clearerr f io)"
  by (auto simp: clearerr_def stream_ok_def split: option.splits intro!: io_ok_upd dest: io_ok_stream)

text \<open>The programs that only use the stream calls: any sequence of them, with any arguments and any
  answers of the kernel, from the start of the process.\<close>

inductive io_run :: "'w calls \<Rightarrow> 'w io \<Rightarrow> bool" for K where
  start: "io_run K (io_start w)"
| opened: "io_run K io \<Longrightarrow> io_run K (snd (fopen K p m io))"
| adopted: "io_run K io \<Longrightarrow> io_run K (snd (fdopen K d m io))"
| closed: "io_run K io \<Longrightarrow> io_run K (snd (fclose K f io))"
| wrote: "io_run K io \<Longrightarrow> io_run K (snd (fwrite K cs sz cnt f io))"
| flushed: "io_run K io \<Longrightarrow> io_run K (snd (fflush K f io))"
| was_read: "io_run K io \<Longrightarrow> io_run K (snd (snd (fread K sz cnt f io)))"
| got_char: "io_run K io \<Longrightarrow> io_run K (snd (fgetc K f io))"
| put_back: "io_run K io \<Longrightarrow> io_run K (snd (ungetc c f io))"
| sought: "io_run K io \<Longrightarrow> io_run K (snd (fseek K f off wh io))"
| cleared: "io_run K io \<Longrightarrow> io_run K (clearerr f io)"

lemma io_run_ok: "io_run K io \<Longrightarrow> io_ok io"
proof (induction rule: io_run.induct)
  case (start w)
  then show ?case by (auto simp: io_start_def io_ok_def stream_ok_def console_in_def console_out_def console_err_def split: if_splits)
qed (blast intro: io_ok_fopen io_ok_fdopen io_ok_fclose io_ok_fwrite io_ok_fflush io_ok_fread io_ok_fgetc
      io_ok_ungetc io_ok_fseek io_ok_clearerr)+

section \<open>Properties of the streams\<close>

text \<open>A kernel that never refuses a block.\<close>

definition roomy :: "'w calls \<Rightarrow> bool" where
  "roomy K \<longleftrightarrow> (\<forall>n w. k_room K n w = (True, w))"

lemma collect_kern: "roomy K \<Longrightarrow> ikern (snd (collect K f cs d io)) = ikern io \<and>
    piped (snd (collect K f cs d io)) = piped io \<and> piped_pos (snd (collect K f cs d io)) = piped_pos io \<and>
    (files io f \<noteq> None \<longrightarrow> fst (collect K f cs d io) = d + length cs)"
proof (induction cs arbitrary: d io)
  case (Cons c cs)
  show ?case
  proof (cases "files io f")
    case (Some s)
    have r: "k_room K n w = (True, w)" for n w using Cons.prems by (simp add: roomy_def)
    define s1 where "s1 = (if length (wbuf s) = wcap s then s\<lparr>wcap := (if wcap s = 0 then 1024 else wcap s * 2), wbuf := wbuf s @ [c]\<rparr>
      else s\<lparr>wbuf := wbuf s @ [c]\<rparr>)"
    have "collect K f (c # cs) d io = collect K f cs (Suc d) (upd f s1 io)"
      using Some r by (simp add: s1_def Let_def)
    then show ?thesis using Cons.IH [OF Cons.prems, of "Suc d" "upd f s1 io"] by simp
  qed simp
qed simp

text \<open>The stream after all of \<open>cs\<close> was collected.\<close>

lemma fwrite_roomy:
  assumes "files io f = Some s" "length (wbuf s) \<le> wcap s" "\<not> is_console s" "length cs < 2 ^ 32" "roomy K"
  shows "\<exists>io' s'. fwrite K cs 1 (of_nat (length cs)) f io = (length cs, io') \<and>
    files io' = (files io)(f \<mapsto> s') \<and> ikern io' = ikern io \<and> wbuf s' = wbuf s @ cs \<and>
    length (wbuf s') \<le> wcap s' \<and> is_console s' = is_console s \<and> path s' = path s \<and> fd s' = fd s"
proof (cases "cs = []")
  case True
  then show ?thesis using assms by (intro exI [of _ io] exI [of _ s]) (auto simp: fwrite_def)
next
  case False
  then have u: "unat (of_nat (length cs) :: u32) = length cs" "(of_nat (length cs) :: u32) \<noteq> 0"
    using assms(4) unat_of_nat_u32 [of "length cs"] by auto
  obtain n io' s' where w: "fwrite K cs 1 (of_nat (length cs)) f io = (n, io')" "files io' = (files io)(f \<mapsto> s')"
      "wbuf s' = wbuf s @ take n cs" "length (wbuf s') \<le> wcap s'"
      "s' = s\<lparr>wbuf := wbuf s', wcap := wcap s', error := (error s \<or> n < length cs)\<rparr>"
    using fwrite_file [OF assms(1-4), of K] by blast
  have "fwrite K cs 1 (of_nat (length cs)) f io = collect K f cs 0 io"
    using assms(1,3) u by (simp add: fwrite_def)
  then have "collect K f cs 0 io = (n, io')" using w(1) by simp
  then have n: "n = length cs" "ikern io' = ikern io"
    using collect_kern [OF assms(5), of f cs 0 io] assms(1) by simp_all
  have "is_console s' = is_console s" "path s' = path s" "fd s' = fd s" by (subst w(5), simp)+
  then show ?thesis using w(1-4) n by auto
qed

text \<open>Writing to a file stream stores a prefix of the bytes behind those that wait; the count
  returned is its length, and a short count comes with the error flag and \<^verbatim>\<open>ENOMEM\<close>.\<close>

theorem fwrite_collects:
  assumes "io_run K io" "files io f = Some s" "\<not> is_console s" "length data < 2 ^ 32"
  shows "\<exists>n io' s'. fwrite K data 1 (of_nat (length data)) f io = (n, io') \<and> n \<le> length data \<and>
    files io' = (files io)(f \<mapsto> s') \<and> wbuf s' = wbuf s @ take n data \<and> length (wbuf s') \<le> wcap s' \<and>
    error s' = (error s \<or> n < length data) \<and> ierrno io' = (if n < length data then ENOMEM else ierrno io)"
proof -
  have "length (wbuf s) \<le> wcap s"
    using io_ok_stream [OF io_run_ok [OF assms(1)] assms(2)] by (simp add: stream_ok_def)
  then obtain n io' s' where "fwrite K data 1 (of_nat (length data)) f io = (n, io')" "n \<le> length data"
      "files io' = (files io)(f \<mapsto> s')" "wbuf s' = wbuf s @ take n data" "length (wbuf s') \<le> wcap s'"
      "s' = s\<lparr>wbuf := wbuf s', wcap := wcap s', error := (error s \<or> n < length data)\<rparr>"
      "ierrno io' = (if n < length data then ENOMEM else ierrno io)"
    using fwrite_file [OF assms(2) _ assms(3,4), of K] by blast
  moreover from this(6) have "error s' = (error s \<or> n < length data)"
    by (metis stream.select_convs(4) stream.surjective stream.update_convs(4))
  ultimately show ?thesis by blast
qed

text \<open>A kernel whose state is the log of the file writes, for the concrete inputs: every file reads as
  \<open>abc\<close> followed by a newline and \<open>d\<close>.\<close>

definition log_calls :: "(u8 list \<times> u8 list) list calls" where
  "log_calls = \<lparr>k_open = \<lambda>p fl w. (3, w), k_close = \<lambda>d w. (0, w), k_seek = \<lambda>d off wh w. (0, w),
     k_delete = \<lambda>p w. (0, w), k_rename = \<lambda>p q w. (0, w), k_stat = \<lambda>p w. ((0, 5), w),
     k_read = \<lambda>d n w. ((0, []), w), k_fread = \<lambda>p w. ((5, [97, 98, 99, 10, 100]), w),
     k_fwrite = \<lambda>p d w. (0, w @ [(p, d)]), k_stdin = \<lambda>w. ((0, []), w),
     k_write = \<lambda>d s w. (int (length s), w), k_print = \<lambda>s w. w, k_geterrno = \<lambda>w. (0, w),
     k_room = \<lambda>n w. (True, w)\<rparr>"

lemma roomy_log: "roomy log_calls"
  by (simp add: roomy_def log_calls_def)

definition opened_w :: "(u8 list \<times> u8 list) list io" where
  "opened_w = snd (fopen log_calls [102] [119] (io_start []))"

lemma opened_w_run: "io_run log_calls opened_w"
  unfolding opened_w_def by (intro io_run.intros)

lemma opened_w_stream: "\<exists>s. files opened_w 4 = Some s \<and> \<not> is_console s \<and> path s = [102] \<and> wbuf s = []"
  by (simp add: opened_w_def fopen_def mode_flags_def char_at_def open_flags stream_new_def io_start_def
      log_calls_def upd_def Let_def)

theorem fwrite_collects_witness:
  "\<exists>n io' s'. fwrite log_calls [1, 2, 3] 1 3 4 opened_w = (n, io') \<and> files io' 4 = Some s' \<and>
     wbuf s' = take n [1, 2, 3] \<and> (n < 3 \<longrightarrow> error s')"
proof -
  obtain s where s: "files opened_w 4 = Some s" "\<not> is_console s" "wbuf s = []" using opened_w_stream by blast
  show ?thesis using fwrite_collects [OF opened_w_run s(1,2), of "[1, 2, 3]"] s(3) by auto
qed

text \<open>A flush hands over only the bytes collected since the flush before it, and the call it makes
  replaces the file: of two writes with a flush between them, the file keeps the second alone.\<close>

theorem flush_replaces_file:
  assumes "io_run K io" "files io f = Some s" "\<not> is_console s" "path s \<noteq> []" "wbuf s = []"
    and "roomy K" "\<And>p d w. 0 \<le> fst (k_fwrite K p d w)"
    and "d1 \<noteq> []" "d2 \<noteq> []" "length d1 < 2 ^ 32" "length d2 < 2 ^ 32"
    and "io1 = snd (fwrite K d1 1 (of_nat (length d1)) f io)" "fflush K f io1 = (r1, io2)"
    and "io3 = snd (fwrite K d2 1 (of_nat (length d2)) f io2)" "fflush K f io3 = (r2, io4)"
  shows "r1 = 0 \<and> r2 = 0 \<and>
    ikern io4 = snd (k_fwrite K (path s) d2 (snd (k_fwrite K (path s) d1 (ikern io))))"
proof -
  have flush: "fflush K f x = (0, upd f (t\<lparr>wbuf := []\<rparr>) (x\<lparr>ikern := snd (k_fwrite K (path t) (wbuf t) (ikern x))\<rparr>))"
    if "files x f = Some t" "\<not> is_console t" "path t \<noteq> []" "wbuf t \<noteq> []" "length (wbuf t) \<le> wcap t" for x t
  proof -
    obtain r w where k: "k_fwrite K (path t) (wbuf t) (ikern x) = (r, w)" by fastforce
    then have "\<not> r < 0" using assms(7) [of "path t" "wbuf t" "ikern x"] by simp
    moreover have "wcap t \<noteq> 0" using that(4,5) by (cases "wbuf t") auto
    ultimately show ?thesis using that k by (simp add: fflush_def)
  qed
  have collected: "\<exists>t'. files (snd (fwrite K d 1 (of_nat (length d)) f x)) f = Some t' \<and>
      ikern (snd (fwrite K d 1 (of_nat (length d)) f x)) = ikern x \<and> wbuf t' = d \<and> length (wbuf t') \<le> wcap t' \<and>
      \<not> is_console t' \<and> path t' = path t"
    if "files x f = Some t" "wbuf t = []" "\<not> is_console t" "length d < 2 ^ 32" for x t d
  proof -
    note pr = that
    obtain x' t' where "fwrite K d 1 (of_nat (length d)) f x = (length d, x')" "files x' = (files x)(f \<mapsto> t')"
        "ikern x' = ikern x" "wbuf t' = wbuf t @ d" "length (wbuf t') \<le> wcap t'" "is_console t' = is_console t"
        "path t' = path t"
      using fwrite_roomy [OF pr(1) _ pr(3,4) assms(6)] pr(2) by force
    then show ?thesis using pr by (intro exI [of _ t']) simp
  qed
  obtain s1 where s1: "files io1 f = Some s1" "ikern io1 = ikern io" "wbuf s1 = d1" "length (wbuf s1) \<le> wcap s1"
      "\<not> is_console s1" "path s1 = path s"
    using collected [OF assms(2,5,3,10)] unfolding assms(12) by blast
  note c1 = s1(5,6)
  define s2 where "s2 = s1\<lparr>wbuf := []\<rparr>"
  have f1: "r1 = 0" "files io2 f = Some s2" "ikern io2 = snd (k_fwrite K (path s) d1 (ikern io))"
    using flush [OF s1(1) c1(1) _ _ s1(4)] c1(2) s1(2,3) assms(4,8,13) by (auto simp: s2_def)
  have w2: "wbuf s2 = []" "\<not> is_console s2" "path s2 = path s" using c1 by (simp_all add: s2_def)
  obtain s3 where s3: "files io3 f = Some s3" "ikern io3 = ikern io2" "wbuf s3 = d2" "length (wbuf s3) \<le> wcap s3"
      "\<not> is_console s3" "path s3 = path s2"
    using collected [OF f1(2) w2(1,2) assms(11)] unfolding assms(14) by blast
  have c3: "\<not> is_console s3" "path s3 = path s" using s3(5,6) w2 by simp_all
  show ?thesis
    using flush [OF s3(1) c3(1) _ _ s3(4)] c3(2) s3(2,3) f1 assms(4,9,15) by auto
qed

theorem flush_replaces_file_witness:
  "\<exists>io4. fflush log_calls 4 (snd (fwrite log_calls [2] 1 1 4 (snd (fflush log_calls 4
      (snd (fwrite log_calls [1] 1 1 4 opened_w)))))) = (0, io4) \<and>
    ikern io4 = ikern opened_w @ [([102], [1]), ([102], [2])]"
proof -
  obtain s where s: "files opened_w 4 = Some s" "\<not> is_console s" "path s = [102]" "wbuf s = []"
    using opened_w_stream by blast
  define io1 where "io1 = snd (fwrite log_calls [1] 1 1 4 opened_w)"
  obtain r1 io2 where 2: "fflush log_calls 4 io1 = (r1, io2)" by fastforce
  define io3 where "io3 = snd (fwrite log_calls [2] 1 1 4 io2)"
  obtain r2 io4 where 4: "fflush log_calls 4 io3 = (r2, io4)" by fastforce
  show ?thesis
    using flush_replaces_file [OF opened_w_run s(1,2) _ s(4) roomy_log, of "[1]" "[2]" io1 r1 io2 io3 r2 io4] s(3) 2 4
    unfolding io1_def io3_def by (simp add: log_calls_def)
qed


definition opened_r :: "(u8 list \<times> u8 list) list io" where
  "opened_r = snd (fopen log_calls [102] [114] (io_start []))"

lemma opened_r_unread: "readable 4 opened_r" "unread log_calls 4 opened_r = [97, 98, 99, 10, 100]"
  by (simp_all add: opened_r_def fopen_def mode_flags_def char_at_def open_flags stream_new_def io_start_def
      log_calls_def upd_def Let_def load_copy_def readable_def unread_def pushed_def)


text \<open>\<open>fgets\<close> stores the next line, cut to one byte less than the size it is given, and a null
  pointer comes back only when nothing is left (or there is room for the NUL alone).\<close>

theorem fgets_correct:
  assumes "readable f io" "0 < sz"
  shows "\<exists>io'. fgets K sz f io = ((let line = first_line (nat (sz - 1)) (unread K f io) in if line = [] then None else Some line), io') \<and>
    unread K f io' = drop (length (first_line (nat (sz - 1)) (unread K f io))) (unread K f io)"
proof -
  have "files io f \<noteq> None" using assms(1) by (auto simp: readable_def split: option.splits)
  then show ?thesis
    using rd_stream.fgets_loop_spec [OF assms(1), of K "nat (sz - 1)"] assms(2) by (auto simp: fgets_def Let_def)
qed


theorem fgets_correct_witness:
  "\<exists>io'. fgets log_calls 3 4 opened_r = (Some [97, 98], io') \<and> unread log_calls 4 io' = [99, 10, 100]"
proof -
  have "first_line 2 [97, 98, 99, 10, 100] = [97, 98]" by code_simp
  then show ?thesis using fgets_correct [OF opened_r_unread(1), of 3 log_calls] by (simp add: opened_r_unread(2) Let_def)
qed



text \<open>A character pushed back is the next one read, and the stream is then as it was, with its
  end-of-file mark cleared.\<close>

theorem ungetc_fgetc:
  assumes "files io f = Some s" "0 \<le> c" "c \<le> 255"
  shows "fgetc K f (snd (ungetc c f io)) = (c, upd f (s\<lparr>eof := False, ungot := - 1\<rparr>) io)"
proof -
  have "uc (word_of_int c) = c" using assms(2,3) by (simp add: uc_def uint_word_of_int)
  then show ?thesis using assms by (simp add: ungetc_def fgetc_def upd_def EOF_def Let_def)
qed

theorem ungetc_fgetc_witness:
  "fst (fgetc log_calls 1 (snd (ungetc 120 1 (io_start [])))) = 120"
  using ungetc_fgetc [of "io_start []" 1 console_in 120 log_calls] by (simp add: io_start_def)

section \<open>The console translation\<close>

definition crlf_text :: "u8 list \<Rightarrow> u8 list" where
  "crlf_text s = concat (map (\<lambda>c. if c = 10 then [13, 10] else [c]) s)"

lemma crlf_loop_text:
  "length acc + length (crlf_text s) \<le> 511 \<Longrightarrow> crlf_loop s acc = acc @ crlf_text s"
  by (induction s acc rule: crlf_loop.induct) (auto simp: crlf_text_def OUT_CHUNK_def)

lemma crlf_loop_bound: "length acc \<le> 512 \<Longrightarrow> length (crlf_loop s acc) \<le> 512"
  by (induction s acc rule: crlf_loop.induct) (auto simp: OUT_CHUNK_def)

text \<open>A full chunk of newlines fills all 512 bytes of the buffer, and the NUL is stored behind it.\<close>

lemma console_write_overruns: "length (crlf_loop (replicate 256 10) []) = OUT_CHUNK * 2"
  by code_simp

end
