(* ===== verification/Mv_Format.thy ===== *)
theory Mv_Format
  imports Mv_Stream
begin

text \<open>
  The formatter of \<^verbatim>\<open>c/rt/stdio.c\<close>: one format loop over a sink that is a buffer in memory, a stream
  or the console.

  The arguments after the format are a list of machine words and strings; a conversion that finds no
  argument of its kind has no defined behaviour, and the result is None. A buffer sink writes the
  byte memory at its address, so that a store outside the buffer is visible.
\<close>

section \<open>The sink\<close>

datatype arg = AInt u32 | AStr "u8 list option"

record 'w out_t =
  buf :: addr
  cap :: u32
  len :: u32
  ostream :: nat
  tmp :: "u8 list"
  failed :: bool
  omem :: mem
  oio :: "'w io"

definition out_flush :: "'w calls \<Rightarrow> 'w out_t \<Rightarrow> 'w out_t" where
  "out_flush K out =
     (if tmp out = [] then out
      else if ostream out \<noteq> 0 then
        (let used = length (tmp out); (n, io) = fwrite K (tmp out) 1 (of_nat used) (ostream out) (oio out)
         in out\<lparr>failed := (if n \<noteq> used then True else failed out), oio := io, tmp := []\<rparr>)
      else out\<lparr>oio := console_write K (tmp out) (oio out), tmp := []\<rparr>)"

definition out_char :: "'w calls \<Rightarrow> u8 \<Rightarrow> 'w out_t \<Rightarrow> 'w out_t" where
  "out_char K c out =
     (if buf out \<noteq> NULLP then
        (let out = (if len out + 1 < cap out then out\<lparr>omem := (omem out)(buf out + len out := c)\<rparr> else out)
         in out\<lparr>len := len out + 1\<rparr>)
      else let out = out\<lparr>tmp := tmp out @ [c]\<rparr>
           in if length (tmp out) = OUT_CHUNK then out_flush K out else out)"

fun out_text :: "'w calls \<Rightarrow> u8 list \<Rightarrow> 'w out_t \<Rightarrow> 'w out_t" where
  "out_text K [] out = out"
| "out_text K (c # s) out = out_text K s (out_char K c out)"

definition out_repeat :: "'w calls \<Rightarrow> u8 \<Rightarrow> u32 \<Rightarrow> 'w out_t \<Rightarrow> 'w out_t" where
  "out_repeat K c cnt out = out_text K (replicate (unat cnt) c) out"

section \<open>Numbers\<close>

definition digit_set :: "bool \<Rightarrow> u8 list" where
  "digit_set upper = bytes (if upper then ''0123456789ABCDEF'' else ''0123456789abcdef'')"

text \<open>The digits of a magnitude, last first. The array they go to has 32 bytes.\<close>

fun low_digits :: "nat \<Rightarrow> bool \<Rightarrow> u32 \<Rightarrow> u32 \<Rightarrow> u8 list" where
  "low_digits 0 upper base magnitude = []"
| "low_digits (Suc n) upper base magnitude =
     digit_set upper ! unat (magnitude mod base) #
     (if magnitude div base \<noteq> 0 then low_digits n upper base (magnitude div base) else [])"

definition out_number ::
    "'w calls \<Rightarrow> u32 \<Rightarrow> u8 list \<Rightarrow> u32 \<Rightarrow> bool \<Rightarrow> u32 \<Rightarrow> u32 \<Rightarrow> u8 \<Rightarrow> bool \<Rightarrow> 'w out_t \<Rightarrow> 'w out_t" where
  "out_number K magnitude prefix base upper width precision pad left out =
     (let digits = low_digits 32 upper base magnitude; n = of_nat (length digits);
          prefix_len = of_nat (length prefix);
          zeros = (if precision > n then precision - n else 0);
          shown = n + zeros + prefix_len;
          out = (if \<not> left \<and> pad = 32 \<and> width > shown then out_repeat K 32 (width - shown) out else out);
          out = out_text K prefix out;
          out = (if \<not> left \<and> pad = 48 \<and> precision = 0 \<and> width > shown
                 then out_repeat K 48 (width - shown) out else out);
          out = out_repeat K 48 zeros out;
          out = out_text K (rev digits) out
      in if left \<and> width > shown then out_repeat K 32 (width - shown) out else out)"

section \<open>Conversion specifications\<close>

record spec =
  width :: u32
  precision :: u32
  pad :: u8
  left :: bool
  plus :: bool
  space :: bool
  alt :: bool

definition spec_start :: spec where
  "spec_start = \<lparr>width = 0, precision = 0, pad = 32, left = False, plus = False, space = False, alt = False\<rparr>"

fun flags_loop :: "u8 list \<Rightarrow> spec \<Rightarrow> spec \<times> u8 list" where
  "flags_loop [] sp = (sp, [])"
| "flags_loop (c # fmt) sp =
     (if c = 45 then flags_loop fmt (sp\<lparr>left := True\<rparr>)
      else if c = 48 then flags_loop fmt (sp\<lparr>pad := 48\<rparr>)
      else if c = 43 then flags_loop fmt (sp\<lparr>plus := True\<rparr>)
      else if c = 32 then flags_loop fmt (sp\<lparr>space := True\<rparr>)
      else if c = 35 then flags_loop fmt (sp\<lparr>alt := True\<rparr>)
      else (sp, c # fmt))"

fun number_loop :: "u8 list \<Rightarrow> u32 \<Rightarrow> u32 \<times> u8 list" where
  "number_loop [] v = (v, [])"
| "number_loop (c # fmt) v =
     (if 48 \<le> c \<and> c \<le> 57 then number_loop fmt (v * 10 + (ucast c - 48)) else (v, c # fmt))"

fun int_arg :: "arg list \<Rightarrow> (u32 \<times> arg list) option" where
  "int_arg (AInt v # args) = Some (v, args)"
| "int_arg args = None"

fun str_arg :: "arg list \<Rightarrow> (u8 list option \<times> arg list) option" where
  "str_arg (AStr s # args) = Some (s, args)"
| "str_arg args = None"

definition parse_width :: "u8 list \<Rightarrow> spec \<Rightarrow> arg list \<Rightarrow> (spec \<times> u8 list \<times> arg list) option" where
  "parse_width fmt sp args =
     (if char_at fmt 0 = 42 then
        map_option (\<lambda>(w, args). (if sint w < 0 then sp\<lparr>left := True, width := - w\<rparr> else sp\<lparr>width := w\<rparr>, tl fmt, args))
          (int_arg args)
      else let (w, fmt) = number_loop fmt 0 in Some (sp\<lparr>width := w\<rparr>, fmt, args))"

definition parse_precision :: "u8 list \<Rightarrow> spec \<Rightarrow> arg list \<Rightarrow> (spec \<times> u8 list \<times> arg list) option" where
  "parse_precision fmt sp args =
     (if char_at fmt 0 = 46 then
        (let fmt = tl fmt
         in map_option (\<lambda>(p, fmt, args). (sp\<lparr>precision := (if p = 0 then 1 else p)\<rparr>, fmt, args))
              (if char_at fmt 0 = 42
               then map_option (\<lambda>(p, args). (if sint p < 0 then 0 else p, tl fmt, args)) (int_arg args)
               else let (p, fmt) = number_loop fmt 0 in Some (p, fmt, args)))
      else Some (sp, fmt, args))"

definition is_length_modifier :: "u8 \<Rightarrow> bool" where
  "is_length_modifier c \<longleftrightarrow> c \<in> set (bytes ''lhztjq'')"

definition parse_spec :: "u8 list \<Rightarrow> arg list \<Rightarrow> (spec \<times> u8 list \<times> arg list) option" where
  "parse_spec fmt args =
     (let (sp, fmt) = flags_loop fmt spec_start
      in Option.bind (parse_width fmt sp args) (\<lambda>(sp, fmt, args).
         Option.bind (parse_precision fmt sp args) (\<lambda>(sp, fmt, args).
           Some (sp, dropWhile is_length_modifier fmt, args))))"

text \<open>The switch over the conversion letter: the arguments left and the sink.\<close>

definition convert :: "'w calls \<Rightarrow> u8 \<Rightarrow> spec \<Rightarrow> arg list \<Rightarrow> 'w out_t \<Rightarrow> (arg list \<times> 'w out_t) option" where
  "convert K c sp args out =
     (if c = ch CHR ''d'' \<or> c = ch CHR ''i'' then
        map_option (\<lambda>(v, args).
          let m = (if sint v < 0 then - v else v);
              prefix = (if sint v < 0 then [45] else if plus sp then [43] else if space sp then [32] else [])
          in (args, out_number K m prefix 10 False (width sp) (precision sp) (pad sp) (left sp) out)) (int_arg args)
      else if c = ch CHR ''u'' then
        map_option (\<lambda>(v, args).
          (args, out_number K v [] 10 False (width sp) (precision sp) (pad sp) (left sp) out)) (int_arg args)
      else if c = ch CHR ''o'' then
        map_option (\<lambda>(v, args).
          (args, out_number K v (if alt sp then [48] else []) 8 False (width sp) (precision sp) (pad sp) (left sp) out))
          (int_arg args)
      else if c = ch CHR ''x'' then
        map_option (\<lambda>(v, args).
          (args, out_number K v (if alt sp then [48, 120] else []) 16 False (width sp) (precision sp) (pad sp) (left sp) out))
          (int_arg args)
      else if c = ch CHR ''X'' then
        map_option (\<lambda>(v, args).
          (args, out_number K v (if alt sp then [48, 88] else []) 16 True (width sp) (precision sp) (pad sp) (left sp) out))
          (int_arg args)
      else if c = ch CHR ''p'' then
        map_option (\<lambda>(v, args). (args, out_number K v [] 16 False 8 0 48 False (out_text K [48, 120] out))) (int_arg args)
      else if c = ch CHR ''s'' then
        map_option (\<lambda>(s, args).
          let s = (case s of None \<Rightarrow> bytes ''(null)'' | Some s \<Rightarrow> s);
              n = (if precision sp \<noteq> 0 \<and> unat (precision sp) < length s then unat (precision sp) else length s);
              fill = replicate (unat (width sp) - n) 32;
              out = (if \<not> left sp then out_text K fill out else out);
              out = out_text K (take n s) out
          in (args, if left sp then out_text K fill out else out)) (str_arg args)
      else if c = ch CHR ''c'' then
        map_option (\<lambda>(v, args). (args, out_char K (ucast v) out)) (int_arg args)
      else if c \<in> set (bytes ''fegEG'') then Some (args, out_char K c (out_text K [37] out))
      else Some (args, out_char K c (out_char K 37 out)))"

section \<open>The format loop\<close>

lemma flags_loop_length: "length (snd (flags_loop fmt sp)) \<le> length fmt"
  by (induction fmt sp rule: flags_loop.induct) auto

lemma number_loop_length: "length (snd (number_loop fmt v)) \<le> length fmt"
  by (induction fmt v rule: number_loop.induct) auto

lemma parse_width_length: "parse_width fmt sp args = Some (sp', fmt', args') \<Longrightarrow> length fmt' \<le> length fmt"
  using number_loop_length [of fmt 0] by (auto simp: parse_width_def split: if_splits prod.splits)

lemma parse_precision_length: "parse_precision fmt sp args = Some (sp', fmt', args') \<Longrightarrow> length fmt' \<le> length fmt"
  using number_loop_length [of "tl fmt" 0]
  by (auto simp: parse_precision_def Let_def split: if_splits prod.splits)

lemma parse_spec_length:
  assumes "parse_spec fmt args = Some (sp, rest, args')"
  shows "length rest \<le> length fmt"
proof -
  obtain sp1 f1 where 1: "flags_loop fmt spec_start = (sp1, f1)" by fastforce
  obtain sp2 f2 a2 where 2: "parse_width f1 sp1 args = Some (sp2, f2, a2)"
    using assms 1 by (auto simp: parse_spec_def bind_eq_Some_conv)
  obtain sp3 f3 a3 where 3: "parse_precision f2 sp2 a2 = Some (sp3, f3, a3)" "rest = dropWhile is_length_modifier f3"
    using assms 1 2 by (auto simp: parse_spec_def bind_eq_Some_conv)
  show ?thesis
    using flags_loop_length [of fmt spec_start] 1 parse_width_length [OF 2] parse_precision_length [OF 3(1)] 3(2)
      length_dropWhile_le [of is_length_modifier f3] by simp
qed

function format_loop :: "'w calls \<Rightarrow> u8 list \<Rightarrow> arg list \<Rightarrow> 'w out_t \<Rightarrow> 'w out_t option" where
  "format_loop K [] args out = Some out"
| "format_loop K (c # fmt) args out =
     (if c \<noteq> 37 then format_loop K fmt args (out_char K c out)
      else if char_at fmt 0 = 37 then format_loop K (tl fmt) args (out_char K 37 out)
      else case parse_spec fmt args of
             None \<Rightarrow> None
           | Some (sp, [], args) \<Rightarrow> Some (out_char K 37 out)
           | Some (sp, d # rest, args) \<Rightarrow>
               (case convert K d sp args out of
                  None \<Rightarrow> None
                | Some (args, out) \<Rightarrow> format_loop K rest args out))"
  by pat_completeness auto
termination
  by (relation "measure (\<lambda>(K, fmt, args, out). length fmt)") (auto dest: parse_spec_length)

text \<open>The end of \<open>format_into\<close>: the NUL of a buffer or the last flush, and the result.\<close>

definition format_into :: "'w calls \<Rightarrow> u8 list \<Rightarrow> arg list \<Rightarrow> 'w out_t \<Rightarrow> (int \<times> 'w out_t) option" where
  "format_into K fmt args out =
     map_option (\<lambda>out.
       let out = (if buf out \<noteq> NULLP
                  then out\<lparr>omem := (omem out)(buf out + (if len out < cap out then len out else cap out - 1) := NUL)\<rparr>
                  else out_flush K out)
       in (if failed out then - 1 else sint (len out), out))
     (format_loop K fmt args out)"

definition vsnprintf ::
    "'w calls \<Rightarrow> addr \<Rightarrow> u32 \<Rightarrow> u8 list \<Rightarrow> arg list \<Rightarrow> mem \<Rightarrow> 'w io \<Rightarrow> (int \<times> mem \<times> 'w io) option" where
  "vsnprintf K b sz fmt args m io =
     map_option (\<lambda>(r, out). (r, omem out, oio out))
       (format_into K fmt args \<lparr>buf = b, cap = sz, len = 0, ostream = 0, tmp = [], failed = False, omem = m, oio = io\<rparr>)"

definition vsprintf ::
    "'w calls \<Rightarrow> addr \<Rightarrow> u8 list \<Rightarrow> arg list \<Rightarrow> mem \<Rightarrow> 'w io \<Rightarrow> (int \<times> mem \<times> 'w io) option" where
  "vsprintf K b fmt args m io = vsnprintf K b 0xFFFFFFFF fmt args m io"

definition snprintf ::
    "'w calls \<Rightarrow> addr \<Rightarrow> u32 \<Rightarrow> u8 list \<Rightarrow> arg list \<Rightarrow> mem \<Rightarrow> 'w io \<Rightarrow> (int \<times> mem \<times> 'w io) option" where
  "snprintf K b sz fmt args m io = vsnprintf K b sz fmt args m io"

definition sprintf ::
    "'w calls \<Rightarrow> addr \<Rightarrow> u8 list \<Rightarrow> arg list \<Rightarrow> mem \<Rightarrow> 'w io \<Rightarrow> (int \<times> mem \<times> 'w io) option" where
  "sprintf K b fmt args m io = vsprintf K b fmt args m io"

definition vfprintf ::
    "'w calls \<Rightarrow> nat \<Rightarrow> u8 list \<Rightarrow> arg list \<Rightarrow> mem \<Rightarrow> 'w io \<Rightarrow> (int \<times> mem \<times> 'w io) option" where
  "vfprintf K f fmt args m io =
     (if files io f = None then Some (- 1, m, io)
      else map_option (\<lambda>(r, out). (r, omem out, oio out))
        (format_into K fmt args \<lparr>buf = NULLP, cap = 0, len = 0, ostream = f, tmp = [], failed = False, omem = m, oio = io\<rparr>))"

definition fprintf ::
    "'w calls \<Rightarrow> nat \<Rightarrow> u8 list \<Rightarrow> arg list \<Rightarrow> mem \<Rightarrow> 'w io \<Rightarrow> (int \<times> mem \<times> 'w io) option" where
  "fprintf K f fmt args m io = vfprintf K f fmt args m io"

definition vprintf :: "'w calls \<Rightarrow> u8 list \<Rightarrow> arg list \<Rightarrow> mem \<Rightarrow> 'w io \<Rightarrow> (int \<times> mem \<times> 'w io) option" where
  "vprintf K fmt args m io = vfprintf K f_stdout fmt args m io"

definition printf :: "'w calls \<Rightarrow> u8 list \<Rightarrow> arg list \<Rightarrow> mem \<Rightarrow> 'w io \<Rightarrow> (int \<times> mem \<times> 'w io) option" where
  "printf K fmt args m io = vfprintf K f_stdout fmt args m io"

section \<open>What the formatter writes\<close>

text \<open>The reference: the numeral of a value in a base, the field it stands in, and the text of a
  whole format.\<close>

function places :: "bool \<Rightarrow> nat \<Rightarrow> nat \<Rightarrow> u8 list" where
  "places upper base v =
     (if v < base \<or> base < 2 then [digit_set upper ! v]
      else places upper base (v div base) @ [digit_set upper ! (v mod base)])"
  by auto
termination by (relation "measure (\<lambda>(u, base, v). v)") auto

declare places.simps [simp del]

definition number_text :: "nat \<Rightarrow> u8 list \<Rightarrow> nat \<Rightarrow> bool \<Rightarrow> nat \<Rightarrow> nat \<Rightarrow> u8 \<Rightarrow> bool \<Rightarrow> u8 list" where
  "number_text v prefix base upper wid prec padding justify =
     (let digits = places upper base v; body = replicate (prec - length digits) 48 @ digits;
          gap = wid - (length prefix + length body)
      in if justify then prefix @ body @ replicate gap 32
         else if padding = 32 then replicate gap 32 @ prefix @ body
         else if padding = 48 \<and> prec = 0 then prefix @ replicate gap 48 @ body
         else prefix @ body)"

definition spec_number :: "spec \<Rightarrow> nat \<Rightarrow> u8 list \<Rightarrow> nat \<Rightarrow> bool \<Rightarrow> u8 list" where
  "spec_number sp v prefix base upper =
     number_text v prefix base upper (unat (width sp)) (unat (precision sp)) (pad sp) (left sp)"

definition render :: "u8 \<Rightarrow> spec \<Rightarrow> arg list \<Rightarrow> (u8 list \<times> arg list) option" where
  "render c sp args =
     (if c = ch CHR ''d'' \<or> c = ch CHR ''i'' then
        map_option (\<lambda>(v, args).
          (spec_number sp (nat \<bar>sint v\<bar>)
             (if sint v < 0 then [45] else if plus sp then [43] else if space sp then [32] else []) 10 False, args)) (int_arg args)
      else if c = ch CHR ''u'' then map_option (\<lambda>(v, args). (spec_number sp (unat v) [] 10 False, args)) (int_arg args)
      else if c = ch CHR ''o'' then
        map_option (\<lambda>(v, args). (spec_number sp (unat v) (if alt sp then [48] else []) 8 False, args)) (int_arg args)
      else if c = ch CHR ''x'' then
        map_option (\<lambda>(v, args). (spec_number sp (unat v) (if alt sp then [48, 120] else []) 16 False, args)) (int_arg args)
      else if c = ch CHR ''X'' then
        map_option (\<lambda>(v, args). (spec_number sp (unat v) (if alt sp then [48, 88] else []) 16 True, args)) (int_arg args)
      else if c = ch CHR ''p'' then
        map_option (\<lambda>(v, args). ([48, 120] @ number_text (unat v) [] 16 False 8 0 48 False, args)) (int_arg args)
      else if c = ch CHR ''s'' then
        map_option (\<lambda>(s, args).
          let s = (case s of None \<Rightarrow> bytes ''(null)'' | Some s \<Rightarrow> s);
              shown = (if precision sp \<noteq> 0 then take (unat (precision sp)) s else s);
              fill = replicate (unat (width sp) - length shown) 32
          in (if left sp then shown @ fill else fill @ shown, args)) (str_arg args)
      else if c = ch CHR ''c'' then map_option (\<lambda>(v, args). ([ucast v], args)) (int_arg args)
      else Some ([37, c], args))"

function format_text :: "u8 list \<Rightarrow> arg list \<Rightarrow> u8 list option" where
  "format_text [] args = Some []"
| "format_text (c # fmt) args =
     (if c \<noteq> 37 then map_option ((#) c) (format_text fmt args)
      else if char_at fmt 0 = 37 then map_option ((#) 37) (format_text (tl fmt) args)
      else case parse_spec fmt args of
             None \<Rightarrow> None
           | Some (sp, [], args) \<Rightarrow> Some [37]
           | Some (sp, d # rest, args) \<Rightarrow>
               (case render d sp args of
                  None \<Rightarrow> None
                | Some (txt, args) \<Rightarrow> map_option ((@) txt) (format_text rest args)))"
  by pat_completeness auto
termination
  by (relation "measure (\<lambda>(fmt, args). length fmt)") (auto dest: parse_spec_length)

subsection \<open>Every conversion writes its text\<close>

lemma out_text_append: "out_text K (s @ t) out = out_text K t (out_text K s out)"
  by (induction s arbitrary: out) auto

lemma out_char_text: "out_char K c out = out_text K [c] out"
  by simp

lemma low_digits_places:
  "0 < n \<Longrightarrow> 2 \<le> unat base \<Longrightarrow> unat v < unat base ^ n \<Longrightarrow>
     rev (low_digits n upper base v) = places upper (unat base) (unat v)"
proof (induction n arbitrary: v)
  case (Suc n)
  have d: "unat (v div base) = unat v div unat base" "unat (v mod base) = unat v mod unat base"
    by (simp_all add: unat_div unat_mod)
  show ?case
  proof (cases "unat v < unat base")
    case True
    then have "v div base = 0" using d(1) by (simp add: unat_eq_0 [symmetric])
    then show ?thesis using True d Suc.prems by (subst places.simps) simp
  next
    case False
    then have nz: "v div base \<noteq> 0"
      using d(1) Suc.prems by (auto simp: unat_eq_0 [symmetric] div_eq_0_iff)
    have n: "0 < n" using Suc.prems False by (cases n) auto
    have "unat (v div base) < unat base ^ n"
      using Suc.prems d(1) by (simp add: less_mult_imp_div_less mult.commute)
    from Suc.IH [OF n Suc.prems(2) this] show ?thesis
      using nz False Suc.prems d by (subst places.simps) simp
  qed
qed simp

lemma low_digits32:
  assumes "base \<in> {8, 10, 16}"
  shows "rev (low_digits 32 upper base v) = places upper (unat base) (unat v)"
proof (rule low_digits_places)
  have "unat v < 2 ^ 32" by (rule unat_lt_2p32)
  also have "(2 :: nat) ^ 32 \<le> unat base ^ 32" using assms by (intro power_mono) auto
  finally show "unat v < unat base ^ 32" .
qed (use assms in auto)

lemma out_number_text:
  assumes base: "base \<in> {8, 10, 16}"
    and len: "length (number_text (unat v) prefix (unat base) upper (unat wid) (unat prec) padding justify) < 2 ^ 31"
  shows "out_number K v prefix base upper wid prec padding justify out =
    out_text K (number_text (unat v) prefix (unat base) upper (unat wid) (unat prec) padding justify) out"
proof -
  define ds where "ds = low_digits 32 upper base v"
  have p: "places upper (unat base) (unat v) = rev ds" using low_digits32 [OF base] by (simp add: ds_def)
  define body where "body = replicate (unat prec - length ds) 48 @ rev ds"
  have lb: "length prefix + length body \<le> length (number_text (unat v) prefix (unat base) upper (unat wid) (unat prec) padding justify)"
    by (simp add: number_text_def Let_def p body_def)
  then have small: "length prefix + length body < 2 ^ 31" using len by linarith
  have nd: "length ds < 2 ^ 31" "length prefix < 2 ^ 31" "unat prec < 2 ^ 31" using small by (auto simp: body_def)
  define n where "n = (of_nat (length ds) :: u32)"
  have n: "unat n = length ds" using nd by (simp add: n_def unat_of_nat_u32)
  define zeros where "zeros = (if prec > n then prec - n else 0)"
  have z: "unat zeros = unat prec - length ds"
    using n by (auto simp: zeros_def word_less_nat_alt unat_sub_if' not_less)
  define shown where "shown = n + zeros + of_nat (length prefix)"
  have s: "unat shown = length prefix + length body"
    using small n z nd by (simp add: shown_def unat_word_ariths body_def unat_of_nat_u32)
  have w: "wid > shown \<longleftrightarrow> length prefix + length body < unat wid" by (simp add: word_less_nat_alt s)
  define gap where "gap = unat wid - (length prefix + length body)"
  have rep: "(if wid > shown then out_repeat K c (wid - shown) x else x) = out_text K (replicate gap c) x" for c x
    using s by (auto simp: gap_def out_repeat_def unat_sub_if' word_less_nat_alt)
  have zr: "out_repeat K 48 zeros x = out_text K (replicate (unat prec - length ds) 48) x" for x
    by (simp add: out_repeat_def z)
  have pz: "prec = 0 \<longleftrightarrow> unat prec = 0" by (simp add: unat_eq_0)
  have nt: "number_text (unat v) prefix (unat base) upper (unat wid) (unat prec) padding justify =
      (if justify then prefix @ body @ replicate gap 32 else if padding = 32 then replicate gap 32 @ prefix @ body
       else if padding = 48 \<and> prec = 0 then prefix @ replicate gap 48 @ body else prefix @ body)"
    by (simp add: number_text_def Let_def p body_def gap_def pz)
  have out: "out_number K v prefix base upper wid prec padding justify out =
      (let x = (if \<not> justify \<and> padding = 32 then out_text K (replicate gap 32) out else out);
           x = out_text K prefix x;
           x = (if \<not> justify \<and> padding = 48 \<and> prec = 0 then out_text K (replicate gap 48) x else x);
           x = out_text K body x
       in if justify then out_text K (replicate gap 32) x else x)"
    unfolding out_number_def Let_def ds_def [symmetric] n_def [symmetric] zeros_def [symmetric] shown_def [symmetric] zr
    by (simp add: rep [symmetric] body_def out_text_append)
  show ?thesis unfolding out nt by (simp add: out_text_append Let_def)
qed


lemma sint_unat: "sint (v :: u32) = int (unat v) \<or> sint v = int (unat v) - 2 ^ 32"
proof -
  have "sint v = signed_take_bit 31 (uint v)" by (simp add: sint_uint)
  also have "\<dots> = take_bit 32 (uint v) - 2 ^ 32 * of_bool (bit (uint v) 31)"
    using signed_take_bit_eq_take_bit_minus [of 31 "uint v"] by simp
  also have "take_bit 32 (uint v) = uint v" using uint_lt2p [of v] by (simp add: take_bit_eq_mod)
  finally have "sint v = uint v \<or> sint v = uint v - 2 ^ 32" by (cases "bit (uint v) 31") simp_all
  moreover have "uint v = int (unat v)" by simp
  ultimately show ?thesis by (simp only:)
qed

lemma unat_magnitude: "unat (if sint (v :: u32) < 0 then - v else v) = nat \<bar>sint v\<bar>"
proof (cases "sint v < 0")
  case True
  then have s: "sint v = int (unat v) - 2 ^ 32" using sint_unat [of v] by linarith
  have "- (2 ^ 31) \<le> sint v" using sint_ge [of v] by simp
  then have nz: "unat v \<noteq> 0" using s by (intro notI) simp
  have "unat (- v) = 2 ^ 32 - unat v" using unat_sub_if' [of 0 v] nz by simp
  moreover have "nat \<bar>int n - 2 ^ 32\<bar> = 2 ^ 32 - n" if "n < 2 ^ 32" for n :: nat using that by auto
  then have "nat \<bar>sint v\<bar> = 2 ^ 32 - unat v" unfolding s using unat_lt_2p32 by blast
  ultimately show ?thesis using True by simp
next
  case False
  have "int (unat v) < 2 ^ 32" using unat_lt_2p32 [of v] by (metis of_nat_less_iff of_nat_numeral of_nat_power)
  then have "sint v = int (unat v)" using sint_unat [of v] False by linarith
  then show ?thesis using False by simp
qed

lemma spec_number_out:
  assumes "base \<in> {8, 10, 16}" "length (spec_number sp (unat v) prefix (unat base) upper) < 2 ^ 31"
  shows "out_number K v prefix base upper (width sp) (precision sp) (pad sp) (left sp) out =
    out_text K (spec_number sp (unat v) prefix (unat base) upper) out"
  using out_number_text [OF assms(1) assms(2) [unfolded spec_number_def]] by (simp add: spec_number_def)

lemma convert_render:
  assumes "render c sp args = Some (t, args')" "length t < 2 ^ 31"
  shows "convert K c sp args out = Some (args', out_text K t out)"
proof -
  have n: "length x < 2 ^ 31 \<Longrightarrow> base \<in> {8, 10, 16} \<Longrightarrow> x = spec_number sp (unat v) prefix (unat base) upper \<Longrightarrow>
      out_number K v prefix base upper (width sp) (precision sp) (pad sp) (left sp) out = out_text K x out"
    for x base v prefix upper using spec_number_out [of base sp v prefix upper] by simp
  have b: "unat (10 :: u32) = 10" "unat (8 :: u32) = 8" "unat (16 :: u32) = 16" by simp_all
  note nn = n [where base = 10, unfolded b] n [where base = 8, unfolded b] n [where base = 16, unfolded b]
  have m: "nat \<bar>sint v\<bar> = unat (if sint v < 0 then - v else v)" for v :: u32 by (rule unat_magnitude [symmetric])
  have p: "length (number_text (unat v) [] 16 False 8 0 48 False) < 2 ^ 31 \<Longrightarrow>
      out_number K v [] 16 False 8 0 48 False x = out_text K (number_text (unat v) [] 16 False 8 0 48 False) x" for v x
    using out_number_text [of 16 v "[]" False 8 0 48 False K x] by simp
  consider (i) v args1 where "args = AInt v # args1" | (s) s args1 where "args = AStr s # args1" | (n) "args = []"
    by (metis arg.exhaust list.exhaust)
  then show ?thesis
  proof cases
    case i
    show ?thesis
      using assms n i p
      by (auto simp: render_def convert_def m Let_def out_text_append split: if_splits)
  next
    case s
    then show ?thesis
      using assms by (auto simp: render_def convert_def Let_def out_text_append min_def not_less split: if_splits)
  next
    case n
    then show ?thesis using assms by (auto simp: render_def convert_def split: if_splits)
  qed
qed

lemma format_loop_text:
  "format_text fmt args = Some t \<Longrightarrow> length t < 2 ^ 31 \<Longrightarrow> format_loop K fmt args out = Some (out_text K t out)"
proof (induction fmt args arbitrary: t out rule: format_text.induct)
  case (2 c fmt args)
  show ?case
  proof (cases "c \<noteq> 37")
    case True
    then show ?thesis using 2 by auto
  next
    case c: False
    show ?thesis
    proof (cases "char_at fmt 0 = 37")
      case True
      then show ?thesis using 2 c by auto
    next
      case False
      obtain sp rest args1 where p: "parse_spec fmt args = Some (sp, rest, args1)"
        using 2(4) c False by (auto split: option.splits)
      show ?thesis
      proof (cases rest)
        case Nil
        then show ?thesis using 2(4) c False p by auto
      next
        case (Cons d rest')
        obtain x args2 where r: "render d sp args1 = Some (x, args2)"
          using 2(4) c False p Cons by (auto split: option.splits)
        obtain y where y: "format_text rest' args2 = Some y" "t = x @ y" using 2(4) c False p Cons r by auto
        have "convert K d sp args1 out = Some (args2, out_text K x out)"
          by (rule convert_render [OF r]) (use 2(5) y in simp)
        moreover have "format_loop K rest' args2 (out_text K x out) = Some (out_text K y (out_text K x out))"
          using 2(3) [OF c False p refl refl Cons r refl y(1)] 2(5) y(2) by simp
        ultimately show ?thesis using c False p Cons y(2) by (simp add: out_text_append)
      qed
    qed
  qed
qed simp


subsection \<open>The buffer sink\<close>

lemma poke_end:
  assumes "Suc (length bs) \<le> 2 ^ 32"
  shows "(poke m d bs)(d + of_nat (length bs) := b) = poke m d (bs @ [b])"
proof
  fix a
  have u: "unat (of_nat (length bs) :: u32) = length bs" using assms by (simp add: unat_of_nat_u32)
  then have "unat (a - d) = length bs \<Longrightarrow> a - d = of_nat (length bs)" by (simp add: word_unat_eq_iff)
  then have "a = d + of_nat (length bs) \<longleftrightarrow> unat (a - d) = length bs" using u by (auto simp: algebra_simps)
  then show "((poke m d bs)(d + of_nat (length bs) := b)) a = poke m d (bs @ [b]) a"
    by (auto simp: poke_def nth_append)
qed

lemma buffer_text:
  assumes "buf out \<noteq> 0" "len out = of_nat k" "k + length s < 2 ^ 31" "0 < unat (cap out)"
  shows "out_text K s out = out\<lparr>len := of_nat (k + length s),
    omem := poke (omem out) (buf out + of_nat k) (take (unat (cap out) - 1 - k) s)\<rparr>"
  using assms
proof (induction s arbitrary: out k)
  case (Cons c s)
  define out1 where "out1 = out_char K c out"
  have w: "len out + 1 < cap out \<longleftrightarrow> k + 1 < unat (cap out)"
    using Cons.prems by (simp add: word_less_nat_alt unat_word_ariths unat_of_nat)
  have o1: "out1 = out\<lparr>len := of_nat (Suc k),
      omem := (if k + 1 < unat (cap out) then (omem out)(buf out + of_nat k := c) else omem out)\<rparr>"
    unfolding out1_def out_char_def using Cons.prems w by (simp add: add.commute)
  have "out_text K s out1 = out1\<lparr>len := of_nat (Suc k + length s),
      omem := poke (omem out1) (buf out1 + of_nat (Suc k)) (take (unat (cap out1) - 1 - Suc k) s)\<rparr>"
    by (rule Cons.IH) (use Cons.prems in \<open>simp_all add: o1\<close>)
  moreover have "poke (omem out1) (buf out1 + of_nat (Suc k)) (take (unat (cap out1) - 1 - Suc k) s) =
      poke (omem out) (buf out + of_nat k) (take (unat (cap out) - 1 - k) (c # s))"
  proof (cases "k + 1 < unat (cap out)")
    case True
    then have t: "take (unat (cap out) - 1 - k) (c # s) = c # take (unat (cap out) - 1 - Suc k) s"
      by (simp add: take_Cons')
    have l: "Suc (length (take (unat (cap out) - 1 - Suc k) s)) \<le> 2 ^ 32" using Cons.prems by auto
    show ?thesis unfolding t poke_Cons [OF l] using True by (simp add: o1 ac_simps)
  next
    case False
    then show ?thesis by (simp add: o1)
  qed
  ultimately show ?case unfolding out_text.simps out1_def [symmetric] by (simp add: o1)
qed simp

lemma sint_of_nat_small: "n < 2 ^ 31 \<Longrightarrow> sint (of_nat n :: u32) = int n"
  using sint_small [of "of_nat n"] by (simp add: unat_of_nat)

lemma vsnprintf_text:
  assumes "b \<noteq> 0" "0 < unat sz" "format_text fmt args = Some t" "length t < 2 ^ 31"
  shows "vsnprintf K b sz fmt args m io = Some (int (length t), poke m b (take (unat sz - 1) t @ [0]), io)"
proof -
  define out where "out = \<lparr>buf = b, cap = sz, len = 0, ostream = 0, tmp = [], failed = False, omem = m, oio = io\<rparr>"
  define out' where "out' = out_text K t out"
  have o: "out' = out\<lparr>len := of_nat (length t), omem := poke m b (take (unat sz - 1) t)\<rparr>"
    unfolding out'_def using buffer_text [of out 0 t K] assms by (simp add: out_def)
  have e: "b + (if of_nat (length t) < sz then of_nat (length t) else sz - 1) = b + of_nat (length (take (unat sz - 1) t))"
  proof (cases "length t < unat sz")
    case True
    then show ?thesis using assms(4) by (simp add: word_less_nat_alt unat_of_nat min_def)
  next
    case False
    have "sz - 1 = of_nat (unat sz - 1)" using assms(2) by (simp add: of_nat_diff)
    moreover have "\<not> length t \<le> unat sz - 1" using False assms(2) by linarith
    ultimately show ?thesis using False assms(4) by (simp add: word_less_nat_alt unat_of_nat min_def)
  qed
  have l: "Suc (length (take (unat sz - 1) t)) \<le> 2 ^ 32" using assms(4) by auto
  have "format_loop K fmt args out = Some out'" unfolding out'_def by (rule format_loop_text [OF assms(3,4)])
  moreover have "format_into K fmt args out = Some (int (length t), out'\<lparr>omem := poke m b (take (unat sz - 1) t @ [0])\<rparr>)"
    unfolding format_into_def calculation
    using assms(1) e poke_end [OF l, of m b 0] sint_of_nat_small [OF assms(4)] by (auto simp: o out_def split: if_splits)
  ultimately show ?thesis unfolding vsnprintf_def out_def [symmetric] by (simp add: o out_def)
qed


lemma vsnprintf_zero:
  assumes "b \<noteq> 0" "format_text fmt args = Some t" "length t < 2 ^ 31"
  shows "vsnprintf K b 0 fmt args m io = Some (int (length t), m(b - 1 := 0), io)"
proof -
  define out where "out = \<lparr>buf = b, cap = 0, len = 0, ostream = 0, tmp = [], failed = False, omem = m, oio = io\<rparr>"
  have t: "out_text K s x = x\<lparr>len := len x + of_nat (length s)\<rparr>" if "buf x \<noteq> 0" "cap x = 0" for s and x :: "'a out_t"
    using that by (induction s arbitrary: x) (simp_all add: out_char_def Let_def add.assoc)
  have l: "format_loop K fmt args out = Some (out\<lparr>len := of_nat (length t)\<rparr>)"
    using format_loop_text [OF assms(2,3), of K out] t [of out t] assms(1) by (simp add: out_def)
  have "format_into K fmt args out = Some (int (length t), out\<lparr>len := of_nat (length t), omem := m(b - 1 := 0)\<rparr>)"
    unfolding format_into_def l using assms(1) sint_of_nat_small [OF assms(3)] by (simp add: out_def)
  then show ?thesis unfolding vsnprintf_def out_def [symmetric] by (simp add: out_def)
qed

subsection \<open>The stream sink\<close>

text \<open>What has been produced so far is what the stream collected and what waits in the chunk.\<close>

definition sink_holds :: "nat \<Rightarrow> u8 list \<Rightarrow> 'w out_t \<Rightarrow> bool" where
  "sink_holds f produced out \<longleftrightarrow> buf out = 0 \<and> ostream out = f \<and> \<not> failed out \<and> len out = 0 \<and>
     length (tmp out) < OUT_CHUNK \<and>
     (\<exists>s. files (oio out) f = Some s \<and> \<not> is_console s \<and> length (wbuf s) \<le> wcap s \<and> wbuf s @ tmp out = produced)"

lemma out_flush_holds:
  assumes "buf out = 0" "ostream out = f" "\<not> failed out" "len out = 0" "length (tmp out) \<le> OUT_CHUNK" "f \<noteq> 0" "roomy K"
    and "files (oio out) f = Some s" "\<not> is_console s" "length (wbuf s) \<le> wcap s" "wbuf s @ tmp out = produced"
  shows "sink_holds f produced (out_flush K out) \<and> tmp (out_flush K out) = []"
proof (cases "tmp out = []")
  case True
  then show ?thesis using assms by (auto simp: out_flush_def sink_holds_def OUT_CHUNK_def)
next
  case False
  have l: "length (tmp out) < 2 ^ 32" using assms(5) by (simp add: OUT_CHUNK_def)
  obtain io' s' where w: "fwrite K (tmp out) 1 (of_nat (length (tmp out))) f (oio out) = (length (tmp out), io')"
      "files io' = (files (oio out))(f \<mapsto> s')" "wbuf s' = wbuf s @ tmp out" "length (wbuf s') \<le> wcap s'"
      "is_console s' = is_console s"
    using fwrite_roomy [OF assms(8,10,9) l assms(7)] by blast
  then show ?thesis using False assms by (simp add: out_flush_def sink_holds_def OUT_CHUNK_def)
qed

lemma out_char_holds:
  assumes "roomy K" "f \<noteq> 0" "sink_holds f produced out"
  shows "sink_holds f (produced @ [c]) (out_char K c out)"
proof -
  obtain s where s: "buf out = 0" "ostream out = f" "\<not> failed out" "len out = 0" "length (tmp out) < OUT_CHUNK"
      "files (oio out) f = Some s" "\<not> is_console s" "length (wbuf s) \<le> wcap s" "wbuf s @ tmp out = produced"
    using assms(3) by (auto simp: sink_holds_def)
  define out1 where "out1 = out\<lparr>tmp := tmp out @ [c]\<rparr>"
  have c: "out_char K c out = (if length (tmp out1) = OUT_CHUNK then out_flush K out1 else out1)"
    using s(1) by (simp add: out_char_def out1_def)
  show ?thesis
  proof (cases "length (tmp out1) = OUT_CHUNK")
    case True
    then show ?thesis unfolding c
      using out_flush_holds [of out1 f K s "produced @ [c]"] assms(1,2) s by (simp add: out1_def)
  next
    case False
    then have "length (tmp out1) < OUT_CHUNK" using s(5) by (simp add: out1_def)
    then show ?thesis unfolding c using False s by (auto simp: sink_holds_def out1_def)
  qed
qed

lemma out_text_holds:
  assumes "roomy K" "f \<noteq> 0"
  shows "sink_holds f produced out \<Longrightarrow> sink_holds f (produced @ t) (out_text K t out)"
proof (induction t arbitrary: produced out)
  case (Cons c t)
  then show ?case using Cons.IH [OF out_char_holds [OF assms Cons.prems, of c]] by simp
qed simp

lemma vfprintf_file:
  assumes "roomy K" "f \<noteq> 0" "files io f = Some s" "\<not> is_console s" "length (wbuf s) \<le> wcap s"
    and "format_text fmt args = Some t" "length t < 2 ^ 31"
  shows "\<exists>io' s'. vfprintf K f fmt args m io = Some (0, m, io') \<and> files io' f = Some s' \<and> wbuf s' = wbuf s @ t"
proof -
  define out where "out = \<lparr>buf = NULLP, cap = 0, len = 0, ostream = f, tmp = [], failed = False, omem = m, oio = io\<rparr>"
  define out' where "out' = out_text K t out"
  have "sink_holds f (wbuf s) out" using assms by (simp add: sink_holds_def out_def OUT_CHUNK_def)
  then have h: "sink_holds f (wbuf s @ t) out'" unfolding out'_def by (rule out_text_holds [OF assms(1,2)])
  then obtain s1 where s1: "buf out' = 0" "ostream out' = f" "\<not> failed out'" "len out' = 0" "length (tmp out') \<le> OUT_CHUNK"
      "files (oio out') f = Some s1" "\<not> is_console s1" "length (wbuf s1) \<le> wcap s1" "wbuf s1 @ tmp out' = wbuf s @ t"
    by (auto simp: sink_holds_def)
  have fl: "sink_holds f (wbuf s @ t) (out_flush K out')" "tmp (out_flush K out') = []"
    using out_flush_holds [OF s1(1-5) assms(2,1) s1(6-9)] by simp_all
  have m: "omem (out_text K x y) = omem y" if "buf y = 0" for x and y :: "'a out_t"
  proof -
    have "omem (out_char K c y) = omem y \<and> buf (out_char K c y) = 0" if "buf y = 0" for c and y :: "'a out_t"
      using that by (simp add: out_char_def out_flush_def Let_def split: prod.splits)
    then show ?thesis using that by (induction x arbitrary: y) simp_all
  qed
  have "omem (out_flush K out') = m"
    using m [of out t] unfolding out'_def by (simp add: out_flush_def out_def Let_def split: prod.splits)
  moreover have "format_into K fmt args out = Some (0, out_flush K out')"
    using format_loop_text [OF assms(6,7), of K out] s1(1) fl(1)
    unfolding out'_def [symmetric] format_into_def by (simp add: sink_holds_def)
  ultimately have "vfprintf K f fmt args m io = Some (0, m, oio (out_flush K out'))"
    using assms(3) unfolding vfprintf_def out_def [symmetric] by simp
  moreover obtain s' where "files (oio (out_flush K out')) f = Some s'" "wbuf s' = wbuf s @ t"
    using fl by (auto simp: sink_holds_def)
  ultimately show ?thesis by blast
qed


section \<open>Properties of the formatter\<close>



text \<open>With a size of 0 the terminator goes to the byte before the buffer.\<close>

theorem snprintf_zero_underruns:
  assumes "b \<noteq> 0" "format_text fmt args = Some t" "length t < 2 ^ 31"
  shows "snprintf K b 0 fmt args m io = Some (int (length t), m(b - 1 := 0), io)"
  unfolding snprintf_def by (rule vsnprintf_zero [OF assms])

theorem snprintf_zero_underruns_witness:
  "snprintf log_calls 0x500000 0 (bytes ''%u'') [AInt 42] (\<lambda>a. 1) (io_start []) =
     Some (2, (\<lambda>a. 1)(0x4FFFFF := 0), io_start [])"
proof -
  have "format_text (bytes ''%u'') [AInt 42] = Some (bytes ''42'')" by code_simp
  then show ?thesis
    using snprintf_zero_underruns [of "0x500000" "bytes ''%u''" "[AInt 42]" "bytes ''42''"] by simp
qed

text \<open>\<open>fprintf\<close> to a file stream collects exactly the text of its format, over any number of chunks,
  and returns 0 whatever the length of that text.\<close>

theorem fprintf_file_correct:
  assumes "io_run K io" "roomy K" "files io f = Some s" "\<not> is_console s"
    and "format_text fmt args = Some t" "length t < 2 ^ 31"
  shows "\<exists>io' s'. fprintf K f fmt args m io = Some (0, m, io') \<and> files io' f = Some s' \<and> wbuf s' = wbuf s @ t"
proof -
  have ok: "io_ok io" by (rule io_run_ok [OF assms(1)])
  then have "f \<noteq> 0" "length (wbuf s) \<le> wcap s"
    using assms(3) io_ok_stream [OF ok assms(3)] by (auto simp: io_ok_def stream_ok_def intro: ccontr)
  then show ?thesis unfolding fprintf_def using vfprintf_file [OF assms(2) _ assms(3,4) _ assms(5,6)] by simp
qed

theorem fprintf_file_correct_witness:
  "\<exists>io' s'. fprintf log_calls 4 (bytes ''%d%%'') [AInt 50] (\<lambda>a. 0) opened_w = Some (0, \<lambda>a. 0, io') \<and>
     files io' 4 = Some s' \<and> wbuf s' = bytes ''50%''"
proof -
  have t: "format_text (bytes ''%d%%'') [AInt 50] = Some (bytes ''50%'')" by code_simp
  obtain s where s: "files opened_w 4 = Some s" "\<not> is_console s" "wbuf s = []" using opened_w_stream by blast
  show ?thesis using fprintf_file_correct [OF opened_w_run roomy_log s(1,2) t] s(3) by simp
qed

end
