(* ===== verification/Mv_Thread.thy ===== *)
theory Mv_Thread
  imports Mv_Posix
begin

text \<open>
  \<^verbatim>\<open>c/rt/thread.c\<close>: threads over \<^verbatim>\<open>SYS_CLONE\<close>. The state is the table of eight stacks and the process
  with the kernel behind it; the entry of the exit thunk and the addresses of the functions are
  parameters.
\<close>

section \<open>The table of stacks\<close>

definition MV_THREAD_MAX_JOINABLE :: nat where "MV_THREAD_MAX_JOINABLE = 8"
definition MV_THREAD_STACK_SIZE :: u32 where "MV_THREAD_STACK_SIZE = 64 * 1024"
definition MV_THREAD_CANCELED :: u32 where "MV_THREAD_CANCELED = 0x40000000"
definition SYS_YIELD :: u32 where "SYS_YIELD = 35"
definition SYS_MMAP :: u32 where "SYS_MMAP = 120"
definition SYS_MUNMAP :: u32 where "SYS_MUNMAP = 121"
definition SYS_CLONE :: u32 where "SYS_CLONE = 204"
definition SYS_THREAD_EXIT :: u32 where "SYS_THREAD_EXIT = 205"
definition SYS_THREAD_DETACH :: u32 where "SYS_THREAD_DETACH = 206"
definition SYS_THREAD_SETPRIO :: u32 where "SYS_THREAD_SETPRIO = 207"
definition SYS_THREAD_CANCEL :: u32 where "SYS_THREAD_CANCEL = 208"
definition SYS_TESTCANCEL :: u32 where "SYS_TESTCANCEL = 209"

record slot =
  sid :: u32
  sstack :: addr
  ssize :: u32

definition slots_start :: "slot list" where
  "slots_start = replicate MV_THREAD_MAX_JOINABLE \<lparr>sid = 0, sstack = NULLP, ssize = 0\<rparr>"

fun remember_stack :: "u32 \<Rightarrow> addr \<Rightarrow> u32 \<Rightarrow> slot list \<Rightarrow> int \<times> slot list" where
  "remember_stack i stack sz [] = (- 1, [])"
| "remember_stack i stack sz (s # ss) =
     (if sstack s = NULLP then (0, \<lparr>sid = i, sstack = stack, ssize = sz\<rparr> # ss)
      else let (r, ss) = remember_stack i stack sz ss in (r, s # ss))"

text \<open>The stack and the size of a thread, and the table without it; the null pointer when it is not
  in the table.\<close>

fun forget_stack :: "u32 \<Rightarrow> slot list \<Rightarrow> addr \<times> u32 \<times> slot list" where
  "forget_stack i [] = (NULLP, 0, [])"
| "forget_stack i (s # ss) =
     (if sstack s \<noteq> NULLP \<and> sid s = i then (sstack s, ssize s, s\<lparr>sstack := NULLP, sid := 0\<rparr> # ss)
      else let (stack, sz, ss) = forget_stack i ss in (stack, sz, s # ss))"

section \<open>Threads\<close>

definition mv_thread_create ::
    "'w kernel \<Rightarrow> addr \<Rightarrow> addr \<Rightarrow> addr \<Rightarrow> u32 \<Rightarrow> slot list \<times> 'w proc \<Rightarrow> int \<times> slot list \<times> 'w proc" where
  "mv_thread_create K thunk idp fn arg = (\<lambda>(slots, st).
     if idp = NULLP \<or> fn = NULLP then (- 1, slots, st)
     else let (stack, st) = mv_syscall K SYS_MMAP 0 MV_THREAD_STACK_SIZE 3 0 0 st
          in if stack < 0 then (- 1, slots, st)
             else let stack = word_of_int stack; sp = stack + MV_THREAD_STACK_SIZE;
                      m = st32 (pmem st) (sp - 4) arg; m = st32 m (sp - 8) thunk;
                      (tid, st) = mv_syscall K SYS_CLONE fn (sp - 8) 0 0 0 (st\<lparr>pmem := m\<rparr>)
                  in if tid \<le> 0 then
                       (- 1, slots, snd (mv_syscall K SYS_MUNMAP stack MV_THREAD_STACK_SIZE 0 0 0 st))
                     else let (r, slots) = remember_stack (word_of_int tid) stack MV_THREAD_STACK_SIZE slots
                          in (0, slots, st\<lparr>pmem := st32 (pmem st) idp (word_of_int tid)\<rparr>))"

definition mv_thread_join ::
    "'w kernel \<Rightarrow> u32 \<Rightarrow> addr \<Rightarrow> slot list \<times> 'w proc \<Rightarrow> int \<times> slot list \<times> 'w proc" where
  "mv_thread_join K i statusp = (\<lambda>(slots, st).
     let (r, st) = mv_syscall K SYS_WAITPID i 0 0 0 0 st
     in if r < 0 then (- 1, slots, st)
        else let st = (if statusp \<noteq> NULLP then st\<lparr>pmem := st32 (pmem st) statusp (word_of_int r)\<rparr> else st);
                 (stack, sz, slots) = forget_stack i slots;
                 st = (if stack \<noteq> NULLP then snd (mv_syscall K SYS_MUNMAP stack sz 0 0 0 st) else st)
             in (0, slots, st))"

text \<open>The state handed to the kernel; the call does not return.\<close>

definition mv_thread_exit :: "'w kernel \<Rightarrow> u32 \<Rightarrow> 'w proc \<Rightarrow> 'w proc" where
  "mv_thread_exit K status st = snd (mv_syscall K SYS_THREAD_EXIT status 0 0 0 0 st)"

definition mv_thread_yield :: "'w kernel \<Rightarrow> 'w proc \<Rightarrow> int \<times> 'w proc" where
  "mv_thread_yield K st = mv_syscall K SYS_YIELD 0 0 0 0 0 st"

definition mv_thread_detach :: "'w kernel \<Rightarrow> u32 \<Rightarrow> slot list \<times> 'w proc \<Rightarrow> int \<times> slot list \<times> 'w proc" where
  "mv_thread_detach K i = (\<lambda>(slots, st).
     let (r, st) = mv_syscall K SYS_THREAD_DETACH i 0 0 0 0 st
     in if r \<noteq> 0 then (- 1, slots, st)
        else let (stack, sz, slots) = forget_stack i slots in (0, slots, st))"

definition mv_thread_set_priority :: "'w kernel \<Rightarrow> u32 \<Rightarrow> u32 \<Rightarrow> 'w proc \<Rightarrow> int \<times> 'w proc" where
  "mv_thread_set_priority K i prio st = mv_syscall K SYS_THREAD_SETPRIO i prio 0 0 0 st"

definition mv_thread_cancel :: "'w kernel \<Rightarrow> u32 \<Rightarrow> 'w proc \<Rightarrow> int \<times> 'w proc" where
  "mv_thread_cancel K i st =
     (let (r, st) = mv_syscall K SYS_THREAD_CANCEL i 0 0 0 0 st in (if r \<noteq> 0 then - 1 else 0, st))"

text \<open>None for the thread that ends here.\<close>

definition mv_thread_testcancel :: "'w kernel \<Rightarrow> 'w proc \<Rightarrow> int option \<times> 'w proc" where
  "mv_thread_testcancel K st =
     (let (r, st) = mv_syscall K SYS_TESTCANCEL 0 0 0 0 0 st
      in if r \<noteq> 0 then (None, mv_thread_exit K MV_THREAD_CANCELED st) else (Some 0, st))"

section \<open>The table as a map\<close>

text \<open>What the thread operations need of the table: it is a finite map from a thread to its stack,
  to which an entry can be added while there is room and from which an entry is taken once.\<close>

locale stack_table =
  fixes remember :: "u32 \<Rightarrow> addr \<Rightarrow> u32 \<Rightarrow> 't \<Rightarrow> int \<times> 't"
    and forget :: "u32 \<Rightarrow> 't \<Rightarrow> addr \<times> u32 \<times> 't"
    and table_of :: "'t \<Rightarrow> u32 \<rightharpoonup> addr \<times> u32"
    and has_room :: "'t \<Rightarrow> bool"
    and inv :: "'t \<Rightarrow> bool"
  assumes remember_room: "inv t \<Longrightarrow> has_room t \<Longrightarrow> i \<notin> dom (table_of t) \<Longrightarrow> stack \<noteq> 0 \<Longrightarrow>
      \<exists>t'. remember i stack sz t = (0, t') \<and> inv t' \<and> table_of t' = (table_of t)(i \<mapsto> (stack, sz))"
    and remember_full: "inv t \<Longrightarrow> \<not> has_room t \<Longrightarrow> remember i stack sz t = (- 1, t)"
    and forget_known: "inv t \<Longrightarrow> table_of t i = Some (stack, sz) \<Longrightarrow>
      \<exists>t'. forget i t = (stack, sz, t') \<and> inv t' \<and> table_of t' = (table_of t)(i := None)"
    and forget_unknown: "inv t \<Longrightarrow> table_of t i = None \<Longrightarrow> forget i t = (0, 0, t)"
begin

lemma remember_forget:
  assumes "inv t" "has_room t" "i \<notin> dom (table_of t)" "stack \<noteq> 0"
  shows "\<exists>t' t''. remember i stack sz t = (0, t') \<and> inv t' \<and> forget i t' = (stack, sz, t'') \<and> inv t'' \<and>
    table_of t'' = table_of t"
proof -
  obtain t' where t': "remember i stack sz t = (0, t')" "inv t'" "table_of t' = (table_of t)(i \<mapsto> (stack, sz))"
    using remember_room [OF assms] by blast
  obtain t'' where "forget i t' = (stack, sz, t'')" "inv t''" "table_of t'' = (table_of t')(i := None)"
    using forget_known [OF t'(2), of i stack sz] t'(3) by auto
  then show ?thesis using t' assms(3) by (auto simp: fun_upd_idem domIff)
qed

lemma forget_twice:
  assumes "inv t" "table_of t i = Some (stack, sz)" "forget i t = (a, b, t')"
  shows "forget i t' = (0, 0, t')"
  using forget_known [OF assms(1,2)] forget_unknown [of t' i] assms(3) by auto

end

definition live_slots :: "slot list \<Rightarrow> slot list" where
  "live_slots ss = filter (\<lambda>s. sstack s \<noteq> NULLP) ss"

definition slots_map :: "slot list \<Rightarrow> u32 \<rightharpoonup> addr \<times> u32" where
  "slots_map ss = map_of (map (\<lambda>s. (sid s, sstack s, ssize s)) (live_slots ss))"

definition slots_ok :: "slot list \<Rightarrow> bool" where
  "slots_ok ss \<longleftrightarrow> distinct (map sid (live_slots ss))"

definition slots_room :: "slot list \<Rightarrow> bool" where
  "slots_room ss \<longleftrightarrow> (\<exists>s \<in> set ss. sstack s = NULLP)"

lemma slots_map_Cons: "slots_map (s # ss) =
    (if sstack s = NULLP then slots_map ss else (slots_map ss)(sid s \<mapsto> (sstack s, ssize s)))"
  by (simp add: slots_map_def live_slots_def)

lemma dom_slots_map: "dom (slots_map ss) = sid ` set (live_slots ss)"
  by (force simp: slots_map_def dom_map_of_conv_image_fst)

lemma slots_ok_Cons: "slots_ok (s # ss) \<longleftrightarrow> slots_ok ss \<and> (sstack s = NULLP \<or> sid s \<notin> dom (slots_map ss))"
  by (auto simp: slots_ok_def dom_slots_map live_slots_def)

lemma slots_room_Cons: "slots_room (s # ss) \<longleftrightarrow> sstack s = NULLP \<or> slots_room ss"
  by (simp add: slots_room_def)

lemma slots_Nil [simp]: "slots_map [] = Map.empty" "slots_ok []" "\<not> slots_room []"
  by (simp_all add: slots_map_def live_slots_def slots_ok_def slots_room_def)

lemmas slots_simps = slots_map_Cons slots_ok_Cons slots_room_Cons

lemma remember_stack_room:
  "slots_ok ss \<Longrightarrow> slots_room ss \<Longrightarrow> i \<notin> dom (slots_map ss) \<Longrightarrow> stack \<noteq> 0 \<Longrightarrow>
     \<exists>ss'. remember_stack i stack sz ss = (0, ss') \<and> slots_ok ss' \<and> slots_map ss' = (slots_map ss)(i \<mapsto> (stack, sz))"
proof (induction ss)
  case (Cons s ss)
  show ?case
  proof (cases "sstack s = NULLP")
    case True
    then show ?thesis using Cons.prems by (simp add: slots_simps fun_eq_iff)
  next
    case False
    then have ne: "i \<noteq> sid s" "i \<notin> dom (slots_map ss)" using Cons.prems(3) by (auto simp: slots_map_Cons dom_def split: if_splits)
    have "slots_ok ss" "slots_room ss" using Cons.prems(1,2) False by (simp_all add: slots_simps)
    then obtain ss' where "remember_stack i stack sz ss = (0, ss')" "slots_ok ss'" "slots_map ss' = (slots_map ss)(i \<mapsto> (stack, sz))"
      using Cons.IH ne(2) Cons.prems(4) by blast
    then show ?thesis using False ne Cons.prems by (auto simp: slots_simps fun_eq_iff)
  qed
qed simp

lemma remember_stack_full: "\<not> slots_room ss \<Longrightarrow> remember_stack i stack sz ss = (- 1, ss)"
  by (induction ss) (auto simp: slots_simps)

lemma forget_stack_known:
  "slots_ok ss \<Longrightarrow> slots_map ss i = Some (stack, sz) \<Longrightarrow>
     \<exists>ss'. forget_stack i ss = (stack, sz, ss') \<and> slots_ok ss' \<and> slots_map ss' = (slots_map ss)(i := None)"
proof (induction ss)
  case (Cons s ss)
  show ?case
  proof (cases "sstack s \<noteq> NULLP \<and> sid s = i")
    case True
    then have "slots_map ss i = None" using Cons.prems(1) by (auto simp: slots_simps)
    then show ?thesis using True Cons.prems by (auto simp: slots_simps fun_eq_iff)
  next
    case False
    then have "slots_map ss i = Some (stack, sz)" using Cons.prems(2) by (auto simp: slots_simps split: if_splits)
    moreover have "slots_ok ss" using Cons.prems(1) by (simp add: slots_ok_Cons)
    ultimately obtain ss' where "forget_stack i ss = (stack, sz, ss')" "slots_ok ss'" "slots_map ss' = (slots_map ss)(i := None)"
      using Cons.IH by blast
    then show ?thesis using False Cons.prems by (auto simp: slots_simps fun_eq_iff)
  qed
qed simp

lemma forget_stack_unknown: "slots_map ss i = None \<Longrightarrow> forget_stack i ss = (0, 0, ss)"
  by (induction ss) (auto simp: slots_simps split: if_splits)

interpretation stacks: stack_table remember_stack forget_stack slots_map slots_room slots_ok
  by unfold_locales
    (auto intro: remember_stack_room remember_stack_full forget_stack_known forget_stack_unknown)

section \<open>Properties\<close>

text \<open>C24: A thread that was created and joined leaves no trace in the table. Its stack has the argument
  and the exit thunk on top, as a call leaves them, the joiner gets the value the kernel reports, and
  the stack is unmapped.\<close>

theorem thread_create_join:
  assumes "slots_ok slots" "slots_room slots" "idp \<noteq> 0" "fn \<noteq> 0" "statusp \<noteq> 0"
    and mmap: "mv_syscall K SYS_MMAP 0 MV_THREAD_STACK_SIZE 3 0 0 st = (int (unat stack), st1)" "stack \<noteq> 0"
    and clone: "mv_syscall K SYS_CLONE fn (stack + MV_THREAD_STACK_SIZE - 8) 0 0 0 (st1\<lparr>pmem := frame\<rparr>) = (int (unat tid), st2)" "tid \<noteq> 0"
    and frame: "frame = st32 (st32 (pmem st1) (stack + MV_THREAD_STACK_SIZE - 4) arg) (stack + MV_THREAD_STACK_SIZE - 8) thunk"
    and unused: "tid \<notin> dom (slots_map slots)"
    and wait: "mv_syscall K SYS_WAITPID tid 0 0 0 0 (st2\<lparr>pmem := st32 (pmem st2) idp tid\<rparr>) = (int (unat code), st3)"
  shows "\<exists>slots1 st1' slots2.
    mv_thread_create K thunk idp fn arg (slots, st) = (0, slots1, st1') \<and>
    ld32 frame (stack + MV_THREAD_STACK_SIZE - 4) = arg \<and> ld32 frame (stack + MV_THREAD_STACK_SIZE - 8) = thunk \<and>
    slots_map slots1 = (slots_map slots)(tid \<mapsto> (stack, MV_THREAD_STACK_SIZE)) \<and>
    mv_thread_join K tid statusp (slots1, st1') =
      (0, slots2, snd (mv_syscall K SYS_MUNMAP stack MV_THREAD_STACK_SIZE 0 0 0 (st3\<lparr>pmem := st32 (pmem st3) statusp code\<rparr>))) \<and>
    slots_map slots2 = slots_map slots"
proof -
  obtain slots1 slots2 where s: "remember_stack tid stack MV_THREAD_STACK_SIZE slots = (0, slots1)" "slots_ok slots1"
      "forget_stack tid slots1 = (stack, MV_THREAD_STACK_SIZE, slots2)" "slots_map slots2 = slots_map slots"
    using stacks.remember_forget [OF assms(1,2) unused mmap(2)] by blast
  have m: "slots_map slots1 = (slots_map slots)(tid \<mapsto> (stack, MV_THREAD_STACK_SIZE))"
    using stacks.remember_room [OF assms(1,2) unused mmap(2), of MV_THREAD_STACK_SIZE] s(1) by auto
  have w: "word_of_int (int (unat x)) = x" "int (unat x) > 0 \<longleftrightarrow> x \<noteq> 0" for x :: u32
    using unat_gt_0 [of x] by (simp, metis of_nat_0_less_iff)
  have l: "ld32 frame (stack + MV_THREAD_STACK_SIZE - 8) = thunk" "ld32 frame (stack + MV_THREAD_STACK_SIZE - 4) = arg"
    unfolding frame by (simp_all add: ld32_st32_ne MV_THREAD_STACK_SIZE_def)
  have c: "mv_thread_create K thunk idp fn arg (slots, st) =
      (0, slots1, st2\<lparr>pmem := st32 (pmem st2) idp tid\<rparr>)"
    using assms(3,4) mmap(1) clone s(1) w unfolding mv_thread_create_def frame [symmetric]
    by (simp add: Let_def frame uint_0_iff)
  have j: "mv_thread_join K tid statusp (slots1, st2\<lparr>pmem := st32 (pmem st2) idp tid\<rparr>) =
      (0, slots2, snd (mv_syscall K SYS_MUNMAP stack MV_THREAD_STACK_SIZE 0 0 0 (st3\<lparr>pmem := st32 (pmem st3) statusp code\<rparr>)))"
    using wait s(3) assms(5) mmap(2) by (simp add: mv_thread_join_def)
  show ?thesis using c j l m s(4) by blast
qed


definition thread_kernel :: "unit kernel" where
  "thread_kernel nr a b c d e m w =
     (if nr = SYS_MMAP then 0x700000 else if nr = SYS_CLONE then 5 else if nr = SYS_WAITPID then 7 else 0, m, w)"

theorem thread_create_join_witness:
  "\<exists>slots1 st1' slots2 st2. mv_thread_create thread_kernel 0x501000 0x502000 0x503000 99
      (slots_start, \<lparr>errno = 0, pmem = \<lambda>a. 0, kern = ()\<rparr>) = (0, slots1, st1') \<and>
    slots_map slots1 = [5 \<mapsto> (0x700000, MV_THREAD_STACK_SIZE)] \<and>
    mv_thread_join thread_kernel 5 0x504000 (slots1, st1') = (0, slots2, st2) \<and> slots_map slots2 = Map.empty"
proof -
  let ?st = "\<lparr>errno = 0, pmem = \<lambda>a. 0, kern = ()\<rparr>"
  define frame where "frame = st32 (st32 (pmem ?st) (0x700000 + MV_THREAD_STACK_SIZE - 4) 99) (0x700000 + MV_THREAD_STACK_SIZE - 8) 0x501000"
  define st2 where "st2 = ?st\<lparr>pmem := frame\<rparr>"
  define st3 where "st3 = st2\<lparr>pmem := st32 (pmem st2) 0x502000 5\<rparr>"
  have e: "slots_map slots_start = Map.empty" "slots_ok slots_start" "slots_room slots_start"
    by (simp_all add: slots_start_def MV_THREAD_MAX_JOINABLE_def slots_map_def live_slots_def slots_ok_def slots_room_def)
  have k: "mv_syscall thread_kernel SYS_MMAP 0 MV_THREAD_STACK_SIZE 3 0 0 ?st = (int (unat (0x700000 :: u32)), ?st)"
    "mv_syscall thread_kernel SYS_CLONE 0x503000 (0x700000 + MV_THREAD_STACK_SIZE - 8) 0 0 0 (?st\<lparr>pmem := frame\<rparr>) = (int (unat (5 :: u32)), st2)"
    "mv_syscall thread_kernel SYS_WAITPID 5 0 0 0 0 (st2\<lparr>pmem := st32 (pmem st2) 0x502000 5\<rparr>) = (int (unat (7 :: u32)), st3)"
    by (simp_all add: mv_syscall_def thread_kernel_def SYS_MMAP_def SYS_CLONE_def SYS_WAITPID_def st2_def st3_def)
  show ?thesis
    using thread_create_join [OF e(2,3) _ _ _ k(1) _ k(2) _ frame_def _ k(3), of "0x504000"] e(1) by auto
qed

end
