(* ===== verification/Mv_Iface.thy ===== *)
theory Mv_Iface
  imports Mv_Posix
begin

text \<open>
  \<^verbatim>\<open>c/rt/iface.c\<close>: the two interface objects, resolved by name, with their reference counts. There
  is one chronicle and one Sett, so a pointer to an object is the object's name; None is the null
  pointer. The table entries and the counts are the static state of the file.
\<close>

section \<open>Identifiers, objects and the static state\<close>

definition MV_S_OK :: int where "MV_S_OK = 0"
definition MV_E_FAIL :: int where "MV_E_FAIL = - 1"
definition MV_E_NOINTERFACE :: int where "MV_E_NOINTERFACE = - 2"
definition MV_E_POINTER :: int where "MV_E_POINTER = - 3"
definition SYS_LOG_WRITE :: u32 where "SYS_LOG_WRITE = 202"
definition SYS_SETT :: u32 where "SYS_SETT = 203"

lemmas iface_codes = MV_S_OK_def MV_E_FAIL_def MV_E_NOINTERFACE_def MV_E_POINTER_def

record mv_guid =
  ga :: u32
  gb :: u32
  gc :: u32
  gd :: u32

definition MV_IID_CHRONICLE :: mv_guid where
  "MV_IID_CHRONICLE = \<lparr>ga = 0x43485230, gb = 1, gc = 0, gd = 0\<rparr>"

definition MV_IID_SETT :: mv_guid where
  "MV_IID_SETT = \<lparr>ga = 0x53455430, gb = 1, gc = 0, gd = 0\<rparr>"

datatype mv_iface = Chronicle | Sett

text \<open>\<open>chronicle_vt\<close> and \<open>sett_vt\<close> tell whether the vtable pointer of the object has been set.\<close>

record ifaces =
  chronicle_in_use :: bool
  sett_in_use :: bool
  chronicle_refs :: int
  sett_refs :: int
  chronicle_vt :: bool
  sett_vt :: bool

definition ifaces_start :: ifaces where
  "ifaces_start = \<lparr>chronicle_in_use = False, sett_in_use = False, chronicle_refs = 0, sett_refs = 0,
     chronicle_vt = False, sett_vt = False\<rparr>"

definition mv_guid_equal :: "mv_guid \<Rightarrow> mv_guid \<Rightarrow> bool" where
  "mv_guid_equal a b \<longleftrightarrow> ga a = ga b \<and> gb a = gb b \<and> gc a = gc b \<and> gd a = gd b"

section \<open>IChronicle\<close>

text \<open>A query answers with a code and the value stored at \<open>out\<close>. The pointers to the identifier and to
  the result are not null here: the dispatch below has checked them.\<close>

definition chronicle_query :: "mv_guid \<Rightarrow> ifaces \<Rightarrow> int \<times> mv_iface option \<times> ifaces" where
  "chronicle_query iid st =
     (if mv_guid_equal iid MV_IID_CHRONICLE
      then (MV_S_OK, Some Chronicle, st\<lparr>chronicle_refs := chronicle_refs st + 1\<rparr>)
      else (MV_E_NOINTERFACE, None, st))"

definition chronicle_addref :: "ifaces \<Rightarrow> int \<times> ifaces" where
  "chronicle_addref st = (chronicle_refs st + 1, st\<lparr>chronicle_refs := chronicle_refs st + 1\<rparr>)"

definition chronicle_release :: "ifaces \<Rightarrow> int \<times> ifaces" where
  "chronicle_release st =
     (let st = (if chronicle_refs st > 0 then st\<lparr>chronicle_refs := chronicle_refs st - 1\<rparr> else st);
          st = (if chronicle_refs st = 0 then st\<lparr>chronicle_in_use := False\<rparr> else st)
      in (chronicle_refs st, st))"

definition chronicle_write :: "'w kernel \<Rightarrow> u32 \<Rightarrow> addr \<Rightarrow> 'w proc \<Rightarrow> int \<times> 'w proc" where
  "chronicle_write K level txt st =
     (if txt = NULLP then (MV_E_POINTER, st)
      else let (r, st) = mv_syscall K SYS_LOG_WRITE level txt 0 0 0 st
           in (if r = 0 then MV_S_OK else MV_E_FAIL, st))"

definition chronicle_create :: "ifaces \<Rightarrow> mv_iface option \<times> ifaces" where
  "chronicle_create st =
     (Some Chronicle, st\<lparr>chronicle_refs := chronicle_refs st + 1, chronicle_in_use := True, chronicle_vt := True\<rparr>)"

section \<open>ISett\<close>

definition sett_query :: "mv_guid \<Rightarrow> ifaces \<Rightarrow> int \<times> mv_iface option \<times> ifaces" where
  "sett_query iid st =
     (if mv_guid_equal iid MV_IID_SETT then (MV_S_OK, Some Sett, st\<lparr>sett_refs := sett_refs st + 1\<rparr>)
      else (MV_E_NOINTERFACE, None, st))"

definition sett_addref :: "ifaces \<Rightarrow> int \<times> ifaces" where
  "sett_addref st = (sett_refs st + 1, st\<lparr>sett_refs := sett_refs st + 1\<rparr>)"

definition sett_release :: "ifaces \<Rightarrow> int \<times> ifaces" where
  "sett_release st =
     (let st = (if sett_refs st > 0 then st\<lparr>sett_refs := sett_refs st - 1\<rparr> else st);
          st = (if sett_refs st = 0 then st\<lparr>sett_in_use := False\<rparr> else st)
      in (sett_refs st, st))"

definition sett_get :: "'w kernel \<Rightarrow> addr \<Rightarrow> addr \<Rightarrow> u32 \<Rightarrow> 'w proc \<Rightarrow> int \<times> 'w proc" where
  "sett_get K p b sz st =
     (if p = NULLP \<or> b = NULLP \<or> sz = 0 then (MV_E_POINTER, st)
      else let (r, st) = mv_syscall K SYS_SETT 0 p b sz 0 st in (if r = 0 then MV_S_OK else MV_E_FAIL, st))"

definition sett_set :: "'w kernel \<Rightarrow> addr \<Rightarrow> addr \<Rightarrow> 'w proc \<Rightarrow> int \<times> 'w proc" where
  "sett_set K p v st =
     (if p = NULLP \<or> v = NULLP then (MV_E_POINTER, st)
      else let (r, st) = mv_syscall K SYS_SETT 1 p v 0 0 st in (if r = 0 then MV_S_OK else MV_E_FAIL, st))"

definition sett_create :: "ifaces \<Rightarrow> mv_iface option \<times> ifaces" where
  "sett_create st = (Some Sett, st\<lparr>sett_refs := sett_refs st + 1, sett_in_use := True, sett_vt := True\<rparr>)"

section \<open>Resolution and dispatch\<close>

text \<open>The table of factories, in its order.\<close>

definition factories :: "(u8 list \<times> (ifaces \<Rightarrow> mv_iface option \<times> ifaces)) list" where
  "factories = [(bytes ''chronicle'', chronicle_create), (bytes ''sett'', sett_create)]"

fun find_factory ::
    "(u8 list \<times> (ifaces \<Rightarrow> mv_iface option \<times> ifaces)) list \<Rightarrow> u8 list \<Rightarrow> ifaces \<Rightarrow> int \<times> mv_iface option \<times> ifaces" where
  "find_factory [] name st = (MV_E_NOINTERFACE, None, st)"
| "find_factory ((fname, create) # fs) name st =
     (if fname = name then
        (let (obj, st) = create st
         in case obj of None \<Rightarrow> (MV_E_FAIL, None, st) | Some x \<Rightarrow> (MV_S_OK, Some x, st))
      else find_factory fs name st)"

definition mv_iface_get :: "u8 list option \<Rightarrow> ifaces \<Rightarrow> int \<times> mv_iface option \<times> ifaces" where
  "mv_iface_get name st =
     (case name of None \<Rightarrow> (MV_E_POINTER, None, st) | Some n \<Rightarrow> find_factory factories n st)"

definition has_vtbl :: "mv_iface option \<Rightarrow> ifaces \<Rightarrow> bool" where
  "has_vtbl self st = (case self of None \<Rightarrow> False | Some Chronicle \<Rightarrow> chronicle_vt st | Some Sett \<Rightarrow> sett_vt st)"

definition mv_iface_query :: "mv_iface option \<Rightarrow> mv_guid option \<Rightarrow> ifaces \<Rightarrow> int \<times> mv_iface option \<times> ifaces" where
  "mv_iface_query self iid st =
     (case iid of
        None \<Rightarrow> (MV_E_POINTER, None, st)
      | Some g \<Rightarrow>
          if \<not> has_vtbl self st then (MV_E_POINTER, None, st)
          else case the self of Chronicle \<Rightarrow> chronicle_query g st | Sett \<Rightarrow> sett_query g st)"

definition mv_iface_addref :: "mv_iface option \<Rightarrow> ifaces \<Rightarrow> int \<times> ifaces" where
  "mv_iface_addref self st =
     (if \<not> has_vtbl self st then (MV_E_POINTER, st)
      else case the self of Chronicle \<Rightarrow> chronicle_addref st | Sett \<Rightarrow> sett_addref st)"

definition mv_iface_release :: "mv_iface option \<Rightarrow> ifaces \<Rightarrow> int \<times> ifaces" where
  "mv_iface_release self st =
     (if \<not> has_vtbl self st then (MV_E_POINTER, st)
      else case the self of Chronicle \<Rightarrow> chronicle_release st | Sett \<Rightarrow> sett_release st)"

section \<open>Reference counting\<close>

text \<open>The contract both objects keep: references are counted up by \<open>addref\<close> and by a creation, down to
  zero and no further by \<open>release\<close>, and an object in use has a reference.\<close>

locale refcounted =
  fixes addref :: "ifaces \<Rightarrow> int \<times> ifaces"
    and release :: "ifaces \<Rightarrow> int \<times> ifaces"
    and create :: "ifaces \<Rightarrow> mv_iface option \<times> ifaces"
    and refs :: "ifaces \<Rightarrow> int"
    and in_use :: "ifaces \<Rightarrow> bool"
  assumes addref_refs: "fst (addref st) = refs st + 1" "refs (snd (addref st)) = refs st + 1"
      "in_use (snd (addref st)) = in_use st"
    and release_refs: "fst (release st) = refs (snd (release st))"
      "0 \<le> refs st \<Longrightarrow> refs (snd (release st)) = max 0 (refs st - 1)"
      "in_use (snd (release st)) = (in_use st \<and> refs (snd (release st)) \<noteq> 0)"
    and create_refs: "refs (snd (create st)) = refs st + 1" "in_use (snd (create st))"
begin

definition sound :: "ifaces \<Rightarrow> bool" where
  "sound st \<longleftrightarrow> 0 \<le> refs st \<and> (in_use st \<longrightarrow> 0 < refs st)"

lemma sound_addref: "sound st \<Longrightarrow> sound (snd (addref st))"
  by (auto simp: sound_def addref_refs)

lemma sound_release: "sound st \<Longrightarrow> sound (snd (release st))"
  using release_refs(2) [of st] by (auto simp: sound_def release_refs(3))

lemma sound_create: "sound st \<Longrightarrow> sound (snd (create st))"
  by (auto simp: sound_def create_refs)

text \<open>As many releases as references were taken bring the count back.\<close>

lemma balanced: "0 \<le> refs st \<Longrightarrow> refs (((\<lambda>s. snd (release s)) ^^ n) (((\<lambda>s. snd (addref s)) ^^ n) st)) = refs st"
proof (induction n arbitrary: st)
  case (Suc n)
  define up where "up = (\<lambda>s. snd (addref s))"
  define down where "down = (\<lambda>s. snd (release s))"
  have "(up ^^ Suc n) st = (up ^^ n) (up st)" by (simp add: funpow_swap1)
  moreover have "(down ^^ Suc n) x = down ((down ^^ n) x)" for x by simp
  moreover have "refs ((down ^^ n) ((up ^^ n) (up st))) = refs (up st)"
    using Suc.IH [of "up st"] Suc.prems addref_refs(2) [of st] by (simp add: up_def down_def)
  ultimately show ?case
    using release_refs(2) Suc.prems addref_refs(2) [of st] unfolding up_def down_def by (simp add: max_def)
qed simp

end

interpretation chronicle: refcounted chronicle_addref chronicle_release chronicle_create chronicle_refs chronicle_in_use
  by unfold_locales (auto simp: chronicle_addref_def chronicle_release_def chronicle_create_def Let_def)

interpretation sett: refcounted sett_addref sett_release sett_create sett_refs sett_in_use
  by unfold_locales (auto simp: sett_addref_def sett_release_def sett_create_def Let_def)

text \<open>Any sequence of calls of a program.\<close>

inductive iface_run :: "ifaces \<Rightarrow> bool" where
  start: "iface_run ifaces_start"
| resolved: "iface_run st \<Longrightarrow> iface_run (snd (snd (mv_iface_get name st)))"
| queried: "iface_run st \<Longrightarrow> iface_run (snd (snd (mv_iface_query self iid st)))"
| referenced: "iface_run st \<Longrightarrow> iface_run (snd (mv_iface_addref self st))"
| dropped: "iface_run st \<Longrightarrow> iface_run (snd (mv_iface_release self st))"

definition refs_ok :: "ifaces \<Rightarrow> bool" where
  "refs_ok st \<longleftrightarrow> 0 \<le> chronicle_refs st \<and> (chronicle_in_use st \<longrightarrow> 0 < chronicle_refs st) \<and>
     0 \<le> sett_refs st \<and> (sett_in_use st \<longrightarrow> 0 < sett_refs st)"

lemmas iface_ops = chronicle_query_def chronicle_addref_def chronicle_release_def chronicle_create_def
  sett_query_def sett_addref_def sett_release_def sett_create_def

lemma iface_run_ok: "iface_run st \<Longrightarrow> refs_ok st"
proof (induction rule: iface_run.induct)
  case start
  then show ?case by (simp add: refs_ok_def ifaces_start_def)
next
  case (resolved st name)
  then show ?case
    by (auto simp: mv_iface_get_def factories_def refs_ok_def chronicle_create_def sett_create_def split: option.splits)
next
  case (queried st self iid)
  then show ?case
    by (auto simp: mv_iface_query_def refs_ok_def chronicle_query_def sett_query_def split: option.splits mv_iface.splits)
next
  case (referenced st self)
  then show ?case
    by (auto simp: mv_iface_addref_def refs_ok_def chronicle_addref_def sett_addref_def split: mv_iface.splits)
next
  case (dropped st self)
  then show ?case
    by (auto simp: mv_iface_release_def refs_ok_def chronicle_release_def sett_release_def Let_def split: mv_iface.splits)
qed

section \<open>Properties\<close>

text \<open>Whatever a program calls, no reference count becomes negative, and an entry of the table that
  is marked in use has a reference.\<close>

theorem iface_refs_sound:
  assumes "iface_run st"
  shows "0 \<le> chronicle_refs st \<and> (chronicle_in_use st \<longrightarrow> 0 < chronicle_refs st) \<and>
    0 \<le> sett_refs st \<and> (sett_in_use st \<longrightarrow> 0 < sett_refs st)"
  using iface_run_ok [OF assms] by (simp add: refs_ok_def)

theorem iface_refs_sound_witness:
  "0 \<le> chronicle_refs (snd (mv_iface_release (Some Chronicle) (snd (snd (mv_iface_get (Some (bytes ''chronicle'')) ifaces_start)))))"
proof -
  have "iface_run (snd (mv_iface_release (Some Chronicle) (snd (snd (mv_iface_get (Some (bytes ''chronicle'')) ifaces_start)))))"
    by (intro iface_run.intros)
  then show ?thesis using iface_refs_sound by blast
qed

text \<open>An interface that was released to zero is handed out again: the next resolution of its name
  succeeds with a fresh reference.\<close>

theorem iface_released_is_resolved_again:
  assumes "iface_run st" "mv_iface_release (Some Chronicle) st = (0, st')"
  shows "\<exists>st''. mv_iface_get (Some (bytes ''chronicle'')) st' = (MV_S_OK, Some Chronicle, st'') \<and>
    chronicle_refs st'' = 1 \<and> chronicle_in_use st''"
proof -
  have "chronicle_refs st' = 0"
    using assms(2) iface_run_ok [OF assms(1)]
    by (auto simp: mv_iface_release_def chronicle_release_def Let_def iface_codes refs_ok_def split: if_splits)
  then show ?thesis by (simp add: mv_iface_get_def factories_def chronicle_create_def)
qed

theorem iface_released_is_resolved_again_witness:
  "\<exists>st' st''. mv_iface_release (Some Chronicle) (snd (snd (mv_iface_get (Some (bytes ''chronicle'')) ifaces_start))) = (0, st') \<and>
     mv_iface_get (Some (bytes ''chronicle'')) st' = (MV_S_OK, Some Chronicle, st'')"
proof -
  define st where "st = snd (snd (mv_iface_get (Some (bytes ''chronicle'')) ifaces_start))"
  have r: "iface_run st" unfolding st_def by (intro iface_run.intros)
  obtain st' where "mv_iface_release (Some Chronicle) st = (0, st')"
    by (simp add: st_def mv_iface_get_def factories_def ifaces_start_def chronicle_create_def mv_iface_release_def
        has_vtbl_def chronicle_release_def)
  then show ?thesis using iface_released_is_resolved_again [OF r] unfolding st_def by blast
qed

end
