(* ===== verification/Mv_Args.thy ===== *)
theory Mv_Args
  imports Mv_Posix
begin

text \<open>
  \<^verbatim>\<open>c/rt/args.c\<close>: the flattened command line, split in place into the words of \<open>argv\<close>. The buffer lies
  in the memory of the program; \<open>av\<close> is the list of the pointers stored so far, so that its length
  is \<open>argc\<close>.
\<close>

section \<open>The splitting loop\<close>

definition SYS_GETARGS :: u32 where "SYS_GETARGS = 32"
definition MV_ARGS_BUFSZ :: u32 where "MV_ARGS_BUFSZ = 512"

definition mv_getargs :: "'w kernel \<Rightarrow> addr \<Rightarrow> u32 \<Rightarrow> 'w proc \<Rightarrow> int \<times> 'w proc" where
  "mv_getargs K buf sz st = mv_syscall K SYS_GETARGS buf 0 0 0 0 st"

definition is_sep :: "u8 \<Rightarrow> bool" where
  "is_sep c \<longleftrightarrow> c = ch (CHR '' '') \<or> c = 9"

partial_function (option) clear_seps :: "addr \<Rightarrow> mem \<Rightarrow> (addr \<times> mem) option" where
  "clear_seps p m = (if is_sep (m p) then clear_seps (p + 1) (m(p := NUL)) else Some (p, m))"

partial_function (option) skip_word :: "mem \<Rightarrow> addr \<Rightarrow> addr option" where
  "skip_word m p = (if m p \<noteq> NUL \<and> \<not> is_sep (m p) then skip_word m (p + 1) else Some p)"

partial_function (option) args_loop :: "int \<Rightarrow> addr \<Rightarrow> addr list \<Rightarrow> mem \<Rightarrow> (addr list \<times> mem) option" where
  "args_loop mx p av m =
     (if m p \<noteq> NUL \<and> int (length av) < mx then
        Option.bind (clear_seps p m) (\<lambda>(p, m).
          if m p = NUL then Some (av, m)
          else Option.bind (skip_word m p) (\<lambda>q. args_loop mx q (av @ [p]) m))
      else Some (av, m))"

definition mv_args :: "'w kernel \<Rightarrow> addr \<Rightarrow> addr \<Rightarrow> u32 \<Rightarrow> int \<Rightarrow> 'w proc \<Rightarrow> (int \<times> addr list \<times> 'w proc) option" where
  "mv_args K prog buf sz mx st =
     (if mx < 1 then Some (0, [], st)
      else let (r, st) = mv_getargs K buf MV_ARGS_BUFSZ st
           in if r < 0 then Some (1, [prog], st\<lparr>pmem := (pmem st)(buf := NUL)\<rparr>)
              else map_option (\<lambda>(av, m). (int (length av), av, st\<lparr>pmem := m\<rparr>))
                     (args_loop mx buf [prog] (pmem st)))"

section \<open>The words of a line\<close>

fun split_words :: "u8 list \<Rightarrow> u8 list list" where
  "split_words [] = []"
| "split_words (c # s) =
     (if is_sep c then split_words s
      else case s of [] \<Rightarrow> [[c]]
           | d # _ \<Rightarrow> if is_sep d then [c] # split_words s
                   else case split_words s of [] \<Rightarrow> [[c]] | w # ws \<Rightarrow> (c # w) # ws)"

abbreviation (input) word_of :: "u8 list \<Rightarrow> u8 list" where
  "word_of s \<equiv> takeWhile (\<lambda>c. \<not> is_sep c) s"

abbreviation (input) behind_word :: "u8 list \<Rightarrow> u8 list" where
  "behind_word s \<equiv> dropWhile (\<lambda>c. \<not> is_sep c) s"

lemma is_sep_nonzero [simp]: "is_sep 0 = False"
  by (simp add: is_sep_def)

lemma split_words_sep: "split_words (dropWhile is_sep s) = split_words s"
  by (induction s) auto

lemma split_words_word:
  "s \<noteq> [] \<Longrightarrow> \<not> is_sep (hd s) \<Longrightarrow> split_words s = word_of s # split_words (behind_word s)"
proof (induction s)
  case (Cons c s)
  then show ?case by (cases s) (auto split: list.splits)
qed simp

lemma split_words_none: "split_words s = [] \<longleftrightarrow> (\<forall>c \<in> set s. is_sep c)"
proof (induction s)
  case (Cons c s)
  then show ?case by (cases s) (auto split: list.splits)
qed simp

section \<open>What the loops do to a line\<close>

lemma clear_seps_spec:
  "cstr m p s \<Longrightarrow>
     \<exists>m'. clear_seps p m = Some (p + of_nat (length (takeWhile is_sep s)), m') \<and>
       cstr m' (p + of_nat (length (takeWhile is_sep s))) (dropWhile is_sep s) \<and>
       (\<forall>i < length (takeWhile is_sep s). m' (p + of_nat i) = 0) \<and>
       (\<forall>a. (\<forall>i < length (takeWhile is_sep s). a \<noteq> p + of_nat i) \<longrightarrow> m' a = m a)"
proof (induction s arbitrary: p m)
  case Nil
  then show ?case by (simp add: clear_seps.simps [of p m])
next
  case (Cons c s)
  have len: "length (c # s) < 2 ^ 32" by (rule cstr_length [OF Cons.prems])
  show ?case
  proof (cases "is_sep c")
    case False
    with Cons.prems show ?thesis by (simp add: clear_seps.simps [of p m])
  next
    case True
    have ne: "p + 1 + of_nat i \<noteq> p" if "i \<le> length s" for i
      using len that off_inj [of "Suc i" 0 p] by (simp add: add.assoc)
    have c: "cstr (m(p := 0)) (p + 1) s"
      using Cons.prems ne cstr_cong [of s "m(p := 0)" "p + 1" m "p + 1"] by simp
    obtain m' where m': "clear_seps (p + 1) (m(p := 0)) = Some (p + 1 + of_nat (length (takeWhile is_sep s)), m')"
        "cstr m' (p + 1 + of_nat (length (takeWhile is_sep s))) (dropWhile is_sep s)"
        "\<forall>i < length (takeWhile is_sep s). m' (p + 1 + of_nat i) = 0"
        "\<forall>a. (\<forall>i < length (takeWhile is_sep s). a \<noteq> p + 1 + of_nat i) \<longrightarrow> m' a = (m(p := 0)) a"
      using Cons.IH [OF c] by blast
    have "length (takeWhile is_sep s) \<le> length s" by (rule length_takeWhile_le)
    then have "\<forall>i < length (takeWhile is_sep s). p \<noteq> p + 1 + of_nat i" using ne by fastforce
    then have z: "m' p = 0" using m'(4) by simp
    have "\<forall>i < Suc (length (takeWhile is_sep s)). m' (p + of_nat i) = 0"
      using z m'(3) by (auto simp: less_Suc_eq_0_disj add.assoc)
    moreover have "m' a = m a" if "\<forall>i < Suc (length (takeWhile is_sep s)). a \<noteq> p + of_nat i" for a
    proof -
      have "a \<noteq> p" "\<forall>i < length (takeWhile is_sep s). a \<noteq> p + 1 + of_nat i"
        using that by (auto simp: less_Suc_eq_0_disj add.assoc)
      then show ?thesis using m'(4) by simp
    qed
    ultimately show ?thesis
      using m'(1,2) True Cons.prems by (auto simp: clear_seps.simps [of p m] add.assoc)
  qed
qed

lemma skip_word_spec:
  "cstr m p s \<Longrightarrow> skip_word m p = Some (p + of_nat (length (word_of s)))"
proof (induction s arbitrary: p)
  case Nil
  then show ?case by (simp add: skip_word.simps [of m p])
next
  case (Cons c s)
  then show ?case by (auto simp: skip_word.simps [of m p] add.assoc)
qed

text \<open>The bytes of a line from \<open>p\<close> on, and the frame around them.\<close>

definition frame :: "addr \<Rightarrow> nat \<Rightarrow> mem \<Rightarrow> mem \<Rightarrow> bool" where
  "frame p n m m' \<longleftrightarrow> (\<forall>a. (\<forall>i < n. a \<noteq> p + of_nat i) \<longrightarrow> m' a = m a)"

lemma frame_trans: "frame p n m m1 \<Longrightarrow> frame p n m1 m2 \<Longrightarrow> frame p n m m2"
  by (simp add: frame_def)

lemma frame_sub: "frame (p + of_nat k) l m m' \<Longrightarrow> k + l \<le> n \<Longrightarrow> frame p n m m'"
proof -
  assume f: "frame (p + of_nat k) l m m'" and n: "k + l \<le> n"
  have "a \<noteq> p + of_nat k + of_nat i" if "\<forall>i < n. a \<noteq> p + of_nat i" "i < l" for a i
    using that(1) [rule_format, of "k + i"] that(2) n by (simp add: add.assoc)
  then show ?thesis using f unfolding frame_def by blast
qed

lemma frame_before:
  assumes "frame (p + of_nat k) l m m'" "i < k" "k + l < 2 ^ 32"
  shows "m' (p + of_nat i) = m (p + of_nat i)"
proof -
  have "p + of_nat i \<noteq> p + of_nat (k + j)" if "j < l" for j
    using assms(2,3) that by (subst off_inj) auto
  then show ?thesis using assms(1) unfolding frame_def by (simp add: add.assoc)
qed

lemma args_loop_spec:
  "cstr m p s \<Longrightarrow> int (length av + length (split_words s)) < mx \<Longrightarrow>
     \<exists>ptrs m'. args_loop mx p av m = Some (av @ ptrs, m') \<and> list_all2 (cstr m') ptrs (split_words s) \<and>
       frame p (length s) m m' \<and> (s = [] \<or> is_sep (hd s) \<longrightarrow> m' p = 0)"
proof (induction s arbitrary: m p av rule: measure_induct_rule [of length])
  case (less s)
  show ?case
  proof (cases "s = []")
    case True
    then show ?thesis using less.prems by (simp add: args_loop.simps [of mx p av m] frame_def)
  next
    case False
    define k where "k = length (takeWhile is_sep s)"
    define s1 where "s1 = dropWhile is_sep s"
    define w where "w = word_of s1"
    define s2 where "s2 = behind_word s1"
    have len: "length s = k + length s1" "length s1 = length w + length s2"
      unfolding k_def s1_def w_def s2_def by (metis length_append takeWhile_dropWhile_id)+
    have small: "length s < 2 ^ 32" by (rule cstr_length [OF less.prems(1)])
    have enter: "m p \<noteq> 0" "int (length av) < mx"
      using less.prems False by (cases s; simp)+
    obtain m1 where m1: "clear_seps p m = Some (p + of_nat k, m1)" "cstr m1 (p + of_nat k) s1"
        "\<forall>i < k. m1 (p + of_nat i) = 0" "frame p k m m1"
      using clear_seps_spec [OF less.prems(1)] unfolding k_def s1_def frame_def by blast
    have fr1: "frame p (length s) m m1" using frame_sub [of p 0 k m m1 "length s"] m1(4) len by simp
    have start: "0 < k" if "is_sep (hd s)" using that False by (cases s) (simp_all add: k_def)
    show ?thesis
    proof (cases "s1 = []")
      case True
      then have "split_words s = []" by (metis split_words.simps(1) split_words_sep s1_def)
      moreover have "m1 p = 0" if "is_sep (hd s)" using m1(3) [rule_format, of 0] start [OF that] by simp
      ultimately show ?thesis
        using m1 True enter fr1 False by (simp add: args_loop.simps [of mx p av m])
    next
      case False
      then have hd1: "\<not> is_sep (hd s1)" unfolding s1_def using hd_dropWhile by blast
      then have words: "split_words s = w # split_words s2"
        using split_words_word [OF False] split_words_sep [of s] by (simp add: s1_def w_def s2_def)
      have "w \<noteq> []" using False hd1 by (cases s1) (simp_all add: w_def)
      then have shorter: "length s2 < length s" using len by (cases w) simp_all
      have nz: "m1 (p + of_nat k) \<noteq> 0" using m1(2) False by (cases s1) auto
      let ?q = "p + of_nat (k + length w)"
      have sk: "skip_word m1 (p + of_nat k) = Some ?q"
        using skip_word_spec [OF m1(2)] by (simp add: w_def add.assoc)
      have "length w \<le> length s1" using len by simp
      then have "cstr m1 (p + of_nat k + of_nat (length w)) (drop (length w) s1)" by (rule cstr_drop [OF m1(2)])
      moreover have "drop (length w) s1 = s2" by (metis append_eq_conv_conj s2_def takeWhile_dropWhile_id w_def)
      ultimately have c2: "cstr m1 ?q s2" by (simp add: add.assoc)
      obtain ptrs m' where ih: "args_loop mx ?q (av @ [p + of_nat k]) m1 = Some ((av @ [p + of_nat k]) @ ptrs, m')"
          "list_all2 (cstr m') ptrs (split_words s2)" "frame ?q (length s2) m1 m'"
          "s2 = [] \<or> is_sep (hd s2) \<longrightarrow> m' ?q = 0"
        using less.IH [OF shorter c2, of "av @ [p + of_nat k]"] less.prems(2) words by auto
      have keep: "m' (p + of_nat i) = m1 (p + of_nat i)" if "i < k + length w" for i
        using frame_before [OF ih(3) that] small len by simp
      have "s2 = [] \<or> is_sep (hd s2)" unfolding s2_def using hd_dropWhile by blast
      then have z: "m' ?q = 0" using ih(4) by blast
      have "cstr m' (p + of_nat k) w"
      proof (subst cstr_iff, intro conjI)
        have "bytes_at m' (p + of_nat k) (length w) = bytes_at m1 (p + of_nat k) (length w)"
          by (rule bytes_at_cong) (use keep in \<open>simp add: add.assoc flip: of_nat_add\<close>)
        also have "\<dots> = take (length w) (bytes_at m1 (p + of_nat k) (length s1))"
          by (rule nth_equalityI) (use len in auto)
        also have "\<dots> = take (length w) s1" using m1(2) by (simp add: cstr_iff)
        also have "\<dots> = w" by (metis append_eq_conv_conj takeWhile_dropWhile_id w_def)
        finally show "bytes_at m' (p + of_nat k) (length w) = w" .
        show "0 \<notin> set w" using cstr_no_NUL [OF m1(2)] unfolding w_def by (auto dest: set_takeWhileD)
        show "m' (p + of_nat k + of_nat (length w)) = 0" using z by (simp add: add.assoc)
      qed
      moreover have "frame p (length s) m m'"
        by (rule frame_trans [OF fr1]) (rule frame_sub [OF ih(3)], use len in simp)
      moreover have "m' p = 0" if "is_sep (hd s)"
        using keep [of 0] m1(3) [rule_format, of 0] start [OF that] by simp
      ultimately show ?thesis
        using m1(1) nz sk ih(1,2) enter words \<open>s \<noteq> []\<close> by (simp add: args_loop.simps [of mx p av m])
    qed
  qed
qed

section \<open>Properties\<close>

text \<open>When \<open>argv\<close> has more room than the line has words, \<open>mv_args\<close> returns the number of words and one,
  \<open>argv[0]\<close> is the program, every further pointer is a terminated word of the line, in order, and
  nothing outside the line is written.\<close>

theorem mv_args_correct:
  assumes "mv_getargs K buf MV_ARGS_BUFSZ st = (r, st1)" "0 \<le> r" "cstr (pmem st1) buf line"
    and "int (length (split_words line)) + 1 < mx"
  shows "\<exists>ptrs m'. mv_args K prog buf sz mx st = Some (int (length (split_words line)) + 1, prog # ptrs, st1\<lparr>pmem := m'\<rparr>) \<and>
    list_all2 (cstr m') ptrs (split_words line) \<and>
    (\<forall>a. (\<forall>i < length line. a \<noteq> buf + of_nat i) \<longrightarrow> m' a = pmem st1 a)"
proof -
  obtain ptrs m' where l: "args_loop mx buf [prog] (pmem st1) = Some ([prog] @ ptrs, m')"
      "list_all2 (cstr m') ptrs (split_words line)" "frame buf (length line) (pmem st1) m'"
    using args_loop_spec [OF assms(3), of "[prog]" mx] assms(4) by auto
  have "mv_args K prog buf sz mx st = Some (int (length (split_words line)) + 1, prog # ptrs, st1\<lparr>pmem := m'\<rparr>)"
    using assms(1,2,4) l(1) list_all2_lengthD [OF l(2)] by (simp add: mv_args_def)
  then show ?thesis using l(2,3) unfolding frame_def by blast
qed

text \<open>A kernel whose command line is \<^verbatim>\<open>ls  -l\<close>.\<close>

definition ls_kernel :: "unit kernel" where
  "ls_kernel nr a b c d e m w = (0, poke m a (bytes ''ls  -l'' @ [0]), w)"

theorem mv_args_correct_witness:
  "\<exists>p q st'. mv_args ls_kernel 0x400000 0x500000 512 32 \<lparr>errno = 0, pmem = \<lambda>a. 1, kern = ()\<rparr> =
       Some (3, [0x400000, p, q], st') \<and>
     cstr (pmem st') p (bytes ''ls'') \<and> cstr (pmem st') q (bytes ''-l'')"
proof -
  let ?st = "\<lparr>errno = 0, pmem = \<lambda>a. 1, kern = ()\<rparr> :: unit proc"
  let ?m = "poke (\<lambda>a. 1) 0x500000 (bytes ''ls  -l'' @ [0])"
  have w: "split_words (bytes ''ls  -l'') = [bytes ''ls'', bytes ''-l'']" by code_simp
  have g: "mv_getargs ls_kernel 0x500000 MV_ARGS_BUFSZ ?st = (0, ?st\<lparr>pmem := ?m\<rparr>)"
    by (simp add: mv_getargs_def mv_syscall_def ls_kernel_def)
  have c: "cstr (pmem (?st\<lparr>pmem := ?m\<rparr>)) 0x500000 (bytes ''ls  -l'')" by (simp add: poke_def)
  obtain ptrs m' where "mv_args ls_kernel 0x400000 0x500000 512 32 ?st = Some (3, 0x400000 # ptrs, ?st\<lparr>pmem := m'\<rparr>)"
      "list_all2 (cstr m') ptrs [bytes ''ls'', bytes ''-l'']"
    using mv_args_correct [OF g order_refl c, of 32 "0x400000" 512] unfolding w by auto
  then show ?thesis by (auto simp: list_all2_Cons2 simp del: bytes_Cons)
qed

text \<open>With no room left behind the last word the blank after it stays: the last pointer is the whole
  rest of the line.\<close>

lemma mv_args_full_last:
  assumes "cstr m p s" "s \<noteq> []" "\<not> is_sep (hd s)" "int (length av) + 1 = mx"
  shows "args_loop mx p av m = Some (av @ [p], m)"
proof -
  have "m p \<noteq> 0" "\<not> is_sep (m p)" using assms(1-3) by (cases s; simp)+
  moreover have "args_loop mx q (av @ [p]) m = Some (av @ [p], m)" for q
    using assms(4) by (simp add: args_loop.simps [of mx q "av @ [p]" m])
  ultimately show ?thesis
    using skip_word_spec [OF assms(1)] assms(4)
    by (simp add: args_loop.simps [of mx p av m] clear_seps.simps [of p m])
qed

end
