(* ===== verification/Mv_Kmod.thy ===== *)
theory Mv_Kmod
  imports Mv_Posix
begin

text \<open>
  \<^verbatim>\<open>c/kmod/kmod.c\<close>: the kernel module and its self-test of the runtime. Where the compiler puts the
  string literals, the constant arrays and the local buffer is a parameter: an image gives the
  address of each. The host table comes from the kernel; a function pointer in it is None when it is
  null, and \<open>print\<close> acts on a state of the kernel.
\<close>

section \<open>The module\<close>

record 'w cmod_host =
  api_version :: u32
  host_size :: u32
  add :: "(u32 \<Rightarrow> u32 \<Rightarrow> u32) option"
  print :: "(addr \<Rightarrow> mem \<Rightarrow> 'w \<Rightarrow> 'w) option"

definition CMOD_HOST_API_VERSION :: u32 where "CMOD_HOST_API_VERSION = 1"
definition CMOD_MAGIC :: u32 where "CMOD_MAGIC = 0x444F4D43"
definition CMOD_VERSION :: u32 where "CMOD_VERSION = 1"

text \<open>The size of the host table: two words and two pointers of a 32-bit target.\<close>

definition sizeof_cmod_host :: u32 where "sizeof_cmod_host = 16"

record image =
  lit :: "string \<Rightarrow> addr"
  arr :: "u8 list \<Rightarrow> addr"
  buf :: addr

definition CMOD_ERR_NONE :: int where "CMOD_ERR_NONE = 0"
definition CMOD_ERR_HOST :: int where "CMOD_ERR_HOST = 1"
definition CMOD_ERR_STRLEN :: int where "CMOD_ERR_STRLEN = 2"
definition CMOD_ERR_MEMSET :: int where "CMOD_ERR_MEMSET = 3"
definition CMOD_ERR_MEMCPY :: int where "CMOD_ERR_MEMCPY = 4"
definition CMOD_ERR_MEMMOVE :: int where "CMOD_ERR_MEMMOVE = 5"
definition CMOD_ERR_MEMCMP :: int where "CMOD_ERR_MEMCMP = 6"
definition CMOD_ERR_STRCMP :: int where "CMOD_ERR_STRCMP = 7"
definition CMOD_ERR_HOST_CALL :: int where "CMOD_ERR_HOST_CALL = 8"

lemmas cmod_errors = CMOD_ERR_NONE_def CMOD_ERR_HOST_def CMOD_ERR_STRLEN_def CMOD_ERR_MEMSET_def
  CMOD_ERR_MEMCPY_def CMOD_ERR_MEMMOVE_def CMOD_ERR_MEMCMP_def CMOD_ERR_STRCMP_def CMOD_ERR_HOST_CALL_def

definition reasons :: "string list" where
  "reasons = [''ok'', ''host table rejected'', ''strlen'', ''memset'', ''memcpy'', ''memmove'', ''memcmp'', ''strcmp'',
     ''host->add'']"

definition banner :: string where
  "banner = ''CMOD: C module v1 in ring 0 (runtime ok, asm boundary ok)'' @ [CHR 0x0D, CHR 0x0A]"

text \<open>The checks of a value that may not be there because a string had no end.\<close>

definition check :: "bool option \<Rightarrow> int option \<Rightarrow> int option" where
  "check failed next_check = Option.bind failed (\<lambda>b. if b then Some (- 1) else next_check)"

definition check_strlen :: "image \<Rightarrow> mem \<Rightarrow> int option" where
  "check_strlen I m =
     check (map_option (\<lambda>n. n \<noteq> 0) (strlen (lit I '''') m))
    (check (map_option (\<lambda>n. n \<noteq> 9) (strlen (lit I ''Mellivora'') m))
    (check (map_option (\<lambda>n. n \<noteq> 1) (strlen (lit I ''a'') m)) (Some 0)))"

primrec all_are :: "nat \<Rightarrow> addr \<Rightarrow> u8 \<Rightarrow> mem \<Rightarrow> bool" where
  "all_are 0 p c m = True"
| "all_are (Suc n) p c m = (m p = c \<and> all_are n (p + 1) c m)"

definition check_memset :: "image \<Rightarrow> mem \<Rightarrow> int \<times> mem" where
  "check_memset I m =
     (let m = snd (memset (buf I) 0x5A 37 m)
      in if \<not> all_are 37 (buf I) 0x5A m then (- 1, m)
         else let m = snd (memset (buf I) 0 4 m)
              in if \<not> all_are 4 (buf I) 0 m then (- 1, m)
                 else if m (buf I + 4) \<noteq> 0x5A then (- 1, m) else (0, m))"

definition sixteen :: "u8 list" where
  "sixteen = [0x00, 0x11, 0x22, 0x33, 0x44, 0x55, 0x66, 0x77, 0x88, 0x99, 0xAA, 0xBB, 0xCC, 0xDD, 0xEE, 0xFF]"

definition check_memcpy :: "image \<Rightarrow> mem \<Rightarrow> int \<times> mem" where
  "check_memcpy I m =
     (let m = snd (memset (buf I) 0 16 m);
          m = snd (memcpy (buf I) (arr I sixteen) 16 m)
      in if memcmp (buf I) (arr I sixteen) 16 m \<noteq> 0 then (- 1, m)
         else let m = snd (memcpy (buf I) (arr I sixteen) 0 m)
              in if memcmp (buf I) (arr I sixteen) 16 m \<noteq> 0 then (- 1, m) else (0, m))"

definition pattern :: "u8 list" where "pattern = bytes ''abcdefghijkl''"
definition right :: "u8 list" where "right = bytes ''aabcdefghijk''"
definition left :: "u8 list" where "left = bytes ''cdefghijklkl''"

definition check_memmove :: "image \<Rightarrow> mem \<Rightarrow> int \<times> mem" where
  "check_memmove I m =
     (let m = snd (memcpy (buf I) (arr I pattern) 12 m);
          m = snd (memmove (buf I + 1) (buf I) 11 m)
      in if memcmp (buf I) (arr I right) 12 m \<noteq> 0 then (- 1, m)
         else let m = snd (memcpy (buf I) (arr I pattern) 12 m);
                  m = snd (memmove (buf I) (buf I + 2) 10 m)
              in if memcmp (buf I) (arr I left) 12 m \<noteq> 0 then (- 1, m)
                 else let m = snd (memcpy (buf I) (arr I pattern) 12 m);
                          m = snd (memmove (buf I) (buf I) 12 m)
                      in if memcmp (buf I) (arr I pattern) 12 m \<noteq> 0 then (- 1, m) else (0, m))"

text \<open>The first two constant arrays have the same bytes.\<close>

definition check_memcmp :: "image \<Rightarrow> mem \<Rightarrow> int" where
  "check_memcmp I m =
     (let a = arr I [1, 2, 3, 4]; b = arr I [1, 2, 3, 4]; c = arr I [1, 2, 3, 5]
      in if memcmp a b 4 m \<noteq> 0 then - 1
         else if memcmp a c 4 m \<ge> 0 then - 1
         else if memcmp c a 4 m \<le> 0 then - 1
         else if memcmp a c 3 m \<noteq> 0 then - 1
         else 0)"

definition check_strcmp :: "image \<Rightarrow> mem \<Rightarrow> int option" where
  "check_strcmp I m =
     check (map_option (\<lambda>r. r \<noteq> 0) (strcmp (lit I '''') (lit I '''') m))
    (check (map_option (\<lambda>r. r \<noteq> 0) (strcmp (lit I ''abc'') (lit I ''abc'') m))
    (check (map_option (\<lambda>r. r \<ge> 0) (strcmp (lit I ''abc'') (lit I ''abd'') m))
    (check (map_option (\<lambda>r. r \<le> 0) (strcmp (lit I ''abd'') (lit I ''abc'') m))
    (check (map_option (\<lambda>r. r \<le> 0) (strcmp (lit I ''abc'') (lit I ''ab'') m))
    (check (Some (strncmp (lit I ''abcdef'') (lit I ''abcxyz'') 3 m \<noteq> 0))
    (check (Some (strncmp (lit I ''abcdef'') (lit I ''abcxyz'') 4 m \<ge> 0)) (Some 0)))))))"

definition check_host_call :: "(u32 \<Rightarrow> u32 \<Rightarrow> u32) \<Rightarrow> int" where
  "check_host_call f =
     (if f 20 22 \<noteq> 42 then - 1
      else if f 0 0 \<noteq> 0 then - 1
      else if f 0xFFFFFFFE 1 \<noteq> 0xFFFFFFFF then - 1
      else 0)"

text \<open>\<open>h\<close> is the static pointer to the host table, None while it is null.\<close>

definition cmod_init :: "'w cmod_host option \<Rightarrow> 'w cmod_host option \<Rightarrow> int \<times> 'w cmod_host option" where
  "cmod_init h host =
     (case h of None \<Rightarrow> (- 1, host)
      | Some t \<Rightarrow>
          if host_size t \<noteq> sizeof_cmod_host then (- 1, host)
          else if api_version t \<noteq> CMOD_HOST_API_VERSION then (- 1, host)
          else if add t = None \<or> print t = None then (- 1, host)
          else (0, h))"

text \<open>A call through a null pointer is a fault; a string without an end keeps the test running.\<close>

datatype 'w selftest = Returns int mem 'w | Null_call | Diverges

definition call_print :: "'w cmod_host option \<Rightarrow> addr \<Rightarrow> mem \<Rightarrow> 'w \<Rightarrow> 'w option" where
  "call_print host s m w =
     (case host of None \<Rightarrow> None | Some t \<Rightarrow> (case print t of None \<Rightarrow> None | Some f \<Rightarrow> Some (f s m w)))"

definition report :: "'w cmod_host option \<Rightarrow> image \<Rightarrow> int \<Rightarrow> mem \<Rightarrow> 'w \<Rightarrow> 'w selftest" where
  "report host I rc m w =
     (case (if rc = CMOD_ERR_NONE then call_print host (lit I banner) m w
            else Option.bind (call_print host (lit I ''CMOD: check failed: '') m w) (\<lambda>w.
                 Option.bind (call_print host (lit I (reasons ! nat rc)) m w)
                   (call_print host (lit I [CHR 0x0D, CHR 0x0A]) m)))
      of None \<Rightarrow> Null_call | Some w \<Rightarrow> Returns rc m w)"

definition cmod_selftest :: "'w cmod_host option \<Rightarrow> image \<Rightarrow> mem \<Rightarrow> 'w \<Rightarrow> 'w selftest" where
  "cmod_selftest host I m w =
     (case host of None \<Rightarrow> report host I CMOD_ERR_HOST m w
      | Some t \<Rightarrow>
        (case check_strlen I m of None \<Rightarrow> Diverges
         | Some r \<Rightarrow> if r \<noteq> 0 then report host I CMOD_ERR_STRLEN m w
           else let (r, m) = check_memset I m
           in if r \<noteq> 0 then report host I CMOD_ERR_MEMSET m w
           else let (r, m) = check_memcpy I m
           in if r \<noteq> 0 then report host I CMOD_ERR_MEMCPY m w
           else let (r, m) = check_memmove I m
           in if r \<noteq> 0 then report host I CMOD_ERR_MEMMOVE m w
           else if check_memcmp I m \<noteq> 0 then report host I CMOD_ERR_MEMCMP m w
           else (case check_strcmp I m of None \<Rightarrow> Diverges
             | Some r \<Rightarrow> if r \<noteq> 0 then report host I CMOD_ERR_STRCMP m w
               else case add t of None \<Rightarrow> Null_call
               | Some f \<Rightarrow> if check_host_call f \<noteq> 0 then report host I CMOD_ERR_HOST_CALL m w
                         else report host I CMOD_ERR_NONE m w)))"

record cmod_header =
  magic :: u32
  version :: u32
  header_size :: u32
  mod_name :: string

definition cmod_export :: cmod_header where
  "cmod_export = \<lparr>magic = CMOD_MAGIC, version = CMOD_VERSION, header_size = 24, mod_name = ''kmod''\<rparr>"

section \<open>An image that the loader put in place\<close>

definition literals :: "string list" where
  "literals = ['''', ''Mellivora'', ''a'', ''abc'', ''abd'', ''ab'', ''abcdef'', ''abcxyz'']"

definition arrays :: "u8 list list" where
  "arrays = [sixteen, pattern, right, left, [1, 2, 3, 4], [1, 2, 3, 5]]"

definition image_ok :: "image \<Rightarrow> mem \<Rightarrow> bool" where
  "image_ok I m \<longleftrightarrow>
     unat (buf I) + 37 \<le> 2 ^ 32 \<and>
     (\<forall>s \<in> set literals. cstr m (lit I s) (bytes s) \<and>
        (\<forall>j \<le> length s. \<forall>i < 37. lit I s + of_nat j \<noteq> buf I + of_nat i)) \<and>
     (\<forall>xs \<in> set arrays. bytes_at m (arr I xs) (length xs) = xs \<and>
        (\<forall>j < length xs. \<forall>i < 37. arr I xs + of_nat j \<noteq> buf I + of_nat i))"

definition outside_buf :: "image \<Rightarrow> mem \<Rightarrow> mem \<Rightarrow> bool" where
  "outside_buf I m m' \<longleftrightarrow> (\<forall>a. (\<forall>i < 37. a \<noteq> buf I + of_nat i) \<longrightarrow> m' a = m a)"

lemma memcmp_spec: "memcmp a b n m = byte_cmp (bytes_at m a (unat n)) (bytes_at m b (unat n))"
proof -
  have "memcmp_loop k a b m = byte_cmp (bytes_at m a k) (bytes_at m b k)" for k
    by (induction k arbitrary: a b) (simp_all add: bytes_at_Suc)
  then show ?thesis by (simp add: memcmp_def)
qed

lemma all_are_bytes: "all_are n p c m \<longleftrightarrow> bytes_at m p n = replicate n c"
  by (induction n arbitrary: p) (auto simp: bytes_at_Suc)

lemma image_ok_outside: "image_ok I m \<Longrightarrow> outside_buf I m m' \<Longrightarrow> image_ok I m'"
proof -
  assume ok: "image_ok I m" and out: "outside_buf I m m'"
  have "cstr m' (lit I s) (bytes s)" if "s \<in> set literals" for s
  proof -
    have "cstr m' (lit I s) (bytes s) = cstr m (lit I s) (bytes s)"
      by (rule cstr_cong) (use ok out that in \<open>auto simp: image_ok_def outside_buf_def\<close>)
    then show ?thesis using ok that by (simp add: image_ok_def)
  qed
  moreover have "bytes_at m' (arr I xs) (length xs) = xs" if "xs \<in> set arrays" for xs
  proof -
    have "bytes_at m' (arr I xs) (length xs) = bytes_at m (arr I xs) (length xs)"
      by (rule bytes_at_cong) (use ok out that in \<open>auto simp: image_ok_def outside_buf_def\<close>)
    then show ?thesis using ok that by (simp add: image_ok_def)
  qed
  ultimately show ?thesis using ok by (simp add: image_ok_def)
qed

lemma poke_in_buf:
  assumes "k + length bs \<le> 37"
  shows "outside_buf I m (poke m (buf I + of_nat k) bs)"
  unfolding outside_buf_def
proof (intro allI impI)
  fix a assume a: "\<forall>i < 37. a \<noteq> buf I + of_nat i"
  have "\<not> unat (a - (buf I + of_nat k)) < length bs"
  proof
    assume l: "unat (a - (buf I + of_nat k)) < length bs"
    have "a = buf I + of_nat (k + unat (a - (buf I + of_nat k)))" by simp
    then show False using a [rule_format, of "k + unat (a - (buf I + of_nat k))"] l assms by linarith
  qed
  then show "poke m (buf I + of_nat k) bs a = m a" by (simp add: poke_def)
qed

lemma outside_trans: "outside_buf I m m1 \<Longrightarrow> outside_buf I m1 m2 \<Longrightarrow> outside_buf I m m2"
  by (simp add: outside_buf_def)

lemma image_array: "image_ok I m \<Longrightarrow> xs \<in> set arrays \<Longrightarrow> bytes_at m (arr I xs) (length xs) = xs"
  by (simp add: image_ok_def)

lemma array_copy:
  assumes "image_ok I m" "xs \<in> set arrays" "unat n = length xs"
  shows "memcpy (buf I) (arr I xs) n m = (buf I, poke m (buf I) xs)"
proof -
  have "length xs \<le> unat (buf I - arr I xs)"
  proof (rule ccontr)
    assume "\<not> length xs \<le> unat (buf I - arr I xs)"
    then have "arr I xs + of_nat (unat (buf I - arr I xs)) \<noteq> buf I + of_nat 0"
      using assms(1,2) unfolding image_ok_def by (metis not_le zero_less_numeral)
    then show False by simp
  qed
  then show ?thesis using memcpy_poke [of "buf I" "arr I xs" n m] assms image_array [OF assms(1,2)] by simp
qed

text \<open>A region seen as a list, through a write inside it.\<close>

lemma bytes_at_part: "bytes_at m p n = xs \<Longrightarrow> k + l \<le> n \<Longrightarrow> bytes_at m (p + of_nat k) l = take l (drop k xs)"
  by (rule nth_equalityI) (auto simp: add.assoc)

lemma bytes_at_poke_inside:
  assumes "bytes_at m p n = xs" "k + length bs \<le> n" "n < 2 ^ 32"
  shows "bytes_at (poke m (p + of_nat k) bs) p n = take k xs @ bs @ drop (k + length bs) xs"
proof (rule nth_equalityI)
  have len: "length xs = n" using assms(1) by auto
  then show "length (bytes_at (poke m (p + of_nat k) bs) p n) = length (take k xs @ bs @ drop (k + length bs) xs)"
    using assms(2) by simp
  fix i assume "i < length (bytes_at (poke m (p + of_nat k) bs) p n)"
  then have i: "i < n" by simp
  then have x: "xs ! i = m (p + of_nat i)" using assms(1) by auto
  show "bytes_at (poke m (p + of_nat k) bs) p n ! i = (take k xs @ bs @ drop (k + length bs) xs) ! i"
  proof (cases "k \<le> i")
    case True
    have "p + of_nat i - (p + of_nat k) = of_nat (i - k)" using True by (simp add: of_nat_diff)
    then have "unat (p + of_nat i - (p + of_nat k)) = i - k" using i assms(3) unat_of_nat_u32 by simp
    then show ?thesis using True i x len assms(2) by (auto simp: poke_def nth_append)
  next
    case False
    have "p + of_nat i - (p + of_nat k) = - of_nat (k - i)" using False by (simp add: of_nat_diff)
    moreover have "unat (of_nat (k - i) :: u32) = k - i" using assms(2,3) by (intro unat_of_nat_u32) simp
    ultimately have "unat (p + of_nat i - (p + of_nat k)) = 2 ^ 32 - (k - i)"
      using False unat_diff_swap [of "of_nat (k - i)" 0] by (simp add: unat_0_iff [symmetric])
    then have "\<not> unat (p + of_nat i - (p + of_nat k)) < length bs" using assms(2,3) i False by linarith
    then show ?thesis using False i x len assms(2) by (simp add: poke_def nth_append)
  qed
qed

lemma memmove_in_buf:
  assumes "image_ok I m" "bytes_at m (buf I) 12 = xs" "k + unat n \<le> 12" "l + unat n \<le> 12"
  shows "\<exists>m'. memmove (buf I + of_nat k) (buf I + of_nat l) n m = (buf I + of_nat k, m') \<and> outside_buf I m m' \<and>
    bytes_at m' (buf I) 12 = take k xs @ take (unat n) (drop l xs) @ drop (k + unat n) xs"
proof -
  have room: "unat (buf I) + 37 \<le> 2 ^ 32" using assms(1) by (simp add: image_ok_def)
  have off: "unat (buf I + of_nat j) = unat (buf I) + j" if "j \<le> 12" for j
    using room that by (simp add: unat_word_ariths unat_of_nat)
  have len: "length xs = 12" using assms(2) by auto
  have b: "bytes_at m (buf I + of_nat l) (unat n) = take (unat n) (drop l xs)"
    by (rule bytes_at_part [OF assms(2,4)])
  have "memmove (buf I + of_nat k) (buf I + of_nat l) n m =
      (buf I + of_nat k, poke m (buf I + of_nat k) (take (unat n) (drop l xs)))"
    unfolding b [symmetric]
    by (rule memmove_poke) (use room assms(3,4) off [of k] off [of l] in linarith)+
  moreover have "outside_buf I m (poke m (buf I + of_nat k) (take (unat n) (drop l xs)))"
    by (rule poke_in_buf) (use assms(3) in simp)
  moreover have "bytes_at (poke m (buf I + of_nat k) (take (unat n) (drop l xs))) (buf I) 12 =
      take k xs @ take (unat n) (drop l xs) @ drop (k + unat n) xs"
    using bytes_at_poke_inside [OF assms(2), of k "take (unat n) (drop l xs)"] assms(3,4) len by simp
  ultimately show ?thesis by blast
qed

section \<open>What the checks find\<close>

lemma check_strlen_ok: "image_ok I m \<Longrightarrow> check_strlen I m = Some 0"
proof -
  assume "image_ok I m"
  then have "cstr m (lit I s) (bytes s)" if "s \<in> set literals" for s using that by (simp add: image_ok_def)
  then have "strlen (lit I s) m = Some (of_nat (length s))" if "s \<in> set literals" for s
    using strlen_spec that by fastforce
  from this [of "''''"] this [of "''Mellivora''"] this [of "''a''"] show ?thesis
    by (simp add: check_strlen_def check_def literals_def)
qed

lemma check_strcmp_ok: "image_ok I m \<Longrightarrow> check_strcmp I m = Some 0"
proof -
  assume ok: "image_ok I m"
  have c: "cstr m (lit I s) (bytes s)" if "s \<in> set literals" for s using ok that by (simp add: image_ok_def)
  have l: "'''' \<in> set literals" "''abc'' \<in> set literals" "''abd'' \<in> set literals" "''ab'' \<in> set literals"
    "''abcdef'' \<in> set literals" "''abcxyz'' \<in> set literals" by (simp_all add: literals_def)
  have v: "byte_cmp (bytes ''abc'') (bytes ''abd'') = - 1" "byte_cmp (bytes ''abd'') (bytes ''abc'') = 1"
    "byte_cmp (bytes ''abc'') (bytes ''ab'') = 99"
    "byte_cmp (take 3 (bytes ''abcdef'')) (take 3 (bytes ''abcxyz'')) = 0"
    "byte_cmp (take 4 (bytes ''abcdef'')) (take 4 (bytes ''abcxyz'')) = - 20" by code_simp+
  show ?thesis
    using strcmp_spec [OF c [OF l(1)] c [OF l(1)]] strcmp_spec [OF c [OF l(2)] c [OF l(2)]]
      strcmp_spec [OF c [OF l(2)] c [OF l(3)]] strcmp_spec [OF c [OF l(3)] c [OF l(2)]]
      strcmp_spec [OF c [OF l(2)] c [OF l(4)]]
      strncmp_spec [OF c [OF l(5)] c [OF l(6)], of 3] strncmp_spec [OF c [OF l(5)] c [OF l(6)], of 4] v
    by (simp add: check_strcmp_def check_def del: bytes_Cons)
qed

lemma check_memset_ok:
  assumes "image_ok I m"
  shows "\<exists>m'. check_memset I m = (0, m') \<and> outside_buf I m m'"
proof -
  let ?m1 = "poke m (buf I) (replicate 37 0x5A)"
  let ?m2 = "poke ?m1 (buf I) (replicate 4 0)"
  have 1: "all_are 37 (buf I) 0x5A ?m1" using bytes_at_poke [of "replicate 37 (0x5A :: u8)" m "buf I"] by (simp add: all_are_bytes)
  have 2: "all_are 4 (buf I) 0 ?m2" using bytes_at_poke [of "replicate 4 (0 :: u8)" ?m1 "buf I"] by (simp add: all_are_bytes)
  have 3: "?m2 (buf I + 4) = 0x5A" by (simp add: poke_def)
  have "outside_buf I m ?m1" "outside_buf I ?m1 ?m2"
    using poke_in_buf [of 0 "replicate 37 (0x5A :: u8)" I m] poke_in_buf [of 0 "replicate 4 (0 :: u8)" I ?m1] by simp_all
  then have "outside_buf I m ?m2" by (rule outside_trans)
  then show ?thesis using 1 2 3 by (simp add: check_memset_def memset_poke Let_def)
qed

lemma array_copied:
  assumes "image_ok I m" "xs \<in> set arrays" "unat n = length xs" "length xs \<le> 37"
  shows "\<exists>m'. memcpy (buf I) (arr I xs) n m = (buf I, m') \<and> outside_buf I m m' \<and> image_ok I m' \<and>
    bytes_at m' (buf I) (length xs) = xs"
proof -
  have "outside_buf I m (poke m (buf I) xs)" using poke_in_buf [of 0 xs I m] assms(4) by simp
  moreover have "bytes_at (poke m (buf I) xs) (buf I) (length xs) = xs" using assms(4) by (intro bytes_at_poke) simp
  ultimately show ?thesis using array_copy [OF assms(1-3)] image_ok_outside [OF assms(1)] by blast
qed

lemma check_memcpy_ok:
  assumes "image_ok I m"
  shows "\<exists>m'. check_memcpy I m = (0, m') \<and> outside_buf I m m'"
proof -
  let ?m1 = "poke m (buf I) (replicate 16 0)"
  have o1: "outside_buf I m ?m1" using poke_in_buf [of 0 "replicate 16 (0 :: u8)" I m] by simp
  have ok1: "image_ok I ?m1" by (rule image_ok_outside [OF assms o1])
  have a: "sixteen \<in> set arrays" "length sixteen = 16" by (simp_all add: arrays_def sixteen_def)
  obtain m2 where m2: "memcpy (buf I) (arr I sixteen) 16 ?m1 = (buf I, m2)" "outside_buf I ?m1 m2" "image_ok I m2"
      "bytes_at m2 (buf I) 16 = sixteen"
    using array_copied [OF ok1 a(1), of 16] a(2) by auto
  have "bytes_at m2 (arr I sixteen) 16 = sixteen" using image_array [OF m2(3) a(1)] a(2) by simp
  then have c: "memcmp (buf I) (arr I sixteen) 16 m2 = 0" using m2(4) by (simp add: memcmp_spec)
  have z: "memcpy (buf I) (arr I sixteen) 0 m2 = (buf I, m2)" by (simp add: memcpy_def)
  show ?thesis using m2(1) c z outside_trans [OF o1 m2(2)] by (simp add: check_memcpy_def memset_poke Let_def)
qed

text \<open>One step of \<open>check_memmove\<close>: the pattern is copied in, moved, and compared.\<close>

lemma move_step:
  assumes "image_ok I m" "ys \<in> set arrays" "length ys = 12" "k + unat n \<le> 12" "l + unat n \<le> 12"
    and "take k pattern @ take (unat n) (drop l pattern) @ drop (k + unat n) pattern = ys"
  shows "\<exists>m1 m2. memcpy (buf I) (arr I pattern) 12 m = (buf I, m1) \<and>
    memmove (buf I + of_nat k) (buf I + of_nat l) n m1 = (buf I + of_nat k, m2) \<and>
    memcmp (buf I) (arr I ys) 12 m2 = 0 \<and> outside_buf I m m2 \<and> image_ok I m2"
proof -
  have a: "pattern \<in> set arrays" "length pattern = 12" by (simp_all add: arrays_def pattern_def)
  obtain m1 where m1: "memcpy (buf I) (arr I pattern) 12 m = (buf I, m1)" "outside_buf I m m1" "image_ok I m1"
      "bytes_at m1 (buf I) 12 = pattern"
    using array_copied [OF assms(1) a(1), of 12] a(2) by auto
  obtain m2 where m2: "memmove (buf I + of_nat k) (buf I + of_nat l) n m1 = (buf I + of_nat k, m2)" "outside_buf I m1 m2"
      "bytes_at m2 (buf I) 12 = ys"
    using memmove_in_buf [OF m1(3,4) assms(4,5)] assms(6) by auto
  have ok: "image_ok I m2" by (rule image_ok_outside [OF m1(3) m2(2)])
  then have "memcmp (buf I) (arr I ys) 12 m2 = 0"
    using m2(3) image_array [OF ok assms(2)] assms(3) by (simp add: memcmp_spec)
  then show ?thesis using m1(1) m2(1) ok outside_trans [OF m1(2) m2(2)] by blast
qed

lemma check_memmove_ok:
  assumes "image_ok I m"
  shows "\<exists>m'. check_memmove I m = (0, m') \<and> outside_buf I m m' \<and> image_ok I m'"
proof -
  have a: "right \<in> set arrays" "left \<in> set arrays" "pattern \<in> set arrays" "length right = 12" "length left = 12"
      "length pattern = 12" by (simp_all add: arrays_def right_def left_def pattern_def)
  have e: "take 1 pattern @ take 11 (drop 0 pattern) @ drop 12 pattern = right"
      "take 0 pattern @ take 10 (drop 2 pattern) @ drop 10 pattern = left"
      "take 0 pattern @ take 12 (drop 0 pattern) @ drop 12 pattern = pattern" by code_simp+
  obtain m1 m2 where 1: "memcpy (buf I) (arr I pattern) 12 m = (buf I, m1)"
      "memmove (buf I + 1) (buf I) 11 m1 = (buf I + 1, m2)" "memcmp (buf I) (arr I right) 12 m2 = 0"
      "outside_buf I m m2" "image_ok I m2"
    using move_step [OF assms a(1,4), of 1 11 0] e(1) by auto
  obtain m3 m4 where 2: "memcpy (buf I) (arr I pattern) 12 m2 = (buf I, m3)"
      "memmove (buf I) (buf I + 2) 10 m3 = (buf I, m4)" "memcmp (buf I) (arr I left) 12 m4 = 0"
      "outside_buf I m2 m4" "image_ok I m4"
    using move_step [OF 1(5) a(2,5), of 0 10 2] e(2) by auto
  obtain m5 m6 where 3: "memcpy (buf I) (arr I pattern) 12 m4 = (buf I, m5)"
      "memmove (buf I) (buf I) 12 m5 = (buf I, m6)" "memcmp (buf I) (arr I pattern) 12 m6 = 0"
      "outside_buf I m4 m6" "image_ok I m6"
    using move_step [OF 2(5) a(3,6), of 0 12 0] e(3) by auto
  show ?thesis
    using 1 2 3 outside_trans [OF outside_trans [OF 1(4) 2(4)] 3(4)] by (simp add: check_memmove_def Let_def)
qed

lemma check_memcmp_ok: "image_ok I m \<Longrightarrow> check_memcmp I m = 0"
proof -
  assume ok: "image_ok I m"
  have a: "bytes_at m (arr I [1, 2, 3, 4]) 4 = [1, 2, 3, 4]" "bytes_at m (arr I [1, 2, 3, 5]) 4 = [1, 2, 3, 5]"
    using image_array [OF ok, of "[1, 2, 3, 4]"] image_array [OF ok, of "[1, 2, 3, 5]"] by (simp_all add: arrays_def eval_nat_numeral)
  have "bytes_at m (arr I [1, 2, 3, 4]) 3 = [1, 2, 3]" "bytes_at m (arr I [1, 2, 3, 5]) 3 = [1, 2, 3]"
    using bytes_at_part [OF a(1), of 0 3] bytes_at_part [OF a(2), of 0 3] by simp_all
  moreover have "byte_cmp [1, 2, 3, 4] [1, 2, 3, 5] = - 1" "byte_cmp [1, 2, 3, 5] [1, 2, 3, 4] = 1" by code_simp+
  ultimately show ?thesis using a by (simp add: check_memcmp_def memcmp_spec Let_def del: byte_cmp.simps)
qed

section \<open>Properties\<close>

text \<open>C34: In an image that was loaded as it was linked, and with the host table that \<open>cmod_init\<close> accepts,
  the self-test ends with 0 and prints the banner exactly when the kernel's \<open>add\<close> passes its three
  calls; otherwise it names \<open>host->add\<close>. It writes its own buffer alone.\<close>

theorem selftest_correct:
  assumes "image_ok I m" "cmod_init (Some t) None = (0, host)" "add t = Some f" "print t = Some p"
  shows "\<exists>m'. outside_buf I m m' \<and>
    cmod_selftest host I m w =
      (if f 20 22 = 42 \<and> f 0 0 = 0 \<and> f 0xFFFFFFFE 1 = 0xFFFFFFFF
       then Returns 0 m' (p (lit I banner) m' w)
       else Returns 8 m' (p (lit I [CHR 0x0D, CHR 0x0A]) m' (p (lit I ''host->add'') m' (p (lit I ''CMOD: check failed: '') m' w))))"
proof -
  have h: "host = Some t" using assms(2) by (auto simp: cmod_init_def split: if_splits)
  obtain m1 where 1: "check_memset I m = (0, m1)" "outside_buf I m m1" using check_memset_ok [OF assms(1)] by blast
  have ok1: "image_ok I m1" by (rule image_ok_outside [OF assms(1) 1(2)])
  obtain m2 where 2: "check_memcpy I m1 = (0, m2)" "outside_buf I m1 m2" using check_memcpy_ok [OF ok1] by blast
  have ok2: "image_ok I m2" by (rule image_ok_outside [OF ok1 2(2)])
  obtain m3 where 3: "check_memmove I m2 = (0, m3)" "outside_buf I m2 m3" "image_ok I m3"
    using check_memmove_ok [OF ok2] by blast
  have "outside_buf I m m3" by (rule outside_trans [OF outside_trans [OF 1(2) 2(2)] 3(2)])
  moreover have "reasons ! 8 = ''host->add''" by code_simp
  ultimately show ?thesis
    using 1(1) 2(1) 3(1) check_strlen_ok [OF assms(1)] check_memcmp_ok [OF 3(3)] check_strcmp_ok [OF 3(3)] assms(3,4)
    by (intro exI [of _ m3])
       (simp add: cmod_selftest_def h report_def call_print_def check_host_call_def cmod_errors)
qed

text \<open>An image laid out by hand: every literal and every array has a page of its own.\<close>

definition page_of :: "u8 list list \<Rightarrow> u8 list \<Rightarrow> nat" where
  "page_of ps x = length (takeWhile (\<lambda>y. y \<noteq> x) ps)"

definition pages :: "u8 list list" where
  "pages = map bytes literals @ arrays"

definition kmod_mem :: mem where
  "kmod_mem a = (let p = unat a div 64; i = unat a mod 64
     in if p < length pages \<and> i < length (pages ! p) then pages ! p ! i else 0)"

definition kmod_image :: image where
  "kmod_image = \<lparr>lit = \<lambda>s. of_nat (64 * page_of pages (bytes s)), arr = \<lambda>xs. of_nat (64 * page_of pages xs),
     buf = 0x10000\<rparr>"

lemma kmod_page:
  assumes "x \<in> set pages"
  shows "page_of pages x < length pages \<and> pages ! page_of pages x = x"
proof -
  have "x \<in> set ps \<Longrightarrow> length (takeWhile (\<lambda>y. y \<noteq> x) ps) < length ps" for ps by (induction ps) auto
  then have "page_of pages x < length pages" using assms by (simp add: page_of_def)
  moreover have "pages ! page_of pages x = x"
    using nth_length_takeWhile [of "\<lambda>y. y \<noteq> x" pages] calculation by (simp add: page_of_def)
  ultimately show ?thesis ..
qed

lemma kmod_at:
  assumes "x \<in> set pages" "i < 64"
  shows "unat (of_nat (64 * page_of pages x) + of_nat i :: u32) = 64 * page_of pages x + i"
    "kmod_mem (of_nat (64 * page_of pages x) + of_nat i) = (if i < length x then x ! i else 0)"
    "64 * page_of pages x + i < 1024"
proof -
  have "length pages = 14" by code_simp
  then have p: "page_of pages x < 14" using kmod_page [OF assms(1)] by simp
  then show 1: "64 * page_of pages x + i < 1024" using assms(2) by simp
  then have "unat (of_nat (64 * page_of pages x + i) :: u32) = 64 * page_of pages x + i"
    by (intro unat_of_nat_u32) simp
  then show 2: "unat (of_nat (64 * page_of pages x) + of_nat i :: u32) = 64 * page_of pages x + i" by simp
  have "(64 * page_of pages x + i) div 64 = page_of pages x" "(64 * page_of pages x + i) mod 64 = i"
    using assms(2) by simp_all
  then show "kmod_mem (of_nat (64 * page_of pages x) + of_nat i) = (if i < length x then x ! i else 0)"
    using kmod_page [OF assms(1)] unfolding kmod_mem_def 2 Let_def by simp
qed

lemma kmod_buf: "i < 37 \<Longrightarrow> unat (0x10000 + of_nat i :: u32) = 65536 + i"
  by (simp add: unat_word_ariths unat_of_nat)

lemma kmod_image_ok: "image_ok kmod_image kmod_mem"
proof -
  have lens: "\<forall>x \<in> set pages. length x < 63" by code_simp
  have z: "\<forall>s \<in> set literals. 0 \<notin> set (bytes s)" by code_simp
  have apart: "of_nat (64 * page_of pages x) + of_nat j \<noteq> (0x10000 + of_nat i :: u32)"
    if "x \<in> set pages" "j \<le> length x" "i < 37" for x i j
  proof -
    have "j < 64" using lens that(1,2) by fastforce
    then have "unat (of_nat (64 * page_of pages x) + of_nat j :: u32) < 1024"
      using kmod_at [OF that(1), of j] by simp
    moreover have "unat (0x10000 + of_nat i :: u32) \<ge> 1024" using kmod_buf [OF that(3)] by linarith
    ultimately show ?thesis by fastforce
  qed
  have b: "bytes_at kmod_mem (of_nat (64 * page_of pages x)) (length x) = x" if "x \<in> set pages" for x
  proof (rule nth_equalityI)
    fix i assume "i < length (bytes_at kmod_mem (of_nat (64 * page_of pages x)) (length x))"
    then have "i < length x" by simp
    moreover from this have "i < 64" using lens that by fastforce
    ultimately show "bytes_at kmod_mem (of_nat (64 * page_of pages x)) (length x) ! i = x ! i"
      using kmod_at(2) [OF that, of i] by (simp del: of_nat_mult)
  qed simp
  have "cstr kmod_mem (of_nat (64 * page_of pages (bytes s))) (bytes s)" if "s \<in> set literals" for s
  proof -
    have m: "bytes s \<in> set pages" using that by (simp add: pages_def)
    then have "length (bytes s) < 63" using lens by blast
    then show ?thesis
      using b [OF m] z that kmod_at(2) [OF m, of "length (bytes s)"] by (auto simp: cstr_iff)
  qed
  moreover have "bytes s \<in> set pages" if "s \<in> set literals" for s using that by (simp add: pages_def)
  moreover have "x \<in> set pages" if "x \<in> set arrays" for x using that by (simp add: pages_def)
  ultimately show ?thesis unfolding image_ok_def kmod_image_def using apart b by (simp del: of_nat_mult)
qed

theorem selftest_correct_witness:
  "\<exists>m'. cmod_selftest (Some \<lparr>api_version = 1, host_size = 16, add = Some (+), print = Some (\<lambda>s m w. s # w)\<rparr>)
     kmod_image kmod_mem [] = Returns 0 m' [lit kmod_image banner]"
proof -
  let ?t = "\<lparr>api_version = 1, host_size = 16, add = Some (+), print = Some (\<lambda>s m w. s # w)\<rparr> :: addr list cmod_host"
  have "cmod_init (Some ?t) None = (0, Some ?t)"
    by (simp add: cmod_init_def sizeof_cmod_host_def CMOD_HOST_API_VERSION_def)
  from selftest_correct [OF kmod_image_ok this, of "(+)" "\<lambda>s m w. s # w" "[]"] show ?thesis by auto
qed

text \<open>Before a table was accepted, the self-test calls through the null pointer to report it.\<close>

lemma selftest_without_host: "cmod_selftest None I m w = Null_call"
  by (simp add: cmod_selftest_def report_def call_print_def cmod_errors)

end
