(* ===== verification/Mv_Console.thy ===== *)
theory Mv_Console
  imports Mv_Format Mv_Args
begin

text \<open>
  What the programs of \<^verbatim>\<open>c/prog\<close> share: the start of a \<^verbatim>\<open>main\<close>, which asks the kernel for the words of the
  command line, the scan of the options, and output and input over the streams.

  A kernel that serves files and a console is described by two views of its state, the files it
  holds and the bytes its console has shown. The lemmas say what \<open>printf\<close>, \<open>putchar\<close>, \<open>fopen\<close>,
  \<open>fread\<close> and \<open>fclose\<close> do in those terms.
\<close>

section \<open>The words of a program\<close>

definition MV_ARGS_MAX :: int where "MV_ARGS_MAX = 32"

text \<open>The string at a pointer of \<open>argv\<close>.\<close>

definition word_at :: "mem \<Rightarrow> addr \<Rightarrow> u8 list option" where
  "word_at m p = map_option (\<lambda>n. bytes_at m p (unat n)) (strlen p m)"

fun words_at :: "mem \<Rightarrow> addr list \<Rightarrow> u8 list list option" where
  "words_at m [] = Some []"
| "words_at m (p # ps) =
     Option.bind (word_at m p) (\<lambda>w. map_option ((#) w) (words_at m ps))"

text \<open>The call of \<open>mv_args\<close> that opens a \<^verbatim>\<open>main\<close>: \<open>prog\<close> is the address of the program's name, \<open>args\<close> that of
  the static buffer. The result is \<open>argv\<close> up to \<open>argc\<close>.\<close>

definition main_args ::
    "'w kernel \<Rightarrow> addr \<Rightarrow> addr \<Rightarrow> mem \<Rightarrow> 'w io \<Rightarrow> (u8 list list \<times> mem \<times> 'w io) option" where
  "main_args S prog args m io =
     Option.bind (mv_args S prog args MV_ARGS_BUFSZ MV_ARGS_MAX \<lparr>errno = ierrno io, pmem = m, kern = ikern io\<rparr>)
       (\<lambda>(argc, av, st). map_option (\<lambda>ws. (ws, pmem st, io\<lparr>ierrno := errno st, ikern := kern st\<rparr>))
          (words_at (pmem st) av))"

lemma word_at_cstr: "cstr m p w \<Longrightarrow> word_at m p = Some w"
  using strlen_spec [of m p w] cstr_length [of m p w] cstr_iff [of m p w]
  by (simp add: word_at_def unat_of_nat_u32)

lemma words_at_cstr: "list_all2 (cstr m) ps ws \<Longrightarrow> words_at m ps = Some ws"
  by (induction rule: list_all2_induct) (simp_all add: word_at_cstr)

text \<open>A kernel that hands a program its command line: the call succeeds, stores the line and its NUL in
  the buffer and leaves the rest of the memory and its own state alone.\<close>

definition gives_line :: "'w kernel \<Rightarrow> u8 list \<Rightarrow> bool" where
  "gives_line S line \<longleftrightarrow> (\<forall>p m w. S SYS_GETARGS p 0 0 0 0 m w = (0, poke m p (line @ [0]), w))"

text \<open>The name of the program is a string outside the buffer.\<close>

definition name_apart :: "mem \<Rightarrow> addr \<Rightarrow> u8 list \<Rightarrow> addr \<Rightarrow> bool" where
  "name_apart m prog name args \<longleftrightarrow> cstr m prog name \<and>
     (\<forall>i \<le> length name. \<forall>j < unat MV_ARGS_BUFSZ. prog + of_nat i \<noteq> args + of_nat j)"

lemma name_kept:
  assumes "name_apart m prog name args" "\<forall>a. (\<forall>j < unat MV_ARGS_BUFSZ. a \<noteq> args + of_nat j) \<longrightarrow> m' a = m a"
  shows "cstr m' prog name"
proof -
  have "m' (prog + of_nat i) = m (prog + of_nat i)" if "i \<le> length name" for i
    using assms that unfolding name_apart_def by blast
  then show ?thesis using assms(1) using cstr_cong [of name m prog m' prog] unfolding name_apart_def by auto
qed

lemma main_args_words:
  assumes "gives_line S line" "name_apart m prog name args" "0 \<notin> set line" "length line < 512"
    and "length (split_words line) < 31"
  shows "\<exists>m'. main_args S prog args m io = Some (name # split_words line, m', io)"
proof -
  let ?st = "\<lparr>errno = ierrno io, pmem = m, kern = ikern io\<rparr>"
  let ?m1 = "poke m args (line @ [0])"
  have g: "mv_getargs S args MV_ARGS_BUFSZ ?st = (0, ?st\<lparr>pmem := ?m1\<rparr>)"
    using assms(1) by (simp add: mv_getargs_def mv_syscall_def gives_line_def)
  have l: "length (line @ [0]) \<le> 2 ^ 32" using assms(4) by simp
  have c: "cstr (pmem (?st\<lparr>pmem := ?m1\<rparr>)) args line"
    using bytes_at_poke [OF l, of m args] assms(3) l by (auto simp: cstr_iff bytes_at_snoc)
  obtain ptrs m' where r: "mv_args S prog args MV_ARGS_BUFSZ MV_ARGS_MAX ?st =
        Some (int (length (split_words line)) + 1, prog # ptrs, ?st\<lparr>pmem := ?m1, pmem := m'\<rparr>)"
      "list_all2 (cstr m') ptrs (split_words line)"
      "\<forall>a. (\<forall>i < length line. a \<noteq> args + of_nat i) \<longrightarrow> m' a = ?m1 a"
    using mv_args_correct [OF g order_refl c, of MV_ARGS_MAX prog MV_ARGS_BUFSZ] assms(5) by (auto simp: MV_ARGS_MAX_def)
  have "m' a = m a" if "\<forall>j < unat MV_ARGS_BUFSZ. a \<noteq> args + of_nat j" for a
  proof -
    have "m' a = ?m1 a" using r(3) that assms(4) by (simp add: MV_ARGS_BUFSZ_def)
    also have "\<dots> = m a"
    proof (rule poke_outside)
      have "\<not> unat (a - args) < 512" using that by (auto simp: MV_ARGS_BUFSZ_def dest: spec [of _ "unat (a - args)"])
      then show "length (line @ [0]) \<le> unat (a - args)" using assms(4) by simp
    qed
    finally show ?thesis .
  qed
  then have "cstr m' prog name" using name_kept [OF assms(2)] by blast
  then have "words_at m' (prog # ptrs) = Some (name # split_words line)"
    using words_at_cstr [of m' "prog # ptrs"] r(2) by simp
  then show ?thesis using r(1) by (simp add: main_args_def)
qed

text \<open>A word of a line is no longer than the line and has only its bytes.\<close>

lemma split_words_sub: "w \<in> set (split_words s) \<Longrightarrow> length w \<le> length s \<and> set w \<subseteq> set s"
proof (induction s arbitrary: w)
  case (Cons c s)
  have first: "length x \<le> length s \<and> set x \<subseteq> set s" if "split_words s = x # xs" for x xs
    using Cons.IH [of x] that by simp
  have "w \<in> set (split_words s) \<or> w = [c] \<or> (\<exists>x xs. split_words s = x # xs \<and> w = c # x)"
    using Cons.prems split_words.simps(2) [of c s]
    by (cases s; cases "split_words s") (auto simp del: split_words.simps split: if_splits)
  then show ?case using Cons.IH [of w] first by auto
qed simp

section \<open>A kernel that serves files and a console\<close>

text \<open>Two views of the state of the kernel: \<open>disk\<close>, the files by their paths, and \<open>shown\<close>, the bytes the
  console has taken. A call that keeps both is quiet.\<close>

definition quiet :: "('w \<Rightarrow> u8 list \<rightharpoonup> u8 list) \<Rightarrow> ('w \<Rightarrow> u8 list) \<Rightarrow> 'w \<Rightarrow> 'w \<Rightarrow> bool" where
  "quiet disk shown w w' \<longleftrightarrow> disk w' = disk w \<and> shown w' = shown w"

text \<open>What the programs rely on: blocks are given, the console takes everything it is handed, a file can be
  opened for reading exactly when it is there, and its size and bytes are those of the disk.\<close>

definition serves :: "'w calls \<Rightarrow> ('w \<Rightarrow> u8 list \<rightharpoonup> u8 list) \<Rightarrow> ('w \<Rightarrow> u8 list) \<Rightarrow> bool" where
  "serves K disk shown \<longleftrightarrow> roomy K \<and>
     (\<forall>s w. fst (k_write K 1 s w) = int (length s) \<and> disk (snd (k_write K 1 s w)) = disk w \<and>
        shown (snd (k_write K 1 s w)) = shown w @ s) \<and>
     (\<forall>p w. (0 \<le> fst (k_open K p O_RDONLY w)) = (disk w p \<noteq> None) \<and> quiet disk shown w (snd (k_open K p O_RDONLY w))) \<and>
     (\<forall>p w t. disk w p = Some t \<longrightarrow> fst (k_stat K p w) = (0, length t) \<and> fst (k_fread K p w) = (int (length t), t)) \<and>
     (\<forall>p w. quiet disk shown w (snd (k_stat K p w)) \<and> quiet disk shown w (snd (k_fread K p w))) \<and>
     (\<forall>d w. quiet disk shown w (snd (k_close K d w))) \<and>
     (\<forall>w. quiet disk shown w (snd (k_geterrno K w)))"

lemma quiet_refl [simp]: "quiet disk shown w w"
  by (simp add: quiet_def)

lemma quiet_trans: "quiet disk shown w w1 \<Longrightarrow> quiet disk shown w1 w2 \<Longrightarrow> quiet disk shown w w2"
  by (simp add: quiet_def)

lemma serves_roomy: "serves K disk shown \<Longrightarrow> k_room K n w = (True, w)"
  by (simp add: serves_def roomy_def)

lemma serves_write:
  assumes "serves K disk shown"
  shows "\<exists>w'. k_write K 1 s w = (int (length s), w') \<and> disk w' = disk w \<and> shown w' = shown w @ s"
  using assms by (cases "k_write K 1 s w") (auto simp: serves_def dest!: spec [of _ s] spec [of _ w])

subsection \<open>Output\<close>

text \<open>The state after a text went to the console: only the state of the kernel has changed.\<close>

definition printed ::
    "('w \<Rightarrow> u8 list \<rightharpoonup> u8 list) \<Rightarrow> ('w \<Rightarrow> u8 list) \<Rightarrow> u8 list \<Rightarrow> 'w io \<Rightarrow> 'w io \<Rightarrow> bool" where
  "printed disk shown t io io' \<longleftrightarrow> io' = io\<lparr>ikern := ikern io'\<rparr> \<and> disk (ikern io') = disk (ikern io) \<and>
     shown (ikern io') = shown (ikern io) @ crlf_text t"

definition consoles :: "'w io \<Rightarrow> bool" where
  "consoles io \<longleftrightarrow> files io f_stdout = Some console_out \<and> files io f_stderr = Some console_err"

lemma crlf_text_append [simp]: "crlf_text (s @ t) = crlf_text s @ crlf_text t"
  by (simp add: crlf_text_def)

lemma length_crlf_text: "length (crlf_text s) = length s + count_list s 10"
  by (induction s) (auto simp: crlf_text_def)

lemma printed_Nil [simp]: "printed disk shown [] io io"
  by (simp add: printed_def crlf_text_def)

lemma printed_trans:
  "printed disk shown s io io1 \<Longrightarrow> printed disk shown t io1 io2 \<Longrightarrow> printed disk shown (s @ t) io io2"
  by (cases io; cases io1; cases io2) (simp add: printed_def)

lemma printed_files: "printed disk shown t io io' \<Longrightarrow> files io' = files io \<and> fresh io' = fresh io"
  by (cases io; cases io') (simp add: printed_def)

lemma printed_consoles: "printed disk shown t io io' \<Longrightarrow> consoles io' = consoles io"
  using printed_files [of disk shown t io io'] by (simp add: consoles_def)

lemma console_write_prints:
  assumes "serves K disk shown" "length s \<le> 256" "count_list s 10 \<le> 255"
  shows "printed disk shown s io (console_write K s io)"
proof -
  have c: "crlf_loop s [] = crlf_text s" using crlf_loop_text [of "[]" s] assms(2,3) by (simp add: length_crlf_text)
  show ?thesis
    using serves_write [OF assms(1), of "crlf_text s" "ikern io"] by (auto simp: console_write_def c Let_def printed_def)
qed

lemma console_fwrite:
  assumes "consoles io" "f = f_stdout \<or> f = f_stderr" "s \<noteq> []" "length s < 2 ^ 32"
  shows "fwrite K s 1 (of_nat (length s)) f io = (length s, console_write K s io)"
proof -
  have u: "unat (of_nat (length s) :: u32) = length s" using assms(4) unat_of_nat_u32 by simp
  then have "(of_nat (length s) :: u32) \<noteq> 0" using assms(3) by (metis length_0_conv unat_0)
  then show ?thesis using assms(1,2) u by (auto simp: fwrite_def consoles_def console_out_def console_err_def)
qed

lemma putchar_prints:
  assumes "serves K disk shown" "consoles io"
  shows "printed disk shown [c] io (snd (putchar K (sc c) io))"
proof -
  have w: "(word_of_int (sc c) :: u8) = c" by (simp add: sc_def)
  show ?thesis
    using console_fwrite [OF assms(2), of f_stdout "[c]" K] console_write_prints [OF assms(1), of "[c]" io]
    by (simp add: putchar_def fputc_def w Let_def)
qed

text \<open>Formatted output: what was produced is what the console took and what waits in the chunk.\<close>

definition console_holds ::
    "('w \<Rightarrow> u8 list \<rightharpoonup> u8 list) \<Rightarrow> ('w \<Rightarrow> u8 list) \<Rightarrow> nat \<Rightarrow> 'w io \<Rightarrow> u8 list \<Rightarrow> 'w out_t \<Rightarrow> bool" where
  "console_holds disk shown f io produced out \<longleftrightarrow> buf out = 0 \<and> ostream out = f \<and> \<not> failed out \<and> len out = 0 \<and>
     length (tmp out) < OUT_CHUNK \<and> (\<exists>pre. printed disk shown pre io (oio out) \<and> pre @ tmp out = produced)"

lemma count_list_append_le: "count_list s x \<le> count_list (s @ t) x" "count_list t x \<le> count_list (s @ t) x"
  by simp_all

lemma console_flush:
  assumes "serves K disk shown" "consoles io" "f = f_stdout \<or> f = f_stderr" "count_list produced 10 \<le> 255"
    and "buf out = 0" "ostream out = f" "\<not> failed out" "len out = 0" "length (tmp out) \<le> OUT_CHUNK"
    and "printed disk shown pre io (oio out)" "pre @ tmp out = produced"
  shows "console_holds disk shown f io produced (out_flush K out) \<and> tmp (out_flush K out) = [] \<and>
    omem (out_flush K out) = omem out"
proof (cases "tmp out = []")
  case True
  then show ?thesis using assms by (auto simp: out_flush_def console_holds_def OUT_CHUNK_def)
next
  case False
  have c: "consoles (oio out)" using printed_consoles [OF assms(10)] assms(2) by simp
  have w: "fwrite K (tmp out) 1 (of_nat (length (tmp out))) f (oio out) = (length (tmp out), console_write K (tmp out) (oio out))"
    by (rule console_fwrite [OF c assms(3) False]) (use assms(9) in \<open>simp add: OUT_CHUNK_def\<close>)
  have "count_list (tmp out) 10 \<le> 255" using assms(4,11) count_list_append_le(2) [of "tmp out" 10 pre] by simp
  then have "printed disk shown (tmp out) (oio out) (console_write K (tmp out) (oio out))"
    using assms(9) by (intro console_write_prints [OF assms(1)]) (simp_all add: OUT_CHUNK_def)
  then have "printed disk shown produced io (console_write K (tmp out) (oio out))"
    using printed_trans [OF assms(10)] assms(11) by blast
  then show ?thesis using False assms w by (auto simp: out_flush_def console_holds_def OUT_CHUNK_def)
qed

lemma console_char:
  assumes "serves K disk shown" "consoles io" "f = f_stdout \<or> f = f_stderr" "count_list (produced @ [c]) 10 \<le> 255"
    and "console_holds disk shown f io produced out"
  shows "console_holds disk shown f io (produced @ [c]) (out_char K c out) \<and> omem (out_char K c out) = omem out"
proof -
  obtain pre where h: "buf out = 0" "ostream out = f" "\<not> failed out" "len out = 0" "length (tmp out) < OUT_CHUNK"
      "printed disk shown pre io (oio out)" "pre @ tmp out = produced"
    using assms(5) by (auto simp: console_holds_def)
  define out1 where "out1 = out\<lparr>tmp := tmp out @ [c]\<rparr>"
  have c: "out_char K c out = (if length (tmp out1) = OUT_CHUNK then out_flush K out1 else out1)"
    using h(1) by (simp add: out_char_def out1_def)
  show ?thesis
  proof (cases "length (tmp out1) = OUT_CHUNK")
    case True
    then show ?thesis unfolding c
      using console_flush [OF assms(1-4), of out1 pre] h by (simp add: out1_def)
  next
    case False
    then have "length (tmp out1) < OUT_CHUNK" using h(5) by (simp add: out1_def)
    then show ?thesis unfolding c using False h by (auto simp: console_holds_def out1_def)
  qed
qed

lemma console_text:
  assumes "serves K disk shown" "consoles io" "f = f_stdout \<or> f = f_stderr"
  shows "console_holds disk shown f io produced out \<Longrightarrow> count_list (produced @ t) 10 \<le> 255 \<Longrightarrow>
    console_holds disk shown f io (produced @ t) (out_text K t out) \<and> omem (out_text K t out) = omem out"
proof (induction t arbitrary: produced out)
  case (Cons c t)
  have "console_holds disk shown f io (produced @ [c]) (out_char K c out)" "omem (out_char K c out) = omem out"
    using console_char [OF assms _ Cons.prems(1), of c] Cons.prems(2) by (auto split: if_splits)
  then show ?case using Cons.IH [of "produced @ [c]" "out_char K c out"] Cons.prems(2) by simp
qed simp

lemma fprintf_prints:
  assumes "serves K disk shown" "consoles io" "f = f_stdout \<or> f = f_stderr"
    and "format_text fmt args = Some t" "length t < 2 ^ 31" "count_list t 10 \<le> 255"
  shows "\<exists>io'. vfprintf K f fmt args m io = Some (0, m, io') \<and> printed disk shown t io io'"
proof -
  define out where "out = \<lparr>buf = NULLP, cap = 0, len = 0, ostream = f, tmp = [], failed = False, omem = m, oio = io\<rparr>"
  define out' where "out' = out_text K t out"
  have "console_holds disk shown f io [] out" by (simp add: console_holds_def out_def OUT_CHUNK_def)
  then have h: "console_holds disk shown f io t out'" "omem out' = m"
    using console_text [OF assms(1-3), of "[]" out t] assms(6) by (simp_all add: out'_def out_def)
  then obtain pre where p: "buf out' = 0" "ostream out' = f" "\<not> failed out'" "len out' = 0" "length (tmp out') < OUT_CHUNK"
      "printed disk shown pre io (oio out')" "pre @ tmp out' = t"
    by (auto simp: console_holds_def)
  have fl: "console_holds disk shown f io t (out_flush K out')" "tmp (out_flush K out') = []" "omem (out_flush K out') = m"
    using console_flush [OF assms(1-3,6) p(1-4) less_imp_le [OF p(5)] p(6,7)] h(2) by simp_all
  then have pr: "printed disk shown t io (oio (out_flush K out'))" by (auto simp: console_holds_def)
  have "format_into K fmt args out = Some (0, out_flush K out')"
    using format_loop_text [OF assms(4,5), of K out] p(1) fl(1)
    unfolding out'_def [symmetric] format_into_def by (simp add: console_holds_def)
  moreover have "files io f \<noteq> None" using assms(2,3) by (auto simp: consoles_def)
  ultimately show ?thesis
    using fl(3) pr unfolding vfprintf_def out_def [symmetric] by simp
qed

subsection \<open>Input\<close>

text \<open>The state a program is in between two statements, what a run of statements did as the user sees it,
  a stream with \<open>t\<close> left to read, and the copy of the file it reads from.\<close>

definition ready :: "'w io \<Rightarrow> bool" where
  "ready io \<longleftrightarrow> consoles io \<and> 3 < fresh io"

definition did ::
    "('w \<Rightarrow> u8 list \<rightharpoonup> u8 list) \<Rightarrow> ('w \<Rightarrow> u8 list) \<Rightarrow> u8 list \<Rightarrow> 'w io \<Rightarrow> 'w io \<Rightarrow> bool" where
  "did disk shown t io io' \<longleftrightarrow> ready io' \<and> disk (ikern io') = disk (ikern io) \<and>
     shown (ikern io') = shown (ikern io) @ crlf_text t"

definition reading :: "nat \<Rightarrow> u8 list \<Rightarrow> 'w io \<Rightarrow> bool" where
  "reading f t io \<longleftrightarrow> 3 < f \<and> (\<exists>s tx. files io f = Some s \<and> rbuf s = Some tx \<and> drop (rpos s) tx = t \<and> ungot s < 0 \<and> wcap s = 0)"

definition copy_of :: "nat \<Rightarrow> u8 list \<Rightarrow> 'w io \<Rightarrow> bool" where
  "copy_of f tx io \<longleftrightarrow> (\<exists>s. files io f = Some s \<and> rbuf s = Some tx)"

lemma did_refl: "ready io \<Longrightarrow> did disk shown [] io io"
  by (simp add: did_def crlf_text_def)

lemma did_ready: "did disk shown t io io' \<Longrightarrow> ready io'"
  by (simp add: did_def)

lemma did_disk: "did disk shown t io io' \<Longrightarrow> disk (ikern io') = disk (ikern io)"
  by (simp add: did_def)

lemma did_trans: "did disk shown s io io1 \<Longrightarrow> did disk shown t io1 io2 \<Longrightarrow> did disk shown (s @ t) io io2"
  by (simp add: did_def)

lemma ready_consoles: "ready io \<Longrightarrow> consoles io"
  by (simp add: ready_def)

lemma printed_did: "printed disk shown t io io' \<Longrightarrow> ready io \<Longrightarrow> did disk shown t io io'"
  using printed_files [of disk shown t io io'] printed_consoles [of disk shown t io io']
  by (simp add: printed_def did_def ready_def)

lemma printed_reading: "printed disk shown t io io' \<Longrightarrow> reading f u io' = reading f u io"
  using printed_files [of disk shown t io io'] by (simp add: reading_def)

lemma printed_copy: "printed disk shown t io io' \<Longrightarrow> copy_of f u io' = copy_of f u io"
  using printed_files [of disk shown t io io'] by (simp add: copy_of_def)

lemma mode_rb: "mode_flags (bytes ''rb'') = Some (O_RDONLY, False)"
  by (simp add: mode_flags_def char_at_def)

lemma quiet_io_reason:
  "serves K disk shown \<Longrightarrow> quiet disk shown (ikern io) (ikern (io_reason K e io))"
  by (auto simp: io_reason_def serves_def Let_def split: prod.splits)
    (metis snd_conv)+

lemma fopen_missing:
  assumes "serves K disk shown" "ready io" "disk (ikern io) p = None"
  shows "\<exists>io'. fopen K p (bytes ''rb'') io = (0, io') \<and> did disk shown [] io io'"
proof -
  obtain d w where o: "k_open K p O_RDONLY (ikern io) = (d, w)" by fastforce
  have "(0 \<le> fst (k_open K p O_RDONLY (ikern io))) = (disk (ikern io) p \<noteq> None)"
    and "quiet disk shown (ikern io) (snd (k_open K p O_RDONLY (ikern io)))"
    using assms(1) unfolding serves_def by blast+
  then have d: "d < 0" and q: "quiet disk shown (ikern io) w" using assms(3) by (simp_all add: o)
  have q2: "quiet disk shown w (ikern (io_reason K ENOENT (io\<lparr>ikern := w\<rparr>)))"
    using quiet_io_reason [OF assms(1), of "io\<lparr>ikern := w\<rparr>" ENOENT] by simp
  have "fopen K p (bytes ''rb'') io = (0, io_reason K ENOENT (io\<lparr>ikern := w\<rparr>))"
    using d unfolding fopen_def mode_rb by (simp add: o)
  then show ?thesis
    using quiet_trans [OF q q2] assms(2) by (simp add: did_def quiet_def ready_def consoles_def crlf_text_def)
qed

lemma fopen_served:
  assumes "serves K disk shown" "ready io" "disk (ikern io) p = Some t"
  shows "\<exists>f io'. fopen K p (bytes ''rb'') io = (f, io') \<and> f \<noteq> 0 \<and> did disk shown [] io io' \<and> reading f t io' \<and>
    copy_of f t io'"
proof -
  obtain d w where o: "k_open K p O_RDONLY (ikern io) = (d, w)" by fastforce
  have "(0 \<le> fst (k_open K p O_RDONLY (ikern io))) = (disk (ikern io) p \<noteq> None)"
    and "quiet disk shown (ikern io) (snd (k_open K p O_RDONLY (ikern io)))"
    using assms(1) unfolding serves_def by blast+
  then have d: "\<not> d < 0" and q: "quiet disk shown (ikern io) w" using assms(3) by (simp_all add: o)
  then have p1: "disk w p = Some t" using assms(3) by (simp add: quiet_def)
  obtain w1 where s: "k_stat K p w = ((0, length t), w1)" "quiet disk shown w w1"
    using assms(1) p1 unfolding serves_def by (metis surjective_pairing)
  then have p2: "disk w1 p = Some t" using p1 by (simp add: quiet_def)
  obtain w2 where r: "k_fread K p w1 = ((int (length t), t), w2)" "quiet disk shown w1 w2"
    using assms(1) p2 unfolding serves_def by (metis surjective_pairing)
  define st where "st = \<lparr>fd = d, smode = O_RDONLY, eof = False, error = False, ungot = - 1, is_console = False,
     path = take 259 p, wbuf = [], wcap = 0, rbuf = Some t, rpos = 0\<rparr>"
  have "fopen K p (bytes ''rb'') io = (fresh io, upd (fresh io) st
      (upd (fresh io) (st\<lparr>rbuf := None\<rparr>) (upd (fresh io) (st\<lparr>rbuf := None, path := []\<rparr>) (io\<lparr>fresh := fresh io + 1\<rparr>)))\<lparr>ikern := w2\<rparr>)"
    using d assms(2) unfolding fopen_def mode_rb
    by (cases "t = []") (simp_all add: o [unfolded O_RDONLY_def] s(1) r(1) stream_new_def load_copy_def serves_roomy [OF assms(1)] Let_def st_def open_flags
        upd_def ready_def)
  then show ?thesis
    using quiet_trans [OF q quiet_trans [OF s(2) r(2)]] assms(2)
    by (auto simp: did_def reading_def copy_of_def quiet_def ready_def consoles_def crlf_text_def upd_def st_def)
qed

lemma fread_reading:
  assumes "ready io" "reading f t io" "0 < n" "n < 2 ^ 32"
  shows "\<exists>io'. fread K 1 (of_nat n) f io = (take n t, length (take n t), io') \<and> reading f (drop n t) io' \<and>
    ready io' \<and> ikern io' = ikern io \<and> (\<forall>tx. copy_of f tx io' = copy_of f tx io)"
proof -
  obtain s tx where s: "3 < f" "files io f = Some s" "rbuf s = Some tx" "drop (rpos s) tx = t" "ungot s < 0" "wcap s = 0"
    using assms(2) by (auto simp: reading_def)
  have u: "unat (of_nat n :: u32) = n" using assms(4) unat_of_nat_u32 by simp
  then have z: "(of_nat n :: u32) \<noteq> 0" using assms(3) by (metis less_numeral_extra(3) unat_0)
  have d: "drop (rpos s + min (length tx - rpos s) n) tx = drop n t"
    using s(4) by (cases "length tx - rpos s \<le> n") (auto simp: min_def add.commute)
  show ?thesis
    using s u z d assms(1) by (auto simp: fread_def Let_def reading_def copy_of_def ready_def consoles_def min.commute)
qed

lemma fseek_reading:
  assumes "ready io" "reading f t io" "copy_of f tx io"
  shows "\<exists>io'. fseek K f off 0 io = (if off < 0 \<or> off > int (length tx) then - 1 else 0, io') \<and> ready io' \<and>
    ikern io' = ikern io \<and> reading f (if off < 0 \<or> off > int (length tx) then t else drop (nat off) tx) io'"
proof -
  obtain s where s: "3 < f" "files io f = Some s" "rbuf s = Some tx" "drop (rpos s) tx = t" "wcap s = 0"
    using assms(2,3) by (auto simp: reading_def copy_of_def)
  then show ?thesis
    using assms(1) by (auto simp: fseek_def Let_def reading_def ready_def consoles_def)
qed

lemma fclose_reading:
  assumes "serves K disk shown" "ready io" "reading f t io"
  shows "did disk shown [] io (snd (fclose K f io))"
proof -
  obtain s where s: "3 < f" "files io f = Some s" "wcap s = 0" using assms(3) by (auto simp: reading_def)
  obtain r w where c: "k_close K (fd s) (ikern io) = (r, w)" by fastforce
  have "quiet disk shown (ikern io) (snd (k_close K (fd s) (ikern io)))" using assms(1) unfolding serves_def by blast
  then have q: "quiet disk shown (ikern io) w" by (simp add: c)
  have "quiet disk shown w (ikern (io_reason K EBADF (io\<lparr>ikern := w\<rparr>)))"
    using quiet_io_reason [OF assms(1), of "io\<lparr>ikern := w\<rparr>" EBADF] by simp
  then show ?thesis
    using q s c quiet_trans [OF q] assms(2)
    by (auto simp: fclose_def fflush_def Let_def did_def quiet_def ready_def consoles_def crlf_text_def)
qed

subsection \<open>The formats of the programs\<close>

text \<open>A number in a field, on the right.\<close>

definition num_field :: "nat \<Rightarrow> nat \<Rightarrow> u8 list" where
  "num_field w v = (let ds = places False 10 v in replicate (w - length ds) 32 @ ds)"

definition hex_field :: "u32 \<Rightarrow> u8 list" where
  "hex_field v = (let ds = places False 16 (unat v) in replicate (8 - length ds) 48 @ ds)"

lemma format_plain: "37 \<notin> set s \<Longrightarrow> format_text (s @ fmt) args = map_option ((@) s) (format_text fmt args)"
  by (induction s) (cases "format_text fmt args"; auto)+

lemmas parse_simps = parse_spec_def parse_width_def parse_precision_def spec_start_def is_length_modifier_def
  render_def spec_number_def number_text_def

lemma format_s: "format_text (37 # 115 # fmt) (AStr (Some s) # args) = map_option ((@) s) (format_text fmt args)"
  by (simp add: parse_simps)

lemma format_c: "format_text (37 # 99 # fmt) (AInt v # args) = map_option ((@) [ucast v]) (format_text fmt args)"
  by (simp add: parse_simps)

lemma format_u: "format_text (37 # 117 # fmt) (AInt v # args) = map_option ((@) (num_field 0 (unat v))) (format_text fmt args)"
  by (simp add: parse_simps num_field_def Let_def)

lemma format_lu:
  "format_text (37 # 54 # 108 # 117 # fmt) (AInt v # args) = map_option ((@) (num_field 6 (unat v))) (format_text fmt args)"
  "format_text (37 # 56 # 108 # 117 # fmt) (AInt v # args) = map_option ((@) (num_field 8 (unat v))) (format_text fmt args)"
  by (simp_all add: parse_simps num_field_def Let_def)

lemma format_08x:
  "format_text (37 # 48 # 56 # 120 # fmt) (AInt v # args) = map_option ((@) (hex_field v)) (format_text fmt args)"
  by (simp add: parse_simps hex_field_def Let_def)

lemma places_digits: "1 < b \<Longrightarrow> b \<le> 16 \<Longrightarrow> set (places False b v) \<subseteq> set (digit_set False)"
proof (induction v rule: less_induct)
  case (less v)
  have "digit_set False ! d \<in> set (digit_set False)" if "d < 16" for d
    using that by (intro nth_mem) (simp add: digit_set_def)
  moreover have "v mod b < 16" using less.prems mod_less_divisor [of b v] by linarith
  ultimately show ?case
    using less by (subst places.simps) (auto simp: not_less)
qed

lemma places_length: "1 < b \<Longrightarrow> v < b ^ Suc k \<Longrightarrow> length (places False b v) \<le> Suc k"
proof (induction k arbitrary: v)
  case 0
  then show ?case by (subst places.simps) simp
next
  case (Suc k)
  then have "v div b < b ^ Suc k" by (simp add: less_mult_imp_div_less mult.commute)
  then show ?case using Suc by (subst places.simps) auto
qed

lemma num_field_no_newline: "count_list (num_field w v) 10 = 0"
proof -
  have "10 \<notin> set (places False 10 v)" using places_digits [of 10 v] by (auto simp: digit_set_def)
  then show ?thesis by (simp add: num_field_def Let_def count_list_0_iff)
qed

lemma hex_field_no_newline: "count_list (hex_field v) 10 = 0"
proof -
  have "10 \<notin> set (places False 16 (unat v))" using places_digits [of 16 "unat v"] by (auto simp: digit_set_def)
  then show ?thesis by (simp add: hex_field_def Let_def count_list_0_iff)
qed

lemma num_field_length: "length (num_field w (unat (v :: u32))) \<le> max w 10"
proof -
  have "unat v < 10 ^ Suc 9" using unat_lt_2p32 [of v] by simp
  then have "length (places False 10 (unat v)) \<le> Suc 9" by (intro places_length) simp_all
  then show ?thesis by (simp add: num_field_def Let_def)
qed

lemma hex_field_length: "length (hex_field v) = 8"
proof -
  have "unat v < 16 ^ Suc 7" using unat_lt_2p32 [of v] by simp
  then have "length (places False 16 (unat v)) \<le> Suc 7" by (intro places_length) simp_all
  then show ?thesis by (simp add: hex_field_def Let_def)
qed

text \<open>A message with the name of a file at its end.\<close>

lemma message_prints:
  assumes "serves K disk shown" "ready io" "37 \<notin> set s" "length s + length p < 2 ^ 30" "10 \<notin> set s" "10 \<notin> set p"
  shows "\<exists>io'. fprintf K f_stderr (s @ bytes ''%s'' @ [10]) [AStr (Some p)] m io = Some (0, m, io') \<and>
    did disk shown (s @ p @ [10]) io io'"
proof -
  have t: "format_text (s @ bytes ''%s'' @ [10]) [AStr (Some p)] = Some (s @ p @ [10])"
    using format_plain [OF assms(3), of "bytes ''%s'' @ [10]" "[AStr (Some p)]"] format_s [of "[10]" p "[]"] by simp
  have "count_list s 10 = 0" "count_list p 10 = 0" using assms(5,6) by (simp_all add: count_list_0_iff)
  then obtain io' where "vfprintf K f_stderr (s @ bytes ''%s'' @ [10]) [AStr (Some p)] m io = Some (0, m, io')"
      "printed disk shown (s @ p @ [10]) io io'"
    using fprintf_prints [OF assms(1) ready_consoles [OF assms(2)] _ t, of f_stderr m] assms(4) by auto
  then show ?thesis using printed_did [OF _ assms(2)] unfolding fprintf_def by blast
qed

section \<open>A kernel with files in memory\<close>

text \<open>It keeps the disk and what the console took, and nothing else.\<close>

definition ram_calls :: "((u8 list \<rightharpoonup> u8 list) \<times> u8 list) calls" where
  "ram_calls = \<lparr>k_open = \<lambda>p fl w. (if fst w p = None then - 1 else 3, w), k_close = \<lambda>d w. (0, w),
     k_seek = \<lambda>d off wh w. (- 1, w), k_delete = \<lambda>p w. (- 1, w), k_rename = \<lambda>p q w. (- 1, w),
     k_stat = \<lambda>p w. (case fst w p of None \<Rightarrow> (- 1, 0) | Some t \<Rightarrow> (0, length t), w),
     k_read = \<lambda>d n w. ((0, []), w),
     k_fread = \<lambda>p w. (case fst w p of None \<Rightarrow> (- 1, []) | Some t \<Rightarrow> (int (length t), t), w),
     k_fwrite = \<lambda>p t w. (- 1, w), k_stdin = \<lambda>w. ((0, []), w),
     k_write = \<lambda>d t w. (int (length t), (fst w, snd w @ t)), k_print = \<lambda>t w. w,
     k_geterrno = \<lambda>w. (2, w), k_room = \<lambda>n w. (True, w)\<rparr>"

lemma ram_serves: "serves ram_calls fst snd"
  by (auto simp: serves_def ram_calls_def roomy_def quiet_def)

definition line_kernel :: "u8 list \<Rightarrow> 'w kernel" where
  "line_kernel line nr a b c d e m w = (0, poke m a (line @ [0]), w)"

lemma line_kernel_gives: "gives_line (line_kernel line) line"
  by (simp add: gives_line_def line_kernel_def)

definition name_mem :: "u8 list \<Rightarrow> mem" where
  "name_mem name = poke (\<lambda>a. 1) 0x400000 (name @ [0])"

lemma name_mem_apart:
  assumes "0 \<notin> set name" "length name < 256"
  shows "name_apart (name_mem name) 0x400000 name 0x500000"
proof -
  have l: "length (name @ [0]) \<le> 2 ^ 32" using assms(2) by simp
  have "cstr (name_mem name) 0x400000 name"
    using bytes_at_poke [OF l, of "\<lambda>a. 1" "0x400000"] assms(1) by (auto simp: cstr_iff bytes_at_snoc name_mem_def)
  moreover have "(0x400000 :: u32) + of_nat i \<noteq> 0x500000 + of_nat j" if "i \<le> length name" "j < 512" for i j
  proof -
    have "unat ((0x400000 :: u32) + of_nat i) = 0x400000 + i" "unat ((0x500000 :: u32) + of_nat j) = 0x500000 + j"
      using that assms(2) by (simp_all add: unat_word_ariths unat_of_nat)
    then have "unat ((0x400000 :: u32) + of_nat i) \<noteq> unat ((0x500000 :: u32) + of_nat j)" using that assms(2) by linarith
    then show ?thesis by metis
  qed
  ultimately show ?thesis by (simp add: name_apart_def MV_ARGS_BUFSZ_def)
qed

lemma ready_start: "ready (io_start w)"
  by (simp add: ready_def consoles_def io_start_def)

end
