(* ===== verification/Mv_Getopt.thy ===== *)
theory Mv_Getopt
  imports Mv_Posix
begin

text \<open>
  The loop in which a program asks \<open>getopt\<close> for its options, as the mains of \<^verbatim>\<open>c/prog/elfcat.c\<close> and
  \<^verbatim>\<open>c/prog/elfwc.c\<close> have it: the option words may stand anywhere among the operands, in clusters, and
  when the loop ends the operands stand behind \<open>optind\<close> in their order.
\<close>

section \<open>The loop\<close>

text \<open>\<open>step\<close> is the body of the loop: the new values of the program's flags, or None for the branch that
  gives up on an option it does not know.\<close>

partial_function (option) option_loop ::
    "u8 list \<Rightarrow> (int \<Rightarrow> 'a \<Rightarrow> 'a option) \<Rightarrow> opts \<Rightarrow> 'a \<Rightarrow> ('a option \<times> opts) option" where
  "option_loop s step st a =
     (let (opt, st) = getopt s st
      in if opt = - 1 then Some (Some a, st)
         else case step opt a of
                None \<Rightarrow> Some (None, st)
              | Some a \<Rightarrow> option_loop s step st a)"

section \<open>What it reads\<close>

text \<open>The option words of a command line, the letters in them and the operands.\<close>

definition option_letters :: "u8 list list \<Rightarrow> u8 list" where
  "option_letters ws = concat (map tl (filter is_option ws))"

definition operands :: "u8 list list \<Rightarrow> u8 list list" where
  "operands ws = filter (\<lambda>w. \<not> is_option w) ws"

fun step_all :: "(int \<Rightarrow> 'a \<Rightarrow> 'a option) \<Rightarrow> u8 list \<Rightarrow> 'a \<Rightarrow> 'a option" where
  "step_all step [] a = Some a"
| "step_all step (c # cs) a = Option.bind (step (uc c) a) (step_all step cs)"

lemma step_all_append: "step_all step (xs @ ys) a = Option.bind (step_all step xs a) (step_all step ys)"
  by (induction xs arbitrary: a) (simp_all add: bind_eq_None_conv split: bind_splits)

lemma option_letters_Cons [simp]:
  "option_letters (w # ws) = (if is_option w then tl w else []) @ option_letters ws"
  by (simp add: option_letters_def)

lemma option_letters_append [simp]: "option_letters (vs @ ws) = option_letters vs @ option_letters ws"
  by (simp add: option_letters_def)

lemma operands_append [simp]: "operands (vs @ ws) = operands vs @ operands ws"
  by (simp add: operands_def)

lemma operands_Cons [simp]: "operands (w # ws) = (if is_option w then operands ws else w # operands ws)"
  by (simp add: operands_def)

lemma no_options: "\<forall>w \<in> set ws. \<not> is_option w \<Longrightarrow> option_letters ws = [] \<and> operands ws = ws"
  by (simp add: option_letters_def operands_def)

subsection \<open>Finding the next option word\<close>

lemma find_option_at:
  "a \<le> i \<Longrightarrow> i < n \<Longrightarrow> is_option (v ! i) \<Longrightarrow> (\<forall>j. a \<le> j \<and> j < i \<longrightarrow> \<not> is_option (v ! j)) \<Longrightarrow>
     find_option v [a..<n] = Some i"
proof (induction "i - a" arbitrary: a)
  case (Suc k)
  then have "find_option v [Suc a..<n] = Some i" using Suc.hyps(1) [of "Suc a"] by simp
  then show ?case using Suc.prems Suc.hyps(2) by (simp add: upt_conv_Cons)
qed (auto simp: upt_conv_Cons)

lemma find_option_none:
  "\<forall>j. a \<le> j \<and> j < n \<longrightarrow> \<not> is_option (v ! j) \<Longrightarrow> find_option v [a..<n] = None"
  by (induction "n - a" arbitrary: a) (simp_all add: upt_conv_Cons)

text \<open>An option word behind operands is read as if it stood before them.\<close>

lemma getopt_brings:
  assumes "argv st = pre @ os @ w # ws" "optind st = length pre" "scanned st = 0" "plain_spec s"
    and "\<forall>v \<in> set os. \<not> is_option v" "is_option w" "\<not> is_end w"
  shows "getopt s st = getopt s (st\<lparr>argv := pre @ w # os @ ws\<rparr>)"
proof (cases os)
  case Nil
  then have "st\<lparr>argv := pre @ w # os @ ws\<rparr> = st" using assms(1) by simp
  then show ?thesis by simp
next
  case (Cons v vs)
  let ?i = "length pre + length os"
  have at: "argv st ! ?i = w" using assms(1) by (metis append.assoc length_append nth_append_length)
  have before: "argv st ! j = os ! (j - length pre)" if "length pre \<le> j" "j < ?i" for j
    using assms(1) that by (auto simp: nth_append)
  have f: "find_option (argv st) [Suc (length pre)..<length (argv st)] = Some ?i"
  proof (rule find_option_at)
    show "\<forall>j. Suc (length pre) \<le> j \<and> j < ?i \<longrightarrow> \<not> is_option (argv st ! j)"
      using before assms(5) by (auto simp: nth_mem less_diff_conv2)
  qed (use Cons assms(1,6) at in auto)
  have b: "bring_word (length pre) ?i (argv st) = pre @ w # os @ ws"
    using Cons at assms(1) by (subst bring_word_eq) (auto simp: drop_take)
  have o: "\<not> is_option (argv st ! length pre)" using before [of "length pre"] Cons assms(5) by simp
  have "next_word False (st\<lparr>optarg := None\<rparr>) = (None, st\<lparr>optarg := None, argv := pre @ w # os @ ws, scanned := 1\<rparr>)"
    using f b o assms(1,2) Cons by (simp add: next_word_def Let_def)
  moreover have "next_word False (st\<lparr>argv := pre @ w # os @ ws, optarg := None\<rparr>) =
      (None, st\<lparr>optarg := None, argv := pre @ w # os @ ws, scanned := 1\<rparr>)"
    using assms(2,6,7) by (cases st) (simp add: next_word_def Let_def)
  ultimately show ?thesis using assms(3,4) by (simp add: getopt_def plain_spec_def)
qed

lemma getopt_no_more:
  assumes "argv st = pre @ os" "optind st = length pre" "scanned st = 0" "plain_spec s" "\<forall>v \<in> set os. \<not> is_option v"
  shows "getopt s st = (- 1, st\<lparr>optarg := None\<rparr>)"
proof -
  have n: "\<not> is_option (argv st ! j)" if "length pre \<le> j" "j < length (argv st)" for j
    using assms(1,5) that by (auto simp: nth_append)
  have "find_option (argv st) [Suc (length pre)..<length (argv st)] = None"
    by (rule find_option_none) (use n in auto)
  then have "next_word False (st\<lparr>optarg := None\<rparr>) = (Some (- 1), st\<lparr>optarg := None\<rparr>)"
    using n [of "length pre"] assms(2) by (simp add: next_word_def Let_def)
  then show ?thesis using assms(3,4) by (simp add: getopt_def plain_spec_def)
qed

subsection \<open>The whole scan\<close>

lemma option_loop_calls:
  "getopt_calls (length cs) s st = (map uc cs, st') \<Longrightarrow> step_all step cs a = Some a' \<Longrightarrow>
     option_loop s step st a = option_loop s step st' a'"
proof (induction cs arbitrary: st a)
  case (Cons c cs)
  obtain st1 where g: "getopt s st = (uc c, st1)" and r: "getopt_calls (length cs) s st1 = (map uc cs, st')"
    using Cons.prems(1) by (auto simp: Let_def split: prod.splits)
  obtain a1 where a: "step (uc c) a = Some a1" "step_all step cs a1 = Some a'"
    using Cons.prems(2) by (auto simp: bind_eq_Some_conv)
  have "uc c \<noteq> - 1" using uc_range(1) [of c] by linarith
  then have "option_loop s step st a = option_loop s step st1 a1"
    using g a(1) by (simp add: option_loop.simps [of s step st a])
  then show ?case using Cons.IH [OF r a(2)] by simp
qed simp

lemma option_word:
  assumes "is_option w" "\<forall>c \<in> set (tl w). is_flag s c"
  shows "\<exists>cs. w = 45 # cs \<and> cs \<noteq> [] \<and> \<not> is_end w"
proof -
  obtain c cs where w: "w = 45 # c # cs"
    using assms(1) by (auto simp: is_option_def char_at_def neq_Nil_conv split: if_splits)
  then show ?thesis using assms(2) by (auto simp: is_end_def is_flag_def)
qed

lemma option_loop_scan:
  assumes "plain_spec s" "\<forall>c \<in> set (option_letters ws). is_flag s c"
    and "argv st = pre @ ws" "optind st = length pre" "scanned st = 0"
    and "step_all step (option_letters ws) a = Some a'"
  shows "option_loop s step st a = Some (Some a', st\<lparr>optarg := None,
    optind := length pre + length (filter is_option ws), argv := pre @ filter is_option ws @ operands ws\<rparr>)"
  using assms(2-)
proof (induction "length (filter is_option ws)" arbitrary: pre ws st a)
  case 0
  then have n: "\<forall>w \<in> set ws. \<not> is_option w" by (auto simp: filter_empty_conv)
  have "a' = a" "filter is_option ws = []" "operands ws = ws" using 0(1,6) no_options [OF n] by simp_all
  moreover have "getopt s st = (- 1, st\<lparr>optarg := None\<rparr>)"
    by (rule getopt_no_more [OF 0(3-5) assms(1) n])
  ultimately show ?case using 0(3,4) by (simp add: option_loop.simps [of s step st a])
next
  case (Suc k)
  then obtain w where "w \<in> set ws" "is_option w" by (metis filter_empty_conv length_0_conv nat.distinct(1))
  then obtain os w ws' where ws: "ws = os @ w # ws'" "is_option w" "\<forall>v \<in> set os. \<not> is_option v"
    by (metis split_list_first_prop)
  have e: "option_letters os = []" "operands os = os" "filter is_option os = []"
    using no_options [OF ws(3)] ws(3) by simp_all
  obtain cs where w: "w = 45 # cs" "cs \<noteq> []" "\<not> is_end w"
    using option_word [OF ws(2), of s] Suc.prems(1) ws(1,2) by auto
  define st1 where "st1 = st\<lparr>argv := pre @ w # os @ ws'\<rparr>"
  define st2 where "st2 = st1\<lparr>optarg := None, optind := optind st1 + 1, scanned := 0\<rparr>"
  have "getopt s st = getopt s st1" unfolding st1_def
    by (rule getopt_brings) (use ws w(3) Suc.prems assms(1) in auto)
  then have l1: "option_loop s step st a = option_loop s step st1 a" by (simp add: option_loop.simps)
  have fl: "\<forall>c \<in> set cs. is_flag s c" using Suc.prems(1) ws(1,2) w(1) by auto
  have c: "getopt_calls (length cs) s st1 = (map uc cs, st2)"
    using getopt_calls_flags [of "[]" cs s st1] fl w(1,2) assms(1) Suc.prems(3,4) by (simp add: st1_def st2_def)
  obtain a1 where a: "step_all step cs a = Some a1" "step_all step (option_letters (os @ ws')) a1 = Some a'"
    using Suc.prems(5) ws(1,2) w(1) e by (auto simp: step_all_append bind_eq_Some_conv)
  have "option_loop s step st2 a1 = Some (Some a', st2\<lparr>optarg := None,
      optind := length (pre @ [w]) + length (filter is_option (os @ ws')),
      argv := (pre @ [w]) @ filter is_option (os @ ws') @ operands (os @ ws')\<rparr>)"
    by (rule Suc.hyps(1)) (use Suc.hyps(2) Suc.prems ws a(2) in \<open>auto simp: st1_def st2_def\<close>)
  moreover have "st\<lparr>scanned := 0\<rparr> = st" using Suc.prems(4) by simp
  ultimately show ?case
    using l1 option_loop_calls [OF c a(1)] ws e by (cases st) (simp add: st1_def st2_def)
qed

end
