(* ===== verification/Mv_Elfcat.thy ===== *)
theory Mv_Elfcat
  imports Mv_Console Mv_Getopt
begin

text \<open>
  \<^verbatim>\<open>c/prog/elfcat.c\<close>: print files, optionally with line numbers. The program is put together from the
  models of what it calls: the command line, \<open>getopt\<close>, the streams, \<open>printf\<close> and the console. What it prints
  is compared with a reference that works on whole files.
\<close>

section \<open>The program\<close>

text \<open>The loop over a chunk: the line number, whether a line starts here, and the state.\<close>

fun cat_bytes ::
    "'w calls \<Rightarrow> bool \<Rightarrow> u8 list \<Rightarrow> u32 \<Rightarrow> bool \<Rightarrow> mem \<Rightarrow> 'w io \<Rightarrow> (u32 \<times> bool \<times> mem \<times> 'w io) option" where
  "cat_bytes K number [] line at_line_start m io = Some (line, at_line_start, m, io)"
| "cat_bytes K number (c # cs) line at_line_start m io =
     Option.bind (if at_line_start \<and> number
                  then map_option (\<lambda>(r, m, io). (False, m, io)) (printf K (bytes ''%6lu  '') [AInt line] m io)
                  else Some (at_line_start, m, io))
       (\<lambda>(at_line_start, m, io).
          let io = snd (putchar K (sc c) io)
          in if c = 10 then cat_bytes K number cs (line + 1) True m io
             else cat_bytes K number cs line at_line_start m io)"

partial_function (option) cat_loop ::
    "'w calls \<Rightarrow> bool \<Rightarrow> nat \<Rightarrow> u32 \<Rightarrow> bool \<Rightarrow> mem \<Rightarrow> 'w io \<Rightarrow> (u32 \<times> mem \<times> 'w io) option" where
  "cat_loop K number f line at_line_start m io =
     (case fread K 1 512 f io of (chunk, n, io) \<Rightarrow>
        if n > 0
        then Option.bind (cat_bytes K number (take n chunk) line at_line_start m io)
               (\<lambda>(line, at_line_start, m, io). cat_loop K number f line at_line_start m io)
        else Some (line, m, io))"

definition cat :: "'w calls \<Rightarrow> u8 list \<Rightarrow> bool \<Rightarrow> u32 \<Rightarrow> mem \<Rightarrow> 'w io \<Rightarrow> (int \<times> u32 \<times> mem \<times> 'w io) option" where
  "cat K p number line m io =
     (case fopen K p (bytes ''rb'') io of (f, io) \<Rightarrow>
        if f = 0
        then map_option (\<lambda>(r, m, io). (1, line, m, io))
               (fprintf K f_stderr (bytes ''elfcat: cannot open %s'' @ [10]) [AStr (Some p)] m io)
        else map_option (\<lambda>(line, m, io). (0, line, m, snd (fclose K f io)))
               (cat_loop K number f line True m io))"

text \<open>The loop over the operands: the line number goes on from file to file.\<close>

fun cat_files ::
    "'w calls \<Rightarrow> bool \<Rightarrow> u8 list list \<Rightarrow> u32 \<Rightarrow> int \<Rightarrow> mem \<Rightarrow> 'w io \<Rightarrow> (int \<times> mem \<times> 'w io) option" where
  "cat_files K number [] line rc m io = Some (rc, m, io)"
| "cat_files K number (p # ps) line rc m io =
     Option.bind (cat K p number line m io)
       (\<lambda>(r, line, m, io). cat_files K number ps line (if r \<noteq> 0 then 1 else rc) m io)"

definition cat_step :: "int \<Rightarrow> bool \<Rightarrow> bool option" where
  "cat_step opt number = (if opt = 110 then Some True else None)"

definition elfcat_main ::
    "'w kernel \<Rightarrow> 'w calls \<Rightarrow> addr \<Rightarrow> addr \<Rightarrow> mem \<Rightarrow> 'w io \<Rightarrow> (int \<times> mem \<times> 'w io) option" where
  "elfcat_main S K prog args m io =
     Option.bind (main_args S prog args m io) (\<lambda>(ws, m, io).
       Option.bind (option_loop (bytes ''n'') cat_step ((opts_start ws)\<lparr>opterr := False\<rparr>) False) (\<lambda>(r, st).
         case r of
           None \<Rightarrow> map_option (\<lambda>(r, m, io). (1, m, io))
             (fprintf K f_stderr (bytes ''elfcat: unknown option -%c'' @ [10]) [AInt (ucast (optopt st))] m io)
         | Some number \<Rightarrow>
             Option.bind (cat_files K number (drop (optind st) (argv st)) 1 0 m io) (\<lambda>(rc, m, io).
               if drop (optind st) (argv st) = []
               then map_option (\<lambda>(r, m, io). (1, m, io)) (fprintf K f_stderr (bytes ''elfcat: no file named'' @ [10]) [] m io)
               else Some (rc, m, io))))"

section \<open>What it should print\<close>

text \<open>The lines of a file, each with its newline; a last line may lack it.\<close>

fun lines_of :: "u8 list \<Rightarrow> u8 list list" where
  "lines_of [] = []"
| "lines_of (c # cs) =
     (if c = 10 then [c] # lines_of cs
      else case lines_of cs of [] \<Rightarrow> [[c]] | l # ls \<Rightarrow> (c # l) # ls)"

fun numbered :: "u32 \<Rightarrow> u8 list list \<Rightarrow> u8 list" where
  "numbered k [] = []"
| "numbered k (l # ls) = num_field 6 (unat k) @ bytes ''  '' @ l @ numbered (k + 1) ls"

text \<open>The output for a list of paths, with the next line number.\<close>

fun cat_text :: "(u8 list \<rightharpoonup> u8 list) \<Rightarrow> bool \<Rightarrow> u32 \<Rightarrow> u8 list list \<Rightarrow> u8 list" where
  "cat_text d number k [] = []"
| "cat_text d number k (p # ps) =
     (case d p of
        None \<Rightarrow> bytes ''elfcat: cannot open '' @ p @ [10] @ cat_text d number k ps
      | Some t \<Rightarrow> (if number then numbered k (lines_of t) else t) @
                  cat_text d number (k + of_nat (count_list t 10)) ps)"

section \<open>The loops print it\<close>

text \<open>The text of a chunk that starts in a given position of a line.\<close>

fun chunk_text :: "bool \<Rightarrow> u32 \<Rightarrow> bool \<Rightarrow> u8 list \<Rightarrow> u8 list" where
  "chunk_text number k start [] = []"
| "chunk_text number k start (c # cs) =
     (if start \<and> number then num_field 6 (unat k) @ bytes ''  '' else []) @ c #
     (if c = 10 then chunk_text number (k + 1) True cs
      else chunk_text number k (start \<and> \<not> number) cs)"

text \<open>Where a line position is after some bytes.\<close>

fun start_after :: "bool \<Rightarrow> bool \<Rightarrow> u8 list \<Rightarrow> bool" where
  "start_after number start [] = start"
| "start_after number start (c # cs) = start_after number (if c = 10 then True else start \<and> \<not> number) cs"

lemma chunk_text_append:
  "chunk_text number k start (s @ t) = chunk_text number k start s @
     chunk_text number (k + of_nat (count_list s 10)) (start_after number start s) t"
  by (induction s arbitrary: k start) (auto simp: ac_simps)

lemma chunk_text_plain: "chunk_text False k start s = s"
  by (induction s arbitrary: k start) auto

lemma chunk_text_lines:
  "chunk_text True k True s = numbered k (lines_of s)"
  "chunk_text True k False s = (case lines_of s of [] \<Rightarrow> [] | l # ls \<Rightarrow> l @ numbered (k + 1) ls)"
  by (induction s arbitrary: k) (auto split: list.splits)

lemma printf_number:
  assumes "serves K disk shown" "ready io"
  shows "\<exists>io'. printf K (bytes ''%6lu  '') [AInt k] m io = Some (0, m, io') \<and>
    printed disk shown (num_field 6 (unat k) @ bytes ''  '') io io'"
  unfolding printf_def
proof (rule fprintf_prints [OF assms(1)])
  show "format_text (bytes ''%6lu  '') [AInt k] = Some (num_field 6 (unat k) @ bytes ''  '')"
    using format_lu(1) [of "[32, 32]" k "[]"] by simp
  show "length (num_field 6 (unat k) @ bytes ''  '') < 2 ^ 31" using num_field_length [of 6 k] by simp
qed (use assms(2) in \<open>simp_all add: ready_def num_field_no_newline\<close>)

lemma cat_bytes_prints:
  assumes "serves K disk shown"
  shows "ready io \<Longrightarrow> \<exists>io'. cat_bytes K number s line start m io =
      Some (line + of_nat (count_list s 10), start_after number start s, m, io') \<and>
    printed disk shown (chunk_text number line start s) io io'"
proof (induction s arbitrary: line start io)
  case (Cons c s)
  define pre where "pre = (if start \<and> number then num_field 6 (unat line) @ bytes ''  '' else [])"
  define start1 where "start1 = (if start \<and> number then False else start)"
  define line1 where "line1 = (if c = 10 then line + 1 else line)"
  define start2 where "start2 = (if c = 10 then True else start1)"
  obtain io1 where 1: "(if start \<and> number
        then map_option (\<lambda>(r, m, io). (False, m, io)) (printf K (bytes ''%6lu  '') [AInt line] m io)
        else Some (start, m, io)) = Some (start1, m, io1)" "printed disk shown pre io io1"
  proof (cases "start \<and> number")
    case True
    then show ?thesis
      using printf_number [OF assms Cons.prems, of line m] that by (auto simp: pre_def start1_def)
  next
    case False
    then show ?thesis using that [of io] by (auto simp: pre_def start1_def)
  qed
  have r1: "ready io1" using did_ready [OF printed_did [OF 1(2) Cons.prems]] .
  define io2 where "io2 = snd (putchar K (sc c) io1)"
  have 2: "printed disk shown [c] io1 io2"
    unfolding io2_def by (rule putchar_prints [OF assms ready_consoles [OF r1]])
  have r2: "ready io2" using did_ready [OF printed_did [OF 2 r1]] .
  obtain io3 where 3: "cat_bytes K number s line1 start2 m io2 =
        Some (line1 + of_nat (count_list s 10), start_after number start2 s, m, io3)"
      "printed disk shown (chunk_text number line1 start2 s) io2 io3"
    using Cons.IH [OF r2] by blast
  have "cat_bytes K number (c # s) line start m io = cat_bytes K number s line1 start2 m io2"
    using 1(1) by (simp add: io2_def line1_def start2_def Let_def)
  moreover have "chunk_text number line start (c # s) = (pre @ [c]) @ chunk_text number line1 start2 s"
    by (auto simp: pre_def line1_def start2_def start1_def)
  moreover have "start_after number start (c # s) = start_after number start2 s"
    by (auto simp: start2_def start1_def intro: arg_cong [where f = "\<lambda>x. start_after number x s"])
  moreover have "line1 + of_nat (count_list s 10) = line + of_nat (count_list (c # s) 10)" by (simp add: line1_def)
  ultimately show ?case using 3 printed_trans [OF printed_trans [OF 1(2) 2] 3(2)] by auto
qed simp

lemma cat_loop_prints:
  assumes "serves K disk shown"
  shows "ready io \<Longrightarrow> reading f t io \<Longrightarrow> \<exists>io'. cat_loop K number f line start m io =
      Some (line + of_nat (count_list t 10), m, io') \<and> did disk shown (chunk_text number line start t) io io' \<and> reading f [] io'"
proof (induction "length t" arbitrary: t line start io rule: less_induct)
  case less
  obtain io1 where r: "fread K 1 512 f io = (take 512 t, length (take 512 t), io1)" "reading f (drop 512 t) io1"
      "ready io1" "ikern io1 = ikern io"
    using fread_reading [OF less.prems, of 512 K] by auto
  show ?case
  proof (cases "t = []")
    case True
    then have "cat_loop K number f line start m io = Some (line, m, io1)" using r(1) by (simp add: cat_loop.simps)
    then show ?thesis using True r(2-4) by (auto simp: did_def crlf_text_def)
  next
    case False
    let ?k = "line + of_nat (count_list (take 512 t) 10)" and ?s = "start_after number start (take 512 t)"
    obtain io2 where c: "cat_bytes K number (take 512 t) line start m io1 = Some (?k, ?s, m, io2)"
        "printed disk shown (chunk_text number line start (take 512 t)) io1 io2"
      using cat_bytes_prints [OF assms r(3)] by blast
    have d: "did disk shown (chunk_text number line start (take 512 t)) io io2"
      using printed_did [OF c(2) r(3)] r(4) by (simp add: did_def)
    have "length (drop 512 t) < length t" using False by simp
    then obtain io3 where 3: "cat_loop K number f ?k ?s m io2 = Some (?k + of_nat (count_list (drop 512 t) 10), m, io3)"
        "did disk shown (chunk_text number ?k ?s (drop 512 t)) io2 io3" "reading f [] io3"
      using less.hyps [of "drop 512 t" io2 ?k ?s] did_ready [OF d] printed_reading [OF c(2)] r(2) by blast
    have "take (min (length t) 512) t = take 512 t" by (simp add: min_def)
    then have "cat_loop K number f line start m io = cat_loop K number f ?k ?s m io2"
      using r(1) c(1) False by (simp add: cat_loop.simps [of K number f line start m io] take_take)
    moreover have "?k + of_nat (count_list (drop 512 t) 10) = line + of_nat (count_list t 10)"
      using count_list_append [of "take 512 t" "drop 512 t" 10] by (simp add: add.assoc flip: of_nat_add)
    moreover have "chunk_text number line start t = chunk_text number line start (take 512 t) @ chunk_text number ?k ?s (drop 512 t)"
      using chunk_text_append [of number line start "take 512 t" "drop 512 t"] by simp
    ultimately show ?thesis using 3 did_trans [OF d 3(2)] by auto
  qed
qed

lemma cat_prints:
  assumes "serves K disk shown" "ready io" "length p < 2 ^ 29" "10 \<notin> set p"
  shows "\<exists>io'. cat K p number line m io = Some (if disk (ikern io) p = None then 1 else 0,
      (case disk (ikern io) p of None \<Rightarrow> line | Some t \<Rightarrow> line + of_nat (count_list t 10)), m, io') \<and>
    did disk shown (cat_text (disk (ikern io)) number line [p]) io io'"
proof (cases "disk (ikern io) p")
  case None
  obtain io1 where o: "fopen K p (bytes ''rb'') io = (0, io1)" "did disk shown [] io io1"
    using fopen_missing [OF assms(1,2) None] by blast
  obtain io2 where 2: "fprintf K f_stderr (bytes ''elfcat: cannot open '' @ bytes ''%s'' @ [10]) [AStr (Some p)] m io1 =
        Some (0, m, io2)" "did disk shown (bytes ''elfcat: cannot open '' @ p @ [10]) io1 io2"
    using message_prints [OF assms(1) did_ready [OF o(2)], of "bytes ''elfcat: cannot open ''" p m] assms(3,4) by auto
  show ?thesis using o(1) 2(1) did_trans [OF o(2) 2(2)] None by (simp add: cat_def)
next
  case (Some t)
  obtain f io1 where o: "fopen K p (bytes ''rb'') io = (f, io1)" "f \<noteq> 0" "did disk shown [] io io1" "reading f t io1"
    using fopen_served [OF assms(1,2) Some] by blast
  obtain io2 where l: "cat_loop K number f line True m io1 = Some (line + of_nat (count_list t 10), m, io2)"
      "did disk shown (chunk_text number line True t) io1 io2" "reading f [] io2"
    using cat_loop_prints [OF assms(1) did_ready [OF o(3)] o(4)] by blast
  have c: "did disk shown [] io2 (snd (fclose K f io2))"
    by (rule fclose_reading [OF assms(1) did_ready [OF l(2)] l(3)])
  have t: "chunk_text number line True t = (if number then numbered line (lines_of t) else t)"
    by (simp add: chunk_text_plain chunk_text_lines)
  show ?thesis
    using o(1,2) l(1) did_trans [OF did_trans [OF o(3) l(2)] c] Some t by (simp add: cat_def)
qed

lemma cat_text_Cons: "cat_text d number k (p # ps) = cat_text d number k [p] @
    cat_text d number (case d p of None \<Rightarrow> k | Some t \<Rightarrow> k + of_nat (count_list t 10)) ps"
  by (simp split: option.splits)

lemma cat_files_prints:
  assumes "serves K disk shown"
  shows "ready io \<Longrightarrow> \<forall>p \<in> set ps. length p < 2 ^ 29 \<and> 10 \<notin> set p \<Longrightarrow> \<exists>io'.
    cat_files K number ps line rc m io = Some (if \<forall>p \<in> set ps. disk (ikern io) p \<noteq> None then rc else 1, m, io') \<and>
    did disk shown (cat_text (disk (ikern io)) number line ps) io io'"
proof (induction ps arbitrary: line rc io)
  case (Cons p ps)
  let ?d = "disk (ikern io)"
  let ?l = "case ?d p of None \<Rightarrow> line | Some t \<Rightarrow> line + of_nat (count_list t 10)"
  let ?r = "if ?d p = None then 1 else rc"
  obtain io1 where 1: "cat K p number line m io = Some (if ?d p = None then 1 else 0, ?l, m, io1)"
      "did disk shown (cat_text ?d number line [p]) io io1"
    using cat_prints [OF assms Cons.prems(1), of p number line m] Cons.prems(2) by auto
  obtain io2 where 2: "cat_files K number ps ?l ?r m io1 =
        Some (if \<forall>p \<in> set ps. disk (ikern io1) p \<noteq> None then ?r else 1, m, io2)"
      "did disk shown (cat_text (disk (ikern io1)) number ?l ps) io1 io2"
    using Cons.IH [OF did_ready [OF 1(2)], of ?l ?r] Cons.prems(2) by auto
  have d: "disk (ikern io1) = ?d" by (rule did_disk [OF 1(2)])
  have "cat_files K number (p # ps) line rc m io = cat_files K number ps ?l ?r m io1"
    using 1(1) by simp
  then show ?case
    using 2 did_trans [OF 1(2) 2(2)] unfolding d cat_text_Cons [of ?d number line p ps] by (auto split: if_splits)
qed (simp add: did_refl)

section \<open>The program prints its files\<close>

lemma cat_options:
  assumes "set (option_letters ws) \<subseteq> {110}" "\<not> is_option name"
  shows "option_loop (bytes ''n'') cat_step ((opts_start (name # ws))\<lparr>opterr := False\<rparr>) False =
    Some (Some (option_letters ws \<noteq> []), (opts_start (name # filter is_option ws @ operands ws))\<lparr>opterr := False,
      optind := 1 + length (filter is_option ws)\<rparr>)"
proof -
  have p: "plain_spec (bytes ''n'')" by (simp add: plain_spec_def)
  have f: "\<forall>c \<in> set (option_letters ws). is_flag (bytes ''n'') c" using assms(1) by (auto simp: is_flag_def char_at_def)
  have "step_all cat_step cs b = Some (b \<or> cs \<noteq> [])" if "set cs \<subseteq> {110}" for cs b
    using that by (induction cs arbitrary: b) (auto simp: cat_step_def uc_def)
  then have st: "step_all cat_step (option_letters ws) False = Some (option_letters ws \<noteq> [])" using assms(1) by simp
  show ?thesis
    using option_loop_scan [OF p f, of "(opts_start (name # ws))\<lparr>opterr := False\<rparr>" "[name]" cat_step False] st
    by (simp add: opts_start_def)
qed



end
