(* ===== verification/Mv_Elfwc.thy ===== *)
theory Mv_Elfwc
  imports Mv_Console Mv_Getopt
begin

text \<open>
  \<^verbatim>\<open>c/prog/elfwc.c\<close>: count the lines, words and bytes of files. The counters are 32-bit words; the reference
  counts newlines, maximal runs of bytes that are not space, and bytes of whole files.
\<close>

section \<open>The program\<close>

record counts =
  lines :: u32
  words :: u32
  nbytes :: u32

definition counts_zero :: counts where
  "counts_zero = \<lparr>lines = 0, words = 0, nbytes = 0\<rparr>"

definition is_space :: "u8 \<Rightarrow> bool" where
  "is_space c \<longleftrightarrow> c = 32 \<or> c = 9 \<or> c = 10 \<or> c = 13 \<or> c = 11 \<or> c = 12"

fun count_bytes :: "u8 list \<Rightarrow> counts \<Rightarrow> bool \<Rightarrow> counts \<times> bool" where
  "count_bytes [] out in_word = (out, in_word)"
| "count_bytes (c # cs) out in_word =
     (let out = (if c = 10 then out\<lparr>lines := lines out + 1\<rparr> else out)
      in if is_space c then count_bytes cs out False
         else if \<not> in_word then count_bytes cs (out\<lparr>words := words out + 1\<rparr>) True
         else count_bytes cs out in_word)"

partial_function (option) count_loop ::
    "'w calls \<Rightarrow> nat \<Rightarrow> counts \<Rightarrow> bool \<Rightarrow> 'w io \<Rightarrow> (counts \<times> 'w io) option" where
  "count_loop K f out in_word io =
     (case fread K 1 512 f io of (chunk, n, io) \<Rightarrow>
        if n > 0
        then (case count_bytes (take n chunk) (out\<lparr>nbytes := nbytes out + of_nat n\<rparr>) in_word of
                (out, in_word) \<Rightarrow> count_loop K f out in_word io)
        else Some (out, io))"

definition count_file :: "'w calls \<Rightarrow> u8 list \<Rightarrow> mem \<Rightarrow> 'w io \<Rightarrow> (int \<times> counts \<times> mem \<times> 'w io) option" where
  "count_file K p m io =
     (case fopen K p (bytes ''rb'') io of (f, io) \<Rightarrow>
        if f = 0
        then map_option (\<lambda>(r, m, io). (1, counts_zero, m, io))
               (fprintf K f_stderr (bytes ''elfwc: cannot open %s'' @ [10]) [AStr (Some p)] m io)
        else map_option (\<lambda>(out, io). (0, out, m, snd (fclose K f io)))
               (count_loop K f counts_zero False io))"

text \<open>The statements of \<open>report\<close>, each of which may print.\<close>

definition print_if :: "'w calls \<Rightarrow> bool \<Rightarrow> u32 \<Rightarrow> mem \<times> 'w io \<Rightarrow> (mem \<times> 'w io) option" where
  "print_if K b v = (\<lambda>(m, io). if b then map_option snd (printf K (bytes ''%8lu'') [AInt v] m io) else Some (m, io))"

definition report ::
    "'w calls \<Rightarrow> counts \<Rightarrow> bool \<Rightarrow> bool \<Rightarrow> bool \<Rightarrow> u8 list option \<Rightarrow> mem \<Rightarrow> 'w io \<Rightarrow> (mem \<times> 'w io) option" where
  "report K c l w b name m io =
     Option.bind (print_if K l (lines c) (m, io)) (\<lambda>s.
       Option.bind (print_if K w (words c) s) (\<lambda>s.
         Option.bind (print_if K b (nbytes c) s) (\<lambda>(m, io).
           Option.bind (case name of None \<Rightarrow> Some (m, io)
                        | Some n \<Rightarrow> map_option snd (printf K (bytes '' %s'') [AStr (Some n)] m io))
             (\<lambda>(m, io). Some (m, snd (putchar K 10 io))))))"

text \<open>The loop over the operands: the sum so far, the exit code and the state.\<close>

definition add_counts :: "counts \<Rightarrow> counts \<Rightarrow> counts" where
  "add_counts t c = \<lparr>lines = lines t + lines c, words = words t + words c, nbytes = nbytes t + nbytes c\<rparr>"

fun wc_files ::
    "'w calls \<Rightarrow> bool \<Rightarrow> bool \<Rightarrow> bool \<Rightarrow> u8 list list \<Rightarrow> counts \<Rightarrow> int \<Rightarrow> mem \<Rightarrow> 'w io \<Rightarrow>
     (counts \<times> int \<times> mem \<times> 'w io) option" where
  "wc_files K l w b [] tot rc m io = Some (tot, rc, m, io)"
| "wc_files K l w b (p # ps) tot rc m io =
     Option.bind (count_file K p m io) (\<lambda>(r, c, m, io).
       if r \<noteq> 0 then wc_files K l w b ps tot 1 m io
       else Option.bind (report K c l w b (Some p) m io) (\<lambda>(m, io).
              wc_files K l w b ps (add_counts tot c) rc m io))"

definition wc_step :: "int \<Rightarrow> bool \<times> bool \<times> bool \<Rightarrow> (bool \<times> bool \<times> bool) option" where
  "wc_step opt = (\<lambda>(l, w, b). if opt = 108 then Some (True, w, b) else if opt = 119 then Some (l, True, b)
     else if opt = 99 then Some (l, w, True) else None)"

definition elfwc_main ::
    "'w kernel \<Rightarrow> 'w calls \<Rightarrow> addr \<Rightarrow> addr \<Rightarrow> mem \<Rightarrow> 'w io \<Rightarrow> (int \<times> mem \<times> 'w io) option" where
  "elfwc_main S K prog args m io =
     Option.bind (main_args S prog args m io) (\<lambda>(ws, m, io).
       Option.bind (option_loop (bytes ''lwc'') wc_step ((opts_start ws)\<lparr>opterr := False\<rparr>) (False, False, False))
         (\<lambda>(r, st). case r of
            None \<Rightarrow> map_option (\<lambda>(r, m, io). (1, m, io))
              (fprintf K f_stderr (bytes ''elfwc: unknown option -%c'' @ [10]) [AInt (ucast (optopt st))] m io)
          | Some (l, w, b) \<Rightarrow>
              let (l, w, b) = (if \<not> l \<and> \<not> w \<and> \<not> b then (True, True, True) else (l, w, b));
                  ps = drop (optind st) (argv st)
              in Option.bind (wc_files K l w b ps counts_zero 0 m io) (\<lambda>(tot, rc, m, io).
                   if ps = []
                   then map_option (\<lambda>(r, m, io). (1, m, io)) (fprintf K f_stderr (bytes ''elfwc: no file named'' @ [10]) [] m io)
                   else if length ps > 1
                   then map_option (\<lambda>(m, io). (rc, m, io)) (report K tot l w b (Some (bytes ''total'')) m io)
                   else Some (rc, m, io))))"

section \<open>What it should count\<close>

text \<open>The words of a text: its maximal runs of bytes that are not space.\<close>

function word_runs :: "u8 list \<Rightarrow> u8 list list" where
  "word_runs s = (let t = dropWhile is_space s
     in if t = [] then [] else takeWhile (\<lambda>c. \<not> is_space c) t # word_runs (dropWhile (\<lambda>c. \<not> is_space c) t))"
  by auto
termination
proof (relation "measure length")
  fix s t :: "u8 list"
  assume "t = dropWhile is_space s" "t \<noteq> []"
  then obtain c t' where t: "t = c # t'" "\<not> is_space c" by (metis dropWhile_eq_Cons_conv list.exhaust)
  have "length (dropWhile (\<lambda>c. \<not> is_space c) t) < length t" using t length_dropWhile_le [of "\<lambda>c. \<not> is_space c" t'] by simp
  also have "\<dots> \<le> length s" using \<open>t = dropWhile is_space s\<close> length_dropWhile_le [of is_space s] by simp
  finally show "(dropWhile (\<lambda>c. \<not> is_space c) t, s) \<in> measure length" by simp
qed simp

declare word_runs.simps [simp del]

definition count_text :: "u8 list \<Rightarrow> counts" where
  "count_text t = \<lparr>lines = of_nat (count_list t 10), words = of_nat (length (word_runs t)), nbytes = of_nat (length t)\<rparr>"

definition report_text :: "counts \<Rightarrow> bool \<Rightarrow> bool \<Rightarrow> bool \<Rightarrow> u8 list \<Rightarrow> u8 list" where
  "report_text c l w b name = (if l then num_field 8 (unat (lines c)) else []) @ (if w then num_field 8 (unat (words c)) else []) @
     (if b then num_field 8 (unat (nbytes c)) else []) @ bytes '' '' @ name @ [10]"

definition wc_line :: "(u8 list \<rightharpoonup> u8 list) \<Rightarrow> bool \<Rightarrow> bool \<Rightarrow> bool \<Rightarrow> u8 list \<Rightarrow> u8 list" where
  "wc_line d l w b p = (case d p of None \<Rightarrow> bytes ''elfwc: cannot open '' @ p @ [10]
     | Some t \<Rightarrow> report_text (count_text t) l w b p)"

text \<open>The sum over the files that are there.\<close>

definition wc_total :: "(u8 list \<rightharpoonup> u8 list) \<Rightarrow> u8 list list \<Rightarrow> counts" where
  "wc_total d ps = fold (\<lambda>p c. case d p of None \<Rightarrow> c | Some t \<Rightarrow> add_counts c (count_text t)) ps counts_zero"

definition wc_text :: "(u8 list \<rightharpoonup> u8 list) \<Rightarrow> bool \<Rightarrow> bool \<Rightarrow> bool \<Rightarrow> u8 list list \<Rightarrow> u8 list" where
  "wc_text d l w b ps = concat (map (wc_line d l w b) ps) @
     (if length ps > 1 then report_text (wc_total d ps) l w b (bytes ''total'') else [])"

section \<open>The loops count it\<close>

lemma word_runs_space: "is_space c \<Longrightarrow> word_runs (c # s) = word_runs s"
  by (subst (1 2) word_runs.simps) simp

lemma word_runs_word: "\<not> is_space c \<Longrightarrow> word_runs (c # s) = (c # takeWhile (\<lambda>c. \<not> is_space c) s) # word_runs (dropWhile (\<lambda>c. \<not> is_space c) s)"
  by (subst word_runs.simps) simp

lemma word_runs_Nil [simp]: "word_runs [] = []"
  by (simp add: word_runs.simps)

text \<open>The words that start in a text, when a word may already be under way.\<close>

fun new_runs :: "bool \<Rightarrow> u8 list \<Rightarrow> nat" where
  "new_runs in_word [] = 0"
| "new_runs in_word (c # s) =
     (if is_space c then new_runs False s else (if in_word then 0 else 1) + new_runs True s)"

definition word_after :: "bool \<Rightarrow> u8 list \<Rightarrow> bool" where
  "word_after in_word s = (if s = [] then in_word else \<not> is_space (last s))"

lemma new_runs_runs:
  "new_runs False s = length (word_runs s)" "new_runs True s = length (word_runs (dropWhile (\<lambda>c. \<not> is_space c) s))"
  by (induction s) (auto simp: word_runs_space word_runs_word)

lemma new_runs_append: "new_runs in_word (s @ t) = new_runs in_word s + new_runs (word_after in_word s) t"
  by (induction s arbitrary: in_word) (auto simp: word_after_def)

lemma count_bytes_spec:
  "count_bytes s out in_word = (out\<lparr>lines := lines out + of_nat (count_list s 10),
     words := words out + of_nat (new_runs in_word s)\<rparr>, word_after in_word s)"
proof (induction s arbitrary: out in_word)
  case (Cons c s)
  have "word_after (\<not> is_space c) s = word_after in_word (c # s)" by (simp add: word_after_def)
  moreover have "is_space 10" by (simp add: is_space_def)
  ultimately show ?case
    by (cases "c = 10"; cases "is_space c"; cases in_word) (simp_all add: Cons.IH Let_def)
qed (simp add: word_after_def)

lemma count_loop_counts:
  "ready io \<Longrightarrow> reading f t io \<Longrightarrow> \<exists>io'. count_loop K f out in_word io =
     Some (\<lparr>lines = lines out + of_nat (count_list t 10), words = words out + of_nat (new_runs in_word t),
       nbytes = nbytes out + of_nat (length t)\<rparr>, io') \<and> ready io' \<and> ikern io' = ikern io \<and> reading f [] io'"
proof (induction "length t" arbitrary: t out in_word io rule: less_induct)
  case less
  obtain io1 where r: "fread K 1 512 f io = (take 512 t, length (take 512 t), io1)" "reading f (drop 512 t) io1"
      "ready io1" "ikern io1 = ikern io"
    using fread_reading [OF less.prems, of 512 K] by auto
  show ?case
  proof (cases "t = []")
    case True
    then have "count_loop K f out in_word io = Some (out, io1)" using r(1) by (simp add: count_loop.simps)
    then show ?thesis using True r(2-4) by simp
  next
    case False
    let ?s = "take 512 t" and ?t = "drop 512 t"
    define out1 where "out1 = out\<lparr>nbytes := nbytes out + of_nat (length ?s), lines := lines out + of_nat (count_list ?s 10),
      words := words out + of_nat (new_runs in_word ?s)\<rparr>"
    have "take (length ?s) ?s = ?s" by (simp only: take_all order_refl)
    then have c: "count_loop K f out in_word io = count_loop K f out1 (word_after in_word ?s) io1"
      using r(1) False by (simp add: count_loop.simps [of K f out in_word io] count_bytes_spec out1_def del: take_take length_take)
    have "length ?t < length t" using False by simp
    then obtain io2 where 2: "count_loop K f out1 (word_after in_word ?s) io1 =
        Some (\<lparr>lines = lines out1 + of_nat (count_list ?t 10), words = words out1 + of_nat (new_runs (word_after in_word ?s) ?t),
          nbytes = nbytes out1 + of_nat (length ?t)\<rparr>, io2)" "ready io2" "ikern io2 = ikern io1" "reading f [] io2"
      using less.hyps [OF _ r(3,2)] by blast
    have "lines out1 + of_nat (count_list ?t 10) = lines out + of_nat (count_list t 10)"
      using count_list_append [of ?s ?t 10] by (simp add: out1_def add.assoc flip: of_nat_add)
    moreover have "words out1 + of_nat (new_runs (word_after in_word ?s) ?t) = words out + of_nat (new_runs in_word t)"
      using new_runs_append [of in_word ?s ?t] by (simp add: out1_def add.assoc flip: of_nat_add)
    moreover have "nbytes out1 + of_nat (length ?t) = nbytes out + of_nat (length t)"
      using length_append [of ?s ?t] by (simp add: out1_def add.assoc flip: of_nat_add del: length_append)
    ultimately show ?thesis using c 2 r(4) by simp
  qed
qed

lemma count_file_counts:
  assumes "serves K disk shown" "ready io" "length p < 2 ^ 29" "10 \<notin> set p"
  shows "\<exists>io'. count_file K p m io = Some (case disk (ikern io) p of None \<Rightarrow> (1, counts_zero, m, io')
      | Some t \<Rightarrow> (0, count_text t, m, io')) \<and>
    did disk shown (if disk (ikern io) p = None then bytes ''elfwc: cannot open '' @ p @ [10] else []) io io'"
proof (cases "disk (ikern io) p")
  case None
  obtain io1 where o: "fopen K p (bytes ''rb'') io = (0, io1)" "did disk shown [] io io1"
    using fopen_missing [OF assms(1,2) None] by blast
  obtain io2 where 2: "fprintf K f_stderr (bytes ''elfwc: cannot open '' @ bytes ''%s'' @ [10]) [AStr (Some p)] m io1 =
        Some (0, m, io2)" "did disk shown (bytes ''elfwc: cannot open '' @ p @ [10]) io1 io2"
    using message_prints [OF assms(1) did_ready [OF o(2)], of "bytes ''elfwc: cannot open ''" p m] assms(3,4) by auto
  show ?thesis using o(1) 2(1) did_trans [OF o(2) 2(2)] None by (simp add: count_file_def)
next
  case (Some t)
  obtain f io1 where o: "fopen K p (bytes ''rb'') io = (f, io1)" "f \<noteq> 0" "did disk shown [] io io1" "reading f t io1"
    using fopen_served [OF assms(1,2) Some] by blast
  obtain io2 where l: "count_loop K f counts_zero False io1 = Some (count_text t, io2)" "ready io2"
      "ikern io2 = ikern io1" "reading f [] io2"
    using count_loop_counts [OF did_ready [OF o(3)] o(4), of K counts_zero False]
    by (auto simp: counts_zero_def count_text_def new_runs_runs)
  have "did disk shown [] io1 io2" using l(2,3) by (simp add: did_def crlf_text_def)
  moreover have "did disk shown [] io2 (snd (fclose K f io2))" by (rule fclose_reading [OF assms(1) l(2,4)])
  ultimately have "did disk shown [] io (snd (fclose K f io2))"
    using did_trans [OF o(3)] did_trans by fastforce
  then show ?thesis using o(1,2) l(1) Some by (simp add: count_file_def)
qed

lemma print_if_prints:
  assumes "serves K disk shown" "ready io"
  shows "\<exists>io'. print_if K b v (m, io) = Some (m, io') \<and> did disk shown (if b then num_field 8 (unat v) else []) io io'"
proof (cases b)
  case True
  have t: "format_text (bytes ''%8lu'') [AInt v] = Some (num_field 8 (unat v))"
    using format_lu(2) [of "[]" v "[]"] by simp
  have "length (num_field 8 (unat v)) < 2 ^ 31" using num_field_length [of 8 v] by simp
  then obtain io' where "printf K (bytes ''%8lu'') [AInt v] m io = Some (0, m, io')" "printed disk shown (num_field 8 (unat v)) io io'"
    using fprintf_prints [OF assms(1) ready_consoles [OF assms(2)] _ t, of f_stdout m] num_field_no_newline
    unfolding printf_def by auto
  then show ?thesis using True printed_did [OF _ assms(2)] by (auto simp: print_if_def)
next
  case False
  then show ?thesis using did_refl [OF assms(2)] by (simp add: print_if_def)
qed

lemma report_prints:
  assumes "serves K disk shown" "ready io" "length name < 2 ^ 29" "10 \<notin> set name"
  shows "\<exists>io'. report K c l w b (Some name) m io = Some (m, io') \<and> did disk shown (report_text c l w b name) io io'"
proof -
  obtain io1 where 1: "print_if K l (lines c) (m, io) = Some (m, io1)"
      "did disk shown (if l then num_field 8 (unat (lines c)) else []) io io1"
    using print_if_prints [OF assms(1,2)] by blast
  obtain io2 where 2: "print_if K w (words c) (m, io1) = Some (m, io2)"
      "did disk shown (if w then num_field 8 (unat (words c)) else []) io1 io2"
    using print_if_prints [OF assms(1) did_ready [OF 1(2)]] by blast
  obtain io3 where 3: "print_if K b (nbytes c) (m, io2) = Some (m, io3)"
      "did disk shown (if b then num_field 8 (unat (nbytes c)) else []) io2 io3"
    using print_if_prints [OF assms(1) did_ready [OF 2(2)]] by blast
  have t: "format_text (bytes '' %s'') [AStr (Some name)] = Some (bytes '' '' @ name)"
    using format_s [of "[]" name "[]"] by simp
  obtain io4 where 4: "printf K (bytes '' %s'') [AStr (Some name)] m io3 = Some (0, m, io4)"
      "did disk shown (bytes '' '' @ name) io3 io4"
    using fprintf_prints [OF assms(1) ready_consoles [OF did_ready [OF 3(2)]] _ t, of f_stdout m]
      printed_did [OF _ did_ready [OF 3(2)]] assms(3,4) unfolding printf_def by (auto simp: count_list_0_iff)
  have s: "(sc 10 :: int) = 10" by (simp add: sc_def)
  have 5: "did disk shown [10] io4 (snd (putchar K 10 io4))"
    using printed_did [OF putchar_prints [OF assms(1) ready_consoles [OF did_ready [OF 4(2)]], of 10] did_ready [OF 4(2)]]
    unfolding s .
  have "report K c l w b (Some name) m io = Some (m, snd (putchar K 10 io4))"
    unfolding report_def using 1(1) 2(1) 3(1) 4(1) by (simp del: bytes_Cons)
  moreover have "did disk shown (report_text c l w b name) io (snd (putchar K 10 io4))"
    using did_trans [OF did_trans [OF did_trans [OF did_trans [OF 1(2) 2(2)] 3(2)] 4(2)] 5]
    by (simp add: report_text_def)
  ultimately show ?thesis by blast
qed

lemma wc_files_prints:
  assumes "serves K disk shown"
  shows "ready io \<Longrightarrow> disk (ikern io) = d \<Longrightarrow> \<forall>p \<in> set ps. length p < 2 ^ 29 \<and> 10 \<notin> set p \<Longrightarrow> \<exists>io'.
    wc_files K l w b ps tot rc m io = Some (fold (\<lambda>p c. case d p of None \<Rightarrow> c | Some t \<Rightarrow> add_counts c (count_text t)) ps tot,
      if \<forall>p \<in> set ps. d p \<noteq> None then rc else 1, m, io') \<and>
    did disk shown (concat (map (wc_line d l w b) ps)) io io'"
proof (induction ps arbitrary: tot rc io)
  case (Cons p ps)
  have p: "length p < 2 ^ 29" "10 \<notin> set p" using Cons.prems(3) by simp_all
  obtain io1 where 1: "count_file K p m io = Some (case d p of None \<Rightarrow> (1, counts_zero, m, io1) | Some t \<Rightarrow> (0, count_text t, m, io1))"
      "did disk shown (if d p = None then bytes ''elfwc: cannot open '' @ p @ [10] else []) io io1"
    using count_file_counts [OF assms Cons.prems(1) p, of m] Cons.prems(2) by blast
  obtain tot' rc' io2 where 2: "wc_files K l w b (p # ps) tot rc m io = wc_files K l w b ps tot' rc' m io2"
      "did disk shown (wc_line d l w b p) io io2" "rc' = (if d p = None then 1 else rc)"
      "tot' = (case d p of None \<Rightarrow> tot | Some t \<Rightarrow> add_counts tot (count_text t))"
  proof (cases "d p")
    case None
    then show ?thesis using that [of tot 1 io1] 1 by (simp add: wc_line_def)
  next
    case (Some t)
    obtain io2 where r: "report K (count_text t) l w b (Some p) m io1 = Some (m, io2)"
        "did disk shown (report_text (count_text t) l w b p) io1 io2"
      using report_prints [OF assms did_ready [OF 1(2)] p] by blast
    have "count_file K p m io = Some (0, count_text t, m, io1)" using 1(1) Some by simp
    then have "wc_files K l w b (p # ps) tot rc m io = wc_files K l w b ps (add_counts tot (count_text t)) rc m io2"
      by (simp add: r(1))
    moreover have "did disk shown (wc_line d l w b p) io io2"
      using did_trans [OF 1(2) r(2)] Some by (simp add: wc_line_def)
    ultimately show ?thesis by (rule that) (simp_all add: Some)
  qed
  have "disk (ikern io2) = d" using did_disk [OF 2(2)] Cons.prems(2) by simp
  then obtain io3 where 3: "wc_files K l w b ps tot' rc' m io2 =
        Some (fold (\<lambda>p c. case d p of None \<Rightarrow> c | Some t \<Rightarrow> add_counts c (count_text t)) ps tot',
          if \<forall>p \<in> set ps. d p \<noteq> None then rc' else 1, m, io3)"
      "did disk shown (concat (map (wc_line d l w b) ps)) io2 io3"
    using Cons.IH [OF did_ready [OF 2(2)], of tot' rc'] Cons.prems(3) by auto
  let ?tot = "fold (\<lambda>p c. case d p of None \<Rightarrow> c | Some t \<Rightarrow> add_counts c (count_text t)) (p # ps) tot"
  have "wc_files K l w b (p # ps) tot rc m io = Some (?tot, if \<forall>p \<in> set (p # ps). d p \<noteq> None then rc else 1, m, io3)"
    unfolding 2(1) 3(1) by (auto simp: 2(3,4) split: option.splits)
  moreover have "did disk shown (concat (map (wc_line d l w b) (p # ps))) io io3" using did_trans [OF 2(2) 3(2)] by simp
  ultimately show ?case by blast
qed (simp add: did_refl)

section \<open>The program counts its files\<close>

lemma wc_options:
  assumes "set (option_letters ws) \<subseteq> {108, 119, 99}" "\<not> is_option name"
  shows "option_loop (bytes ''lwc'') wc_step ((opts_start (name # ws))\<lparr>opterr := False\<rparr>) (False, False, False) =
    Some (Some (108 \<in> set (option_letters ws), 119 \<in> set (option_letters ws), 99 \<in> set (option_letters ws)),
      (opts_start (name # filter is_option ws @ operands ws))\<lparr>opterr := False, optind := 1 + length (filter is_option ws)\<rparr>)"
proof -
  have p: "plain_spec (bytes ''lwc'')" by (simp add: plain_spec_def)
  have f: "\<forall>c \<in> set (option_letters ws). is_flag (bytes ''lwc'') c"
    using assms(1) by (auto simp: is_flag_def char_at_def)
  have "step_all wc_step cs (l, w, b) = Some (l \<or> 108 \<in> set cs, w \<or> 119 \<in> set cs, b \<or> 99 \<in> set cs)"
    if "set cs \<subseteq> {108, 119, 99}" for cs l w b
    using that by (induction cs arbitrary: l w b) (auto simp: wc_step_def uc_def)
  then have st: "step_all wc_step (option_letters ws) (False, False, False) =
      Some (108 \<in> set (option_letters ws), 119 \<in> set (option_letters ws), 99 \<in> set (option_letters ws))"
    using assms(1) by simp
  show ?thesis
    using option_loop_scan [OF p f, of "(opts_start (name # ws))\<lparr>opterr := False\<rparr>" "[name]" wc_step "(False, False, False)"] st
    by (simp add: opts_start_def)
qed



end
