(* ===== verification/Mv_Elfinfo.thy ===== *)
theory Mv_Elfinfo
  imports Mv_Console
begin

text \<open>
  \<^verbatim>\<open>c/prog/elfinfo.c\<close>: describe an ELF file. The program reads the file header, then walks the program
  headers with \<open>fseek\<close> and \<open>fread\<close> and prints as it goes. The reference takes the bytes of the file apart
  first, into a value or the reason why it is refused, and prints that.
\<close>

unbundle bit_operations_syntax

section \<open>The program\<close>

definition le32 :: "u8 list \<Rightarrow> nat \<Rightarrow> u32" where
  "le32 p i = ucast (p ! i) OR push_bit 8 (ucast (p ! (i + 1))) OR push_bit 16 (ucast (p ! (i + 2))) OR
     push_bit 24 (ucast (p ! (i + 3)))"

definition le16 :: "u8 list \<Rightarrow> nat \<Rightarrow> u32" where
  "le16 p i = ucast (p ! i) OR push_bit 8 (ucast (p ! (i + 1)))"

definition type_name :: "u32 \<Rightarrow> u8 list" where
  "type_name t = (if t = 1 then bytes ''REL (relocatable)'' else if t = 2 then bytes ''EXEC (fixed address)''
     else if t = 3 then bytes ''DYN (position independent)'' else bytes ''unknown'')"

definition machine_name :: "u32 \<Rightarrow> u8 list" where
  "machine_name m = (if m = 3 then bytes ''i386'' else if m = 8 then bytes ''MIPS'' else if m = 20 then bytes ''PowerPC''
     else if m = 40 then bytes ''ARM'' else if m = 62 then bytes ''x86-64'' else bytes ''not i386'')"

definition flags_text :: "u32 \<Rightarrow> u8 list" where
  "flags_text f = [if f AND 4 \<noteq> 0 then 114 else 45, if f AND 2 \<noteq> 0 then 119 else 45, if f AND 1 \<noteq> 0 then 120 else 45]"

text \<open>A run of \<open>printf\<close> statements.\<close>

fun say :: "'w calls \<Rightarrow> (u8 list \<times> arg list) list \<Rightarrow> mem \<Rightarrow> 'w io \<Rightarrow> (mem \<times> 'w io) option" where
  "say K [] m io = Some (m, io)"
| "say K ((fmt, args) # msgs) m io =
     Option.bind (printf K fmt args m io) (\<lambda>(r, m, io). say K msgs m io)"

text \<open>An error exit: the message, \<open>fclose\<close> and the value 1.\<close>

definition give_up :: "'w calls \<Rightarrow> nat \<Rightarrow> nat \<Rightarrow> u8 list \<Rightarrow> arg list \<Rightarrow> mem \<Rightarrow> 'w io \<Rightarrow> (int \<times> mem \<times> 'w io) option" where
  "give_up K out f fmt args m io =
     map_option (\<lambda>(r, m, io). (1, m, snd (fclose K f io))) (vfprintf K out fmt args m io)"

definition header_lines :: "u8 list \<Rightarrow> u8 list \<Rightarrow> (u8 list \<times> arg list) list" where
  "header_lines p eh =
     [(bytes ''elfinfo: %s'' @ [10], [AStr (Some p)]),
      (bytes ''  class    %s'' @ [10], [AStr (Some (if eh ! 4 = 1 then bytes ''ELF32'' else bytes ''not ELF32''))]),
      (bytes ''  data     %s'' @ [10], [AStr (Some (if eh ! 5 = 1 then bytes ''little-endian'' else bytes ''big-endian''))]),
      (bytes ''  type     %s'' @ [10], [AStr (Some (type_name (le16 eh 16)))]),
      (bytes ''  machine  %s'' @ [10], [AStr (Some (machine_name (le16 eh 18)))]),
      (bytes ''  entry    0x%08x'' @ [10], [AInt (le32 eh 24)]),
      (bytes ''  phdrs    %u x %u at 0x%08x'' @ [10], [AInt (le16 eh 44), AInt (le16 eh 42), AInt (le32 eh 28)])]"

text \<open>The loop over the program headers; Inl is the value of a return out of it.\<close>

fun walk :: "'w calls \<Rightarrow> nat \<Rightarrow> nat list \<Rightarrow> u32 \<Rightarrow> mem \<Rightarrow> 'w io \<Rightarrow> ((int + u32) \<times> mem \<times> 'w io) option" where
  "walk K f [] loads m io = Some (Inr loads, m, io)"
| "walk K f (i # is) loads m io =
     (case fread K 1 32 f io of (ph, n, io) \<Rightarrow>
        if n \<noteq> 32
        then map_option (\<lambda>(r, m, io). (Inl r, m, io))
               (give_up K f_stderr f (bytes ''elfinfo: program header %u is past the end'' @ [10]) [AInt (of_nat i)] m io)
        else if le32 ph 0 \<noteq> 1 then walk K f is loads m io
        else Option.bind
               (say K [(bytes ''  LOAD %s vaddr 0x%08x filesz 0x%08x memsz 0x%08x'' @ [10],
                        [AStr (Some (flags_text (le32 ph 24))), AInt (le32 ph 8), AInt (le32 ph 16), AInt (le32 ph 20)])] m io)
               (\<lambda>(m, io). walk K f is (loads + 1) m io))"

definition elf_after_header :: "'w calls \<Rightarrow> nat \<Rightarrow> u8 list \<Rightarrow> mem \<Rightarrow> 'w io \<Rightarrow> (int \<times> mem \<times> 'w io) option" where
  "elf_after_header K f eh m io =
     (if le16 eh 42 \<noteq> 32
      then give_up K f_stdout f (bytes ''elfinfo: program headers are %u bytes, not %u: this is not an ELF32 image the loader can walk''
             @ [10]) [AInt (le16 eh 42), AInt 32] m io
      else case fseek K f (sint (le32 eh 28)) 0 io of (r, io) \<Rightarrow>
        if r \<noteq> 0 then give_up K f_stderr f (bytes ''elfinfo: cannot seek to the program headers'' @ [10]) [] m io
        else Option.bind (walk K f [0..<unat (le16 eh 44)] 0 m io) (\<lambda>(res, m, io).
          case res of Inl rc \<Rightarrow> Some (rc, m, io)
          | Inr loads \<Rightarrow>
              let io = snd (fclose K f io)
              in map_option (\<lambda>(m, io). (0, m, io))
                   (say K [(bytes ''%u loadable segment%s'' @ [10], [AInt loads, AStr (Some (if loads = 1 then [] else bytes ''s''))]),
                           (bytes ''ELFINFO_OK'' @ [10], [])] m io)))"

text \<open>Everything behind \<open>fopen\<close>.\<close>

definition elf_opened :: "'w calls \<Rightarrow> u8 list \<Rightarrow> nat \<Rightarrow> mem \<Rightarrow> 'w io \<Rightarrow> (int \<times> mem \<times> 'w io) option" where
  "elf_opened K p f m io =
     (case fread K 1 52 f io of (eh, n, io) \<Rightarrow>
        if n \<noteq> 52
        then give_up K f_stderr f (bytes ''elfinfo: %s is shorter than an ELF header'' @ [10]) [AStr (Some p)] m io
        else if eh ! 0 \<noteq> 0x7F \<or> eh ! 1 \<noteq> 69 \<or> eh ! 2 \<noteq> 76 \<or> eh ! 3 \<noteq> 70
        then give_up K f_stdout f (bytes ''elfinfo: %s is not an ELF image'' @ [10]) [AStr (Some p)] m io
        else Option.bind (say K (header_lines p eh) m io) (\<lambda>(m, io). elf_after_header K f eh m io))"

definition elfinfo_main ::
    "'w kernel \<Rightarrow> 'w calls \<Rightarrow> addr \<Rightarrow> addr \<Rightarrow> mem \<Rightarrow> 'w io \<Rightarrow> (int \<times> mem \<times> 'w io) option" where
  "elfinfo_main S K prog args m io =
     Option.bind (main_args S prog args m io) (\<lambda>(ws, m, io).
       let p = (if length ws > 1 then ws ! 1 else bytes ''/bin/elfinfo'')
       in case fopen K p (bytes ''rb'') io of (f, io) \<Rightarrow>
            if f = 0
            then map_option (\<lambda>(r, m, io). (1, m, io))
                   (fprintf K f_stderr (bytes ''elfinfo: cannot open %s'' @ [10]) [AStr (Some p)] m io)
            else elf_opened K p f m io)"

section \<open>What a file says\<close>

record phdr =
  p_type :: u32
  p_vaddr :: u32
  p_filesz :: u32
  p_memsz :: u32
  p_flags :: u32

record ehdr =
  e_class :: u8
  e_data :: u8
  e_type :: u32
  e_machine :: u32
  e_entry :: u32
  e_phoff :: u32
  e_phentsize :: u32
  e_phnum :: u32

definition get_ehdr :: "u8 list \<Rightarrow> ehdr" where
  "get_ehdr t = \<lparr>e_class = t ! 4, e_data = t ! 5, e_type = le16 t 16, e_machine = le16 t 18, e_entry = le32 t 24,
     e_phoff = le32 t 28, e_phentsize = le16 t 42, e_phnum = le16 t 44\<rparr>"

definition get_phdr :: "u8 list \<Rightarrow> phdr" where
  "get_phdr t = \<lparr>p_type = le32 t 0, p_vaddr = le32 t 8, p_filesz = le32 t 16, p_memsz = le32 t 20, p_flags = le32 t 24\<rparr>"

text \<open>The program headers that lie wholly inside the file, at most \<open>n\<close>.\<close>

fun get_phdrs :: "nat \<Rightarrow> u8 list \<Rightarrow> phdr list" where
  "get_phdrs 0 t = []"
| "get_phdrs (Suc n) t = (if length t < 32 then [] else get_phdr t # get_phdrs n (drop 32 t))"

definition is_load :: "phdr \<Rightarrow> bool" where
  "is_load ph \<longleftrightarrow> p_type ph = 1"

section \<open>What should be printed\<close>

definition line :: "u8 list \<Rightarrow> u8 list" where
  "line s = s @ [10]"

definition ehdr_text :: "u8 list \<Rightarrow> ehdr \<Rightarrow> u8 list" where
  "ehdr_text p h = line (bytes ''elfinfo: '' @ p) @
     line (bytes ''  class    '' @ (if e_class h = 1 then bytes ''ELF32'' else bytes ''not ELF32'')) @
     line (bytes ''  data     '' @ (if e_data h = 1 then bytes ''little-endian'' else bytes ''big-endian'')) @
     line (bytes ''  type     '' @ type_name (e_type h)) @
     line (bytes ''  machine  '' @ machine_name (e_machine h)) @
     line (bytes ''  entry    0x'' @ hex_field (e_entry h)) @
     line (bytes ''  phdrs    '' @ num_field 0 (unat (e_phnum h)) @ bytes '' x '' @ num_field 0 (unat (e_phentsize h)) @
       bytes '' at 0x'' @ hex_field (e_phoff h))"

definition load_text :: "phdr \<Rightarrow> u8 list" where
  "load_text ph = line (bytes ''  LOAD '' @ flags_text (p_flags ph) @ bytes '' vaddr 0x'' @ hex_field (p_vaddr ph) @
     bytes '' filesz 0x'' @ hex_field (p_filesz ph) @ bytes '' memsz 0x'' @ hex_field (p_memsz ph))"

definition loads_text :: "phdr list \<Rightarrow> u8 list" where
  "loads_text phs = concat (map load_text (filter is_load phs))"

text \<open>The exit code and the text for a file.\<close>

definition elf_report :: "u8 list \<Rightarrow> u8 list option \<Rightarrow> int \<times> u8 list" where
  "elf_report p file =
     (case file of None \<Rightarrow> (1, line (bytes ''elfinfo: cannot open '' @ p))
      | Some t \<Rightarrow>
          if length t < 52 then (1, line (bytes ''elfinfo: '' @ p @ bytes '' is shorter than an ELF header''))
          else if take 4 t \<noteq> 0x7F # bytes ''ELF'' then (1, line (bytes ''elfinfo: '' @ p @ bytes '' is not an ELF image''))
          else let h = get_ehdr t; phs = get_phdrs (unat (e_phnum h)) (drop (unat (e_phoff h)) t); k = length (filter is_load phs)
               in if e_phentsize h \<noteq> 32
                  then (1, ehdr_text p h @ line (bytes ''elfinfo: program headers are '' @ num_field 0 (unat (e_phentsize h)) @
                          bytes '' bytes, not 32: this is not an ELF32 image the loader can walk''))
                  else if sint (e_phoff h) < 0 \<or> length t < unat (e_phoff h)
                  then (1, ehdr_text p h @ line (bytes ''elfinfo: cannot seek to the program headers''))
                  else if length phs < unat (e_phnum h)
                  then (1, ehdr_text p h @ loads_text phs @
                          line (bytes ''elfinfo: program header '' @ num_field 0 (length phs) @ bytes '' is past the end''))
                  else (0, ehdr_text p h @ loads_text phs @
                          line (num_field 0 k @ bytes '' loadable segment'' @ (if k = 1 then [] else bytes ''s'')) @
                          line (bytes ''ELFINFO_OK'')))"

section \<open>The statements print their lines\<close>

text \<open>A message whose text is short and has few newlines.\<close>

definition prints_as :: "u8 list \<times> arg list \<Rightarrow> u8 list \<Rightarrow> bool" where
  "prints_as msg t \<longleftrightarrow> format_text (fst msg) (snd msg) = Some t \<and> length t < 2 ^ 31 \<and> count_list t 10 \<le> 255"

lemma say_prints:
  assumes "serves K disk shown" "list_all2 prints_as msgs ts"
  shows "ready io \<Longrightarrow> \<exists>io'. say K msgs m io = Some (m, io') \<and> printed disk shown (concat ts) io io'"
  using assms(2)
proof (induction arbitrary: io rule: list_all2_induct)
  case (Cons msg msgs t ts)
  obtain fmt args where f: "msg = (fmt, args)" by fastforce
  obtain io1 where 1: "printf K fmt args m io = Some (0, m, io1)" "printed disk shown t io io1"
    using fprintf_prints [OF assms(1) ready_consoles [OF Cons.prems], of f_stdout fmt args t m] Cons.hyps(1) f
    unfolding prints_as_def printf_def by auto
  then obtain io2 where 2: "say K msgs m io1 = Some (m, io2)" "printed disk shown (concat ts) io1 io2"
    using Cons.IH [OF did_ready [OF printed_did [OF 1(2) Cons.prems]]] by blast
  show ?case using 1(1) 2(1) printed_trans [OF 1(2) 2(2)] f by simp
qed simp

lemma give_up_prints:
  assumes "serves K disk shown" "ready io" "reading f u io" "out = f_stdout \<or> out = f_stderr" "prints_as (fmt, args) t"
  shows "\<exists>io'. give_up K out f fmt args m io = Some (1, m, io') \<and> did disk shown t io io'"
proof -
  obtain io1 where 1: "vfprintf K out fmt args m io = Some (0, m, io1)" "printed disk shown t io io1"
    using fprintf_prints [OF assms(1) ready_consoles [OF assms(2)] assms(4), of fmt args t m] assms(5)
    unfolding prints_as_def by auto
  have r: "ready io1" "reading f u io1"
    using did_ready [OF printed_did [OF 1(2) assms(2)]] printed_reading [OF 1(2)] assms(3) by simp_all
  show ?thesis
    using 1(1) did_trans [OF printed_did [OF 1(2) assms(2)] fclose_reading [OF assms(1) r]] by (simp add: give_up_def)
qed

lemma count_line: "count_list (line s) 10 = Suc (count_list s 10)"
  by (simp add: line_def)

lemma length_line: "length (line s) = Suc (length s)"
  by (simp add: line_def)

lemmas line_simps = count_line length_line num_field_no_newline hex_field_no_newline hex_field_length

lemma num_field_short: "length (num_field 0 (unat (v :: u32))) \<le> 10"
  using num_field_length [of 0 v] by simp

lemma names_short: "length (type_name t) \<le> 30" "length (machine_name t) \<le> 30" "length (flags_text t) = 3"
    "count_list (type_name t) 10 = 0" "count_list (machine_name t) 10 = 0" "count_list (flags_text t) 10 = 0"
  by (simp_all add: type_name_def machine_name_def flags_text_def)

lemma header_prints:
  assumes "length p < 2 ^ 29" "10 \<notin> set p"
  shows "\<exists>ts. list_all2 prints_as (header_lines p eh) ts \<and> concat ts = ehdr_text p (get_ehdr eh)"
proof (rule exI, rule conjI)
  let ?h = "get_ehdr eh"
  let ?ts = "[line (bytes ''elfinfo: '' @ p),
     line (bytes ''  class    '' @ (if e_class ?h = 1 then bytes ''ELF32'' else bytes ''not ELF32'')),
     line (bytes ''  data     '' @ (if e_data ?h = 1 then bytes ''little-endian'' else bytes ''big-endian'')),
     line (bytes ''  type     '' @ type_name (e_type ?h)),
     line (bytes ''  machine  '' @ machine_name (e_machine ?h)),
     line (bytes ''  entry    0x'' @ hex_field (e_entry ?h)),
     line (bytes ''  phdrs    '' @ num_field 0 (unat (e_phnum ?h)) @ bytes '' x '' @ num_field 0 (unat (e_phentsize ?h)) @
       bytes '' at 0x'' @ hex_field (e_phoff ?h))]"
  have c: "count_list p 10 = 0" using assms(2) by (simp add: count_list_0_iff)
  show "list_all2 prints_as (header_lines p eh) ?ts"
    using assms(1) c num_field_short [of "e_phnum ?h"] num_field_short [of "e_phentsize ?h"] names_short(1) [of "e_type ?h"]
      names_short(2) [of "e_machine ?h"] names_short(4,5)
    by (simp add: header_lines_def prints_as_def line_simps get_ehdr_def)
       (simp add: parse_simps line_def hex_field_def num_field_def Let_def)
  show "concat ?ts = ehdr_text p ?h" by (simp add: ehdr_text_def)
qed

lemma load_prints:
  "prints_as (bytes ''  LOAD %s vaddr 0x%08x filesz 0x%08x memsz 0x%08x'' @ [10],
     [AStr (Some (flags_text (p_flags ph))), AInt (p_vaddr ph), AInt (p_filesz ph), AInt (p_memsz ph)]) (load_text ph)"
  by (simp add: prints_as_def load_text_def line_simps names_short)
     (simp add: parse_simps line_def hex_field_def Let_def)

lemma past_end_prints:
  assumes "i < 2 ^ 16"
  shows "prints_as (bytes ''elfinfo: program header %u is past the end'' @ [10], [AInt (of_nat i)])
    (line (bytes ''elfinfo: program header '' @ num_field 0 i @ bytes '' is past the end''))"
proof -
  have u: "unat (of_nat i :: u32) = i" using assms unat_of_nat_u32 [of i] by simp
  show ?thesis using num_field_short [of "of_nat i"]
    by (simp add: prints_as_def line_simps u) (simp add: parse_simps line_def num_field_def Let_def u)
qed

lemma walk_prints:
  assumes "serves K disk shown"
  shows "ready io \<Longrightarrow> reading f t io \<Longrightarrow> i + n < 2 ^ 16 \<Longrightarrow> \<exists>io'.
    (let phs = get_phdrs n t
     in if length phs < n
        then walk K f [i..<i + n] loads m io = Some (Inl 1, m, io') \<and>
          did disk shown (loads_text phs @ line (bytes ''elfinfo: program header '' @ num_field 0 (i + length phs) @ bytes '' is past the end'')) io io'
        else walk K f [i..<i + n] loads m io = Some (Inr (loads + of_nat (length (filter is_load phs))), m, io') \<and>
          did disk shown (loads_text phs) io io' \<and> reading f (drop (32 * n) t) io')"
proof (induction n arbitrary: t i loads io)
  case 0
  then show ?case using did_refl [OF 0(1)] by (auto simp: loads_text_def)
next
  case (Suc n)
  have u: "[i..<i + Suc n] = i # [Suc i..<Suc i + n]" by (simp add: upt_conv_Cons)
  obtain io1 where r: "fread K 1 32 f io = (take 32 t, length (take 32 t), io1)" "reading f (drop 32 t) io1"
      "ready io1" "ikern io1 = ikern io"
    using fread_reading [OF Suc.prems(1,2), of 32 K] by auto
  have d1: "did disk shown [] io io1" using r(3,4) by (simp add: did_def crlf_text_def)
  show ?case
  proof (cases "length t < 32")
    case True
    obtain io2 where g: "give_up K f_stderr f (bytes ''elfinfo: program header %u is past the end'' @ [10]) [AInt (of_nat i)] m io1 =
        Some (1, m, io2)" "did disk shown (line (bytes ''elfinfo: program header '' @ num_field 0 i @ bytes '' is past the end'')) io1 io2"
      using give_up_prints [OF assms r(3,2) _ past_end_prints, of f_stderr i m] Suc.prems(3) by auto
    have "walk K f [i..<i + Suc n] loads m io = Some (Inl 1, m, io2)"
      unfolding u walk.simps r(1) using True g(1) by simp
    then show ?thesis using True did_trans [OF d1 g(2)] by (auto simp: loads_text_def)
  next
    case False
    define ph where "ph = get_phdr t"
    have ph: "le32 (take 32 t) 0 = p_type ph" "le32 (take 32 t) 24 = p_flags ph" "le32 (take 32 t) 8 = p_vaddr ph"
        "le32 (take 32 t) 16 = p_filesz ph" "le32 (take 32 t) 20 = p_memsz ph"
      using False by (simp_all add: ph_def get_phdr_def le32_def)
    have n: "length (take 32 t) = 32" using False by simp
    define loads1 where "loads1 = (if is_load ph then loads + 1 else loads)"
    obtain io2 where w: "walk K f [i..<i + Suc n] loads m io = walk K f [Suc i..<Suc i + n] loads1 m io2"
        "did disk shown (if is_load ph then load_text ph else []) io io2" "reading f (drop 32 t) io2"
    proof (cases "is_load ph")
      case True
      obtain io2 where s: "say K [(bytes ''  LOAD %s vaddr 0x%08x filesz 0x%08x memsz 0x%08x'' @ [10],
            [AStr (Some (flags_text (p_flags ph))), AInt (p_vaddr ph), AInt (p_filesz ph), AInt (p_memsz ph)])] m io1 = Some (m, io2)"
          "printed disk shown (concat [load_text ph]) io1 io2"
        using say_prints [OF assms _ r(3), of _ "[load_text ph]"] load_prints [of ph] by blast
      have "walk K f [i..<i + Suc n] loads m io = walk K f [Suc i..<Suc i + n] loads1 m io2"
        unfolding u walk.simps r(1) prod.case n ph using True s(1) by (simp add: is_load_def loads1_def)
      then show ?thesis
        using that [of io2] did_trans [OF d1 printed_did [OF s(2) r(3)]] True printed_reading [OF s(2)] r(2) by simp
    next
      case False
      then have "walk K f [i..<i + Suc n] loads m io = walk K f [Suc i..<Suc i + n] loads1 m io1"
        unfolding u walk.simps r(1) prod.case n ph by (simp add: is_load_def loads1_def)
      then show ?thesis using that [of io1] d1 r(2) False by simp
    qed
    obtain io3 where 3: "let phs = get_phdrs n (drop 32 t)
     in if length phs < n
        then walk K f [Suc i..<Suc i + n] loads1 m io2 = Some (Inl 1, m, io3) \<and>
          did disk shown (loads_text phs @ line (bytes ''elfinfo: program header '' @ num_field 0 (Suc i + length phs) @ bytes '' is past the end'')) io2 io3
        else walk K f [Suc i..<Suc i + n] loads1 m io2 = Some (Inr (loads1 + of_nat (length (filter is_load phs))), m, io3) \<and>
          did disk shown (loads_text phs) io2 io3 \<and> reading f (drop (32 * n) (drop 32 t)) io3"
      using Suc.IH [OF did_ready [OF w(2)] w(3), of "Suc i" loads1] Suc.prems(3) by auto
    have t: "loads_text (ph # phs) = (if is_load ph then load_text ph else []) @ loads_text phs" for phs
      by (simp add: loads_text_def)
    have l: "loads1 + of_nat (length (filter is_load phs)) = loads + of_nat (length (filter is_load (ph # phs)))" for phs
      by (simp add: loads1_def)
    have g: "get_phdrs (Suc n) t = ph # get_phdrs n (drop 32 t)" using False by (simp add: ph_def)
    show ?thesis
      using 3 did_trans [OF w(2)] unfolding g w(1) t Let_def l
      by (auto simp: add.commute split: if_splits)
  qed
qed

lemma entry_size_prints:
  "prints_as (bytes ''elfinfo: program headers are %u bytes, not %u: this is not an ELF32 image the loader can walk'' @ [10],
     [AInt v, AInt 32]) (line (bytes ''elfinfo: program headers are '' @ num_field 0 (unat v) @
       bytes '' bytes, not 32: this is not an ELF32 image the loader can walk''))"
proof -
  have f: "num_field 0 32 = bytes ''32''" by code_simp
  show ?thesis
    using num_field_short [of v] f by (simp add: prints_as_def line_simps) (simp add: parse_simps line_def num_field_def Let_def)
qed

lemma summary_prints:
  "list_all2 prints_as [(bytes ''%u loadable segment%s'' @ [10], [AInt v, AStr (Some (if v = 1 then [] else bytes ''s''))]),
       (bytes ''ELFINFO_OK'' @ [10], [])]
     [line (num_field 0 (unat v) @ bytes '' loadable segment'' @ (if v = 1 then [] else bytes ''s'')), line (bytes ''ELFINFO_OK'')]"
  using num_field_short [of v] num_field_short [of 1]
  by (simp add: prints_as_def line_simps) (simp add: parse_simps line_def num_field_def Let_def)

lemma seek_prints:
  "prints_as (bytes ''elfinfo: cannot seek to the program headers'' @ [10], []) (line (bytes ''elfinfo: cannot seek to the program headers''))"
  by (simp add: prints_as_def line_def)

text \<open>What is printed behind the header.\<close>

definition rest_report :: "u8 list \<Rightarrow> int \<times> u8 list" where
  "rest_report t =
     (let h = get_ehdr t; phs = get_phdrs (unat (e_phnum h)) (drop (unat (e_phoff h)) t); k = length (filter is_load phs)
      in if e_phentsize h \<noteq> 32
         then (1, line (bytes ''elfinfo: program headers are '' @ num_field 0 (unat (e_phentsize h)) @
                 bytes '' bytes, not 32: this is not an ELF32 image the loader can walk''))
         else if sint (e_phoff h) < 0 \<or> length t < unat (e_phoff h)
         then (1, line (bytes ''elfinfo: cannot seek to the program headers''))
         else if length phs < unat (e_phnum h)
         then (1, loads_text phs @ line (bytes ''elfinfo: program header '' @ num_field 0 (length phs) @ bytes '' is past the end''))
         else (0, loads_text phs @ line (num_field 0 k @ bytes '' loadable segment'' @ (if k = 1 then [] else bytes ''s'')) @
                line (bytes ''ELFINFO_OK'')))"

lemma le16_bound: "unat (le16 p i) < 2 ^ 16"
proof -
  have "le16 p i = take_bit 16 (le16 p i)"
    unfolding le16_def by (rule bit_word_eqI) (auto simp: bit_simps dest: bit_imp_le_length)
  then have "unat (le16 p i) = take_bit 16 (unat (le16 p i))" by (metis unsigned_take_bit_eq)
  then show ?thesis by (metis take_bit_nat_less_exp)
qed

lemma sint_nonneg:
  assumes "0 \<le> sint (x :: u32)"
  shows "sint x = int (unat x)"
proof -
  have "uint (word_of_int (sint x) :: u32) = sint x mod 2 ^ 32" by (simp only: uint_word_of_int) simp
  moreover have "sint x < 2 ^ 31" using sint_lt [of x] by simp
  ultimately show ?thesis using assms by simp
qed

lemma get_phdrs_length: "length (get_phdrs n t) \<le> n"
  by (induction n t rule: get_phdrs.induct) auto

lemma after_header_prints:
  assumes "serves K disk shown" "ready io" "reading f u io" "copy_of f t io" "52 \<le> length t"
  shows "\<exists>io'. elf_after_header K f (take 52 t) m io = Some (fst (rest_report t), m, io') \<and> did disk shown (snd (rest_report t)) io io'"
proof -
  define h where "h = get_ehdr t"
  have e: "le16 (take 52 t) 42 = e_phentsize h" "le32 (take 52 t) 28 = e_phoff h" "le16 (take 52 t) 44 = e_phnum h"
    using assms(5) by (simp_all add: h_def get_ehdr_def le16_def le32_def)
  have n: "unat (e_phnum h) < 2 ^ 16" using le16_bound [of t 44] by (simp add: h_def get_ehdr_def)
  let ?bad = "sint (e_phoff h) < 0 \<or> sint (e_phoff h) > int (length t)"
  obtain io1 where s: "fseek K f (sint (e_phoff h)) 0 io = (if ?bad then - 1 else 0, io1)" "ready io1" "ikern io1 = ikern io"
      "reading f (if ?bad then u else drop (nat (sint (e_phoff h))) t) io1"
    using fseek_reading [OF assms(2-4)] by blast
  have d1: "did disk shown [] io io1" using s(2,3) by (simp add: did_def crlf_text_def)
  have o: "sint (e_phoff h) = int (unat (e_phoff h))" if "0 \<le> sint (e_phoff h)"
    by (rule sint_nonneg [OF that])
  consider "e_phentsize h \<noteq> 32" | "e_phentsize h = 32" "?bad" | "e_phentsize h = 32" "\<not> ?bad" by blast
  then show ?thesis
  proof cases
    case 1
    then show ?thesis
      using give_up_prints [OF assms(1-3) _ entry_size_prints, of f_stdout "e_phentsize h" m]
      by (simp add: elf_after_header_def e rest_report_def h_def [symmetric] Let_def del: bytes_Cons)
  next
    case 2
    then obtain io2 where "give_up K f_stderr f (bytes ''elfinfo: cannot seek to the program headers'' @ [10]) [] m io1 = Some (1, m, io2)"
        "did disk shown (line (bytes ''elfinfo: cannot seek to the program headers'')) io1 io2"
      using give_up_prints [OF assms(1) s(2,4) _ seek_prints, of f_stderr m] by auto
    moreover have "sint (e_phoff h) < 0 \<or> length t < unat (e_phoff h)" using 2(2) o by linarith
    ultimately show ?thesis
      using 2 s(1) did_trans [OF d1]
      by (auto simp: elf_after_header_def e rest_report_def h_def [symmetric] Let_def simp del: bytes_Cons)
  next
    case 3
    define phs where "phs = get_phdrs (unat (e_phnum h)) (drop (unat (e_phoff h)) t)"
    define k where "k = length (filter is_load phs)"
    have ok: "\<not> (sint (e_phoff h) < 0 \<or> length t < unat (e_phoff h))" "nat (sint (e_phoff h)) = unat (e_phoff h)"
      using 3(2) o by linarith+
    have rd: "reading f (drop (unat (e_phoff h)) t) io1" using s(4) 3(2) ok(2) by simp
    have k: "k < 2 ^ 16" using n get_phdrs_length [of "unat (e_phnum h)"] length_filter_le [of is_load phs]
      unfolding k_def phs_def by (meson le_less_trans)
    then have uk: "unat (of_nat k :: u32) = k" "(of_nat k = (1 :: u32)) = (k = 1)"
      using unat_of_nat_u32 [of k] by (auto simp: word_unat_eq_iff)
    obtain io2 where w: "if length phs < unat (e_phnum h)
        then walk K f [0..<unat (e_phnum h)] 0 m io1 = Some (Inl 1, m, io2) \<and>
          did disk shown (loads_text phs @ line (bytes ''elfinfo: program header '' @ num_field 0 (length phs) @ bytes '' is past the end'')) io1 io2
        else walk K f [0..<unat (e_phnum h)] 0 m io1 = Some (Inr (of_nat k), m, io2) \<and>
          did disk shown (loads_text phs) io1 io2 \<and> reading f (drop (32 * unat (e_phnum h)) (drop (unat (e_phoff h)) t)) io2"
      using walk_prints [OF assms(1) s(2) rd, of 0 "unat (e_phnum h)" 0 m] n
      unfolding Let_def phs_def [symmetric] k_def [symmetric] add_0 by blast
    show ?thesis
    proof (cases "length phs < unat (e_phnum h)")
      case True
      then show ?thesis
        using w 3 s(1) did_trans [OF d1] ok(1)
        by (auto simp: elf_after_header_def e rest_report_def h_def [symmetric] phs_def [symmetric] Let_def simp del: bytes_Cons)
    next
      case False
      then have w: "walk K f [0..<unat (e_phnum h)] 0 m io1 = Some (Inr (of_nat k), m, io2)" "did disk shown (loads_text phs) io1 io2"
          "reading f (drop (32 * unat (e_phnum h)) (drop (unat (e_phoff h)) t)) io2"
        using w by simp_all
      define io3 where "io3 = snd (fclose K f io2)"
      have c: "did disk shown [] io2 io3" unfolding io3_def by (rule fclose_reading [OF assms(1) did_ready [OF w(2)] w(3)])
      obtain io4 where 4: "say K [(bytes ''%u loadable segment%s'' @ [10], [AInt (of_nat k), AStr (Some (if (of_nat k :: u32) = 1 then [] else bytes ''s''))]),
          (bytes ''ELFINFO_OK'' @ [10], [])] m io3 = Some (m, io4)"
          "printed disk shown (concat [line (num_field 0 (unat (of_nat k :: u32)) @ bytes '' loadable segment'' @ (if (of_nat k :: u32) = 1 then [] else bytes ''s'')),
            line (bytes ''ELFINFO_OK'')]) io3 io4"
        using say_prints [OF assms(1) summary_prints did_ready [OF c]] by blast
      have "did disk shown (loads_text phs @ line (num_field 0 k @ bytes '' loadable segment'' @ (if k = 1 then [] else bytes ''s'')) @
          line (bytes ''ELFINFO_OK'')) io io4"
        using did_trans [OF did_trans [OF did_trans [OF d1 w(2)] c] printed_did [OF 4(2) did_ready [OF c]]] uk
        by (simp del: bytes_Cons)
      moreover have "elf_after_header K f (take 52 t) m io = Some (0, m, io4)"
        using 3 s(1) w(1) 4(1) unfolding elf_after_header_def e by (simp add: io3_def [symmetric] Let_def del: bytes_Cons)
      ultimately show ?thesis
        using 3 False ok(1) unfolding rest_report_def h_def [symmetric] Let_def phs_def [symmetric] k_def [symmetric]
        by (simp del: bytes_Cons)
    qed
  qed
qed

section \<open>The program describes its file\<close>

lemma elf_report_rest:
  assumes "52 \<le> length t" "take 4 t = 0x7F # bytes ''ELF''"
  shows "elf_report p (Some t) = (fst (rest_report t), ehdr_text p (get_ehdr t) @ snd (rest_report t))"
  using assms unfolding elf_report_def rest_report_def Let_def by (simp del: bytes_Cons)

lemma magic_iff:
  assumes "52 \<le> length t"
  shows "(take 52 t ! 0 \<noteq> 0x7F \<or> take 52 t ! 1 \<noteq> 69 \<or> take 52 t ! 2 \<noteq> 76 \<or> take 52 t ! 3 \<noteq> 70) \<longleftrightarrow> take 4 t \<noteq> 0x7F # bytes ''ELF''"
proof -
  obtain a b c d u where t: "t = a # b # c # d # u"
    using assms by (cases t; cases "tl t"; cases "tl (tl t)"; cases "tl (tl (tl t))") auto
  show ?thesis unfolding t by simp
qed

lemma name_message_prints:
  assumes "length p < 2 ^ 29" "10 \<notin> set p"
  shows "prints_as (bytes ''elfinfo: %s is shorter than an ELF header'' @ [10], [AStr (Some p)])
      (line (bytes ''elfinfo: '' @ p @ bytes '' is shorter than an ELF header''))"
    and "prints_as (bytes ''elfinfo: %s is not an ELF image'' @ [10], [AStr (Some p)])
      (line (bytes ''elfinfo: '' @ p @ bytes '' is not an ELF image''))"
proof -
  have "count_list p 10 = 0" using assms(2) by (simp add: count_list_0_iff)
  then show "prints_as (bytes ''elfinfo: %s is shorter than an ELF header'' @ [10], [AStr (Some p)])
      (line (bytes ''elfinfo: '' @ p @ bytes '' is shorter than an ELF header''))"
    and "prints_as (bytes ''elfinfo: %s is not an ELF image'' @ [10], [AStr (Some p)])
      (line (bytes ''elfinfo: '' @ p @ bytes '' is not an ELF image''))"
    using assms(1) by (simp_all add: prints_as_def line_def parse_simps)
qed

lemma elf_opened_prints:
  assumes "serves K disk shown" "ready io" "reading f t io" "copy_of f t io" "length p < 2 ^ 29" "10 \<notin> set p"
  shows "\<exists>io'. elf_opened K p f m io = Some (fst (elf_report p (Some t)), m, io') \<and> did disk shown (snd (elf_report p (Some t))) io io'"
proof -
  obtain io1 where r: "fread K 1 52 f io = (take 52 t, length (take 52 t), io1)" "reading f (drop 52 t) io1"
      "ready io1" "ikern io1 = ikern io" "copy_of f t io1"
    using fread_reading [OF assms(2,3), of 52 K] assms(4) by auto
  have d1: "did disk shown [] io io1" using r(3,4) by (simp add: did_def crlf_text_def)
  consider "length t < 52" | "52 \<le> length t" "take 4 t \<noteq> 0x7F # bytes ''ELF''" | "52 \<le> length t" "take 4 t = 0x7F # bytes ''ELF''"
    by linarith
  then show ?thesis
  proof cases
    case 1
    then show ?thesis
      using give_up_prints [OF assms(1) r(3,2) _ name_message_prints(1) [OF assms(5,6)], of f_stderr m] did_trans [OF d1]
      by (fastforce simp: elf_opened_def r(1) elf_report_def simp del: bytes_Cons)
  next
    case 2
    have n: "length (take 52 t) = 52" using 2(1) by simp
    have "elf_opened K p f m io = give_up K f_stdout f (bytes ''elfinfo: %s is not an ELF image'' @ [10]) [AStr (Some p)] m io1"
      unfolding elf_opened_def r(1) prod.case n magic_iff [OF 2(1)] using 2(2) by (simp del: bytes_Cons)
    moreover have "elf_report p (Some t) = (1, line (bytes ''elfinfo: '' @ p @ bytes '' is not an ELF image''))"
      using 2 by (simp add: elf_report_def del: bytes_Cons)
    ultimately show ?thesis
      using give_up_prints [OF assms(1) r(3,2) _ name_message_prints(2) [OF assms(5,6)], of f_stdout m] did_trans [OF d1]
      by (fastforce simp del: bytes_Cons)
  next
    case 3
    have n: "length (take 52 t) = 52" using 3(1) by simp
    have h: "get_ehdr (take 52 t) = get_ehdr t" using 3(1) by (simp add: get_ehdr_def le16_def le32_def)
    obtain ts where ts: "list_all2 prints_as (header_lines p (take 52 t)) ts" "concat ts = ehdr_text p (get_ehdr t)"
      using header_prints [OF assms(5,6), of "take 52 t"] unfolding h by blast
    obtain io2 where s: "say K (header_lines p (take 52 t)) m io1 = Some (m, io2)" "printed disk shown (concat ts) io1 io2"
      using say_prints [OF assms(1) ts(1) r(3)] by blast
    have r2: "ready io2" "reading f (drop 52 t) io2" "copy_of f t io2"
      using did_ready [OF printed_did [OF s(2) r(3)]] printed_reading [OF s(2)] printed_copy [OF s(2)] r(2,5) by simp_all
    obtain io3 where a: "elf_after_header K f (take 52 t) m io2 = Some (fst (rest_report t), m, io3)"
        "did disk shown (snd (rest_report t)) io2 io3"
      using after_header_prints [OF assms(1) r2 3(1)] by blast
    have "elf_opened K p f m io = Some (fst (rest_report t), m, io3)"
      unfolding elf_opened_def r(1) prod.case n magic_iff [OF 3(1)] using 3(2) s(1) a(1) by (simp del: bytes_Cons)
    then show ?thesis
      using did_trans [OF did_trans [OF d1 printed_did [OF s(2) r(3)]] a(2)] unfolding elf_report_rest [OF 3] ts(2) by simp
  qed
qed


text \<open>An image with one loaded segment.\<close>

definition tiny_elf :: "u8 list" where
  "tiny_elf = [0x7F, 69, 76, 70, 1, 1, 1, 0, 0, 0, 0, 0, 0, 0, 0, 0, 2, 0, 3, 0, 1, 0, 0, 0, 0, 0, 0x40, 0, 52, 0, 0, 0,
     0, 0, 0, 0, 0, 0, 0, 0, 52, 0, 32, 0, 1, 0, 0, 0, 0, 0, 0, 0] @
     [1, 0, 0, 0, 0, 0, 0, 0, 0, 0, 0x40, 0, 0, 0, 0x40, 0, 16, 0, 0, 0, 32, 0, 0, 0, 5, 0, 0, 0, 0, 16, 0, 0]"

lemma tiny_elf_header:
  "get_ehdr tiny_elf = \<lparr>e_class = 1, e_data = 1, e_type = 2, e_machine = 3, e_entry = 0x400000, e_phoff = 52,
     e_phentsize = 32, e_phnum = 1\<rparr>"
  by (simp add: get_ehdr_def tiny_elf_def le16_def le32_def)

lemma tiny_elf_segments:
  "get_phdrs 1 (drop 52 tiny_elf) = [\<lparr>p_type = 1, p_vaddr = 0x400000, p_filesz = 16, p_memsz = 32, p_flags = 5\<rparr>]"
  by (simp add: get_phdr_def tiny_elf_def le32_def)

lemma tiny_elf_numbers: "hex_field 0x400000 = bytes ''00400000''" "hex_field 52 = bytes ''00000034''" "hex_field 16 = bytes ''00000010''"
    "hex_field 32 = bytes ''00000020''" "num_field 0 1 = bytes ''1''" "num_field 0 32 = bytes ''32''" "flags_text 5 = bytes ''r-x''"
  by (simp_all add: hex_field_def num_field_def flags_text_def digit_set_def places.simps Let_def) (simp_all add: numeral_eq_Suc)


end
