(* ===== verification/Mv_Mvapp.thy ===== *)
theory Mv_Mvapp
  imports Mv_Console Mv_Iface
begin

text \<open>
  \<^verbatim>\<open>c/prog/mvapp\<close>: the application over the interface objects (\<open>Mv_Iface\<close>) and \<^verbatim>\<open>printf\<close>. It keeps the number of
  its runs in the Sett. The console is the list of bytes shown: \<open>app_printf\<close> adds the text of a format, \<open>app_puts\<close> a line, which is
  what the formatter writes (\<open>Mv_Format\<close>, \<open>Mv_Console\<close>). What the kernel does for \<^verbatim>\<open>SYS_LOG_WRITE\<close> and
  \<^verbatim>\<open>SYS_SETT\<close> and the function the loader puts into \<^verbatim>\<open>mvlib_add\<close> are a parameter, on strings. None is a read behind
  the end of \<^verbatim>\<open>runs_text\<close>.
\<close>

section \<open>State\<close>

text \<open>\<open>k_sett_get\<close> is given the path and the size of the buffer and answers with the code and the bytes it
  stores there.\<close>

record 'w app_calls =
  k_log :: "nat \<Rightarrow> u8 list \<Rightarrow> 'w \<Rightarrow> int \<times> 'w"
  k_sett_get :: "u8 list \<Rightarrow> nat \<Rightarrow> 'w \<Rightarrow> (int \<times> u8 list) \<times> 'w"
  k_sett_set :: "u8 list \<Rightarrow> u8 list \<Rightarrow> 'w \<Rightarrow> int \<times> 'w"
  mvlib_add :: "(u32 \<Rightarrow> u32 \<Rightarrow> u32) option"

record 'w app =
  objects :: ifaces
  shown_text :: "u8 list"
  fails :: int
  app_world :: 'w

definition app_start :: "'w \<Rightarrow> 'w app" where
  "app_start w = \<lparr>objects = ifaces_start, shown_text = [], fails = 0, app_world = w\<rparr>"

definition app_printf :: "u8 list \<Rightarrow> arg list \<Rightarrow> 'w app \<Rightarrow> 'w app option" where
  "app_printf fmt args st = map_option (\<lambda>t. st\<lparr>shown_text := shown_text st @ t\<rparr>) (format_text fmt args)"

definition app_puts :: "u8 list \<Rightarrow> 'w app \<Rightarrow> 'w app" where
  "app_puts s st = st\<lparr>shown_text := shown_text st @ s @ [10]\<rparr>"

section \<open>report.c\<close>

definition glyph_h :: "u8 list" where "glyph_h = [0xE2, 0x94, 0x80]"

definition hr :: "'w app \<Rightarrow> 'w app" where
  "hr st = app_puts ([32, 32] @ concat (replicate 20 glyph_h)) st"

definition report_banner :: "u8 list \<Rightarrow> 'w app \<Rightarrow> 'w app option" where
  "report_banner title st =
     Option.bind (app_printf [32, 0xE2, 0x94, 0x8C] [] (app_puts [] st)) (\<lambda>st.
     Option.bind (app_printf [0xE2, 0x94, 0x90, 10] [] (hr st)) (\<lambda>st.
     Option.bind (app_printf ([32, 0xE2, 0x94, 0x82, 32] @ bytes ''%s'' @ [10]) [AStr (Some title)] st) (\<lambda>st.
     Option.bind (app_printf [32, 0xE2, 0x94, 0x94] [] st) (\<lambda>st.
     app_printf [0xE2, 0x94, 0x98, 10] [] (hr st)))))"

definition report_row :: "u8 list \<Rightarrow> u8 list \<Rightarrow> 'w app \<Rightarrow> 'w app option" where
  "report_row key val st = app_printf (bytes ''   %-14s %s'' @ [10]) [AStr (Some key), AStr (Some val)] st"

definition report_footer :: "u32 \<Rightarrow> 'w app \<Rightarrow> 'w app option" where
  "report_footer nruns st =
     Option.bind (app_printf ([10] @ bytes ''   runs so far: %d'' @ [10]) [AInt nruns] st) (\<lambda>st.
     app_printf (bytes ''   r'' @ [0xC3, 0xA9] @ bytes ''sum'' @ [0xC3, 0xA9] @
       bytes '': every part of M5 this program touches works.'' @ [10]) [] st)"

section \<open>main.c\<close>

definition SETT_PATH :: "u8 list" where
  "SETT_PATH = [92] @ bytes ''Registry'' @ [92] @ bytes ''Machine'' @ [92] @ bytes ''Software'' @ [92] @ bytes ''MvApp'' @ [92] @ bytes ''Runs''"

definition app_check :: "bool \<Rightarrow> u8 list \<Rightarrow> 'w app \<Rightarrow> 'w app option" where
  "app_check cond what st =
     (if cond then Some st
      else map_option (\<lambda>st. st\<lparr>fails := fails st + 1\<rparr>) (app_printf (bytes ''MVAPP_FAIL %s'' @ [10]) [AStr (Some what)] st))"

definition call_mv_add :: "'w app_calls \<Rightarrow> u32 \<Rightarrow> u32 \<Rightarrow> u32" where
  "call_mv_add K a b = (case mvlib_add K of None \<Rightarrow> - 1 | Some fn \<Rightarrow> fn a b)"

text \<open>The calls through the vtables, on strings: no pointer is null, so only the answer of the kernel counts.\<close>

definition write_record :: "'w app_calls \<Rightarrow> nat \<Rightarrow> u8 list \<Rightarrow> 'w app \<Rightarrow> int \<times> 'w app" where
  "write_record K level txt st =
     (case k_log K level txt (app_world st) of (r, w) \<Rightarrow> (if r = 0 then MV_S_OK else MV_E_FAIL, st\<lparr>app_world := w\<rparr>))"

definition get_value :: "'w app_calls \<Rightarrow> u8 list \<Rightarrow> u8 list \<Rightarrow> 'w app \<Rightarrow> int \<times> u8 list \<times> 'w app" where
  "get_value K p b st =
     (case k_sett_get K p (length b) (app_world st) of
        ((r, bs), w) \<Rightarrow> (if r = 0 then MV_S_OK else MV_E_FAIL, bs @ drop (length bs) b, st\<lparr>app_world := w\<rparr>))"

definition set_value :: "'w app_calls \<Rightarrow> u8 list \<Rightarrow> u8 list \<Rightarrow> 'w app \<Rightarrow> int \<times> 'w app" where
  "set_value K p v st =
     (case k_sett_set K p v (app_world st) of (r, w) \<Rightarrow> (if r = 0 then MV_S_OK else MV_E_FAIL, st\<lparr>app_world := w\<rparr>))"

fun runs_loop :: "u8 list \<Rightarrow> u32 \<Rightarrow> u32 option" where
  "runs_loop [] nruns = None"
| "runs_loop (c # p) nruns = (if sc c \<ge> 48 \<and> sc c \<le> 57 then runs_loop p (nruns * 10 + word_of_int (sc c - 48)) else Some nruns)"

text \<open>Resolving the objects: the pointers \<^verbatim>\<open>chronicle\<close> and \<^verbatim>\<open>sett\<close> after it.\<close>

definition app_resolve :: "'w app_calls \<Rightarrow> 'w app \<Rightarrow> (mv_iface option \<times> mv_iface option \<times> 'w app) option" where
  "app_resolve K st =
     (let (r, base, ob) = mv_iface_get (Some (bytes ''chronicle'')) (objects st); st = st\<lparr>objects := ob\<rparr>
      in Option.bind (app_check (r = MV_S_OK) (bytes ''chronicle resolves'') st) (\<lambda>st.
         Option.bind
           (if base \<noteq> None
            then let (r, chronicle, ob) = mv_iface_query base (Some MV_IID_CHRONICLE) (objects st)
                 in Option.bind (app_check (r = MV_S_OK) (bytes ''chronicle queries by identifier'') (st\<lparr>objects := ob\<rparr>)) (\<lambda>st.
                    let (r, sett, ob) = mv_iface_query base (Some MV_IID_SETT) (objects st)
                    in map_option (\<lambda>st. (chronicle, sett, st))
                         (app_check (r = MV_E_NOINTERFACE) (bytes ''a chronicle is not a sett'') (st\<lparr>objects := ob\<rparr>)))
            else Some (None, None, st))
         (\<lambda>(chronicle, sett, st).
         let st = (if chronicle \<noteq> None then snd (write_record K 2 (bytes ''mvapp: starting'') st) else st);
             (r, base, ob) = mv_iface_get (Some (bytes ''sett'')) (objects st)
         in Option.bind (app_check (r = MV_S_OK) (bytes ''sett resolves'') (st\<lparr>objects := ob\<rparr>)) (\<lambda>st.
            let (sett, st) =
                  (if base \<noteq> None
                   then let (r, sett, ob) = mv_iface_query base (Some MV_IID_SETT) (objects st) in (sett, st\<lparr>objects := ob\<rparr>)
                   else (sett, st))
            in map_option (\<lambda>st. (chronicle, sett, st)) (app_check (sett \<noteq> None) (bytes ''sett interface'') st)))))"

definition app_count :: "'w app_calls \<Rightarrow> mv_iface option \<Rightarrow> 'w app \<Rightarrow> (u32 \<times> 'w app) option" where
  "app_count K sett st =
     (if sett \<noteq> None
      then let (r, runs_text, st) = get_value K SETT_PATH (48 # replicate 31 0) st
           in Option.bind (if r = MV_S_OK then runs_loop runs_text 0 else Some 0) (\<lambda>nruns.
              let nruns = nruns + 1
              in Option.bind (format_text (bytes ''%d'') [AInt nruns]) (\<lambda>t.
                 let (r, st) = set_value K SETT_PATH (take 95 t) st
                 in map_option (\<lambda>st. (nruns, st)) (app_check (r = MV_S_OK) (bytes ''the run counter is stored'') st)))
      else Some (0, st))"

definition app_report :: "mv_iface option \<Rightarrow> mv_iface option \<Rightarrow> u32 \<Rightarrow> u32 \<Rightarrow> 'w app \<Rightarrow> 'w app option" where
  "app_report chronicle sett nruns added st =
     Option.bind (app_check (added = 7) (bytes ''the shared library answers'') st) (\<lambda>st.
     Option.bind (report_banner (bytes ''Mellivora OS '' @ [0xE2, 0x80, 0x94] @ bytes '' M5 exit criterion'') st) (\<lambda>st.
     Option.bind (report_row (bytes ''interfaces'') (bytes (if chronicle \<noteq> None \<and> sett \<noteq> None then ''chronicle + sett'' else ''missing'')) st) (\<lambda>st.
     Option.bind (format_text (bytes ''mvlib.hbl: mv_add(3,4) = %d'') [AInt added]) (\<lambda>line.
     Option.bind (report_row (bytes ''shared library'') (take 95 line) st) (\<lambda>st.
     Option.bind (report_row (bytes ''configuration'') (bytes (if sint nruns > 0 then ''Sett: run counter kept'' else ''Sett: unavailable'')) st) (\<lambda>st.
     Option.bind (report_row (bytes ''chronicle'') (bytes ''records written to the ring'') st) (\<lambda>st.
     Option.bind (report_row (bytes ''Unicode'')
        ([0xC3, 0xA9, 0xC3, 0xA8, 0xC3, 0xAA, 32] @ glyph_h @ glyph_h @ glyph_h @ [32, 0xE2, 0x94, 0x82, 32, 0xE2, 0x94, 0x8C, 0xE2, 0x94, 0x90, 32,
         0xE2, 0x96, 0x88]) st) (\<lambda>st.
     report_footer nruns st))))))))"

definition mvapp_main :: "'w app_calls \<Rightarrow> 'w app \<Rightarrow> (int \<times> 'w app) option" where
  "mvapp_main K st =
     Option.bind (app_resolve K st) (\<lambda>(chronicle, sett, st).
     Option.bind (app_count K sett st) (\<lambda>(nruns, st).
     let added = call_mv_add K 3 4
     in Option.bind (app_report chronicle sett nruns added st) (\<lambda>st.
        Option.bind
          (if chronicle \<noteq> None
           then map_option (\<lambda>line. let st = snd (write_record K 2 (take 95 line) st)
                  in st\<lparr>objects := snd (chronicle_release (objects st))\<rparr>) (format_text (bytes ''mvapp: finished, runs=%d'') [AInt nruns])
           else Some st)
        (\<lambda>st.
        let st = (if sett \<noteq> None then st\<lparr>objects := snd (sett_release (objects st))\<rparr> else st)
        in if fails st \<noteq> 0 then Some (1, st)
           else map_option (Pair 0) (app_printf ([10] @ bytes ''MVAPP_OK runs=%d sum=%d'' @ [10]) [AInt nruns, AInt added] st)))))"


section \<open>What the formats of the program write\<close>

lemma sint_of_nat: "n < 2 ^ 31 \<Longrightarrow> sint (of_nat n :: u32) = int n"
  by (subst signed_of_nat) (simp add: signed_take_bit_int_eq_self)

lemma format_d:
  "n < 2 ^ 31 \<Longrightarrow>
     format_text (37 # 100 # fmt) (AInt (of_nat n) # args) = map_option ((@) (places False 10 n)) (format_text fmt args)"
  by (simp add: parse_simps sint_of_nat)

lemma format_14s:
  "format_text (37 # 45 # 49 # 52 # 115 # fmt) (AStr (Some s) # args) =
     map_option ((@) (s @ replicate (14 - length s) 32)) (format_text fmt args)"
  by (simp add: parse_simps)

lemma digit_set_digit: "d < 10 \<Longrightarrow> digit_set False ! d = of_nat (48 + d)"
proof -
  have "list_all (\<lambda>d. digit_set False ! d = of_nat (48 + d)) [0..<10]" by code_simp
  then show "d < 10 \<Longrightarrow> digit_set False ! d = of_nat (48 + d)" by (simp only: list_all_iff set_upt) auto
qed

lemma places_10:
  "places False 10 n = (if n < 10 then [] else places False 10 (n div 10)) @ [of_nat (48 + n mod 10)]"
  by (subst places.simps) (simp add: digit_set_digit del: of_nat_add)

lemma sc_digit: "d < 10 \<Longrightarrow> sc (of_nat (48 + d)) = 48 + int d"
  unfolding sc_def by (subst signed_of_nat) (simp add: signed_take_bit_int_eq_self)

text \<open>The loop over the digits undoes the formatter.\<close>

lemma runs_loop_places: "runs_loop (places False 10 n @ p) v = runs_loop p (v * 10 ^ length (places False 10 n) + of_nat n)"
proof (induction n arbitrary: p v rule: less_induct)
  case (less n)
  have d: "sc (of_nat (48 + n mod 10)) = 48 + int (n mod 10)" by (rule sc_digit) simp
  show ?case
  proof (cases "n < 10")
    case True
    then show ?thesis using d by (simp add: places_10 [of n] del: of_nat_add)
  next
    case False
    define k where "k = length (places False 10 (n div 10))"
    have "of_nat (n div 10) * 10 + of_nat (n mod 10) = (of_nat n :: u32)"
      by (metis div_mult_mod_eq of_nat_add of_nat_mult of_nat_numeral)
    then have v: "(v * 10 ^ k + of_nat (n div 10)) * 10 + of_nat (n mod 10) = v * 10 ^ Suc k + of_nat n"
      by (simp add: algebra_simps)
    have "n mod 10 \<le> 9" using mod_less_divisor [of 10 n] by linarith
    then have step: "runs_loop (of_nat (48 + n mod 10) # p) x = runs_loop p (x * 10 + of_nat (n mod 10))" for x
      using d by (simp del: of_nat_add)
    have pl: "places False 10 n = places False 10 (n div 10) @ [of_nat (48 + n mod 10)]"
      using False by (subst places_10) simp
    have "runs_loop (places False 10 n @ p) v = runs_loop (of_nat (48 + n mod 10) # p) (v * 10 ^ k + of_nat (n div 10))"
      using less [of "n div 10" "of_nat (48 + n mod 10) # p" v] False
      by (simp add: pl k_def)
    also have "\<dots> = runs_loop p (v * 10 ^ Suc k + of_nat n)" by (simp only: step v)
    finally show ?thesis by (simp add: pl k_def)
  qed
qed

lemma runs_loop_text: "runs_loop (places False 10 n @ 0 # p) 0 = Some (of_nat n)"
  by (simp add: runs_loop_places sc_def)

lemma app_printf_text: "format_text fmt args = Some t \<Longrightarrow> app_printf fmt args st = Some (st\<lparr>shown_text := shown_text st @ t\<rparr>)"
  by (simp add: app_printf_def)

section \<open>The report\<close>

definition row_text :: "u8 list \<Rightarrow> u8 list \<Rightarrow> u8 list" where
  "row_text key val = [32, 32, 32] @ key @ replicate (14 - length key) 32 @ [32] @ val @ [10]"

lemma report_row_text: "report_row key val st = Some (st\<lparr>shown_text := shown_text st @ row_text key val\<rparr>)"
  unfolding report_row_def
  by (rule app_printf_text) (use format_14s [of "32 # 37 # 115 # [10]" key "[AStr (Some val)]"] format_s [of "[10]" val "[]"] in \<open>simp add: row_text_def\<close>)

text \<open>The banner as it appears: the corners on the right are on lines of their own, behind the line end of \<^verbatim>\<open>puts\<close>.\<close>

definition banner_text :: "u8 list \<Rightarrow> u8 list" where
  "banner_text title =
     [10, 32, 0xE2, 0x94, 0x8C, 32, 32] @ concat (replicate 20 glyph_h) @ [10, 0xE2, 0x94, 0x90, 10] @
     [32, 0xE2, 0x94, 0x82, 32] @ title @ [10] @
     [32, 0xE2, 0x94, 0x94, 32, 32] @ concat (replicate 20 glyph_h) @ [10, 0xE2, 0x94, 0x98, 10]"

lemma report_banner_text: "report_banner title st = Some (st\<lparr>shown_text := shown_text st @ banner_text title\<rparr>)"
  using format_s [of "[10]" title "[]"] by (simp add: report_banner_def app_printf_def app_puts_def hr_def banner_text_def)

definition footer_text :: "nat \<Rightarrow> u8 list" where
  "footer_text n = [10] @ bytes ''   runs so far: '' @ places False 10 n @ [10] @ bytes ''   r'' @ [0xC3, 0xA9] @ bytes ''sum'' @ [0xC3, 0xA9] @
     bytes '': every part of M5 this program touches works.'' @ [10]"

lemma report_footer_text:
  "n < 2 ^ 31 \<Longrightarrow> report_footer (of_nat n) st = Some (st\<lparr>shown_text := shown_text st @ footer_text n\<rparr>)"
  using format_d [of n "[10]" "[]"] by (simp add: report_footer_def app_printf_def footer_text_def)


section \<open>A run of the program\<close>

text \<open>A kernel that keeps the values of the Sett: a value is stored with its terminator when it fits the buffer,
  setting one replaces it, and the ring does not touch them.\<close>

definition sett_keeps :: "'w app_calls \<Rightarrow> ('w \<Rightarrow> u8 list \<rightharpoonup> u8 list) \<Rightarrow> bool" where
  "sett_keeps K store \<longleftrightarrow>
     (\<forall>p sz w. k_sett_get K p sz w =
        (case store w p of None \<Rightarrow> ((- 1, []), w) | Some v \<Rightarrow> if length v < sz then ((0, v @ [0]), w) else ((- 1, []), w))) \<and>
     (\<forall>p v w. fst (k_sett_set K p v w) = 0 \<and> store (snd (k_sett_set K p v w)) = (store w)(p \<mapsto> v)) \<and>
     (\<forall>level t w. store (snd (k_log K level t w)) = store w)"

lemma sett_keeps_log: "sett_keeps K store \<Longrightarrow> k_log K level t w = (r, w') \<Longrightarrow> store w' = store w"
  unfolding sett_keeps_def by (erule conjE)+ (drule spec [of _ level], drule spec [of _ t], drule spec [of _ w], simp)

definition runs_stored :: "(u8 list \<rightharpoonup> u8 list) \<Rightarrow> nat \<Rightarrow> bool" where
  "runs_stored m n \<longleftrightarrow> m SETT_PATH = Some (places False 10 n) \<or> n = 0 \<and> m SETT_PATH = None"

definition objects_open :: ifaces where
  "objects_open = \<lparr>chronicle_in_use = True, sett_in_use = True, chronicle_refs = 2, sett_refs = 2, chronicle_vt = True, sett_vt = True\<rparr>"

lemma get_chronicle: "mv_iface_get (Some (bytes ''chronicle'')) ob = (MV_S_OK, Some Chronicle, snd (chronicle_create ob))"
  by (simp add: mv_iface_get_def factories_def chronicle_create_def)

lemma get_sett: "mv_iface_get (Some (bytes ''sett'')) ob = (MV_S_OK, Some Sett, snd (sett_create ob))"
  by (simp add: mv_iface_get_def factories_def sett_create_def)

definition chronicle_open :: ifaces where
  "chronicle_open = ifaces_start\<lparr>chronicle_in_use := True, chronicle_refs := 2, chronicle_vt := True\<rparr>"

lemma queries_open:
  "mv_iface_query (Some Chronicle) (Some MV_IID_CHRONICLE) (snd (chronicle_create ifaces_start)) = (MV_S_OK, Some Chronicle, chronicle_open)"
  "mv_iface_query (Some Chronicle) (Some MV_IID_SETT) chronicle_open = (MV_E_NOINTERFACE, None, chronicle_open)"
  "mv_iface_query (Some Sett) (Some MV_IID_SETT) (snd (sett_create chronicle_open)) = (MV_S_OK, Some Sett, objects_open)"
  by (simp_all add: mv_iface_query_def has_vtbl_def iface_ops mv_guid_equal_def MV_IID_CHRONICLE_def MV_IID_SETT_def
      chronicle_open_def objects_open_def ifaces_start_def)

lemma app_check_True: "app_check True what st = Some st"
  by (simp add: app_check_def)

lemma app_resolve_opens:
  assumes "sett_keeps K store" "objects st = ifaces_start"
  shows "\<exists>w. app_resolve K st = Some (Some Chronicle, Some Sett, st\<lparr>objects := objects_open, app_world := w\<rparr>) \<and>
    store w = store (app_world st)"
proof -
  obtain r w where l: "k_log K 2 (bytes ''mvapp: starting'') (app_world st) = (r, w)" by fastforce
  then have "store w = store (app_world st)" by (rule sett_keeps_log [OF assms(1)])
  moreover have "app_resolve K st = Some (Some Chronicle, Some Sett, st\<lparr>objects := objects_open, app_world := w\<rparr>)"
  proof -
    obtain t f v where st: "st = \<lparr>objects = ifaces_start, shown_text = t, fails = f, app_world = v\<rparr>"
      using assms(2) by (cases st) simp
    have wr: "snd (write_record K 2 (bytes ''mvapp: starting'') (st\<lparr>objects := chronicle_open\<rparr>)) =
        st\<lparr>objects := chronicle_open, app_world := w\<rparr>"
      by (simp add: write_record_def l del: bytes_Cons)
    show ?thesis
      using wr
      by (simp only: st app_resolve_def get_chronicle get_sett queries_open Let_def prod.case app_check_True Option.bind.simps option.map
          app.select_convs app.update_convs option.distinct simp_thms if_True)
  qed
  ultimately show ?thesis by blast
qed

lemma app_count_counts:
  assumes "sett_keeps K store" "runs_stored (store (app_world st)) n" "n < 2 ^ 31 - 1"
  shows "\<exists>w. app_count K (Some Sett) st = Some (of_nat (n + 1), st\<lparr>app_world := w\<rparr>) \<and> runs_stored (store w) (n + 1)"
proof -
  define digits where "digits = places False 10 (n + 1)"
  have len: "length (places False 10 k) \<le> 10" if "k < 2 ^ 31" for k using places_length [of 10 k 9] that by simp
  have f: "format_text (bytes ''%d'') [AInt (of_nat (n + 1))] = Some digits"
    using format_d [of "n + 1" "[]" "[]"] assms(3) by (simp add: digits_def)
  have t: "take 95 digits = digits" using len [of "n + 1"] assms(3) by (simp add: digits_def)
  obtain w where w: "k_sett_set K SETT_PATH digits (app_world st) = (0, w)" "store w = (store (app_world st))(SETT_PATH \<mapsto> digits)"
    using assms(1) by (metis sett_keeps_def prod.collapse)
  have g: "\<exists>r b. get_value K SETT_PATH (48 # replicate 31 0) st = (r, b, st) \<and> (if r = MV_S_OK then runs_loop b 0 else Some 0) = Some (of_nat n)"
  proof (cases "store (app_world st) SETT_PATH")
    case None
    then show ?thesis using assms(1,2) by (simp add: get_value_def sett_keeps_def runs_stored_def iface_codes)
  next
    case (Some v)
    then have v: "v = places False 10 n" using assms(2) by (simp add: runs_stored_def)
    moreover have "length v < 32" using len [of n] assms(3) v by simp
    ultimately show ?thesis
      using assms(1) Some by (simp add: get_value_def sett_keeps_def iface_codes runs_loop_text)
  qed
  then obtain r b where "get_value K SETT_PATH (48 # replicate 31 0) st = (r, b, st)"
    "(if r = MV_S_OK then runs_loop b 0 else Some 0) = Some (of_nat n)" by blast
  then have "app_count K (Some Sett) st = Some (of_nat (n + 1), st\<lparr>app_world := w\<rparr>)"
    using w(1) f t by (simp add: app_count_def set_value_def app_check_def add.commute del: bytes_Cons format_text.simps)
  moreover have "runs_stored (store w) (n + 1)" using w(2) by (simp add: runs_stored_def digits_def)
  ultimately show ?thesis by blast
qed

definition app_text :: "nat \<Rightarrow> u8 list \<Rightarrow> u8 list" where
  "app_text n answer =
     banner_text (bytes ''Mellivora OS '' @ [0xE2, 0x80, 0x94] @ bytes '' M5 exit criterion'') @
     row_text (bytes ''interfaces'') (bytes ''chronicle + sett'') @
     row_text (bytes ''shared library'') (bytes ''mvlib.hbl: mv_add(3,4) = '' @ answer) @
     row_text (bytes ''configuration'') (bytes ''Sett: run counter kept'') @
     row_text (bytes ''chronicle'') (bytes ''records written to the ring'') @
     row_text (bytes ''Unicode'')
       ([0xC3, 0xA9, 0xC3, 0xA8, 0xC3, 0xAA, 32] @ glyph_h @ glyph_h @ glyph_h @ [32, 0xE2, 0x94, 0x82, 32, 0xE2, 0x94, 0x8C, 0xE2, 0x94, 0x90, 32,
        0xE2, 0x96, 0x88]) @
     footer_text n"

lemma app_report_text:
  assumes "0 < n" "n < 2 ^ 31"
  shows "app_report (Some Chronicle) (Some Sett) (of_nat n) 7 st = Some (st\<lparr>shown_text := shown_text st @ app_text n (bytes ''7'')\<rparr>)"
proof -
  have "format_text (bytes ''mvlib.hbl: mv_add(3,4) = %d'') [AInt 7] = Some (bytes ''mvlib.hbl: mv_add(3,4) = '' @ bytes ''7'')" by code_simp
  then show ?thesis
    using assms sint_of_nat [OF assms(2)]
    by (simp add: app_report_def app_check_True report_banner_text report_row_text report_footer_text app_text_def take_all
        del: bytes_Cons format_text.simps)
qed

lemma app_report_complains:
  assumes "0 < n" "n < 2 ^ 31"
  shows "app_report (Some Chronicle) (Some Sett) (of_nat n) (- 1) st =
    Some (st\<lparr>fails := fails st + 1,
      shown_text := shown_text st @ bytes ''MVAPP_FAIL the shared library answers'' @ [10] @ app_text n (bytes ''-1'')\<rparr>)"
proof -
  have "format_text (bytes ''mvlib.hbl: mv_add(3,4) = %d'') [AInt (- 1)] = Some (bytes ''mvlib.hbl: mv_add(3,4) = '' @ bytes ''-1'')" by code_simp
  moreover have "app_printf (bytes ''MVAPP_FAIL %s'' @ [10]) [AStr (Some (bytes ''the shared library answers''))] st =
      Some (st\<lparr>shown_text := shown_text st @ bytes ''MVAPP_FAIL the shared library answers'' @ [10]\<rparr>)"
    by (rule app_printf_text) code_simp
  moreover have "(- 1 :: u32) \<noteq> 7" by simp
  ultimately show ?thesis
    using assms sint_of_nat [OF assms(2)]
    by (simp add: app_report_def app_check_def report_banner_text report_row_text report_footer_text app_text_def take_all
        del: bytes_Cons format_text.simps)
qed

text \<open>What every run has in common: the part before the report, and the part behind it.\<close>

definition app_counted :: "'w \<Rightarrow> 'w \<Rightarrow> 'w app" where
  "app_counted w w' = (app_start w)\<lparr>objects := objects_open, app_world := w'\<rparr>"

lemma app_prologue:
  assumes "sett_keeps K store" "runs_stored (store w) n" "n < 2 ^ 31 - 1"
  shows "\<exists>st w'. app_resolve K (app_start w) = Some (Some Chronicle, Some Sett, st) \<and>
    app_count K (Some Sett) st = Some (of_nat (n + 1), app_counted w w') \<and> runs_stored (store w') (n + 1)"
proof -
  obtain v where 1: "app_resolve K (app_start w) =
      Some (Some Chronicle, Some Sett, (app_start w)\<lparr>objects := objects_open, app_world := v\<rparr>)" "store v = store w"
    using app_resolve_opens [OF assms(1), of "app_start w"] by (auto simp: app_start_def)
  then show ?thesis
    using app_count_counts [OF assms(1), of "(app_start w)\<lparr>objects := objects_open, app_world := v\<rparr>" n] assms(2,3)
    by (auto simp: app_counted_def)
qed

definition objects_left :: ifaces where
  "objects_left = objects_open\<lparr>chronicle_refs := 1, sett_refs := 1\<rparr>"

lemma app_epilogue:
  assumes "sett_keeps K store" "n + 1 < 2 ^ 31" "app_resolve K st = Some (Some Chronicle, Some Sett, st')"
    and "app_count K (Some Sett) st' = Some (of_nat (n + 1), st'')"
    and "app_report (Some Chronicle) (Some Sett) (of_nat (n + 1)) (call_mv_add K 3 4) st'' = Some t" "objects t = objects_open"
  shows "\<exists>w'. store w' = store (app_world t) \<and>
    mvapp_main K st =
      (let t' = t\<lparr>app_world := w', objects := objects_left\<rparr>
       in if fails t \<noteq> 0 then Some (1, t')
          else map_option (Pair 0)
            (app_printf ([10] @ bytes ''MVAPP_OK runs=%d sum=%d'' @ [10]) [AInt (of_nat (n + 1)), AInt (call_mv_add K 3 4)] t'))"
proof -
  define line where "line = take 95 (bytes ''mvapp: finished, runs='' @ places False 10 (n + 1))"
  obtain r w' where l: "k_log K 2 line (app_world t) = (r, w')" by fastforce
  then have w: "store w' = store (app_world t)" by (rule sett_keeps_log [OF assms(1)])
  have f: "format_text (bytes ''mvapp: finished, runs=%d'') [AInt (of_nat (n + 1))] =
      Some (bytes ''mvapp: finished, runs='' @ places False 10 (n + 1))"
    using format_d [OF assms(2), of "[]" "[]"] by (simp del: of_nat_add)
  have wr: "snd (write_record K 2 line t) = t\<lparr>app_world := w'\<rparr>" by (simp add: write_record_def l)
  have rel: "snd (sett_release (snd (chronicle_release objects_open))) = objects_left"
    by (simp add: objects_left_def objects_open_def chronicle_release_def sett_release_def)
  show ?thesis
    unfolding mvapp_main_def assms(3-5) f Option.bind.simps prod.case Let_def option.map line_def [symmetric] wr
    using w rel assms(6) by (intro exI [of _ w']) (simp del: bytes_Cons of_nat_add of_nat_Suc append.simps format_text.simps)
qed


text \<open>A Sett that is a map.\<close>

definition map_calls :: "(u8 list \<rightharpoonup> u8 list) app_calls" where
  "map_calls = \<lparr>k_log = \<lambda>level t w. (0, w),
     k_sett_get = \<lambda>p sz w. (case w p of None \<Rightarrow> ((- 1, []), w) | Some v \<Rightarrow> if length v < sz then ((0, v @ [0]), w) else ((- 1, []), w)),
     k_sett_set = \<lambda>p v w. (0, w(p \<mapsto> v)), mvlib_add = Some (+)\<rparr>"

lemma map_calls_keeps: "sett_keeps map_calls (\<lambda>w. w)"
  by (simp add: sett_keeps_def map_calls_def)


text \<open>Without the library the run is counted all the same, the failure is the first thing shown, the report
  follows with its last line that everything works, and the program returns 1 without MVAPP_OK.\<close>

theorem mvapp_without_library:
  assumes "sett_keeps K store" "runs_stored (store w) n" "n < 2 ^ 31 - 1" "mvlib_add K = None"
  shows "\<exists>st. mvapp_main K (app_start w) = Some (1, st) \<and> runs_stored (store (app_world st)) (n + 1) \<and>
    shown_text st = bytes ''MVAPP_FAIL the shared library answers'' @ [10] @ app_text (n + 1) (bytes ''-1'')"
proof -
  have n: "0 < n + 1" "n + 1 < 2 ^ 31" using assms(3) by simp_all
  have s: "call_mv_add K 3 4 = - 1" using assms(4) by (simp add: call_mv_add_def)
  obtain st v where 1: "app_resolve K (app_start w) = Some (Some Chronicle, Some Sett, st)"
      "app_count K (Some Sett) st = Some (of_nat (n + 1), app_counted w v)" "runs_stored (store v) (n + 1)"
    using app_prologue [OF assms(1-3)] by blast
  show ?thesis
    using app_epilogue [OF assms(1) n(2) 1(1,2), unfolded s, OF app_report_complains [OF n]] 1(3)
    by (auto simp: app_counted_def app_start_def Let_def simp del: bytes_Cons of_nat_add of_nat_Suc append.simps format_text.simps)
qed

end
