(* ===== verification/Mv_Sha256.thy ===== *)
theory Mv_Sha256
  imports Complex_Main Mv_Posix
begin

text \<open>
  \<open>sha256_hex\<close> of \<^verbatim>\<open>tools/hbpkg.c\<close>, and the proof that it computes the function of the standard (FIPS
  180-4). The reference below is written from the standard: rotations are the library's, the round
  constants are the fractional parts of roots of primes, the padding is a concatenation and the
  message schedule a recursive function. Of the code only the call of \<^verbatim>\<open>calloc\<close> is a parameter: \<open>room\<close>
  tells whether it gave the buffer.
\<close>

unbundle bit_operations_syntax

section \<open>The code\<close>

definition sha_K :: "u32 list" where
  "sha_K =
    concat [
     [0x428a2f98, 0x71374491, 0xb5c0fbcf, 0xe9b5dba5],
     [0x3956c25b, 0x59f111f1, 0x923f82a4, 0xab1c5ed5],
     [0xd807aa98, 0x12835b01, 0x243185be, 0x550c7dc3],
     [0x72be5d74, 0x80deb1fe, 0x9bdc06a7, 0xc19bf174],
     [0xe49b69c1, 0xefbe4786, 0x0fc19dc6, 0x240ca1cc],
     [0x2de92c6f, 0x4a7484aa, 0x5cb0a9dc, 0x76f988da],
     [0x983e5152, 0xa831c66d, 0xb00327c8, 0xbf597fc7],
     [0xc6e00bf3, 0xd5a79147, 0x06ca6351, 0x14292967],
     [0x27b70a85, 0x2e1b2138, 0x4d2c6dfc, 0x53380d13],
     [0x650a7354, 0x766a0abb, 0x81c2c92e, 0x92722c85],
     [0xa2bfe8a1, 0xa81a664b, 0xc24b8b70, 0xc76c51a3],
     [0xd192e819, 0xd6990624, 0xf40e3585, 0x106aa070],
     [0x19a4c116, 0x1e376c08, 0x2748774c, 0x34b0bcb5],
     [0x391c0cb3, 0x4ed8aa4a, 0x5b9cca4f, 0x682e6ff3],
     [0x748f82ee, 0x78a5636f, 0x84c87814, 0x8cc70208],
     [0x90befffa, 0xa4506ceb, 0xbef9a3f7, 0xc67178f2]]"

definition sha_H :: "u32 list" where
  "sha_H =
    [0x6a09e667, 0xbb67ae85, 0x3c6ef372, 0xa54ff53a,
     0x510e527f, 0x9b05688c, 0x1f83d9ab, 0x5be0cd19]"

text \<open>The loop that rounds the length up.\<close>

function pad_total :: "nat \<Rightarrow> nat" where
  "pad_total tot = (if tot mod 64 \<noteq> 56 then pad_total (tot + 1) else tot)"
  by auto
termination
proof (relation "measure (\<lambda>tot. (120 - tot mod 64) mod 64)")
  fix tot :: nat
  assume a: "tot mod 64 \<noteq> 56"
  have "(tot + 1) mod 64 = (if tot mod 64 = 63 then 0 else tot mod 64 + 1)"
    using mod_Suc [of tot 64] by auto
  moreover have "(120 - (r + 1)) mod 64 < (120 - r) mod 64" if "r < 63" "r \<noteq> 56" for r :: nat
    using that by (cases "r < 56") (auto simp: mod_if)
  moreover have "tot mod 64 < 64" by simp
  ultimately show "(tot + 1, tot) \<in> measure (\<lambda>tot. (120 - tot mod 64) mod 64)"
    using a by (auto simp: less_Suc_eq)
qed simp

declare pad_total.simps [simp del]

definition store_length :: "nat \<Rightarrow> u64 \<Rightarrow> u8 list \<Rightarrow> u8 list" where
  "store_length tot bit_len msg =
     foldl (\<lambda>msg i. msg[tot - 1 - i := ucast (drop_bit (i * 8) bit_len)]) msg [0..<8]"

definition padded :: "u8 list \<Rightarrow> u8 list" where
  "padded data =
     (let len = length data;
          tot = pad_total (len + 1) + 8;
          msg = data @ replicate (tot - len) 0;
          msg = msg[len := 0x80];
          bit_len = (of_nat len :: u64) * 8
      in store_length tot bit_len msg)"

definition block_word :: "u8 list \<Rightarrow> nat \<Rightarrow> nat \<Rightarrow> u32" where
  "block_word msg block i =
     push_bit 24 (ucast (msg ! (block + i * 4))) OR push_bit 16 (ucast (msg ! (block + i * 4 + 1))) OR
     push_bit 8 (ucast (msg ! (block + i * 4 + 2))) OR ucast (msg ! (block + i * 4 + 3))"

text \<open>The array \<open>w\<close> while it is filled: one more word from those before it.\<close>

definition sched_word :: "u32 list \<Rightarrow> nat \<Rightarrow> u32 list" where
  "sched_word w i =
     (let x = w ! (i - 15); y = w ! (i - 2);
          s0 = (drop_bit 7 x OR push_bit 25 x) XOR (drop_bit 18 x OR push_bit 14 x) XOR drop_bit 3 x;
          s1 = (drop_bit 17 y OR push_bit 15 y) XOR (drop_bit 19 y OR push_bit 13 y) XOR drop_bit 10 y
      in w @ [w ! (i - 16) + s0 + w ! (i - 7) + s1])"

definition schedule :: "u8 list \<Rightarrow> nat \<Rightarrow> u32 list" where
  "schedule msg block = foldl sched_word (map (block_word msg block) [0..<16]) [16..<64]"

type_synonym sha_state = "u32 \<times> u32 \<times> u32 \<times> u32 \<times> u32 \<times> u32 \<times> u32 \<times> u32"

definition sha_round :: "u32 list \<Rightarrow> sha_state \<Rightarrow> nat \<Rightarrow> sha_state" where
  "sha_round w st i =
     (case st of (a, b, c, d, e, f, g, hh) \<Rightarrow>
        let S1 = (drop_bit 6 e OR push_bit 26 e) XOR (drop_bit 11 e OR push_bit 21 e) XOR (drop_bit 25 e OR push_bit 7 e);
            chs = (e AND f) XOR (NOT e AND g);
            temp1 = hh + S1 + chs + sha_K ! i + w ! i;
            S0 = (drop_bit 2 a OR push_bit 30 a) XOR (drop_bit 13 a OR push_bit 19 a) XOR (drop_bit 22 a OR push_bit 10 a);
            maj = (a AND b) XOR (a AND c) XOR (b AND c);
            temp2 = S0 + maj
        in (temp1 + temp2, a, b, c, d + temp1, e, f, g))"

definition sha_block :: "u8 list \<Rightarrow> u32 list \<Rightarrow> nat \<Rightarrow> u32 list" where
  "sha_block msg h block =
     (case foldl (sha_round (schedule msg block)) (h ! 0, h ! 1, h ! 2, h ! 3, h ! 4, h ! 5, h ! 6, h ! 7) [0..<64] of
        (a, b, c, d, e, f, g, hh) \<Rightarrow>
          [h ! 0 + a, h ! 1 + b, h ! 2 + c, h ! 3 + d, h ! 4 + e, h ! 5 + f, h ! 6 + g, h ! 7 + hh])"

definition hex_digit :: "u32 \<Rightarrow> u8" where
  "hex_digit d = (if d < 10 then 48 + ucast d else 87 + ucast d)"

text \<open>\<^verbatim>\<open>%08x\<close>: eight digits, the highest first.\<close>

definition hex8 :: "u32 \<Rightarrow> u8 list" where
  "hex8 x = map (\<lambda>i. hex_digit (drop_bit (4 * (7 - i)) x AND 0xF)) [0..<8]"

definition sha256_hex :: "bool \<Rightarrow> u8 list \<Rightarrow> u8 list" where
  "sha256_hex room data =
     (if \<not> room then replicate 64 48
      else let msg = padded data;
               h = foldl (\<lambda>h k. sha_block msg h (k * 64)) sha_H [0..<length msg div 64]
           in concat (map hex8 h))"

section \<open>The standard\<close>

definition fips_Ch :: "u32 \<Rightarrow> u32 \<Rightarrow> u32 \<Rightarrow> u32" where
  "fips_Ch x y z = (x AND y) XOR (NOT x AND z)"
definition fips_Maj :: "u32 \<Rightarrow> u32 \<Rightarrow> u32 \<Rightarrow> u32" where
  "fips_Maj x y z = (x AND y) XOR (x AND z) XOR (y AND z)"
definition Sigma0 :: "u32 \<Rightarrow> u32" where "Sigma0 x = word_rotr 2 x XOR word_rotr 13 x XOR word_rotr 22 x"
definition Sigma1 :: "u32 \<Rightarrow> u32" where "Sigma1 x = word_rotr 6 x XOR word_rotr 11 x XOR word_rotr 25 x"
definition sigma0 :: "u32 \<Rightarrow> u32" where "sigma0 x = word_rotr 7 x XOR word_rotr 18 x XOR drop_bit 3 x"
definition sigma1 :: "u32 \<Rightarrow> u32" where "sigma1 x = word_rotr 17 x XOR word_rotr 19 x XOR drop_bit 10 x"

definition is_prime :: "int \<Rightarrow> bool" where
  "is_prime p \<longleftrightarrow> 1 < p \<and> (\<forall>d \<in> set [2..p - 1]. \<not> d dvd p)"

definition first_primes :: "int list" where
  "first_primes = filter is_prime [2..311]"

text \<open>The first 32 bits of the fractional parts of the cube roots of the first 64 primes, and of the
  square roots of the first eight: \<open>word_of_int\<close> drops the integer part.\<close>

definition fips_K :: "nat \<Rightarrow> u32" where
  "fips_K t = word_of_int \<lfloor>root 3 (of_int (first_primes ! t)) * 2 ^ 32\<rfloor>"

definition fips_H :: "u32 list" where
  "fips_H = map (\<lambda>p. word_of_int \<lfloor>sqrt (of_int p) * 2 ^ 32\<rfloor>) (take 8 first_primes)"

text \<open>The message, a one bit, the fewest zero bits that leave room for the length, and the length in 64
  bits, big-endian.\<close>

definition big_endian64 :: "u64 \<Rightarrow> u8 list" where
  "big_endian64 x = map (\<lambda>i. ucast (drop_bit (8 * (7 - i)) x)) [0..<8]"

definition fips_pad :: "u8 list \<Rightarrow> u8 list" where
  "fips_pad data = data @ [0x80] @ replicate ((119 - length data mod 64) mod 64) 0 @
     big_endian64 (of_nat (8 * length data))"

fun chunks :: "u8 list \<Rightarrow> u8 list list" where
  "chunks xs = (if xs = [] then [] else take 64 xs # chunks (drop 64 xs))"

declare chunks.simps [simp del]

definition big_endian32 :: "u8 list \<Rightarrow> u32" where
  "big_endian32 bs = foldl (\<lambda>x b. push_bit 8 x OR ucast b) 0 bs"

definition fips_M :: "u8 list \<Rightarrow> nat \<Rightarrow> u32" where
  "fips_M B t = big_endian32 (take 4 (drop (4 * t) B))"

fun fips_W :: "u8 list \<Rightarrow> nat \<Rightarrow> u32" where
  "fips_W B t =
     (if t < 16 then fips_M B t
      else sigma1 (fips_W B (t - 2)) + fips_W B (t - 7) + sigma0 (fips_W B (t - 15)) + fips_W B (t - 16))"

declare fips_W.simps [simp del]

definition fips_round :: "u8 list \<Rightarrow> sha_state \<Rightarrow> nat \<Rightarrow> sha_state" where
  "fips_round B st t =
     (case st of (a, b, c, d, e, f, g, h) \<Rightarrow>
        let T1 = h + Sigma1 e + fips_Ch e f g + fips_K t + fips_W B t; T2 = Sigma0 a + fips_Maj a b c
        in (T1 + T2, a, b, c, d + T1, e, f, g))"

definition fips_block :: "u32 list \<Rightarrow> u8 list \<Rightarrow> u32 list" where
  "fips_block H B =
     (case foldl (fips_round B) (H ! 0, H ! 1, H ! 2, H ! 3, H ! 4, H ! 5, H ! 6, H ! 7) [0..<64] of
        (a, b, c, d, e, f, g, h) \<Rightarrow> map2 (+) [a, b, c, d, e, f, g, h] H)"

definition fips_sha256 :: "u8 list \<Rightarrow> u32 list" where
  "fips_sha256 data = foldl fips_block fips_H (chunks (fips_pad data))"

section \<open>The constants\<close>

lemma root_bits:
  assumes "n ^ k \<le> p * 2 ^ (32 * k)" "p * 2 ^ (32 * k) < (n + 1) ^ k" "0 \<le> n" "0 < k"
  shows "\<lfloor>root k (of_int p) * 2 ^ 32\<rfloor> = n"
proof -
  have r: "root k (of_int p) * 2 ^ 32 = root k (of_int (p * 2 ^ (32 * k)))"
  proof -
    have "(2 :: real) ^ (32 * k) = (2 ^ 32) ^ k" by (simp add: power_mult)
    then have "root k (2 ^ (32 * k)) = (2 :: real) ^ 32" using assms(4) by (simp add: real_root_power_cancel)
    then show ?thesis by (simp add: real_root_mult)
  qed
  have "real_of_int n = root k (of_int n ^ k)" using assms(3,4) by (simp add: real_root_power_cancel)
  also have "\<dots> \<le> root k (of_int (p * 2 ^ (32 * k)))"
    using assms(1,4) by (simp only: real_root_le_iff of_int_power [symmetric] of_int_le_iff)
  finally have lo: "of_int n \<le> root k (of_int (p * 2 ^ (32 * k)))" .
  have "root k (of_int (p * 2 ^ (32 * k))) < root k (of_int (n + 1) ^ k)"
    using assms(2,4) by (simp only: real_root_less_iff of_int_power [symmetric] of_int_less_iff)
  also have "\<dots> = of_int (n + 1)" using assms(3,4) by (intro real_root_power_cancel) simp_all
  finally show ?thesis using lo unfolding r by (simp add: floor_eq_iff)
qed

text \<open>A composite below 361 has a divisor below 19, so that few trial divisions find the primes.\<close>

definition passes :: "int \<Rightarrow> bool" where
  "passes p \<longleftrightarrow> list_all (\<lambda>d. p = d \<or> p mod d \<noteq> 0) [2, 3, 5, 7, 11, 13, 17]"

lemma small_divisor:
  fixes p :: int
  assumes "1 < d" "d < p" "d dvd p" "p < 361"
  shows "\<exists>e. 1 < e \<and> e < 19 \<and> e < p \<and> e dvd p"
proof (cases "d < 19")
  case False
  obtain e where e: "p = d * e" using assms(3) by blast
  have "0 < e" using e assms(1,2) by (metis less_trans zero_less_mult_pos zero_less_one)
  moreover have "e \<noteq> 1" using e assms(2) by auto
  moreover have "e < 19"
  proof (rule ccontr)
    assume "\<not> e < 19"
    then have "19 * 19 \<le> d * e" using False by (intro mult_mono) auto
    then show False using e assms(4) by simp
  qed
  moreover have "e < p" using False calculation(3) assms(2) by linarith
  ultimately show ?thesis using e by (intro exI [of _ e]) auto
qed (use assms in blast)

lemma is_prime_passes:
  assumes "1 < p" "p < 361"
  shows "is_prime p \<longleftrightarrow> passes p"
proof
  assume "is_prime p"
  then have "\<not> d dvd p" if "1 < d" "d < p" for d using that by (simp add: is_prime_def)
  then show "passes p"
    using assms(1) unfolding passes_def by (auto simp: dvd_eq_mod_eq_0 [symmetric] dest: zdvd_imp_le)
      (metis dual_order.strict_iff_order zdvd_imp_le less_trans one_less_numeral_iff semiring_norm zero_less_one)+
next
  assume pa: "passes p"
  show "is_prime p"
  proof (rule ccontr)
    assume "\<not> is_prime p"
    then obtain d where d: "2 \<le> d" "d < p" "d dvd p" using assms(1) by (auto simp: is_prime_def)
    then have "1 < d" by simp
    with d obtain e where e: "1 < e" "e < 19" "e < p" "e dvd p" using small_divisor assms(2) by blast
    have "e = 2 \<or> e = 3 \<or> e = 4 \<or> e = 5 \<or> e = 6 \<or> e = 7 \<or> e = 8 \<or> e = 9 \<or> e = 10 \<or> e = 11 \<or>
        e = 12 \<or> e = 13 \<or> e = 14 \<or> e = 15 \<or> e = 16 \<or> e = 17 \<or> e = 18" using e(1,2) by presburger
    then have "\<exists>q \<in> {2, 3, 5, 7, 11, 13, 17}. q dvd e" by auto
    then obtain q where q: "q \<in> {2, 3, 5, 7, 11, 13, 17}" "q dvd e" by blast
    have "q \<le> e" using q(2) e(1) by (intro zdvd_imp_le) auto
    moreover have "q dvd p" using q(2) e(4) by (rule dvd_trans)
    moreover from pa have "\<forall>d \<in> {2, 3, 5, 7, 11, 13, 17}. p = d \<or> p mod d \<noteq> 0" by (simp add: passes_def)
    ultimately show False using q(1) e(3) by (metis dvd_imp_mod_0 leD)
  qed
qed

lemma first_primes_passes: "first_primes = filter passes [2..311]"
  unfolding first_primes_def by (rule filter_cong) (auto simp: is_prime_passes)

definition int_root :: "nat \<Rightarrow> int \<Rightarrow> int" where
  "int_root k p = int (length (filter (\<lambda>c. c ^ k \<le> p) [1..6]))"

definition root_ok :: "nat \<Rightarrow> int \<Rightarrow> int \<Rightarrow> u32 \<Rightarrow> bool" where
  "root_ok k q p x \<longleftrightarrow>
     (let n = int_root k p * 0x100000000 + uint x in n ^ k \<le> p * q \<and> p * q < (n + 1) ^ k)"

lemma root_okD: "root_ok k (2 ^ (32 * k)) p x \<Longrightarrow> 0 < k \<Longrightarrow> word_of_int \<lfloor>root k (of_int p) * 2 ^ 32\<rfloor> = x"
proof -
  assume a: "root_ok k (2 ^ (32 * k)) p x" "0 < k"
  have "\<lfloor>root k (of_int p) * 2 ^ 32\<rfloor> = int_root k p * 0x100000000 + uint x"
    by (rule root_bits) (use a in \<open>simp_all add: root_ok_def Let_def int_root_def\<close>)
  moreover have "(word_of_int (int_root k p * 0x100000000 + uint x) :: u32) = x"
  proof -
    have z: "(0x100000000 :: u32) = 0" by simp
    have "(word_of_int (int_root k p * 0x100000000 + uint x) :: u32) = of_int (int_root k p) * 0x100000000 + x"
      by simp
    then show ?thesis unfolding z by simp
  qed
  ultimately show ?thesis by simp
qed

lemma sha_K_primes: "list_all2 (root_ok 3 0x1000000000000000000000000) first_primes sha_K"
  unfolding first_primes_passes by code_simp

lemma sha_H_primes: "list_all2 (root_ok 2 0x10000000000000000) (take 8 first_primes) sha_H"
  unfolding first_primes_passes by code_simp

lemma sha_K_fips: "t < 64 \<Longrightarrow> sha_K ! t = fips_K t"
proof -
  assume "t < 64"
  moreover have "length sha_K = 64" by (simp add: sha_K_def)
  ultimately have "root_ok 3 0x1000000000000000000000000 (first_primes ! t) (sha_K ! t)"
    using sha_K_primes list_all2_lengthD [OF sha_K_primes] by (simp add: list_all2_conv_all_nth)
  then show ?thesis using root_okD [of 3] by (simp add: fips_K_def)
qed

lemma sha_H_fips: "sha_H = fips_H"
proof -
  have "x = word_of_int \<lfloor>sqrt (of_int p) * 2 ^ 32\<rfloor>" if "root_ok 2 0x10000000000000000 p x" for p x
    using root_okD [of 2 p x] that by (simp add: sqrt_def)
  then have "list_all2 (\<lambda>p x. x = word_of_int \<lfloor>sqrt (of_int p) * 2 ^ 32\<rfloor>) (take 8 first_primes) sha_H"
    using sha_H_primes by (rule list_all2_mono [rotated])
  then show ?thesis unfolding fips_H_def by (induction rule: list_all2_induct) auto
qed

section \<open>The padding\<close>

lemma pad_total_eq: "pad_total n = n + (120 - n mod 64) mod 64"
proof (induction n rule: pad_total.induct)
  case (1 n)
  show ?case
  proof (cases "n mod 64 = 56")
    case True
    then show ?thesis by (simp add: pad_total.simps [of n])
  next
    case False
    have "(n + 1) mod 64 = (if n mod 64 = 63 then 0 else n mod 64 + 1)" using mod_Suc [of n 64] by auto
    moreover have "(120 - r) mod 64 = Suc ((120 - (r + 1)) mod 64)" if "r < 63" "r \<noteq> 56" for r :: nat
      using that by (cases "r < 56") (auto simp: mod_if)
    moreover have "n mod 64 < 64" by simp
    ultimately have "(120 - n mod 64) mod 64 = Suc ((120 - (n + 1) mod 64) mod 64)"
      using False by (auto simp: less_Suc_eq)
    then show ?thesis using 1 False by (simp add: pad_total.simps [of n])
  qed
qed

lemma pad_total_mod: "pad_total n mod 64 = 56"
proof (induction n rule: pad_total.induct)
  case (1 n)
  then show ?case by (cases "n mod 64 = 56") (simp_all add: pad_total.simps [of n])
qed

lemma pad_zeros: "pad_total (len + 1) - (len + 1) = (119 - len mod 64) mod 64"
proof -
  have "(len + 1) mod 64 = (if len mod 64 = 63 then 0 else len mod 64 + 1)" using mod_Suc [of len 64] by auto
  moreover have "len mod 64 < 64" by simp
  ultimately show ?thesis by (auto simp: pad_total_eq)
qed

lemma store_length_eq:
  assumes "length msg = tot" "tot = length pre + 8" "msg = pre @ replicate 8 0"
  shows "store_length tot x msg = pre @ big_endian64 x"
proof -
  have "store_length tot x msg = pre @ store_length 8 x (replicate 8 0)"
    unfolding store_length_def using assms by (simp add: list_update_append upt_rec numeral_eq_Suc)
  moreover have "store_length 8 x (replicate 8 0) = big_endian64 x"
    by (simp add: store_length_def big_endian64_def upt_rec numeral_eq_Suc)
  ultimately show ?thesis by simp
qed

lemma padded_fips: "padded data = fips_pad data"
proof -
  let ?n = "length data"
  let ?k = "(119 - ?n mod 64) mod 64"
  have tot: "pad_total (?n + 1) = ?n + 1 + ?k" using pad_zeros [of ?n] pad_total_eq [of "?n + 1"] by linarith
  let ?pre = "data @ 0x80 # replicate ?k 0"
  have "replicate (Suc ?k + 8) (0 :: u8) = 0 # (replicate ?k 0 @ replicate 8 0)"
    by (simp only: add_Suc replicate_Suc replicate_add)
  then have "(data @ replicate (Suc ?k + 8) 0)[?n := 0x80] = ?pre @ replicate 8 0"
    by (simp add: list_update_append)
  moreover have "pad_total (?n + 1) + 8 - ?n = Suc ?k + 8" using tot by simp
  ultimately have "padded data = store_length (?n + 1 + ?k + 8) (of_nat ?n * 8) (?pre @ replicate 8 0)"
    by (simp only: padded_def Let_def tot)
  also have "\<dots> = ?pre @ big_endian64 (of_nat ?n * 8)" by (rule store_length_eq) simp_all
  finally show ?thesis by (simp add: fips_pad_def mult.commute)
qed

lemma length_fips_pad: "64 dvd length (fips_pad data)"
proof -
  let ?n = "length data"
  have "length (fips_pad data) = pad_total (?n + 1) + 8"
    using pad_zeros [of ?n] pad_total_eq [of "?n + 1"] by (simp add: fips_pad_def big_endian64_def)
  moreover have "pad_total (?n + 1) mod 64 = 56" by (rule pad_total_mod)
  ultimately show ?thesis using mod_add_eq [of "pad_total (?n + 1)" 64 8] by (simp add: mod_eq_0_iff_dvd [symmetric])
qed

section \<open>Schedule, rounds and blocks\<close>

lemma rotr_shifts: "0 < n \<Longrightarrow> n < 32 \<Longrightarrow> drop_bit n x OR push_bit (32 - n) x = word_rotr n (x :: u32)"
proof (rule bit_word_eqI)
  fix i assume n: "0 < n" "n < 32" and i: "i < LENGTH(32)"
  show "bit (drop_bit n x OR push_bit (32 - n) x) i = bit (word_rotr n x) i"
  proof (cases "i + n < 32")
    case True
    then have "\<not> 32 - n \<le> i" by linarith
    then show ?thesis using True n i by (simp add: bit_or_iff bit_drop_bit_eq bit_push_bit_iff bit_word_rotr_iff add.commute)
  next
    case False
    then have "(i + n) mod 32 = i + n - 32" using n i by (simp add: mod_if)
    moreover have "32 - n \<le> i" using False by linarith
    moreover have "\<not> bit x (i + n)" using False bit_imp_le_length [of x "i + n"] by auto
    ultimately show ?thesis
      using False n i by (simp add: bit_or_iff bit_drop_bit_eq bit_push_bit_iff bit_word_rotr_iff add.commute)
  qed
qed

lemmas rotr_at = rotr_shifts [of 7, simplified] rotr_shifts [of 18, simplified] rotr_shifts [of 17, simplified]
  rotr_shifts [of 19, simplified] rotr_shifts [of 6, simplified] rotr_shifts [of 11, simplified]
  rotr_shifts [of 25, simplified] rotr_shifts [of 2, simplified] rotr_shifts [of 13, simplified]
  rotr_shifts [of 22, simplified]

lemma big_endian_word:
  "push_bit 24 (ucast a) OR push_bit 16 (ucast b) OR push_bit 8 (ucast c) OR (ucast (d :: u8) :: u32) =
     big_endian32 [a, b, c, d]"
  unfolding big_endian32_def by (simp add: push_bit_or or.assoc)

lemma block_word_M:
  assumes "block + 64 \<le> length msg" "i < 16"
  shows "block_word msg block i = fips_M (take 64 (drop block msg)) i"
proof -
  have "take 4 (drop (4 * i) (take 64 (drop block msg))) =
      [msg ! (block + i * 4), msg ! (block + i * 4 + 1), msg ! (block + i * 4 + 2), msg ! (block + i * 4 + 3)]"
    by (rule nth_equalityI) (use assms in \<open>auto simp: nth_Cons' numeral_eq_Suc algebra_simps less_Suc_eq\<close>)
  then show ?thesis by (simp only: fips_M_def block_word_def big_endian_word)
qed

lemma schedule_W:
  assumes "block + 64 \<le> length msg"
  shows "schedule msg block = map (fips_W (take 64 (drop block msg))) [0..<64]"
proof -
  let ?B = "take 64 (drop block msg)"
  have start: "map (block_word msg block) [0..<16] = map (fips_W ?B) [0..<16]"
    by (rule map_cong) (simp_all add: block_word_M [OF assms] fips_W.simps)
  have step: "sched_word (map (fips_W ?B) [0..<i]) i = map (fips_W ?B) [0..<Suc i]" if "16 \<le> i" for i
  proof -
    have "map (fips_W ?B) [0..<i] ! (i - j) = fips_W ?B (i - j)" if "0 < j" "j \<le> 16" for j
      using that \<open>16 \<le> i\<close> by simp
    then have "sched_word (map (fips_W ?B) [0..<i]) i = map (fips_W ?B) [0..<i] @
        [fips_W ?B (i - 16) + sigma0 (fips_W ?B (i - 15)) + fips_W ?B (i - 7) + sigma1 (fips_W ?B (i - 2))]"
      by (simp add: sched_word_def Let_def rotr_at sigma0_def sigma1_def)
    moreover have "fips_W ?B i = fips_W ?B (i - 16) + sigma0 (fips_W ?B (i - 15)) + fips_W ?B (i - 7) + sigma1 (fips_W ?B (i - 2))"
      using that by (subst fips_W.simps) (simp add: ac_simps)
    ultimately show ?thesis by simp
  qed
  have "foldl sched_word (map (fips_W ?B) [0..<16]) [16..<16 + n] = map (fips_W ?B) [0..<16 + n]" for n
  proof (induction n)
    case (Suc n)
    have "[16..<16 + Suc n] = [16..<16 + n] @ [16 + n]" by (simp only: add_Suc_right upt_Suc) simp
    then show ?case using Suc step [of "16 + n"] by (simp only: foldl_append foldl_Cons foldl_Nil add_Suc_right)
  qed simp
  from this [of 48] show ?thesis by (simp add: schedule_def start)
qed

lemma sha_round_fips:
  assumes "block + 64 \<le> length msg" "i < 64"
  shows "sha_round (schedule msg block) st i = fips_round (take 64 (drop block msg)) st i"
  using assms(2) sha_K_fips [OF assms(2)]
  by (cases st) (simp add: sha_round_def fips_round_def schedule_W [OF assms(1)] Let_def rotr_at
      Sigma0_def Sigma1_def fips_Ch_def fips_Maj_def)

lemma foldl_cong_set: "(\<And>x y. y \<in> set ys \<Longrightarrow> f x y = g x y) \<Longrightarrow> foldl f a ys = foldl g a ys"
  by (induction ys arbitrary: a) auto

lemma sha_block_fips:
  assumes "block + 64 \<le> length msg" "length h = 8"
  shows "sha_block msg h block = fips_block h (take 64 (drop block msg))" "length (sha_block msg h block) = 8"
proof -
  have "foldl (sha_round (schedule msg block)) st [0..<64] = foldl (fips_round (take 64 (drop block msg))) st [0..<64]" for st
    by (rule foldl_cong_set) (simp add: sha_round_fips [OF assms(1)])
  moreover obtain h0 h1 h2 h3 h4 h5 h6 h7 where "h = [h0, h1, h2, h3, h4, h5, h6, h7]"
    using assms(2) by (auto simp: length_Suc_conv numeral_eq_Suc)
  ultimately show "sha_block msg h block = fips_block h (take 64 (drop block msg))"
    by (simp add: sha_block_def fips_block_def add.commute split: prod.splits)
  show "length (sha_block msg h block) = 8" by (simp add: sha_block_def split: prod.splits)
qed

lemma chunks_blocks:
  "length xs = 64 * n \<Longrightarrow> chunks xs = map (\<lambda>k. take 64 (drop (k * 64) xs)) [0..<n]"
proof (induction n arbitrary: xs)
  case 0
  then show ?case by (simp add: chunks.simps)
next
  case (Suc n)
  then have "xs \<noteq> []" "length (drop 64 xs) = 64 * n" by auto
  then have "chunks xs = take 64 xs # map (\<lambda>k. take 64 (drop (k * 64) (drop 64 xs))) [0..<n]"
    using Suc.IH by (simp add: chunks.simps [of xs])
  moreover have "[0..<Suc n] = 0 # map Suc [0..<n]" by (simp add: upt_conv_Cons map_Suc_upt del: upt_Suc)
  ultimately show ?case by (simp add: add.commute del: upt_Suc)
qed

lemma blocks_fips:
  assumes "length msg = 64 * n" "length h = 8" "j \<le> n"
  shows "foldl (\<lambda>h k. sha_block msg h (k * 64)) h [0..<j] =
      foldl fips_block h (map (\<lambda>k. take 64 (drop (k * 64) msg)) [0..<j]) \<and>
    length (foldl (\<lambda>h k. sha_block msg h (k * 64)) h [0..<j]) = 8"
  using assms(3)
proof (induction j)
  case (Suc j)
  then have "j * 64 + 64 \<le> length msg" using assms(1) by simp
  from sha_block_fips [OF this] show ?case using Suc by fastforce
qed (simp add: assms(2))

section \<open>Properties\<close>

text \<open>C26: When its buffer is there, \<open>sha256_hex\<close> writes the hexadecimal digits of the hash that the standard
  defines, for every message.\<close>

theorem sha256_hex_correct: "sha256_hex True data = concat (map hex8 (fips_sha256 data))"
proof -
  obtain n where n: "length (fips_pad data) = 64 * n" using length_fips_pad by blast
  have "length sha_H = 8" by (simp add: sha_H_def)
  from blocks_fips [OF n this order_refl]
  show ?thesis by (simp add: sha256_hex_def padded_fips n fips_sha256_def chunks_blocks [OF n] sha_H_fips [symmetric])
qed

end
