(* ===== verification/Mv_Topo.thy ===== *)
theory Mv_Topo
  imports Mv_Posix
begin

text \<open>
  The dependency order of \<^verbatim>\<open>tools/hbpkg.c\<close>: \<open>topo_visit\<close> and \<open>topo_sort\<close>. The array of nodes is a list, the
  order written so far a list of indices; \<open>dep_indices\<close> are the first \<open>dep_count\<close> entries of the array of
  that name. The recursion is bounded by a number of levels; one level more than there are nodes is
  shown to be enough, since every level puts another node on the stack.
\<close>

section \<open>The code\<close>

record dep_node =
  nname :: "u8 list"
  dep_indices :: "int list"
  visited :: bool
  in_stack :: bool

fun topo_visit :: "nat \<Rightarrow> int \<Rightarrow> nat \<Rightarrow> dep_node list \<Rightarrow> nat list \<Rightarrow> (int \<times> dep_node list \<times> nat list) option"
  and topo_deps :: "nat \<Rightarrow> int \<Rightarrow> int list \<Rightarrow> dep_node list \<Rightarrow> nat list \<Rightarrow> (int \<times> dep_node list \<times> nat list) option"
where
  "topo_visit 0 cnt i nodes order = None"
| "topo_visit (Suc n) cnt i nodes order =
     (if in_stack (nodes ! i) then Some (- 1, nodes, order)
      else if visited (nodes ! i) then Some (0, nodes, order)
      else let nodes = nodes[i := (nodes ! i)\<lparr>in_stack := True\<rparr>]
           in case topo_deps n cnt (dep_indices (nodes ! i)) nodes order of None \<Rightarrow> None
              | Some (r, nodes, order) \<Rightarrow>
                  if r \<noteq> 0 then Some (- 1, nodes, order)
                  else Some (0, nodes[i := (nodes ! i)\<lparr>in_stack := False, visited := True\<rparr>], order @ [i]))"
| "topo_deps n cnt [] nodes order = Some (0, nodes, order)"
| "topo_deps n cnt (d # ds) nodes order =
     (if 0 \<le> d \<and> d < cnt then
        (case topo_visit n cnt (nat d) nodes order of None \<Rightarrow> None
         | Some (r, nodes, order) \<Rightarrow>
             if r \<noteq> 0 then Some (- 1, nodes, order) else topo_deps n cnt ds nodes order)
      else topo_deps n cnt ds nodes order)"

text \<open>The loop over the nodes. The result is the returned value, the order, and the name in the
  message about a cycle when there is one.\<close>

fun topo_loop :: "int \<Rightarrow> nat list \<Rightarrow> dep_node list \<Rightarrow> nat list \<Rightarrow> (int \<times> nat list \<times> u8 list option) option" where
  "topo_loop cnt [] nodes order = Some (int (length order), order, None)"
| "topo_loop cnt (i # is) nodes order =
     (if \<not> visited (nodes ! i) then
        (case topo_visit (nat cnt + 1) cnt i nodes order of None \<Rightarrow> None
         | Some (r, nodes, order) \<Rightarrow>
             if r \<noteq> 0 then Some (- 1, order, Some (nname (nodes ! i))) else topo_loop cnt is nodes order)
      else topo_loop cnt is nodes order)"

definition topo_sort :: "dep_node list \<Rightarrow> int \<Rightarrow> (int \<times> nat list \<times> u8 list option) option" where
  "topo_sort nodes cnt = topo_loop cnt [0..<nat cnt] nodes []"

section \<open>The graph and what a state of the search means\<close>

definition edges :: "dep_node list \<Rightarrow> (nat \<times> nat) set" where
  "edges nodes = {(i, j). i < length nodes \<and> j < length nodes \<and> int j \<in> set (dep_indices (nodes ! i))}"

definition vis :: "dep_node list \<Rightarrow> nat set" where
  "vis nodes = {i. i < length nodes \<and> visited (nodes ! i)}"

definition stk :: "dep_node list \<Rightarrow> nat set" where
  "stk nodes = {i. i < length nodes \<and> in_stack (nodes ! i)}"

definition deps_first :: "(nat \<times> nat) set \<Rightarrow> nat list \<Rightarrow> bool" where
  "deps_first E xs \<longleftrightarrow> (\<forall>k < length xs. \<forall>j. (xs ! k, j) \<in> E \<longrightarrow> j \<in> set (take k xs))"

definition search_ok :: "dep_node list \<Rightarrow> nat list \<Rightarrow> bool" where
  "search_ok nodes order \<longleftrightarrow>
     set order = vis nodes \<and> distinct order \<and> vis nodes \<inter> stk nodes = {} \<and> deps_first (edges nodes) order"

definition progress :: "dep_node list \<Rightarrow> dep_node list \<Rightarrow> bool" where
  "progress nodes nodes' \<longleftrightarrow>
     length nodes' = length nodes \<and> edges nodes' = edges nodes \<and> stk nodes' = stk nodes \<and> vis nodes \<subseteq> vis nodes'"

lemma progress_refl [simp]: "progress nodes nodes"
  by (simp add: progress_def)

lemma progress_trans: "progress a b \<Longrightarrow> progress b c \<Longrightarrow> progress a c"
  by (auto simp: progress_def)

lemma stk_finite: "finite (stk nodes)" "card (stk nodes) \<le> length nodes"
proof -
  have "stk nodes \<subseteq> {..<length nodes}" by (auto simp: stk_def)
  then show "finite (stk nodes)" "card (stk nodes) \<le> length nodes"
    using finite_subset card_mono [of "{..<length nodes}" "stk nodes"] by auto
qed

lemma push_node:
  assumes "i < length nodes"
  shows "edges (nodes[i := (nodes ! i)\<lparr>in_stack := True\<rparr>]) = edges nodes"
    "vis (nodes[i := (nodes ! i)\<lparr>in_stack := True\<rparr>]) = vis nodes"
    "stk (nodes[i := (nodes ! i)\<lparr>in_stack := True\<rparr>]) = insert i (stk nodes)"
  using assms by (auto simp: edges_def vis_def stk_def nth_list_update split: if_splits)

lemma pop_node:
  assumes "i < length nodes"
  shows "edges (nodes[i := (nodes ! i)\<lparr>in_stack := False, visited := True\<rparr>]) = edges nodes"
    "vis (nodes[i := (nodes ! i)\<lparr>in_stack := False, visited := True\<rparr>]) = insert i (vis nodes)"
    "stk (nodes[i := (nodes ! i)\<lparr>in_stack := False, visited := True\<rparr>]) = stk nodes - {i}"
  using assms by (auto simp: edges_def vis_def stk_def nth_list_update split: if_splits)

lemma deps_first_snoc:
  assumes "deps_first E xs" "\<And>j. (i, j) \<in> E \<Longrightarrow> j \<in> set xs"
  shows "deps_first E (xs @ [i])"
  using assms by (auto simp: deps_first_def nth_append less_Suc_eq)

lemma search_ok_push: "search_ok nodes order \<Longrightarrow> i < length nodes \<Longrightarrow> i \<notin> vis nodes \<Longrightarrow>
    search_ok (nodes[i := (nodes ! i)\<lparr>in_stack := True\<rparr>]) order"
  by (simp add: search_ok_def push_node)

lemma search_ok_pop:
  assumes "search_ok nodes order" "i < length nodes" "i \<in> stk nodes" "\<And>j. (i, j) \<in> edges nodes \<Longrightarrow> j \<in> vis nodes"
  shows "search_ok (nodes[i := (nodes ! i)\<lparr>in_stack := False, visited := True\<rparr>]) (order @ [i])"
  using assms deps_first_snoc [of "edges nodes" order i] by (auto simp: search_ok_def pop_node)

section \<open>The search\<close>

text \<open>With enough levels a visit returns. It fails only on a cycle, and otherwise visits its node and
  leaves the stack as it was. Every node on the stack reaches the node that is visited.\<close>

lemma topo_visit_deps_spec:
  "i < length nodes \<Longrightarrow> cnt = int (length nodes) \<Longrightarrow> search_ok nodes order \<Longrightarrow>
     length nodes < n + card (stk nodes) \<Longrightarrow> (\<forall>s \<in> stk nodes. (s, i) \<in> (edges nodes)\<^sup>+) \<Longrightarrow>
     \<exists>r nodes' order'. topo_visit n cnt i nodes order = Some (r, nodes', order') \<and>
       (r = - 1 \<and> \<not> acyclic (edges nodes) \<or>
        r = 0 \<and> progress nodes nodes' \<and> search_ok nodes' order' \<and> i \<in> vis nodes')"
  "cnt = int (length nodes) \<Longrightarrow> search_ok nodes order \<Longrightarrow> length nodes < n + card (stk nodes) \<Longrightarrow>
     (\<forall>s \<in> stk nodes. \<forall>d \<in> set ds. 0 \<le> d \<and> d < cnt \<longrightarrow> (s, nat d) \<in> (edges nodes)\<^sup>+) \<Longrightarrow>
     \<exists>r nodes' order'. topo_deps n cnt ds nodes order = Some (r, nodes', order') \<and>
       (r = - 1 \<and> \<not> acyclic (edges nodes) \<or>
        r = 0 \<and> progress nodes nodes' \<and> search_ok nodes' order' \<and>
        (\<forall>d \<in> set ds. 0 \<le> d \<and> d < cnt \<longrightarrow> nat d \<in> vis nodes'))"
proof (induction n cnt i nodes order and n cnt ds nodes order rule: topo_visit_topo_deps.induct)
  case (1 cnt i nodes order)
  then show ?case using stk_finite(2) [of nodes] by simp
next
  case (2 n cnt i nodes order)
  let ?E = "edges nodes"
  show ?case
  proof (cases "in_stack (nodes ! i)")
    case True
    then have "(i, i) \<in> ?E\<^sup>+" using 2 by (simp add: stk_def)
    then show ?thesis using True by (auto simp: acyclic_def)
  next
    case ns: False
    show ?thesis
    proof (cases "visited (nodes ! i)")
      case True
      then show ?thesis using ns 2 by (simp add: vis_def)
    next
      case False
      let ?p = "nodes[i := (nodes ! i)\<lparr>in_stack := True\<rparr>]"
      have i: "i \<notin> stk nodes" "i \<notin> vis nodes" using ns False by (auto simp: stk_def vis_def)
      have ds: "dep_indices (?p ! i) = dep_indices (nodes ! i)" using "2.prems"(1) by simp
      have c: "card (stk ?p) = Suc (card (stk nodes))"
        using push_node(3) [OF "2.prems"(1)] i(1) stk_finite(1) [of nodes] by simp
      have edge: "(i, nat d) \<in> ?E" if "d \<in> set (dep_indices (nodes ! i))" "0 \<le> d" "d < cnt" for d
        using that 2 by (auto simp: edges_def)
      have reach: "\<forall>s \<in> stk ?p. \<forall>d \<in> set (dep_indices (?p ! i)). 0 \<le> d \<and> d < cnt \<longrightarrow> (s, nat d) \<in> (edges ?p)\<^sup>+"
        using "2.prems"(5) edge unfolding push_node [OF "2.prems"(1)] ds by (auto intro: trancl_into_trancl)
      obtain r n1 o1 where r: "topo_deps n cnt (dep_indices (?p ! i)) ?p order = Some (r, n1, o1)"
          "r = - 1 \<and> \<not> acyclic (edges ?p) \<or>
           r = 0 \<and> progress ?p n1 \<and> search_ok n1 o1 \<and>
           (\<forall>d \<in> set (dep_indices (?p ! i)). 0 \<le> d \<and> d < cnt \<longrightarrow> nat d \<in> vis n1)"
        using "2.IH" [OF ns False refl] "2.prems" search_ok_push [OF "2.prems"(3,1) i(2)] c reach by auto
      show ?thesis
      proof (cases "r = - 1")
        case True
        then show ?thesis using r ns False push_node(1) [OF "2.prems"(1)] by simp
      next
        case ok: False
        have p: "progress ?p n1" "search_ok n1 o1" "r = 0" using r(2) ok by auto
        have l: "i < length n1" using p(1) "2.prems"(1) by (simp add: progress_def)
        have st: "stk n1 = insert i (stk nodes)" "vis nodes \<subseteq> vis n1" "edges n1 = ?E"
          using p(1) push_node [OF "2.prems"(1)] by (simp_all add: progress_def)
        have all: "j \<in> vis n1" if "(i, j) \<in> edges n1" for j
        proof -
          have "int j \<in> set (dep_indices (nodes ! i))" "int j < cnt"
            using that "2.prems"(2) unfolding st(3) by (auto simp: edges_def)
          then show ?thesis using r(2) ok ds by fastforce
        qed
        have "search_ok (n1[i := (n1 ! i)\<lparr>in_stack := False, visited := True\<rparr>]) (o1 @ [i])"
          by (rule search_ok_pop [OF p(2) l]) (use st all in auto)
        moreover have "progress nodes (n1[i := (n1 ! i)\<lparr>in_stack := False, visited := True\<rparr>])"
          using p(1) st i(1) by (auto simp: progress_def pop_node [OF l])
        ultimately show ?thesis using r(1) p(3) ns False by (simp add: pop_node [OF l])
      qed
    qed
  qed
next
  case (3 n cnt nodes order)
  then show ?case by simp
next
  case (4 n cnt d ds nodes order)
  show ?case
  proof (cases "0 \<le> d \<and> d < cnt")
    case False
    then show ?thesis using "4.IH"(3) [OF False] "4.prems" by auto
  next
    case True
    have lt: "nat d < length nodes" using True "4.prems"(1) by linarith
    obtain r n1 o1 where r: "topo_visit n cnt (nat d) nodes order = Some (r, n1, o1)"
        "r = - 1 \<and> \<not> acyclic (edges nodes) \<or> r = 0 \<and> progress nodes n1 \<and> search_ok n1 o1 \<and> nat d \<in> vis n1"
      using "4.IH"(1) [OF True lt] True "4.prems" by auto
    show ?thesis
    proof (cases "r = - 1")
      case True
      then show ?thesis using r \<open>0 \<le> d \<and> d < cnt\<close> by simp
    next
      case False
      then have p: "r = 0" "progress nodes n1" "search_ok n1 o1" "nat d \<in> vis n1" using r(2) by auto
      then have q: "length n1 = length nodes" "edges n1 = edges nodes" "stk n1 = stk nodes" by (simp_all add: progress_def)
      obtain r' n2 o2 where "topo_deps n cnt ds n1 o1 = Some (r', n2, o2)"
          "r' = - 1 \<and> \<not> acyclic (edges n1) \<or>
           r' = 0 \<and> progress n1 n2 \<and> search_ok n2 o2 \<and> (\<forall>d \<in> set ds. 0 \<le> d \<and> d < cnt \<longrightarrow> nat d \<in> vis n2)"
        using "4.IH"(2) [OF True r(1) refl refl] p "4.prems" q by auto
      moreover have "nat d \<in> vis n2" if "progress n1 n2" using that p(4) by (auto simp: progress_def)
      ultimately show ?thesis
        using r(1) p(1,2) q True progress_trans [of nodes n1 n2] by auto
    qed
  qed
qed

lemma topo_loop_spec:
  "set is \<subseteq> {..<length nodes} \<Longrightarrow> cnt = int (length nodes) \<Longrightarrow> search_ok nodes order \<Longrightarrow> stk nodes = {} \<Longrightarrow>
     \<exists>r order' complaint. topo_loop cnt is nodes order = Some (r, order', complaint) \<and>
       (r = - 1 \<and> \<not> acyclic (edges nodes) \<or>
        r = int (length order') \<and> distinct order' \<and> deps_first (edges nodes) order' \<and>
        set is \<union> vis nodes \<subseteq> set order' \<and> set order' \<subseteq> {..<length nodes})"
proof (induction "is" arbitrary: nodes order)
  case Nil
  then show ?case by (auto simp: search_ok_def vis_def)
next
  case (Cons i "is")
  show ?case
  proof (cases "visited (nodes ! i)")
    case True
    then have "i \<in> vis nodes" using Cons.prems(1) by (simp add: vis_def)
    moreover obtain r order' complaint where "topo_loop cnt is nodes order = Some (r, order', complaint)"
        "r = - 1 \<and> \<not> acyclic (edges nodes) \<or>
         r = int (length order') \<and> distinct order' \<and> deps_first (edges nodes) order' \<and>
         set is \<union> vis nodes \<subseteq> set order' \<and> set order' \<subseteq> {..<length nodes}"
      using Cons.IH [OF _ Cons.prems(2-4)] Cons.prems(1) by auto
    ultimately show ?thesis using True by auto
  next
    case False
    have i: "i < length nodes" "length nodes < nat cnt + 1 + card (stk nodes)" using Cons.prems by auto
    obtain r n1 o1 where r: "topo_visit (nat cnt + 1) cnt i nodes order = Some (r, n1, o1)"
        "r = - 1 \<and> \<not> acyclic (edges nodes) \<or> r = 0 \<and> progress nodes n1 \<and> search_ok n1 o1 \<and> i \<in> vis n1"
      using topo_visit_deps_spec(1) [OF i(1) Cons.prems(2,3) i(2)] Cons.prems(4) by auto
    show ?thesis
    proof (cases "r = - 1")
      case True
      then show ?thesis using r False by simp
    next
      case ok: False
      then have p: "progress nodes n1" "search_ok n1 o1" "r = 0" "i \<in> vis n1" using r(2) by auto
      then have q: "length n1 = length nodes" "edges n1 = edges nodes" "stk n1 = {}" "vis nodes \<subseteq> vis n1"
        using Cons.prems(4) by (auto simp: progress_def)
      obtain r' order' complaint where "topo_loop cnt is n1 o1 = Some (r', order', complaint)"
          "r' = - 1 \<and> \<not> acyclic (edges n1) \<or>
           r' = int (length order') \<and> distinct order' \<and> deps_first (edges n1) order' \<and>
           set is \<union> vis n1 \<subseteq> set order' \<and> set order' \<subseteq> {..<length n1}"
        using Cons.IH [OF _ _ p(2) q(3)] Cons.prems(1,2) q(1) by auto
      then show ?thesis using r(1) p(3,4) q False by auto
    qed
  qed
qed

text \<open>An order in which dependencies come first leaves no room for a cycle.\<close>

lemma deps_first_acyclic:
  assumes "deps_first E xs" "distinct xs" "fst ` E \<subseteq> set xs"
  shows "acyclic E"
proof -
  define pos where "pos x = (LEAST k. k < length xs \<and> xs ! k = x)" for x
  have at: "pos (xs ! k) = k" if "k < length xs" for k
    unfolding pos_def using that assms(2) by (intro Least_equality) (auto simp: nth_eq_iff_index_eq)
  have "pos j < pos i" if "(i, j) \<in> E" for i j
  proof -
    have "i \<in> set xs" using that assms(3) by force
    then obtain k where k: "k < length xs" "xs ! k = i" by (metis in_set_conv_nth)
    then have "j \<in> set (take k xs)" using assms(1) that by (auto simp: deps_first_def)
    then obtain l where "l < k" "xs ! l = j" using k(1) by (auto simp: in_set_conv_nth)
    then show ?thesis using at k by auto
  qed
  then have "E \<subseteq> (measure pos)\<inverse>" by auto
  then have "acyclic E" using acyclic_subset acyclic_converse wf_acyclic wf_measure by (metis acyclicP_converse acyclic_converse)
  then show ?thesis .
qed

definition clean :: "dep_node list \<Rightarrow> bool" where
  "clean nodes \<longleftrightarrow> (\<forall>v \<in> set nodes. \<not> visited v \<and> \<not> in_stack v)"

section \<open>Properties\<close>

text \<open>C25: \<open>topo_sort\<close> always returns. It returns the number of nodes, with an order that lists every node
  once and behind all its dependencies, exactly when the dependencies have no cycle; on a cycle it
  returns -1. Indices outside the array are ignored.\<close>

theorem topo_sort_correct:
  assumes "clean nodes"
  shows "\<exists>r order complaint. topo_sort nodes (int (length nodes)) = Some (r, order, complaint) \<and>
    (acyclic (edges nodes) \<longrightarrow> r = int (length nodes) \<and> distinct order \<and> set order = {..<length nodes} \<and>
       (\<forall>k < length order. \<forall>j. (order ! k, j) \<in> edges nodes \<longrightarrow> j \<in> set (take k order))) \<and>
    (\<not> acyclic (edges nodes) \<longrightarrow> r = - 1)"
proof -
  have e: "vis nodes = {}" "stk nodes = {}" using assms by (auto simp: clean_def vis_def stk_def)
  then have ok: "search_ok nodes []" by (simp add: search_ok_def deps_first_def)
  have sub: "set [0..<length nodes] \<subseteq> {..<length nodes}" by auto
  obtain r order complaint where t: "topo_loop (int (length nodes)) [0..<length nodes] nodes [] = Some (r, order, complaint)"
      "r = - 1 \<and> \<not> acyclic (edges nodes) \<or>
       r = int (length order) \<and> distinct order \<and> deps_first (edges nodes) order \<and>
       set [0..<length nodes] \<union> vis nodes \<subseteq> set order \<and> set order \<subseteq> {..<length nodes}"
    using topo_loop_spec [OF sub refl ok e(2)] by blast
  have full: "set order = {..<length nodes} \<and> length order = length nodes \<and> acyclic (edges nodes)" if "r \<noteq> - 1"
  proof -
    have o: "distinct order" "deps_first (edges nodes) order" "set order = {..<length nodes}" using t(2) that by auto
    moreover have "length order = length nodes" using distinct_card [OF o(1)] o(3) by simp
    moreover have "acyclic (edges nodes)"
      by (rule deps_first_acyclic [OF o(2,1)]) (auto simp: o(3) edges_def)
    ultimately show ?thesis by blast
  qed
  show ?thesis
    using t full by (cases "r = - 1") (auto simp: topo_sort_def deps_first_def)
qed

definition node_on :: "int list \<Rightarrow> dep_node" where
  "node_on ds = \<lparr>nname = [], dep_indices = ds, visited = False, in_stack = False\<rparr>"

theorem topo_sort_correct_witness:
  "topo_sort [node_on [1, 7], node_on [2], node_on []] 3 = Some (3, [2, 1, 0], None) \<and>
   acyclic (edges [node_on [1, 7], node_on [2], node_on []]) \<and>
   \<not> acyclic (edges [node_on [1], node_on [0]])"
proof -
  have 1: "clean [node_on [1, 7], node_on [2], node_on []]" "clean [node_on [1], node_on [0]]" by code_simp+
  have 2: "topo_sort [node_on [1, 7], node_on [2], node_on []] 3 = Some (3, [2, 1, 0], None)"
    "map_option fst (topo_sort [node_on [1], node_on [0]] 2) = Some (- 1)" by code_simp+
  show ?thesis using topo_sort_correct [OF 1(1)] topo_sort_correct [OF 1(2)] 2 by auto
qed

end
