(* ===== verification/Mv_Pkg.thy ===== *)
theory Mv_Pkg
  imports Mv_Time Mv_Posix
begin

text \<open>
  The host that \<^verbatim>\<open>tools/hbpkg.c\<close> runs on, its log, the check of package names and the package database.

  The state holds the regular files by their paths, what was printed, and a rest that belongs to the
  system (directories, network, clock). The calls that act on that rest are parameters, collected in
  a record; \<^verbatim>\<open>fopen\<close>, \<^verbatim>\<open>fread\<close>, \<^verbatim>\<open>fwrite\<close> and \<^verbatim>\<open>fclose\<close> work on the files, and a stream that could be
  opened for writing stores all its bytes. The build is the one with \<^verbatim>\<open>HBPKG_HOST\<close>.

  A string is the list of its bytes before the NUL. \<^verbatim>\<open>snprintf\<close> into an array of \<open>n\<close> bytes keeps the
  first \<open>n - 1\<close>.
\<close>

section \<open>The host\<close>

type_synonym str = "u8 list"

record 'w host =
  disk :: "str \<rightharpoonup> str"
  env :: 'w
  hout :: str
  herr :: str

record 'w os =
  o_system :: "str \<Rightarrow> (str \<rightharpoonup> str) \<times> 'w \<Rightarrow> int \<times> (str \<rightharpoonup> str) \<times> 'w"
  o_mkdir :: "str \<Rightarrow> 'w \<Rightarrow> 'w"
  o_is_dir :: "str \<Rightarrow> 'w \<Rightarrow> bool"
  o_can_read :: "str \<Rightarrow> 'w \<Rightarrow> bool"
  o_can_write :: "str \<Rightarrow> 'w \<Rightarrow> bool"
  o_can_rename :: "'w \<Rightarrow> bool"
  o_now :: "'w \<Rightarrow> int"
  o_strerror :: "'w \<Rightarrow> str"

definition snp :: "nat \<Rightarrow> str \<Rightarrow> str" where
  "snp n s = take (n - 1) s"

definition run_system :: "'w os \<Rightarrow> str \<Rightarrow> 'w host \<Rightarrow> int \<times> 'w host" where
  "run_system K cmd st =
     (case o_system K cmd (disk st, env st) of (r, d, w) \<Rightarrow> (r, st\<lparr>disk := d, env := w\<rparr>))"

definition mkdir_host :: "'w os \<Rightarrow> str \<Rightarrow> 'w host \<Rightarrow> 'w host" where
  "mkdir_host K p st = st\<lparr>env := o_mkdir K p (env st)\<rparr>"

definition stat_ok :: "'w os \<Rightarrow> str \<Rightarrow> 'w host \<Rightarrow> bool" where
  "stat_ok K p st \<longleftrightarrow> disk st p \<noteq> None \<or> o_is_dir K p (env st)"

definition fopen_read :: "'w os \<Rightarrow> str \<Rightarrow> 'w host \<Rightarrow> str option" where
  "fopen_read K p st = (if o_can_read K p (env st) then disk st p else None)"

definition outs :: "str \<Rightarrow> 'w host \<Rightarrow> 'w host" where
  "outs s st = st\<lparr>hout := hout st @ s\<rparr>"

definition errs :: "str \<Rightarrow> 'w host \<Rightarrow> 'w host" where
  "errs s st = st\<lparr>herr := herr st @ s\<rparr>"

definition log_info :: "str \<Rightarrow> 'w host \<Rightarrow> 'w host" where
  "log_info s st = outs (bytes ''[hbpkg] '' @ s @ [10]) st"

definition log_warn :: "str \<Rightarrow> 'w host \<Rightarrow> 'w host" where
  "log_warn s st = errs (bytes ''[hbpkg] WARNING: '' @ s @ [10]) st"

definition log_error :: "str \<Rightarrow> 'w host \<Rightarrow> 'w host" where
  "log_error s st = errs (bytes ''[hbpkg] ERROR: '' @ s @ [10]) st"

lemmas host_ops = outs_def errs_def log_info_def log_warn_def log_error_def

lemma log_keeps [simp]:
  "disk (outs s st) = disk st" "env (outs s st) = env st" "disk (errs s st) = disk st" "env (errs s st) = env st"
  "disk (log_info s st) = disk st" "env (log_info s st) = env st" "disk (log_warn s st) = disk st"
  "env (log_warn s st) = env st" "disk (log_error s st) = disk st" "env (log_error s st) = env st"
  by (simp_all add: host_ops)

lemma log_read [simp]:
  "fopen_read K p (outs s st) = fopen_read K p st" "fopen_read K p (errs s st) = fopen_read K p st"
  "fopen_read K p (log_info s st) = fopen_read K p st" "fopen_read K p (log_warn s st) = fopen_read K p st"
  "fopen_read K p (log_error s st) = fopen_read K p st"
  by (simp_all add: fopen_read_def)

section \<open>Names\<close>

definition HBPKG_NAME_LEN :: nat where "HBPKG_NAME_LEN = 64"
definition HBPKG_VER_LEN :: nat where "HBPKG_VER_LEN = 32"
definition HBPKG_MAX_DEPS :: nat where "HBPKG_MAX_DEPS = 32"
definition HBPKG_MAX_FILES :: nat where "HBPKG_MAX_FILES = 1024"
definition HBPKG_REC_SIZE :: nat where "HBPKG_REC_SIZE = 256"
definition PATH_MAX :: nat where "PATH_MAX = 4096"
definition HBPKG_DB_PATH :: str where "HBPKG_DB_PATH = bytes ''/var/pkg/installed.db''"
definition HBPKG_CACHE_DIR :: str where "HBPKG_CACHE_DIR = bytes ''/var/pkg/cache''"
definition HBPKG_REPO_INDEX :: str where "HBPKG_REPO_INDEX = bytes ''/var/pkg/index.db''"
definition HBPKG_REPO_URL :: str where "HBPKG_REPO_URL = bytes ''https://pkg.mellivora.os/repo''"

definition name_char :: "u8 \<Rightarrow> bool" where
  "name_char c \<longleftrightarrow> isalnum (uc c) \<or> c = ch (CHR ''.'') \<or> c = ch (CHR ''-'') \<or> c = ch (CHR ''_'')"

text \<open>The loop: \<open>n\<close> bytes still fit, \<open>out\<close> was written so far. None is the null pointer.\<close>

fun sanitise_loop :: "nat \<Rightarrow> str \<Rightarrow> str \<Rightarrow> str option" where
  "sanitise_loop n [] out = Some out"
| "sanitise_loop 0 (c # s) out = Some out"
| "sanitise_loop (Suc n) (c # s) out = (if \<not> name_char c then None else sanitise_loop n s (out @ [c]))"

definition sanitise_name :: "str option \<Rightarrow> nat \<Rightarrow> str option" where
  "sanitise_name inp mx =
     (case inp of None \<Rightarrow> None
      | Some s \<Rightarrow>
          if mx < 2 then None
          else case sanitise_loop (mx - 1) s [] of None \<Rightarrow> None
               | Some out \<Rightarrow> if out = [] then None else Some out)"

lemma sanitise_loop_spec:
  "sanitise_loop n s out = (if \<forall>c \<in> set (take n s). name_char c then Some (out @ take n s) else None)"
  by (induction n s out rule: sanitise_loop.induct) auto

lemma sanitise_name_spec:
  "sanitise_name (Some s) 64 = (if s \<noteq> [] \<and> (\<forall>c \<in> set (take 63 s). name_char c) then Some (take 63 s) else None)"
  by (auto simp: sanitise_name_def sanitise_loop_spec split: option.splits if_splits)

section \<open>Metadata and database records\<close>

text \<open>The signature bytes of the structure are never set or read.\<close>

record pkg_meta_t =
  name :: str
  version :: str
  description :: str
  author :: str
  license :: str
  arch :: str
  deps :: "str list"
  files :: "str list"

definition meta_zero :: pkg_meta_t where
  "meta_zero = \<lparr>name = [], version = [], description = [], author = [], license = [], arch = [], deps = [], files = []\<rparr>"

text \<open>A record is its 256 bytes; a field read as a string runs to the next NUL.\<close>

type_synonym pkg_record = "u8 list"

definition rec_str :: "nat \<Rightarrow> pkg_record \<Rightarrow> str" where
  "rec_str off r = takeWhile (\<lambda>c. c \<noteq> 0) (drop off r)"

definition rec_name :: "pkg_record \<Rightarrow> str" where "rec_name = rec_str 0"
definition rec_version :: "pkg_record \<Rightarrow> str" where "rec_version = rec_str 64"
definition rec_description :: "pkg_record \<Rightarrow> str" where "rec_description = rec_str 96"
definition rec_deps :: "pkg_record \<Rightarrow> str" where "rec_deps = rec_str 128"
definition rec_date :: "pkg_record \<Rightarrow> str" where "rec_date = rec_str 192"
definition rec_checksum :: "pkg_record \<Rightarrow> str" where "rec_checksum = rec_str 228"

definition rec_file_count :: "pkg_record \<Rightarrow> u32" where
  "rec_file_count r = ucast (r ! 224) OR push_bit 8 (ucast (r ! 225)) OR push_bit 16 (ucast (r ! 226)) OR push_bit 24 (ucast (r ! 227))"

definition field :: "nat \<Rightarrow> str \<Rightarrow> u8 list" where
  "field n s = take n s @ replicate (n - length s) 0"

definition le32 :: "u32 \<Rightarrow> u8 list" where
  "le32 x = [ucast x, ucast (drop_bit 8 x), ucast (drop_bit 16 x), ucast (drop_bit 24 x)]"

text \<open>\<^verbatim>\<open>strncat\<close> of what still fits into the array of 64 bytes.\<close>

definition cat64 :: "str \<Rightarrow> str \<Rightarrow> str" where
  "cat64 s d = s @ take (64 - length s - 1) d"

fun join_deps :: "str list \<Rightarrow> nat \<Rightarrow> str \<Rightarrow> str" where
  "join_deps [] i s = s"
| "join_deps (d # ds) i s = join_deps ds (i + 1) (cat64 (if i > 0 then cat64 s [44] else s) d)"

definition make_record :: "pkg_meta_t \<Rightarrow> int \<Rightarrow> pkg_record" where
  "make_record meta now =
     field 64 (take 63 (name meta)) @ field 32 (take 31 (version meta)) @ field 32 (take 31 (description meta)) @
     field 64 (join_deps (take HBPKG_MAX_DEPS (deps meta)) 0 []) @
     field 32 (fst (strftime None 32 (bytes ''%Y-%m-%dT%H:%M:%SZ'') (gmtime (Some now)))) @
     le32 (of_nat (length (files meta))) @ field 28 []"

section \<open>The database\<close>

text \<open>The records that \<^verbatim>\<open>fread\<close> delivers: whole ones only.\<close>

fun records :: "u8 list \<Rightarrow> pkg_record list" where
  "records db = (if length db < 256 then [] else take 256 db # records (drop 256 db))"

declare records.simps [simp del]

fun find_rec :: "str \<Rightarrow> pkg_record list \<Rightarrow> pkg_record option" where
  "find_rec nm [] = None"
| "find_rec nm (r # rs) = (if rec_name r = nm then Some r else find_rec nm rs)"

definition db_pkg_get :: "'w os \<Rightarrow> str \<Rightarrow> 'w host \<Rightarrow> pkg_record option" where
  "db_pkg_get K nm st =
     (case fopen_read K HBPKG_DB_PATH st of None \<Rightarrow> None | Some db \<Rightarrow> find_rec nm (records db))"

definition db_pkg_installed :: "'w os \<Rightarrow> str \<Rightarrow> 'w host \<Rightarrow> bool" where
  "db_pkg_installed K nm st \<longleftrightarrow> db_pkg_get K nm st \<noteq> None"

definition db_ensure_dirs :: "'w os \<Rightarrow> 'w host \<Rightarrow> 'w host" where
  "db_ensure_dirs K st = mkdir_host K (bytes ''/var/pkg'') (mkdir_host K (bytes ''/var'') st)"

definition db_pkg_add :: "'w os \<Rightarrow> pkg_meta_t \<Rightarrow> 'w host \<Rightarrow> int \<times> 'w host" where
  "db_pkg_add K meta st =
     (let st = db_ensure_dirs K st
      in if \<not> o_can_write K HBPKG_DB_PATH (env st)
         then (- 1, log_error (bytes ''Cannot open DB for writing: '' @ o_strerror K (env st)) st)
         else let old = (case disk st HBPKG_DB_PATH of None \<Rightarrow> [] | Some db \<Rightarrow> db)
              in (0, st\<lparr>disk := (disk st)(HBPKG_DB_PATH \<mapsto> old @ make_record meta (o_now K (env st)))\<rparr>))"

fun keep_recs :: "str \<Rightarrow> pkg_record list \<Rightarrow> bool \<times> u8 list" where
  "keep_recs nm [] = (False, [])"
| "keep_recs nm (r # rs) =
     (let (found, out) = keep_recs nm rs in if rec_name r = nm then (True, out) else (found, r @ out))"

definition db_pkg_remove :: "'w os \<Rightarrow> str \<Rightarrow> 'w host \<Rightarrow> int \<times> 'w host" where
  "db_pkg_remove K nm st =
     (case fopen_read K HBPKG_DB_PATH st of None \<Rightarrow> (- 1, st)
      | Some db \<Rightarrow>
          let tmp_path = snp PATH_MAX (HBPKG_DB_PATH @ bytes ''.tmp'')
          in if \<not> o_can_write K tmp_path (env st) then (- 1, st)
             else let (found, out) = keep_recs nm (records db);
                      st = st\<lparr>disk := (disk st)(tmp_path \<mapsto> out)\<rparr>
                  in if \<not> found then (- 1, st\<lparr>disk := (disk st)(tmp_path := None)\<rparr>)
                     else (0, if o_can_rename K (env st)
                              then st\<lparr>disk := (disk st)(HBPKG_DB_PATH \<mapsto> out, tmp_path := None)\<rparr> else st))"

section \<open>What the database promises\<close>

lemma length_field [simp]: "length (field n s) = n"
  by (simp add: field_def)

lemma length_make_record [simp]: "length (make_record meta now) = 256"
  by (simp add: make_record_def le32_def)

lemma takeWhile_field: "0 \<notin> set s \<Longrightarrow> length s < n \<Longrightarrow> takeWhile (\<lambda>c. c \<noteq> 0) (field n s @ r) = s"
proof -
  assume s: "0 \<notin> set s" "length s < n"
  then obtain k where "n - length s = Suc k" by (metis Suc_diff_Suc)
  then have "field n s @ r = s @ 0 # replicate k 0 @ r" using s(2) by (simp add: field_def)
  moreover have "\<forall>c \<in> set s. c \<noteq> 0" using s(1) by blast
  ultimately show ?thesis by (simp add: takeWhile_append2)
qed

lemma rec_name_make: "0 \<notin> set (name meta) \<Longrightarrow> rec_name (make_record meta now) = take 63 (name meta)"
  unfolding rec_name_def rec_str_def make_record_def
  by (subst drop_0, rule takeWhile_field) (auto dest: in_set_takeD)

lemma rec_version_make: "0 \<notin> set (version meta) \<Longrightarrow> rec_version (make_record meta now) = take 31 (version meta)"
  unfolding rec_version_def rec_str_def make_record_def
  by (simp add: drop_append, rule takeWhile_field) (auto dest: in_set_takeD)

lemma records_append: "256 dvd length db \<Longrightarrow> length r = 256 \<Longrightarrow> records (db @ r) = records db @ [r]"
proof (induction db rule: records.induct)
  case (1 db)
  show ?case
  proof (cases "length db < 256")
    case True
    then have "db = []" using 1 by (auto dest: dvd_imp_le)
    then show ?thesis using 1 by (simp add: records.simps)
  next
    case False
    then have "records (drop 256 db @ r) = records (drop 256 db) @ [r]" using 1 by (simp add: dvd_diff_nat)
    then show ?thesis using False by (simp add: records.simps [of db] records.simps [of "db @ r"])
  qed
qed

lemma records_concat: "\<forall>r \<in> set rs. length r = 256 \<Longrightarrow> records (concat rs) = rs"
proof (induction rs)
  case (Cons r rs)
  then show ?case by (subst records.simps) simp
qed (simp add: records.simps [of "[]"])

lemma records_length: "\<forall>r \<in> set (records db). length r = 256"
proof (induction db rule: records.induct)
  case (1 db)
  show ?case
  proof (cases "length db < 256")
    case True
    then show ?thesis by (simp add: records.simps [of db])
  next
    case False
    then have "records db = take 256 db # records (drop 256 db)" by (simp add: records.simps [of db])
    moreover have "length (take 256 db) = 256" using False by simp
    ultimately show ?thesis using 1 [OF False] by auto
  qed
qed

lemma keep_recs_spec: "keep_recs nm rs = (\<exists>r \<in> set rs. rec_name r = nm, concat (filter (\<lambda>r. rec_name r \<noteq> nm) rs))"
  by (induction rs) auto

lemma find_rec_append: "find_rec nm (rs @ [r]) = (case find_rec nm rs of Some x \<Rightarrow> Some x | None \<Rightarrow> if rec_name r = nm then Some r else None)"
  by (induction rs) auto

lemma find_rec_filter: "find_rec nm (filter (\<lambda>r. rec_name r \<noteq> k) rs) = (if nm = k then None else find_rec nm rs)"
  by (induction rs) auto

lemma find_rec_Some: "find_rec nm rs = Some r \<Longrightarrow> rec_name r = nm \<and> r \<in> set rs"
  by (induction rs) (auto split: if_splits)

lemma find_rec_None: "find_rec nm rs = None \<longleftrightarrow> (\<forall>r \<in> set rs. rec_name r \<noteq> nm)"
  by (induction rs) auto

text \<open>The interface the commands rely on: a lookup by name, a record put in, and all records of a name
  taken out, over whatever represents the database.\<close>

locale package_db =
  fixes ok :: "'d \<Rightarrow> bool"
    and find :: "str \<Rightarrow> 'd \<Rightarrow> 'r option"
    and put :: "'r \<Rightarrow> 'd \<Rightarrow> 'd"
    and take_out :: "str \<Rightarrow> 'd \<Rightarrow> 'd"
    and nm_of :: "'r \<Rightarrow> str"
    and rec_ok :: "'r \<Rightarrow> bool"
  assumes ok_put: "ok d \<Longrightarrow> rec_ok r \<Longrightarrow> ok (put r d)"
    and ok_take_out: "ok d \<Longrightarrow> ok (take_out n d)"
    and find_put: "ok d \<Longrightarrow> rec_ok r \<Longrightarrow>
      find n (put r d) = (case find n d of Some x \<Rightarrow> Some x | None \<Rightarrow> if nm_of r = n then Some r else None)"
    and find_take_out: "ok d \<Longrightarrow> find n (take_out k d) = (if n = k then None else find n d)"
begin

lemma put_fresh: "ok d \<Longrightarrow> rec_ok r \<Longrightarrow> find (nm_of r) d = None \<Longrightarrow>
    find n (put r d) = (if n = nm_of r then Some r else find n d)"
  by (auto simp: find_put split: option.splits)

lemma put_take_out: "ok d \<Longrightarrow> rec_ok r \<Longrightarrow> find (nm_of r) d = None \<Longrightarrow>
    find n (take_out (nm_of r) (put r d)) = find n d"
  by (auto simp: find_take_out ok_put put_fresh)

lemma replace: "ok d \<Longrightarrow> rec_ok r \<Longrightarrow>
    find n (put r (take_out (nm_of r) d)) = (if n = nm_of r then Some r else find n d)"
  by (simp add: put_fresh ok_take_out find_take_out)

end

interpretation pkg_db: package_db "\<lambda>db. 256 dvd length db" "\<lambda>n db. find_rec n (records db)" "\<lambda>r db. db @ r"
  "\<lambda>n db. snd (keep_recs n (records db))" rec_name "\<lambda>r. length r = 256"
proof unfold_locales
  fix d n
  have "\<forall>r \<in> set rs. length r = 256 \<Longrightarrow> 256 dvd length (concat rs)" for rs :: "u8 list list"
    by (induction rs) auto
  then show "256 dvd length (snd (keep_recs n (records d)))"
    using records_length [of d] by (simp add: keep_recs_spec)
next
  fix d n k
  have "records (concat (filter (\<lambda>r. rec_name r \<noteq> k) (records d))) = filter (\<lambda>r. rec_name r \<noteq> k) (records d)"
    by (rule records_concat) (use records_length [of d] in auto)
  then show "find_rec n (records (snd (keep_recs k (records d)))) = (if n = k then None else find_rec n (records d))"
    by (simp add: keep_recs_spec find_rec_filter)
qed (simp_all add: records_append find_rec_append)

text \<open>The database file of a host, its alignment, and that the program may use it.\<close>

definition db_bytes :: "'w host \<Rightarrow> u8 list" where
  "db_bytes st = (case disk st HBPKG_DB_PATH of None \<Rightarrow> [] | Some db \<Rightarrow> db)"

definition db_usable :: "'w os \<Rightarrow> bool" where
  "db_usable K \<longleftrightarrow> (\<forall>p w. o_can_read K p w \<and> o_can_write K p w \<and> o_can_rename K w)"

lemma get_bytes: "db_usable K \<Longrightarrow> db_pkg_get K n st = find_rec n (records (db_bytes st))"
  by (auto simp: db_pkg_get_def fopen_read_def db_usable_def db_bytes_def records.simps [of "[]"] split: option.splits)

section \<open>Properties\<close>

text \<open>A name that passes \<open>sanitise_name\<close> for a buffer of 64 bytes is non-empty, has at most 63 bytes and
  only letters, digits, dots, dashes and underscores; so it has no slash, quote or NUL. The name
  given is refused exactly when it is empty or one of its first 63 bytes is another one.\<close>

theorem sanitise_name_correct:
  "case sanitise_name (Some s) HBPKG_NAME_LEN of
     None \<Rightarrow> s = [] \<or> (\<exists>c \<in> set (take 63 s). \<not> name_char c)
   | Some out \<Rightarrow> out = take 63 s \<and> out \<noteq> [] \<and> length out \<le> 63 \<and>
       (\<forall>c \<in> set out. name_char c \<and> c \<noteq> ch (CHR ''/'') \<and> c \<noteq> 39 \<and> c \<noteq> 34 \<and> c \<noteq> 0)"
proof -
  have "c \<noteq> 47 \<and> c \<noteq> 39 \<and> c \<noteq> 34 \<and> c \<noteq> 0" if "name_char c" for c
    using that by (auto simp: name_char_def isalnum_def isalpha_def isdigit_def islower_def isupper_def uc_def)
  then show ?thesis unfolding HBPKG_NAME_LEN_def sanitise_name_spec by auto
qed

theorem sanitise_name_correct_witness:
  "sanitise_name (Some (bytes ''vim-9.1'')) HBPKG_NAME_LEN = Some (bytes ''vim-9.1'') \<and>
   sanitise_name (Some (bytes ''a/b'')) HBPKG_NAME_LEN = None"
proof -
  have c: "\<forall>c \<in> set (bytes ''vim-9.1''). name_char c" "\<exists>c \<in> set (bytes ''a/b''). c = 47" by code_simp+
  show ?thesis
    using sanitise_name_correct [of "bytes ''vim-9.1''"] sanitise_name_correct [of "bytes ''a/b''"] c
      bytes_Cons [of "CHR ''v''" "''im-9.1''"]
    by (cases "sanitise_name (Some (bytes ''vim-9.1'')) HBPKG_NAME_LEN"; cases "sanitise_name (Some (bytes ''a/b'')) HBPKG_NAME_LEN")
       (auto simp del: bytes_Cons dest: in_set_takeD)
qed

text \<open>C30: After \<open>db_pkg_add\<close> of a package that was not installed, \<open>db_pkg_get\<close> finds its record under its name
  and every other package as before; after \<open>db_pkg_remove\<close> of it, it is gone and the others are as they
  were before.\<close>

theorem db_add_remove:
  assumes "db_usable K" "256 dvd length (db_bytes st)" "0 \<notin> set (name meta)" "length (name meta) \<le> 63"
    and "\<not> db_pkg_installed K (name meta) st"
    and "db_pkg_add K meta st = (r, st1)" "db_pkg_remove K (name meta) st1 = (r', st2)"
  shows "r = 0 \<and> r' = 0 \<and>
    (\<forall>n. db_pkg_get K n st1 =
       (if n = name meta then Some (make_record meta (o_now K (env (db_ensure_dirs K st)))) else db_pkg_get K n st)) \<and>
    (\<forall>n. db_pkg_get K n st2 = db_pkg_get K n st)"
proof -
  let ?r = "make_record meta (o_now K (env (db_ensure_dirs K st)))"
  have nm: "rec_name ?r = name meta" using rec_name_make [OF assms(3)] assms(4) by simp
  have d: "disk (db_ensure_dirs K st) = disk st" by (simp add: db_ensure_dirs_def mkdir_host_def)
  have r: "r = 0" "disk st1 = (disk st)(HBPKG_DB_PATH \<mapsto> db_bytes st @ ?r)"
    using assms(1,6) by (auto simp: db_pkg_add_def Let_def db_usable_def d db_bytes_def split: option.splits)
  then have b1: "db_bytes st1 = db_bytes st @ ?r" by (simp add: db_bytes_def)
  have fresh: "find_rec (rec_name ?r) (records (db_bytes st)) = None"
    using assms(1,5) nm by (simp add: db_pkg_installed_def get_bytes)
  note put = pkg_db.put_fresh [OF assms(2) length_make_record fresh]
  have g1: "db_pkg_get K n st1 = (if n = name meta then Some ?r else db_pkg_get K n st)" for n
    using put [of n] by (simp add: get_bytes [OF assms(1)] b1 nm)
  have "fst (keep_recs (name meta) (records (db_bytes st1)))"
    using g1 [of "name meta"] find_rec_Some by (fastforce simp: get_bytes [OF assms(1)] keep_recs_spec)
  then have r': "r' = 0" "db_bytes st2 = snd (keep_recs (name meta) (records (db_bytes st1)))"
    using assms(1,7) r(2) b1 unfolding db_pkg_remove_def
    by (auto simp: fopen_read_def db_usable_def Let_def db_bytes_def HBPKG_DB_PATH_def snp_def PATH_MAX_def split: prod.splits)
  have "db_pkg_get K n st2 = db_pkg_get K n st" for n
    using pkg_db.put_take_out [OF assms(2) length_make_record fresh, of n] by (simp add: get_bytes [OF assms(1)] r'(2) b1 nm)
  then show ?thesis using r(1) r'(1) g1 by blast
qed

text \<open>A host that allows everything, with an empty disk.\<close>

definition easy_os :: "unit os" where
  "easy_os = \<lparr>o_system = \<lambda>cmd s. (0, s), o_mkdir = \<lambda>p w. w, o_is_dir = \<lambda>p w. False, o_can_read = \<lambda>p w. True,
     o_can_write = \<lambda>p w. True, o_can_rename = \<lambda>w. True, o_now = \<lambda>w. 0, o_strerror = \<lambda>w. []\<rparr>"

definition bare_host :: "unit host" where
  "bare_host = \<lparr>disk = (\<lambda>p. None), env = (), hout = [], herr = []\<rparr>"

lemma easy_usable: "db_usable easy_os"
  by (simp add: db_usable_def easy_os_def)

theorem db_add_remove_witness:
  "\<exists>st1 st2. db_pkg_add easy_os (meta_zero\<lparr>name := bytes ''vim''\<rparr>) bare_host = (0, st1) \<and>
     db_pkg_remove easy_os (bytes ''vim'') st1 = (0, st2) \<and>
     db_pkg_installed easy_os (bytes ''vim'') st1 \<and> \<not> db_pkg_installed easy_os (bytes ''vim'') st2"
proof -
  let ?m = "meta_zero\<lparr>name := bytes ''vim''\<rparr>"
  obtain r st1 where a: "db_pkg_add easy_os ?m bare_host = (r, st1)" by fastforce
  obtain r' st2 where b: "db_pkg_remove easy_os (name ?m) st1 = (r', st2)" by fastforce
  have z: "db_bytes bare_host = []" "0 \<notin> set (name ?m)" "length (name ?m) \<le> 63"
    by (simp_all add: db_bytes_def bare_host_def meta_zero_def)
  have n: "\<not> db_pkg_installed easy_os (name ?m) bare_host"
    by (simp add: db_pkg_installed_def get_bytes [OF easy_usable] z(1) records.simps [of "[]"])
  show ?thesis
    using db_add_remove [OF easy_usable _ z(2,3) n a b] z(1) n a b by (auto simp: db_pkg_installed_def)
qed

end
