(* ===== verification/Mv_Pkg_Meta.thy ===== *)
theory Mv_Pkg_Meta
  imports Mv_Pkg
begin

text \<open>
  \<open>meta_parse_toml\<close> of \<^verbatim>\<open>tools/hbpkg.c\<close>: the metadata of a package, read line by line. A line is what
  \<^verbatim>\<open>fgets\<close> leaves in its 512 bytes. Pointers into the line are the rest of the line from there.
\<close>

section \<open>Lines\<close>

fun fgets_line :: "nat \<Rightarrow> str \<Rightarrow> str" where
  "fgets_line n [] = []"
| "fgets_line 0 (c # s) = []"
| "fgets_line (Suc n) (c # s) = (if c = 10 then [c] else c # fgets_line n s)"

lemma fgets_line_prefix: "\<exists>r. s = fgets_line n s @ r"
  by (induction n s rule: fgets_line.induct) auto

lemma fgets_line_nonempty: "s \<noteq> [] \<Longrightarrow> 0 < n \<Longrightarrow> fgets_line n s \<noteq> []"
  by (cases s; cases n) auto

text \<open>The lines that a loop of \<^verbatim>\<open>fgets(line, sizeof(line), fp)\<close> sees.\<close>

function file_lines :: "str \<Rightarrow> str list" where
  "file_lines s =
     (if s = [] then [] else fgets_line 511 s # file_lines (drop (length (fgets_line 511 s)) s))"
  by auto
termination by (relation "measure length") (auto simp: fgets_line_nonempty)

declare file_lines.simps [simp del]

definition is_sp :: "u8 \<Rightarrow> bool" where
  "is_sp c \<longleftrightarrow> isspace (uc c)"

definition trim :: "str \<Rightarrow> str" where
  "trim s = rev (dropWhile is_sp (rev (dropWhile is_sp s)))"

definition unquote :: "str \<Rightarrow> str" where
  "unquote v = (if length v \<ge> 2 \<and> hd v = 34 \<and> last v = 34 then butlast (tl v) else v)"

section \<open>Lists in brackets\<close>

definition index_of :: "u8 \<Rightarrow> str \<Rightarrow> nat option" where
  "index_of c s = (if c \<in> set s then Some (length (takeWhile (\<lambda>x. x \<noteq> c) s)) else None)"

text \<open>Where an item ends: at a quote, else at a comma, else at the bracket.\<close>

definition item_end :: "str \<Rightarrow> nat option" where
  "item_end p =
     (case index_of 34 p of Some k \<Rightarrow> Some k
      | None \<Rightarrow> (case index_of (ch (CHR '','')) p of Some k \<Rightarrow> Some k | None \<Rightarrow> index_of (ch (CHR '']'')) p))"

definition skip_seps :: "str \<Rightarrow> str" where
  "skip_seps p = dropWhile (\<lambda>c. is_sp c \<or> c = ch (CHR '','')) p"

definition skip_quote :: "str \<Rightarrow> str" where
  "skip_quote p = (if p \<noteq> [] \<and> hd p = 34 then tl p else p)"

lemma skip_shorter: "length (skip_quote (skip_seps p)) \<le> length p"
  by (simp add: skip_quote_def skip_seps_def length_dropWhile_le le_diff_conv le_SucI)

lemma item_end_nonempty: "item_end p = Some k \<Longrightarrow> p \<noteq> []"
  by (auto simp: item_end_def index_of_def split: option.splits if_splits)

text \<open>The loop: at most \<open>mx\<close> items of at most \<open>sz - 1\<close> bytes.\<close>

function items :: "nat \<Rightarrow> nat \<Rightarrow> str \<Rightarrow> str list \<Rightarrow> str list" where
  "items mx sz p acc =
     (if p = [] \<or> length acc \<ge> mx then acc
      else if skip_seps p = [] \<or> hd (skip_seps p) = ch (CHR '']'') then acc
      else case item_end (skip_quote (skip_seps p)) of None \<Rightarrow> acc
           | Some k \<Rightarrow>
               items mx sz (drop (k + 1) (skip_quote (skip_seps p)))
                 (acc @ [take (min k (sz - 1)) (skip_quote (skip_seps p))]))"
  by auto

termination
proof (relation "measure (\<lambda>(mx, sz, p, acc). length p)")
  fix mx sz :: nat and p acc k
  assume "item_end (skip_quote (skip_seps p)) = Some k"
  then have "0 < length (skip_quote (skip_seps p))" using item_end_nonempty by blast
  then have "length (skip_quote (skip_seps p)) - Suc k < length p" using skip_shorter [of p] by linarith
  then show "((mx, sz, drop (k + 1) (skip_quote (skip_seps p)), acc @ [take (min k (sz - 1)) (skip_quote (skip_seps p))]),
      mx, sz, p, acc) \<in> measure (\<lambda>(mx, sz, p, acc). length p)"
    by simp
qed simp

declare items.simps [simp del]

definition list_value :: "nat \<Rightarrow> nat \<Rightarrow> str \<Rightarrow> str list \<Rightarrow> str list" where
  "list_value mx sz val acc = items mx sz (if val \<noteq> [] \<and> hd val = ch (CHR ''['') then tl val else val) acc"

section \<open>Keys and the whole file\<close>

definition set_key :: "str \<Rightarrow> str \<Rightarrow> pkg_meta_t \<Rightarrow> pkg_meta_t" where
  "set_key key val out =
     (if key = bytes ''name'' then out\<lparr>name := take 63 val\<rparr>
      else if key = bytes ''version'' then out\<lparr>version := take 31 val\<rparr>
      else if key = bytes ''description'' then out\<lparr>description := take 255 val\<rparr>
      else if key = bytes ''author'' then out\<lparr>author := take 63 val\<rparr>
      else if key = bytes ''license'' then out\<lparr>license := take 31 val\<rparr>
      else if key = bytes ''arch'' then out\<lparr>arch := take 15 val\<rparr>
      else if key = bytes ''deps'' \<or> key = bytes ''dependencies'' then out\<lparr>deps := list_value HBPKG_MAX_DEPS 64 val (deps out)\<rparr>
      else if key = bytes ''files'' then out\<lparr>files := list_value HBPKG_MAX_FILES 256 val (files out)\<rparr>
      else out)"

definition parse_line :: "str \<Rightarrow> pkg_meta_t \<Rightarrow> pkg_meta_t" where
  "parse_line raw out =
     (let line = takeWhile (\<lambda>c. c \<noteq> 0 \<and> c \<noteq> 13 \<and> c \<noteq> 10) raw
      in if line = [] \<or> hd line = ch (CHR ''#'') then out
         else if ch (CHR ''='') \<notin> set line then out
         else set_key (trim (takeWhile (\<lambda>c. c \<noteq> ch (CHR ''='')) line))
                (unquote (trim (tl (dropWhile (\<lambda>c. c \<noteq> ch (CHR ''='')) line)))) out)"

definition meta_parse_toml :: "'w os \<Rightarrow> str \<Rightarrow> pkg_meta_t \<Rightarrow> 'w host \<Rightarrow> int \<times> pkg_meta_t \<times> 'w host" where
  "meta_parse_toml K path out st =
     (case fopen_read K path st of
        None \<Rightarrow> (- 1, out, log_error (bytes ''Cannot open '' @ path @ bytes '': '' @ o_strerror K (env st)) st)
      | Some s \<Rightarrow>
          let out = fold parse_line (file_lines s) out
          in if name out = [] then (- 1, out, log_error (bytes ''meta.toml missing required '' @ [39] @ bytes ''name'' @ [39] @ bytes '' field'') st)
             else if version out = [] then (- 1, out, log_error (bytes ''meta.toml missing required '' @ [39] @ bytes ''version'' @ [39] @ bytes '' field'') st)
             else (0, out, st))"

text \<open>The check of the signature has yet to be written in the code.\<close>

definition meta_verify_sig :: "pkg_meta_t \<Rightarrow> str \<Rightarrow> bool" where
  "meta_verify_sig meta key_path = True"

section \<open>What fits the structure\<close>

definition meta_ok :: "pkg_meta_t \<Rightarrow> bool" where
  "meta_ok m \<longleftrightarrow> length (name m) \<le> 63 \<and> length (version m) \<le> 31 \<and> length (description m) \<le> 255 \<and>
     length (author m) \<le> 63 \<and> length (license m) \<le> 31 \<and> length (arch m) \<le> 15 \<and>
     length (deps m) \<le> 32 \<and> (\<forall>d \<in> set (deps m). length d \<le> 63) \<and>
     length (files m) \<le> 1024 \<and> (\<forall>f \<in> set (files m). length f \<le> 255)"

lemma items_bounds:
  "length acc \<le> mx \<Longrightarrow> (\<forall>x \<in> set acc. length x \<le> sz - 1) \<Longrightarrow>
     length (items mx sz p acc) \<le> mx \<and> (\<forall>x \<in> set (items mx sz p acc). length x \<le> sz - 1)"
proof (induction mx sz p acc rule: items.induct)
  case (1 mx sz p acc)
  let ?q = "skip_quote (skip_seps p)"
  show ?case
  proof (cases "(p = [] \<or> mx \<le> length acc) \<or> (skip_seps p = [] \<or> hd (skip_seps p) = 93) \<or> item_end ?q = None")
    case True
    then have "items mx sz p acc = acc" by (subst items.simps) auto
    then show ?thesis using "1.prems" by simp
  next
    case False
    then obtain k where k: "item_end ?q = Some k" by blast
    let ?acc = "acc @ [take (min k (sz - 1)) ?q]"
    have "items mx sz p acc = items mx sz (drop (k + 1) ?q) ?acc" using False k by (subst items.simps) simp
    moreover have "length ?acc \<le> mx" "\<forall>x \<in> set ?acc. length x \<le> sz - 1" using False "1.prems" by auto
    ultimately show ?thesis using "1.IH" [of k] False k by auto
  qed
qed

lemma meta_ok_set_key: "meta_ok out \<Longrightarrow> meta_ok (set_key key val out)"
proof -
  assume ok: "meta_ok out"
  have "length (list_value 32 64 val (deps out)) \<le> 32 \<and> (\<forall>x \<in> set (list_value 32 64 val (deps out)). length x \<le> 63)"
    unfolding list_value_def using items_bounds [of "deps out" 32 64] ok by (simp add: meta_ok_def)
  moreover have "length (list_value 1024 256 val (files out)) \<le> 1024 \<and> (\<forall>x \<in> set (list_value 1024 256 val (files out)). length x \<le> 255)"
    unfolding list_value_def using items_bounds [of "files out" 1024 256] ok by (simp add: meta_ok_def)
  ultimately show ?thesis
    using ok unfolding set_key_def HBPKG_MAX_DEPS_def HBPKG_MAX_FILES_def
    by (simp add: meta_ok_def del: bytes_Cons)
qed

lemma meta_ok_fold: "meta_ok out \<Longrightarrow> meta_ok (fold parse_line ls out)"
  by (induction ls arbitrary: out) (simp_all add: parse_line_def meta_ok_set_key Let_def)

section \<open>Writing metadata and reading it back\<close>

definition plain :: "str \<Rightarrow> bool" where
  "plain s \<longleftrightarrow> 0 \<notin> set s \<and> 10 \<notin> set s \<and> 13 \<notin> set s"

definition quoted :: "str \<Rightarrow> str" where
  "quoted s = 34 # s @ [34]"

definition toml_line :: "string \<Rightarrow> str \<Rightarrow> str" where
  "toml_line key val = bytes key @ bytes '' = '' @ val @ [10]"

text \<open>The items behind the first, each with its comma, and the bracket.\<close>

fun toml_rest :: "str list \<Rightarrow> str" where
  "toml_rest [] = [93]"
| "toml_rest (x # xs) = [44, 32] @ quoted x @ toml_rest xs"

definition toml_list :: "str list \<Rightarrow> str" where
  "toml_list xs = 91 # (case xs of [] \<Rightarrow> [93] | x # xs \<Rightarrow> quoted x @ toml_rest xs)"

definition toml_text :: "pkg_meta_t \<Rightarrow> str" where
  "toml_text m =
     toml_line ''name'' (quoted (name m)) @ toml_line ''version'' (quoted (version m)) @
     toml_line ''description'' (quoted (description m)) @ toml_line ''author'' (quoted (author m)) @
     toml_line ''license'' (quoted (license m)) @ toml_line ''arch'' (quoted (arch m)) @
     toml_line ''deps'' (toml_list (deps m)) @ toml_line ''files'' (toml_list (files m))"

lemma fgets_line_whole: "10 \<notin> set s \<Longrightarrow> length s < n \<Longrightarrow> fgets_line n (s @ 10 # r) = s @ [10]"
proof (induction s arbitrary: n)
  case Nil
  then show ?case by (cases n) auto
next
  case (Cons c s)
  then show ?case by (cases n) auto
qed

lemma file_lines_line: "10 \<notin> set s \<Longrightarrow> length s < 511 \<Longrightarrow> file_lines (s @ 10 # r) = (s @ [10]) # file_lines r"
  by (subst file_lines.simps) (simp add: fgets_line_whole)

lemma dropWhile_id: "xs \<noteq> [] \<Longrightarrow> \<not> P (hd xs) \<Longrightarrow> dropWhile P xs = xs"
  by (cases xs) auto

lemma trim_tight: "s \<noteq> [] \<Longrightarrow> \<not> is_sp (hd s) \<Longrightarrow> \<not> is_sp (last s) \<Longrightarrow> trim s = s"
  by (simp add: trim_def dropWhile_id hd_rev)

lemma is_sp_blank [simp]: "is_sp 32"
  by (simp add: is_sp_def isspace_def uc_def)

lemma trim_right: "s \<noteq> [] \<Longrightarrow> \<not> is_sp (hd s) \<Longrightarrow> \<not> is_sp (last s) \<Longrightarrow> trim (s @ [32]) = s"
  by (simp add: trim_def dropWhile_id hd_rev)

lemma trim_left: "trim (32 # s) = trim s"
  by (simp add: trim_def)

lemma key_line:
  assumes "61 \<notin> set k" "plain k" "k \<noteq> []" "hd k \<noteq> 35" "\<not> is_sp (hd k)" "\<not> is_sp (last k)" "plain v" "trim v = v"
  shows "parse_line (k @ [32, 61, 32] @ v @ [10]) out = set_key k (unquote v) out"
proof -
  let ?l = "k @ [32, 61, 32] @ v"
  have "\<forall>c \<in> set ?l. c \<noteq> 0 \<and> c \<noteq> 13 \<and> c \<noteq> 10" using assms(2,7) by (auto simp: plain_def)
  then have l: "takeWhile (\<lambda>c. c \<noteq> 0 \<and> c \<noteq> 13 \<and> c \<noteq> 10) (k @ [32, 61, 32] @ v @ [10]) = ?l"
    using takeWhile_append2 [of ?l "\<lambda>c. c \<noteq> 0 \<and> c \<noteq> 13 \<and> c \<noteq> 10" "[10]"] by auto
  have n: "c \<noteq> 61" if "c \<in> set (k @ [32])" for c using assms(1) that by auto
  have s: "takeWhile (\<lambda>c. c \<noteq> 61) ?l = k @ [32]" "dropWhile (\<lambda>c. c \<noteq> 61) ?l = 61 # 32 # v"
    using takeWhile_append2 [of "k @ [32]" "\<lambda>c. c \<noteq> 61" "61 # 32 # v", OF n]
      dropWhile_append2 [of "k @ [32]" "\<lambda>c. c \<noteq> 61" "61 # 32 # v", OF n] by simp_all
  have "hd ?l = hd k" using assms(3) by simp
  then have "parse_line (k @ [32, 61, 32] @ v @ [10]) out = set_key (trim (k @ [32])) (unquote (trim (32 # v))) out"
    using assms(3,4) s l by (simp add: parse_line_def Let_def)
  then show ?thesis using trim_right [OF assms(3,5,6)] trim_left assms(8) by simp
qed

lemma unquote_quoted [simp]: "unquote (quoted s) = s" "trim (quoted s) = quoted s"
  by (simp add: unquote_def quoted_def, rule trim_tight) (simp_all add: quoted_def is_sp_def isspace_def uc_def)

lemma skip_seps_rest: "skip_seps (44 # 32 # p) = skip_seps p"
  by (simp add: skip_seps_def)

lemma items_quoted:
  assumes "34 \<notin> set x" "length acc < mx" "length x < sz"
  shows "items mx sz (quoted x @ r) acc = items mx sz r (acc @ [x])"
proof -
  have "skip_quote (skip_seps (quoted x @ r)) = x @ 34 # r"
    by (simp add: skip_seps_def skip_quote_def quoted_def is_sp_def isspace_def uc_def)
  moreover have "skip_seps (quoted x @ r) = quoted x @ r"
    by (simp add: skip_seps_def quoted_def is_sp_def isspace_def uc_def)
  moreover have "\<And>c. c \<in> set x \<Longrightarrow> c \<noteq> 34" using assms(1) by blast
  then have "item_end (x @ 34 # r) = Some (length x)"
    using takeWhile_append2 [of x "\<lambda>c. c \<noteq> 34" "34 # r"] by (simp add: item_end_def index_of_def)
  ultimately show ?thesis using assms(2,3) by (subst items.simps) (simp add: quoted_def)
qed

lemma items_sep: "items mx sz (44 # 32 # quoted x @ r) acc = items mx sz (quoted x @ r) acc"
  by (simp only: items.simps [of mx sz "44 # 32 # quoted x @ r"] items.simps [of mx sz "quoted x @ r"] skip_seps_rest)
     (simp add: quoted_def)

lemma items_rest:
  "\<forall>x \<in> set xs. 34 \<notin> set x \<and> length x < sz \<Longrightarrow> length acc + length xs \<le> mx \<Longrightarrow>
     items mx sz (toml_rest xs) acc = acc @ xs"
proof (induction xs arbitrary: acc)
  case Nil
  then show ?case by (subst items.simps) (simp add: skip_seps_def is_sp_def isspace_def uc_def)
next
  case (Cons x xs)
  then show ?case by (simp add: items_sep items_quoted)
qed

lemma list_value_list:
  assumes "\<forall>x \<in> set xs. 34 \<notin> set x \<and> length x < sz" "length xs \<le> mx"
  shows "list_value mx sz (toml_list xs) [] = xs"
proof (cases xs)
  case Nil
  then show ?thesis
    by (simp add: list_value_def toml_list_def) (subst items.simps, simp add: skip_seps_def is_sp_def isspace_def uc_def)
next
  case (Cons x ys)
  then show ?thesis
    using assms items_rest [of ys sz "[x]" mx] items_quoted [of x "[]" mx sz "toml_rest ys"]
    by (simp add: list_value_def toml_list_def)
qed

lemma last_rest: "last (toml_rest xs) = 93" "toml_rest xs \<noteq> []"
  by (induction xs) auto

lemma list_tight: "trim (toml_list xs) = toml_list xs" "unquote (toml_list xs) = toml_list xs"
  by (rule trim_tight)
     (auto simp: toml_list_def unquote_def is_sp_def isspace_def uc_def quoted_def last_rest split: list.splits)

lemma plain_append [simp]: "plain (a @ b) \<longleftrightarrow> plain a \<and> plain b"
  by (auto simp: plain_def)

lemma plain_quoted [simp]: "plain (quoted s) \<longleftrightarrow> plain s"
  by (auto simp: plain_def quoted_def)

lemma plain_list: "\<forall>x \<in> set xs. plain x \<Longrightarrow> plain (toml_list xs)"
proof -
  have "\<forall>x \<in> set xs. plain x \<Longrightarrow> plain (toml_rest xs)" for xs by (induction xs) (auto simp: plain_def quoted_def)
  then show "\<forall>x \<in> set xs. plain x \<Longrightarrow> plain (toml_list xs)"
    by (cases xs) (auto simp: toml_list_def plain_def quoted_def)
qed

text \<open>One written line is one line read, and sets its key.\<close>

lemma read_line:
  assumes "k \<in> set [''name'', ''version'', ''description'', ''author'', ''license'', ''arch'', ''deps'', ''files'']"
    and "plain v" "trim v = v" "length v < 480"
  shows "fold parse_line (file_lines (toml_line k v @ r)) out = fold parse_line (file_lines r) (set_key (bytes k) (unquote v) out)"
proof -
  have k: "61 \<notin> set (bytes k)" "plain (bytes k)" "bytes k \<noteq> []" "hd (bytes k) \<noteq> 35" "\<not> is_sp (hd (bytes k))"
      "\<not> is_sp (last (bytes k))" "length k \<le> 11"
    using assms(1) by (auto simp: plain_def is_sp_def isspace_def uc_def)
  let ?s = "bytes k @ [32, 61, 32] @ v"
  have "toml_line k v @ r = ?s @ 10 # r" by (simp add: toml_line_def)
  moreover have "10 \<notin> set ?s" "length ?s < 511" using k(2,7) assms(2,4) by (auto simp: plain_def)
  ultimately have "file_lines (toml_line k v @ r) = (?s @ [10]) # file_lines r" using file_lines_line [of ?s r] by simp
  then show ?thesis using key_line [OF k(1-6) assms(2,3)] by simp
qed

text \<open>Metadata that the format can hold: no control bytes, no quotes in the lists, and lines that fit.\<close>

definition writable :: "pkg_meta_t \<Rightarrow> bool" where
  "writable m \<longleftrightarrow> meta_ok m \<and> name m \<noteq> [] \<and> version m \<noteq> [] \<and> plain (name m) \<and> plain (version m) \<and>
     plain (description m) \<and> plain (author m) \<and> plain (license m) \<and> plain (arch m) \<and>
     (\<forall>d \<in> set (deps m). plain d \<and> 34 \<notin> set d) \<and> (\<forall>f \<in> set (files m). plain f \<and> 34 \<notin> set f) \<and>
     length (toml_list (deps m)) < 480 \<and> length (toml_list (files m)) < 480"

lemma meta_read_back:
  assumes "writable m" "fopen_read K path st = Some (toml_text m)"
  shows "meta_parse_toml K path meta_zero st = (0, m, st)"
proof -
  note w = assms(1) [unfolded writable_def meta_ok_def]
  have len: "length (quoted s) < 480" if "length s \<le> 255" for s using that by (simp add: quoted_def)
  have lists: "list_value HBPKG_MAX_DEPS 64 (toml_list (deps m)) [] = deps m"
      "list_value HBPKG_MAX_FILES 256 (toml_list (files m)) [] = files m"
    using w by (auto intro!: list_value_list simp: HBPKG_MAX_DEPS_def HBPKG_MAX_FILES_def less_Suc_eq_le)
  have "file_lines [] = []" by (simp add: file_lines.simps)
  then have "fold parse_line (file_lines (toml_text m)) meta_zero = m"
    using w lists plain_list [of "deps m"] plain_list [of "files m"] read_line [of "''files''" "toml_list (files m)" "[]"]
    by (simp add: toml_text_def read_line len list_tight set_key_def meta_zero_def)
  then show ?thesis using assms(2) w by (simp add: meta_parse_toml_def Let_def)
qed

section \<open>Properties\<close>

text \<open>C32: Whatever a metadata file holds, the parsed structure fits its arrays: no string is longer than its
  array less the NUL, and there are at most 32 dependencies and 1024 files. When the parser succeeds the
  name and the version are there.\<close>

theorem meta_parse_fits:
  assumes "meta_ok out" "meta_parse_toml K path out st = (r, m, st')"
  shows "meta_ok m \<and> (r = 0 \<longrightarrow> name m \<noteq> [] \<and> version m \<noteq> []) \<and> (r \<noteq> 0 \<longrightarrow> r = - 1) \<and> disk st' = disk st"
  using assms meta_ok_fold [OF assms(1)]
  by (auto simp: meta_parse_toml_def Let_def split: option.splits if_splits)

text \<open>C31: Metadata that is written as text and read back is the same metadata.\<close>

theorem meta_round_trip:
  assumes "writable m" "fopen_read K path st = Some (toml_text m)"
  shows "meta_parse_toml K path meta_zero st = (0, m, st)"
  by (rule meta_read_back [OF assms])

text \<open>A package and a host that holds its metadata.\<close>

definition vim_meta :: pkg_meta_t where
  "vim_meta = \<lparr>name = bytes ''vim'', version = bytes ''9.1'', description = bytes ''an = editor'', author = [],
     license = bytes ''Vim'', arch = bytes ''x86'', deps = [bytes ''libc'', bytes ''terminfo''], files = [bytes ''bin/vim'']\<rparr>"

definition vim_host :: "unit host" where
  "vim_host = bare_host\<lparr>disk := [bytes ''m'' \<mapsto> toml_text vim_meta]\<rparr>"

lemma vim_read: "fopen_read easy_os (bytes ''m'') vim_host = Some (toml_text vim_meta)"
  by (simp add: fopen_read_def easy_os_def vim_host_def)

lemma vim_writable: "writable vim_meta"
  by code_simp

theorem meta_round_trip_witness:
  "meta_parse_toml easy_os (bytes ''m'') meta_zero vim_host = (0, vim_meta, vim_host)"
  by (rule meta_round_trip [OF vim_writable vim_read])

theorem meta_parse_fits_witness:
  "\<exists>r m st'. meta_parse_toml easy_os (bytes ''m'') meta_zero vim_host = (r, m, st') \<and> meta_ok m"
proof -
  have "meta_ok meta_zero" by (simp add: meta_ok_def meta_zero_def)
  then show ?thesis using meta_parse_fits by (metis prod_cases3)
qed

end
