(* ===== verification/Mv_Semver.thy ===== *)
theory Mv_Semver
  imports Mv_Posix
begin

text \<open>
  The version numbers of \<^verbatim>\<open>tools/hbpkg.c\<close>: \<open>semver_parse\<close>, \<open>semver_cmp\<close> and \<open>semver_satisfies\<close>. A C string
  is the list of its bytes; a character array that was cleared and then filled by \<^verbatim>\<open>strncpy\<close> with one
  byte less than its size is the list of the bytes that fitted.

  The program runs on a host whose \<^verbatim>\<open>unsigned long\<close> has 64 bits, so a \<^verbatim>\<open>%u\<close> conversion reads a 64-bit
  number, saturating, and keeps its low 32 bits, as \<^verbatim>\<open>strtoul\<close> and the cast do.
\<close>

section \<open>Reading a number\<close>

definition is_dec :: "u8 \<Rightarrow> bool" where
  "is_dec c \<longleftrightarrow> 48 \<le> c \<and> c \<le> 57"

definition dec_value :: "u8 list \<Rightarrow> nat" where
  "dec_value ds = foldl (\<lambda>n d. n * 10 + (unat d - 48)) 0 ds"

definition to_u32 :: "bool \<Rightarrow> nat \<Rightarrow> u32" where
  "to_u32 neg n = (if n \<ge> 2 ^ 64 then - 1 else if neg then - of_nat n else of_nat n)"

text \<open>One \<^verbatim>\<open>%u\<close>: white space, a sign, digits. None is a matching failure.\<close>

definition scan_uint :: "u8 list \<Rightarrow> (u32 \<times> u8 list) option" where
  "scan_uint s =
     (let s = dropWhile (\<lambda>c. isspace (uc c)) s;
          neg = (s \<noteq> [] \<and> hd s = ch (CHR ''-''));
          s = (if s \<noteq> [] \<and> (hd s = ch (CHR ''-'') \<or> hd s = ch (CHR ''+'')) then tl s else s);
          ds = takeWhile is_dec s
      in if ds = [] then None else Some (to_u32 neg (dec_value ds), dropWhile is_dec s))"

definition strtoul10 :: "u8 list \<Rightarrow> u32" where
  "strtoul10 s = (case scan_uint s of None \<Rightarrow> 0 | Some (n, _) \<Rightarrow> n)"

section \<open>Versions\<close>

record semver_t =
  major :: u32
  minor :: u32
  patch :: u32
  pre :: "u8 list"

text \<open>The two calls of \<^verbatim>\<open>sscanf\<close>: the number of fields converted and the version with them stored.\<close>

definition scan_minor :: "u8 list \<Rightarrow> semver_t \<Rightarrow> (nat \<times> u8 list) \<times> semver_t" where
  "scan_minor s out =
     (case scan_uint s of None \<Rightarrow> ((0, s), out)
      | Some (a, r) \<Rightarrow>
          let out = out\<lparr>major := a\<rparr>
          in if r \<noteq> [] \<and> hd r = ch (CHR ''.'') then
               (case scan_uint (tl r) of None \<Rightarrow> ((1, tl r), out) | Some (b, r) \<Rightarrow> ((2, r), out\<lparr>minor := b\<rparr>))
             else ((1, r), out))"

definition scan_patch :: "u8 list \<Rightarrow> semver_t \<Rightarrow> nat \<times> semver_t" where
  "scan_patch s out =
     (case scan_minor s out of ((n, r), out) \<Rightarrow>
        if n = 2 \<and> r \<noteq> [] \<and> hd r = ch (CHR ''.'') then
          (case scan_uint (tl r) of None \<Rightarrow> (2, out) | Some (c, _) \<Rightarrow> (3, out\<lparr>patch := c\<rparr>))
        else (n, out))"

definition semver_parse :: "u8 list \<Rightarrow> semver_t" where
  "semver_parse str =
     (let out = \<lparr>major = 0, minor = 0, patch = 0, pre = []\<rparr>;
          str = (if str \<noteq> [] \<and> (hd str = ch (CHR ''v'') \<or> hd str = ch (CHR ''V'')) then tl str else str);
          (n, out) = scan_patch str out;
          out = (if n < 3 then
                   (let ((n, _), out) = scan_minor str out
                    in if n < 2 then out\<lparr>major := strtoul10 str\<rparr> else out)
                 else out);
          dash = dropWhile (\<lambda>c. c \<noteq> ch (CHR ''-'')) str
      in if dash \<noteq> [] then out\<lparr>pre := take 15 (tl dash)\<rparr> else out)"

text \<open>The differences are taken in \<^verbatim>\<open>int\<close>: the wrapped 32-bit difference, read as signed.\<close>

definition semver_cmp :: "semver_t \<Rightarrow> semver_t \<Rightarrow> int" where
  "semver_cmp a b =
     (if major a \<noteq> major b then sint (major a - major b)
      else if minor a \<noteq> minor b then sint (minor a - minor b)
      else if patch a \<noteq> patch b then sint (patch a - patch b)
      else let a_pre = pre a \<noteq> []; b_pre = pre b \<noteq> []
           in if a_pre \<and> \<not> b_pre then - 1
              else if \<not> a_pre \<and> b_pre then 1
              else byte_cmp (pre a) (pre b))"

text \<open>The operator and its length; the last case is the exact match.\<close>

definition constraint_op :: "u8 list \<Rightarrow> string \<times> nat" where
  "constraint_op c =
     (if hd c = ch (CHR ''^'') then (''^'', 1)
      else if hd c = ch (CHR ''~'') then (''~'', 1)
      else if take 2 c = bytes ''>='' then (''>='', 2)
      else if take 2 c = bytes ''<='' then (''<='', 2)
      else if hd c = ch (CHR ''>'') then (''>'', 1)
      else if hd c = ch (CHR ''<'') then (''<'', 1)
      else (''='', 0))"

definition semver_satisfies :: "semver_t \<Rightarrow> u8 list option \<Rightarrow> bool" where
  "semver_satisfies ver con =
     (case con of None \<Rightarrow> True
      | Some c \<Rightarrow>
        if c = [] then True
        else let (op, op_len) = constraint_op c;
                 req = semver_parse (take 31 (drop op_len c));
                 cmp = semver_cmp ver req
             in if op = ''^'' then major ver = major req \<and> cmp \<ge> 0
                else if op = ''~'' then major ver = major req \<and> minor ver = minor req \<and> cmp \<ge> 0
                else if op = ''>='' then cmp \<ge> 0
                else if op = ''<='' then cmp \<le> 0
                else if op = ''>'' then cmp > 0
                else if op = ''<'' then cmp < 0
                else cmp = 0)"

section \<open>The order on versions\<close>

text \<open>The order of the specification: by the numbers, then a pre-release before its release, then the
  pre-release tags byte by byte.\<close>

definition semver_less :: "semver_t \<Rightarrow> semver_t \<Rightarrow> bool" where
  "semver_less a b \<longleftrightarrow>
     major a < major b \<or> major a = major b \<and>
      (minor a < minor b \<or> minor a = minor b \<and>
        (patch a < patch b \<or> patch a = patch b \<and>
          (pre a \<noteq> [] \<and> pre b = [] \<or>
           pre a \<noteq> [] \<and> pre b \<noteq> [] \<and> (pre a, pre b) \<in> lexord {(x, y). x < y})))"

text \<open>A version as the parser makes it, with numbers that are not negative as \<^verbatim>\<open>int\<close>.\<close>

definition semver_ok :: "semver_t \<Rightarrow> bool" where
  "semver_ok v \<longleftrightarrow> unat (major v) < 2 ^ 31 \<and> unat (minor v) < 2 ^ 31 \<and> unat (patch v) < 2 ^ 31 \<and>
     length (pre v) \<le> 15 \<and> 0 \<notin> set (pre v)"

lemma sint_diff:
  assumes "unat (a :: u32) < 2 ^ 31" "unat b < 2 ^ 31"
  shows "sint (a - b) = uint a - uint b"
proof -
  have "uint a < 2 ^ 31" "uint b < 2 ^ 31" using assms by (simp_all flip: nat_uint_eq add: nat_less_iff)
  moreover have "0 \<le> uint a" "0 \<le> uint b" by simp_all
  ultimately have b: "- (2 ^ 31) \<le> uint a - uint b" "uint a - uint b < 2 ^ 31" by linarith+
  have "sint (a - b) = signed_take_bit 31 (uint a - uint b)"
    unfolding word_sub_wi sint_sbintrunc' by simp
  also have "\<dots> = uint a - uint b" by (rule signed_take_bit_int_eq_self [OF b])
  finally show ?thesis .
qed

lemma sint_diff_sign:
  assumes "unat (a :: u32) < 2 ^ 31" "unat b < 2 ^ 31" "a \<noteq> b"
  shows "sint (a - b) < 0 \<longleftrightarrow> a < b" "sint (a - b) \<noteq> 0"
  using assms by (auto simp: sint_diff word_less_def word_uint_eq_iff)

lemma semver_cmp_less:
  assumes "semver_ok a" "semver_ok b"
  shows "semver_cmp a b < 0 \<longleftrightarrow> semver_less a b"
proof -
  note a = assms [unfolded semver_ok_def]
  show ?thesis
    using a sint_diff_sign(1) [of "major a" "major b"] sint_diff_sign(1) [of "minor a" "minor b"]
      sint_diff_sign(1) [of "patch a" "patch b"] byte_cmp_less [of "pre a" "pre b"]
    by (auto simp: semver_cmp_def semver_less_def Let_def)
qed

lemma semver_cmp_eq:
  assumes "semver_ok a" "semver_ok b"
  shows "semver_cmp a b = 0 \<longleftrightarrow> a = b"
proof -
  note a = assms [unfolded semver_ok_def]
  have "semver_cmp a b = 0 \<longleftrightarrow> major a = major b \<and> minor a = minor b \<and> patch a = patch b \<and> pre a = pre b"
    using a sint_diff_sign(2) [of "major a" "major b"] sint_diff_sign(2) [of "minor a" "minor b"]
      sint_diff_sign(2) [of "patch a" "patch b"] byte_cmp_eq_0 [of "pre a" "pre b"]
    by (auto simp: semver_cmp_def Let_def)
  then show ?thesis by auto
qed

lemma semver_cmp_swap:
  assumes "semver_ok a" "semver_ok b"
  shows "semver_cmp b a = - semver_cmp a b"
  using assms byte_cmp_antisym [of "pre b" "pre a"] by (auto simp: semver_cmp_def semver_ok_def Let_def sint_diff)

section \<open>Printing a version and reading it back\<close>

fun dec_text :: "nat \<Rightarrow> u8 list" where
  "dec_text n = (if n < 10 then [of_nat (48 + n)] else dec_text (n div 10) @ [of_nat (48 + n mod 10)])"

declare dec_text.simps [simp del]

definition semver_text :: "semver_t \<Rightarrow> u8 list" where
  "semver_text v = dec_text (unat (major v)) @ [46] @ dec_text (unat (minor v)) @ [46] @ dec_text (unat (patch v)) @
     (if pre v = [] then [] else 45 # pre v)"

lemma unat_digit: "n < 10 \<Longrightarrow> unat (of_nat (48 + n) :: u8) = 48 + n"
  by (subst unat_of_nat) simp

lemma is_dec_digit: "n < 10 \<Longrightarrow> is_dec (of_nat (48 + n))"
  using unat_digit [of n] by (simp add: is_dec_def word_le_nat_alt del: of_nat_add)

lemma dec_text_digits: "set (dec_text n) \<subseteq> Collect is_dec" "dec_text n \<noteq> []"
proof (induction n rule: dec_text.induct)
  case (1 n)
  { case 1
    show ?case
      using "1.IH" is_dec_digit [of n] is_dec_digit [of "n mod 10"] by (subst dec_text.simps) (auto simp del: of_nat_add) }
  { case 2
    show ?case by (subst dec_text.simps) simp }
qed

lemma dec_value_snoc: "dec_value (ds @ [d]) = dec_value ds * 10 + (unat d - 48)"
  by (simp add: dec_value_def)

lemma dec_value_text: "dec_value (dec_text n) = n"
proof (induction n rule: dec_text.induct)
  case (1 n)
  show ?case
  proof (cases "n < 10")
    case True
    then show ?thesis
      using unat_digit [of n] dec_value_snoc [of "[]"] by (subst dec_text.simps) (simp add: dec_value_def del: of_nat_add)
  next
    case False
    then have "dec_value (dec_text n) = n div 10 * 10 + n mod 10"
      using 1 unat_digit [of "n mod 10"] by (subst dec_text.simps) (simp add: dec_value_snoc del: of_nat_add)
    then show ?thesis by simp
  qed
qed

lemma dec_chars:
  assumes "is_dec (c :: u8)"
  shows "\<not> isspace (uc c)" "c \<notin> {45, 43, 46, 118, 86, 94, 126, 60, 62, 61}"
proof -
  have "48 \<le> uc c" "uc c \<le> 57" using assms by (simp_all add: is_dec_def word_le_def uc_def)
  then show "\<not> isspace (uc c)" by (auto simp: isspace_def)
  show "c \<notin> {45, 43, 46, 118, 86, 94, 126, 60, 62, 61}" using assms by (auto simp: is_dec_def)
qed

lemma dec_text_Cons: "\<exists>c ds. dec_text n = c # ds \<and> is_dec c \<and> (\<forall>d \<in> set ds. is_dec d)"
  using dec_text_digits [of n] by (cases "dec_text n") auto

lemma scan_dec:
  assumes "n < 2 ^ 32" "r = [] \<or> \<not> is_dec (hd r)"
  shows "scan_uint (dec_text n @ r) = Some (of_nat n, r)"
proof -
  obtain c ds where d: "dec_text n = c # ds" "is_dec c" "\<forall>d \<in> set ds. is_dec d" using dec_text_Cons by blast
  have "takeWhile is_dec (ds @ r) = ds" "dropWhile is_dec (ds @ r) = r"
    using d(3) assms(2) by (cases r; simp add: takeWhile_append2 dropWhile_append2)+
  then show ?thesis
    using d dec_chars [OF d(2)] dec_value_text [of n] assms(1)
    by (simp add: scan_uint_def to_u32_def Let_def)
qed

lemma hd_dec_text: "is_dec (hd (dec_text n @ r))" "dec_text n @ r \<noteq> []"
  using dec_text_Cons [of n] by auto

lemma no_dash_dec: "dropWhile (\<lambda>c. c \<noteq> 45) (dec_text n @ r) = dropWhile (\<lambda>c. c \<noteq> 45) r"
proof -
  have "\<forall>c \<in> set (dec_text n). c \<noteq> 45" using dec_text_digits(1) [of n] dec_chars(2) by fastforce
  then show ?thesis by (simp add: dropWhile_append2)
qed

lemma semver_parse_text:
  assumes "length (pre v) \<le> 15"
  shows "semver_parse (semver_text v) = v"
proof -
  define p where "p = (if pre v = [] then [] else 45 # pre v)"
  have lt: "unat x < 2 ^ 32" for x :: u32 using unat_lt_2p32 .
  have dots: "\<not> is_dec 46" "\<not> is_dec 45" by (simp_all add: is_dec_def)
  then have rest: "p = [] \<or> \<not> is_dec (hd p)" by (simp add: p_def)
  let ?c = "dec_text (unat (patch v)) @ p"
  let ?b = "dec_text (unat (minor v)) @ 46 # ?c"
  have sm: "semver_text v = dec_text (unat (major v)) @ 46 # ?b" by (simp add: semver_text_def p_def)
  have "hd (semver_text v) \<noteq> 118 \<and> hd (semver_text v) \<noteq> 86"
    using dec_chars(2) [OF hd_dec_text(1) [of "unat (major v)" "46 # ?b"]] unfolding sm by simp
  moreover have "scan_patch (semver_text v) out = (3, out\<lparr>major := major v, minor := minor v, patch := patch v\<rparr>)" for out
    using scan_dec [OF lt rest, of "patch v"] scan_dec [OF lt, of "46 # ?c" "minor v"] scan_dec [OF lt, of "46 # ?b" "major v"] dots
    unfolding sm by (simp add: scan_patch_def scan_minor_def)
  moreover have "dropWhile (\<lambda>c. c \<noteq> 45) (semver_text v) = p"
    unfolding sm using no_dash_dec by (simp add: p_def)
  ultimately show ?thesis
    using assms by (cases v) (auto simp: semver_parse_def Let_def p_def simp del: dropWhile_eq_Nil_conv)
qed

lemma constraint_text:
  assumes "length (semver_text v) \<le> 31"
  shows "constraint_op (bytes ''^'' @ semver_text v) = (''^'', 1)" "constraint_op (bytes ''~'' @ semver_text v) = (''~'', 1)"
    "constraint_op (bytes ''>='' @ semver_text v) = (''>='', 2)" "constraint_op (bytes ''<='' @ semver_text v) = (''<='', 2)"
    "constraint_op (bytes ''>'' @ semver_text v) = (''>'', 1)" "constraint_op (bytes ''<'' @ semver_text v) = (''<'', 1)"
    "constraint_op (semver_text v) = (''='', 0)"
proof -
  obtain c r where t: "semver_text v = c # r" "is_dec c"
    using dec_text_Cons [of "unat (major v)"] by (auto simp: semver_text_def)
  note n = dec_chars(2) [OF t(2)]
  show "constraint_op (bytes ''^'' @ semver_text v) = (''^'', 1)" "constraint_op (bytes ''~'' @ semver_text v) = (''~'', 1)"
    "constraint_op (bytes ''>='' @ semver_text v) = (''>='', 2)" "constraint_op (bytes ''<='' @ semver_text v) = (''<='', 2)"
    by (simp_all add: constraint_op_def)
  show "constraint_op (bytes ''>'' @ semver_text v) = (''>'', 1)" "constraint_op (bytes ''<'' @ semver_text v) = (''<'', 1)"
    "constraint_op (semver_text v) = (''='', 0)"
    using n unfolding t(1) by (simp_all add: constraint_op_def)
qed

section \<open>Properties\<close>


definition v1_2_3 :: semver_t where "v1_2_3 = \<lparr>major = 1, minor = 2, patch = 3, pre = []\<rparr>"
definition v1_2_3_rc :: semver_t where "v1_2_3_rc = \<lparr>major = 1, minor = 2, patch = 3, pre = bytes ''rc''\<rparr>"

lemma v_ok: "semver_ok v1_2_3" "semver_ok v1_2_3_rc"
  by (simp_all add: semver_ok_def v1_2_3_def v1_2_3_rc_def)


text \<open>A version that is printed and read back is the same version, and a constraint made of an
  operator and a printed version means what it says: the same major number and not older for a caret,
  the same major and minor numbers and not older for a tilde, and the order for the comparisons; a
  bare version is the exact match.\<close>

theorem semver_satisfies_correct:
  assumes "semver_ok v" "semver_ok r" "length (semver_text r) \<le> 31"
  shows "semver_parse (semver_text r) = r \<and>
    (semver_satisfies v (Some (bytes ''^'' @ semver_text r)) \<longleftrightarrow> major v = major r \<and> \<not> semver_less v r) \<and>
    (semver_satisfies v (Some (bytes ''~'' @ semver_text r)) \<longleftrightarrow> major v = major r \<and> minor v = minor r \<and> \<not> semver_less v r) \<and>
    (semver_satisfies v (Some (bytes ''>='' @ semver_text r)) \<longleftrightarrow> \<not> semver_less v r) \<and>
    (semver_satisfies v (Some (bytes ''<='' @ semver_text r)) \<longleftrightarrow> \<not> semver_less r v) \<and>
    (semver_satisfies v (Some (bytes ''>'' @ semver_text r)) \<longleftrightarrow> semver_less r v) \<and>
    (semver_satisfies v (Some (bytes ''<'' @ semver_text r)) \<longleftrightarrow> semver_less v r) \<and>
    (semver_satisfies v (Some (semver_text r)) \<longleftrightarrow> v = r)"
proof -
  have p: "semver_parse (semver_text r) = r"
    by (rule semver_parse_text) (use assms(2) in \<open>simp add: semver_ok_def\<close>)
  have "semver_text r \<noteq> []" using dec_text_digits(2) by (simp add: semver_text_def)
  then show ?thesis
    using p assms(3) constraint_text [OF assms(3)] semver_cmp_less [OF assms(1,2)] semver_cmp_less [OF assms(2,1)]
      semver_cmp_eq [OF assms(1,2)] semver_cmp_swap [OF assms(1,2)]
    by (auto simp: semver_satisfies_def)
qed

theorem semver_satisfies_correct_witness:
  "semver_satisfies v1_2_3 (Some (bytes ''~1.2.3-rc'')) \<and> \<not> semver_satisfies v1_2_3_rc (Some (bytes ''1.2.3''))"
proof -
  have t: "semver_text v1_2_3 = bytes ''1.2.3''" "semver_text v1_2_3_rc = bytes ''1.2.3-rc''"
    by (simp_all add: semver_text_def v1_2_3_def v1_2_3_rc_def dec_text.simps)
  show ?thesis
    using semver_satisfies_correct [OF v_ok(1,2)] semver_satisfies_correct [OF v_ok(2,1)] unfolding t
    by (simp add: semver_less_def v1_2_3_def v1_2_3_rc_def)
qed

text \<open>The exact operator written out matches no version but 0.0.0: the sign is read as part of the
  number.\<close>

theorem semver_equals_operator:
  assumes "semver_ok v" "45 \<notin> set s"
  shows "semver_satisfies v (Some (bytes ''='' @ s)) \<longleftrightarrow> v = \<lparr>major = 0, minor = 0, patch = 0, pre = []\<rparr>"
proof -
  let ?t = "61 # take 30 s"
  have n: "scan_uint ?t = None" by (simp add: scan_uint_def isspace_def uc_def is_dec_def)
  have d: "45 \<notin> set (take 30 s)" using assms(2) by (auto dest: in_set_takeD)
  have "semver_parse ?t = \<lparr>major = 0, minor = 0, patch = 0, pre = []\<rparr>"
    using n d by (simp add: semver_parse_def scan_patch_def scan_minor_def strtoul10_def Let_def)
  moreover have "constraint_op (61 # s) = (''='', 0)" by (simp add: constraint_op_def)
  moreover have "semver_ok \<lparr>major = 0, minor = 0, patch = 0, pre = []\<rparr>" by (simp add: semver_ok_def)
  ultimately show ?thesis using semver_cmp_eq [OF assms(1)] by (simp add: semver_satisfies_def)
qed

theorem semver_equals_operator_witness: "\<not> semver_satisfies v1_2_3 (Some (bytes ''=1.2.3''))"
  using semver_equals_operator [OF v_ok(1), of "bytes ''1.2.3''"] by (simp add: v1_2_3_def)

end
