(* ===== verification/Mv_Hbpkg.thy ===== *)
theory Mv_Hbpkg
  imports Mv_Pkg_Meta Mv_Semver
begin

text \<open>
  The commands of \<^verbatim>\<open>tools/hbpkg.c\<close>. The shell that \<^verbatim>\<open>system\<close> starts is a parameter of the host; the model
  gives it the command lines the code builds, cut to the arrays they are built in. \<open>cmd_install\<close> calls
  itself for the dependencies of a package; the model counts the levels of that recursion, and None
  means that a number of levels was not enough.
\<close>

section \<open>Texts\<close>

definition int_text :: "int \<Rightarrow> str" where
  "int_text i = (if i < 0 then 45 # dec_text (nat (- i)) else dec_text (nat i))"

definition q1 :: "str \<Rightarrow> str" where
  "q1 s = 39 # s @ [39]"

definition dash :: str where
  "dash = [0xE2, 0x80, 0x94]"

definition pad_right :: "nat \<Rightarrow> str \<Rightarrow> str" where
  "pad_right n s = s @ replicate (n - length s) 32"

fun contains :: "str \<Rightarrow> str \<Rightarrow> bool" where
  "contains x [] = (x = [])"
| "contains x (c # s) = (take (length x) (c # s) = x \<or> contains x s)"

text \<open>One call of \<^verbatim>\<open>strtok\<close> on the rest of a line: the token and what is left behind its delimiter.\<close>

definition token :: "u8 \<Rightarrow> str \<Rightarrow> str option \<times> str" where
  "token d s =
     (let s = dropWhile (\<lambda>c. c = d) s
      in if s = [] then (None, []) else (Some (takeWhile (\<lambda>c. c \<noteq> d) s), tl (dropWhile (\<lambda>c. c \<noteq> d) s)))"

definition row :: "str \<Rightarrow> str \<Rightarrow> str \<Rightarrow> str" where
  "row a b c = pad_right 24 a @ bytes ''  '' @ pad_right 12 b @ bytes ''  '' @ c @ [10]"

definition heading :: str where
  "heading = row (bytes ''Name'') (bytes ''Version'') (bytes ''Description'') @
     row (replicate 24 45) (replicate 12 45) (replicate 46 45)"

section \<open>Unpacking and copying\<close>

definition extract_hbp :: "'w os \<Rightarrow> str \<Rightarrow> str \<Rightarrow> 'w host \<Rightarrow> int \<times> 'w host" where
  "extract_hbp K hbp_path dest_dir st =
     (let cmd_buf = snp (PATH_MAX * 2 + 64)
            (bytes ''mkdir -p '' @ q1 dest_dir @ bytes '' && tar -xzf '' @ q1 hbp_path @ bytes '' -C '' @ q1 dest_dir);
          (r, st) = run_system K cmd_buf st
      in (if r = 0 then 0 else - 1, st))"

definition unsafe_path :: "str \<Rightarrow> bool" where
  "unsafe_path f \<longleftrightarrow> (f \<noteq> [] \<and> hd f = ch (CHR ''/'')) \<or> contains (bytes ''..'') f"

definition mkdir_cmd :: "str \<Rightarrow> str" where
  "mkdir_cmd f = snp (PATH_MAX * 2 + 32) (bytes ''mkdir -p \"$(dirname '' @ q1 (snp PATH_MAX (47 # f)) @ bytes '')\"'')"

definition copy_cmd :: "str \<Rightarrow> str \<Rightarrow> str" where
  "copy_cmd dir f = snp (PATH_MAX * 2 + 32)
     (bytes ''cp '' @ q1 (snp PATH_MAX (dir @ bytes ''/HBPKG/files/'' @ f)) @ bytes '' '' @ q1 (snp PATH_MAX (47 # f)))"

definition traversal_rejected :: "str \<Rightarrow> 'w host \<Rightarrow> 'w host" where
  "traversal_rejected f st = log_error (bytes ''HBPKG-SEC-001: path traversal rejected: '' @ f) st"

definition copy_failed :: "str \<Rightarrow> 'w host \<Rightarrow> 'w host" where
  "copy_failed f st = log_error (bytes ''Failed to install file: '' @ snp PATH_MAX (47 # f)) st"

fun copy_files :: "'w os \<Rightarrow> str \<Rightarrow> str list \<Rightarrow> 'w host \<Rightarrow> int \<times> 'w host" where
  "copy_files K dir [] st = (0, st)"
| "copy_files K dir (f # fs) st =
     (if unsafe_path f then (- 1, traversal_rejected f st)
      else let (_, st) = run_system K (mkdir_cmd f) st;
               (r, st) = run_system K (copy_cmd dir f) st
           in if r \<noteq> 0 then (- 1, copy_failed f st)
              else copy_files K dir fs st)"

definition install_files :: "'w os \<Rightarrow> str \<Rightarrow> pkg_meta_t \<Rightarrow> 'w host \<Rightarrow> int \<times> 'w host" where
  "install_files K dir meta st = copy_files K dir (files meta) st"

definition run_install_script :: "'w os \<Rightarrow> str \<Rightarrow> str \<Rightarrow> 'w host \<Rightarrow> int \<times> 'w host" where
  "run_install_script K dir phase st =
     (let script = snp PATH_MAX (dir @ bytes ''/HBPKG/install.sh'')
      in if \<not> stat_ok K script st then (0, st)
         else let (r, st) = run_system K (snp (PATH_MAX + 32) (bytes ''PHASE='' @ phase @ bytes '' sh '' @ q1 script)) st
              in (if r = 0 then 0 else - 1, st))"

section \<open>install\<close>

text \<open>An argument split at the sign: the name and the constraint, or None for a name that is too long.\<close>

definition split_arg :: "str \<Rightarrow> (str \<times> str) option" where
  "split_arg a =
     (if 64 \<in> set a then
        (let nm = takeWhile (\<lambda>c. c \<noteq> 64) a
         in if length nm \<ge> HBPKG_NAME_LEN then None
            else Some (nm, take (HBPKG_VER_LEN - 1) (tl (dropWhile (\<lambda>c. c \<noteq> 64) a))))
      else Some (take (HBPKG_NAME_LEN - 1) a, []))"

definition hbp_path :: "str \<Rightarrow> str" where
  "hbp_path safe = snp PATH_MAX (HBPKG_CACHE_DIR @ [47] @ safe @ bytes ''.hbp'')"

definition extract_dir :: "str \<Rightarrow> str" where
  "extract_dir safe = snp PATH_MAX (HBPKG_CACHE_DIR @ [47] @ safe @ bytes ''.tmp'')"

definition meta_path :: "str \<Rightarrow> str" where
  "meta_path safe = snp PATH_MAX (extract_dir safe @ bytes ''/HBPKG/meta.toml'')"

definition key_path :: str where
  "key_path = bytes ''/etc/hbpkg/trusted.pub''"

definition fetch :: "'w os \<Rightarrow> str \<Rightarrow> 'w host \<Rightarrow> int \<times> 'w host" where
  "fetch K safe st =
     (if stat_ok K (hbp_path safe) st then (0, st)
      else let st = log_info (bytes ''  Fetching '' @ safe @ bytes '' from repository ...'') st;
               url = snp 512 (HBPKG_REPO_URL @ [47] @ safe @ bytes ''.hbp'');
               st = mkdir_host K HBPKG_CACHE_DIR st;
               (rc, st) = run_system K (snp 768 (bytes ''curl -fsSL --retry 3 -o '' @ q1 (hbp_path safe) @ bytes '' '' @ q1 url)) st
           in if rc \<noteq> 0
              then (1, log_error (bytes ''  Download failed for '' @ safe @ bytes '' (exit '' @ int_text rc @ bytes '')'') st)
              else (0, st))"

definition verify :: "'w os \<Rightarrow> str \<Rightarrow> pkg_meta_t \<Rightarrow> 'w host \<Rightarrow> int \<times> 'w host" where
  "verify K safe meta st =
     (if stat_ok K key_path st then
        (if \<not> meta_verify_sig meta key_path
         then (1, log_error (bytes ''  Signature verification FAILED for '' @ safe @ bytes '' '' @ dash @ bytes '' aborting.'') st)
         else (0, log_info (bytes ''  Signature verified OK.'') st))
      else (0, log_warn (bytes ''  No trusted key at '' @ key_path @ bytes '' '' @ dash @ bytes '' skipping signature check.'') st))"

text \<open>What becomes of an argument before its dependencies are looked at: the command ends, the argument
  is done, or its metadata is there.\<close>

datatype prepared = Failed | Present | Ready str pkg_meta_t

definition unpack :: "'w os \<Rightarrow> str \<Rightarrow> 'w host \<Rightarrow> prepared \<times> 'w host" where
  "unpack K safe st =
     (let (r, st) = extract_hbp K (hbp_path safe) (extract_dir safe) st
      in if r \<noteq> 0 then (Failed, log_error (bytes ''  Extraction failed for '' @ safe) st)
         else let (r, meta, st) = meta_parse_toml K (meta_path safe) meta_zero st
              in if r \<noteq> 0 then (Failed, log_error (bytes ''  Cannot parse metadata for '' @ safe) st)
                 else let (r, st) = verify K safe meta st
                      in if r \<noteq> 0 then (Failed, st) else (Ready safe meta, st))"

definition prepare :: "'w os \<Rightarrow> str \<Rightarrow> 'w host \<Rightarrow> prepared \<times> 'w host" where
  "prepare K a st =
     (case split_arg a of None \<Rightarrow> (Failed, log_error (bytes ''Package name too long: '' @ a) st)
      | Some (nm, ver) \<Rightarrow>
        (case sanitise_name (Some nm) HBPKG_NAME_LEN of
           None \<Rightarrow> (Failed, log_error (bytes ''Invalid package name: '' @ nm) st)
         | Some safe \<Rightarrow>
             if db_pkg_installed K safe st
             then (Present, log_info (bytes ''Package '' @ q1 safe @ bytes '' is already installed.'') st)
             else let st = log_info (bytes ''Installing '' @ safe @ (if ver \<noteq> [] then [64] else []) @ ver @ bytes '' ...'') st;
                      (r, st) = fetch K safe st
                  in if r \<noteq> 0 then (Failed, st) else unpack K safe st))"

definition complete :: "'w os \<Rightarrow> str \<Rightarrow> pkg_meta_t \<Rightarrow> 'w host \<Rightarrow> int \<times> 'w host" where
  "complete K safe meta st =
     (let (_, st) = run_install_script K (extract_dir safe) (bytes ''pre'') st;
          (r, st) = install_files K (extract_dir safe) meta st
      in if r \<noteq> 0 then (1, log_error (bytes ''  File install failed for '' @ safe) st)
         else let (_, st) = run_install_script K (extract_dir safe) (bytes ''post'') st;
                  (r, st) = db_pkg_add K meta st
              in if r \<noteq> 0 then (1, log_error (bytes ''  Database update failed for '' @ safe) st)
                 else (0, log_info (bytes ''  Installed '' @ name meta @ bytes '' '' @ version meta @ bytes '' successfully.'') st))"

definition usage_install :: "'w host \<Rightarrow> 'w host" where
  "usage_install st = errs (bytes ''Usage: hbpkg install <name[@version]> ...'' @ [10]) st"

definition resolving :: "pkg_meta_t \<Rightarrow> 'w host \<Rightarrow> 'w host" where
  "resolving meta st = log_info (bytes ''  Resolving '' @ int_text (int (length (deps meta))) @ bytes '' dependencies ...'') st"

definition dep_failed :: "str \<Rightarrow> 'w host \<Rightarrow> 'w host" where
  "dep_failed d st = log_error (bytes ''  Dependency install failed: '' @ d) st"

fun cmd_install :: "nat \<Rightarrow> 'w os \<Rightarrow> str list \<Rightarrow> 'w host \<Rightarrow> (int \<times> 'w host) option"
  and install_args :: "nat \<Rightarrow> 'w os \<Rightarrow> str list \<Rightarrow> 'w host \<Rightarrow> (int \<times> 'w host) option"
  and install_deps :: "nat \<Rightarrow> 'w os \<Rightarrow> str list \<Rightarrow> 'w host \<Rightarrow> (int \<times> 'w host) option"
where
  "cmd_install 0 K args st = None"
| "cmd_install (Suc n) K args st =
     (if args = [] then Some (1, usage_install st) else install_args n K args st)"
| "install_args n K [] st = Some (0, st)"
| "install_args n K (a # as) st =
     (case prepare K a st of
        (Failed, st) \<Rightarrow> Some (1, st)
      | (Present, st) \<Rightarrow> install_args n K as st
      | (Ready safe meta, st) \<Rightarrow>
          (case (if deps meta \<noteq> []
                 then install_deps n K (deps meta) (resolving meta st) else Some (0, st)) of
             None \<Rightarrow> None
           | Some (r, st) \<Rightarrow>
               if r \<noteq> 0 then Some (1, st)
               else (case complete K safe meta st of
                       (r, st) \<Rightarrow> if r \<noteq> 0 then Some (1, st) else install_args n K as st)))"
| "install_deps n K [] st = Some (0, st)"
| "install_deps n K (d # ds) st =
     (if \<not> db_pkg_installed K d st then
        (case cmd_install n K [d] st of None \<Rightarrow> None
         | Some (r, st) \<Rightarrow>
             if r \<noteq> 0 then Some (1, dep_failed d st) else install_deps n K ds st)
      else install_deps n K ds st)"

section \<open>The other commands\<close>

definition remove_one :: "'w os \<Rightarrow> str \<Rightarrow> 'w host \<Rightarrow> int \<times> 'w host" where
  "remove_one K a st =
     (case sanitise_name (Some a) HBPKG_NAME_LEN of
        None \<Rightarrow> (1, log_error (bytes ''Invalid package name: '' @ a) st)
      | Some safe \<Rightarrow>
        (case db_pkg_get K safe st of
           None \<Rightarrow> (1, log_error (bytes ''Package '' @ q1 safe @ bytes '' is not installed.'') st)
         | Some r \<Rightarrow>
             let st = log_info (bytes ''Removing '' @ rec_name r @ bytes '' '' @ rec_version r @ bytes '' ...'') st;
                 (rc, st) = db_pkg_remove K safe st
             in if rc \<noteq> 0 then (1, log_error (bytes ''Database removal failed for '' @ safe) st)
                else (0, log_info (bytes ''Removed '' @ safe @ bytes ''.'') st)))"

fun remove_args :: "'w os \<Rightarrow> str list \<Rightarrow> 'w host \<Rightarrow> int \<times> 'w host" where
  "remove_args K [] st = (0, st)"
| "remove_args K (a # as) st = (case remove_one K a st of (r, st) \<Rightarrow> if r \<noteq> 0 then (1, st) else remove_args K as st)"

definition cmd_remove :: "'w os \<Rightarrow> str list \<Rightarrow> 'w host \<Rightarrow> int \<times> 'w host" where
  "cmd_remove K args st =
     (if args = [] then (1, errs (bytes ''Usage: hbpkg remove <name>'' @ [10]) st) else remove_args K args st)"

definition cmd_update :: "'w os \<Rightarrow> 'w host \<Rightarrow> int \<times> 'w host" where
  "cmd_update K st =
     (let st = log_info (bytes ''Refreshing package index from '' @ HBPKG_REPO_URL @ bytes '' ...'') st;
          st = mkdir_host K HBPKG_CACHE_DIR st;
          (rc, st) = run_system K (snp 512 (bytes ''curl -fsSL --retry 3 -o '' @ q1 HBPKG_REPO_INDEX @ bytes '' '' @
                       q1 (HBPKG_REPO_URL @ bytes ''/index.db''))) st
      in if rc \<noteq> 0 then (1, log_error (bytes ''Index fetch failed (exit '' @ int_text rc @ bytes '')'') st)
         else (0, log_info (bytes ''Package index updated.'') st))"

definition list_record :: "pkg_record \<Rightarrow> str" where
  "list_record r = (if rec_name r \<noteq> [] then row (rec_name r) (rec_version r) (rec_description r) else [])"

definition list_line :: "str \<Rightarrow> str" where
  "list_line raw =
     (let line = takeWhile (\<lambda>c. c \<noteq> 0) raw; (n, r) = token 9 line; (v, r) = token 9 r; (d, r) = token 10 r
      in case (n, v) of (Some n, Some v) \<Rightarrow> row n v (case d of None \<Rightarrow> [] | Some d \<Rightarrow> d) | _ \<Rightarrow> [])"

definition db_pkg_list :: "'w os \<Rightarrow> bool \<Rightarrow> 'w host \<Rightarrow> int \<times> 'w host" where
  "db_pkg_list K installed_only st =
     (if installed_only then
        (case fopen_read K HBPKG_DB_PATH st of None \<Rightarrow> (0, log_warn (bytes ''No packages installed.'') st)
         | Some db \<Rightarrow> (0, outs (heading @ concat (map list_record (records db))) st))
      else
        (case fopen_read K HBPKG_REPO_INDEX st of
           None \<Rightarrow> (1, log_warn (bytes ''No package index. Run '' @ q1 (bytes ''hbpkg update'') @ bytes '' first.'') st)
         | Some s \<Rightarrow> (0, outs (heading @ concat (map list_line (file_lines s))) st)))"

definition cmd_list :: "'w os \<Rightarrow> str list \<Rightarrow> 'w host \<Rightarrow> int \<times> 'w host" where
  "cmd_list K args st = db_pkg_list K (bytes ''--installed'' \<in> set args) st"

fun upgrade_args :: "nat \<Rightarrow> 'w os \<Rightarrow> str list \<Rightarrow> 'w host \<Rightarrow> (int \<times> 'w host) option" where
  "upgrade_args n K [] st = Some (0, st)"
| "upgrade_args n K (a # as) st =
     (case cmd_install n K [a] (log_info (bytes ''Upgrading '' @ a @ bytes '' ...'') st) of None \<Rightarrow> None
      | Some (r, st) \<Rightarrow> if r \<noteq> 0 then Some (1, st) else upgrade_args n K as st)"

definition cmd_upgrade :: "nat \<Rightarrow> 'w os \<Rightarrow> str list \<Rightarrow> 'w host \<Rightarrow> (int \<times> 'w host) option" where
  "cmd_upgrade n K args st =
     (if args = [] then Some (db_pkg_list K True (log_info (bytes ''Upgrading all installed packages ...'') st))
      else upgrade_args n K args st)"

definition search_line :: "str \<Rightarrow> str \<Rightarrow> str option" where
  "search_line query raw =
     (let line = takeWhile (\<lambda>c. c \<noteq> 0) raw
      in if contains query line then
           (let (n, r) = token 9 line; (v, r) = token 9 r; (d, r) = token 10 r
            in case (n, v, d) of (Some n, Some v, Some d) \<Rightarrow> Some (row n v d) | _ \<Rightarrow> None)
         else None)"

definition cmd_search :: "'w os \<Rightarrow> str list \<Rightarrow> 'w host \<Rightarrow> int \<times> 'w host" where
  "cmd_search K args st =
     (if args = [] then (1, errs (bytes ''Usage: hbpkg search <query>'' @ [10]) st)
      else (case fopen_read K HBPKG_REPO_INDEX st of
              None \<Rightarrow> (1, log_warn (bytes ''No package index found. Run '' @ q1 (bytes ''hbpkg update'') @ bytes '' first.'') st)
            | Some s \<Rightarrow>
                let rows = List.map_filter (search_line (hd args)) (file_lines s);
                    st = outs (heading @ concat rows) st
                in (0, if rows = [] then log_info (bytes ''No packages matching '' @ q1 (hd args) @ bytes ''.'') st else st)))"

definition cmd_info :: "'w os \<Rightarrow> str list \<Rightarrow> 'w host \<Rightarrow> int \<times> 'w host" where
  "cmd_info K args st =
     (if args = [] then (1, errs (bytes ''Usage: hbpkg info <name>'' @ [10]) st)
      else (case sanitise_name (Some (hd args)) HBPKG_NAME_LEN of
              None \<Rightarrow> (1, log_error (bytes ''Invalid name: '' @ hd args) st)
            | Some safe \<Rightarrow>
              (case db_pkg_get K safe st of
                 None \<Rightarrow> (1, log_warn (bytes ''Package '' @ q1 safe @ bytes '' is not installed.'') st)
               | Some r \<Rightarrow>
                   (0, outs
                     (bytes ''Name:         '' @ rec_name r @ [10] @
                      bytes ''Version:      '' @ rec_version r @ [10] @
                      bytes ''Description:  '' @ rec_description r @ [10] @
                      bytes ''Dependencies: '' @ (if rec_deps r \<noteq> [] then rec_deps r else bytes ''(none)'') @ [10] @
                      bytes ''Installed:    '' @ rec_date r @ [10] @
                      bytes ''Files:        '' @ dec_text (unat (rec_file_count r)) @ [10] @
                      bytes ''Checksum:     '' @ rec_checksum r @ [10]) st))))"

definition build_file :: "'w os \<Rightarrow> str \<Rightarrow> str \<Rightarrow> 'w host \<Rightarrow> 'w host" where
  "build_file K stage f st =
     (let dest = snp PATH_MAX (stage @ bytes ''/HBPKG/files/'' @ f);
          (_, st) = run_system K (snp 512 (bytes ''mkdir -p \"$(dirname '' @ q1 dest @ bytes '')\"'')) st;
          (_, st) = run_system K (snp 512 (bytes ''cp '' @ q1 f @ bytes '' '' @ q1 dest)) st
      in st)"

definition pack :: "'w os \<Rightarrow> str \<Rightarrow> str \<Rightarrow> pkg_meta_t \<Rightarrow> str \<Rightarrow> 'w host \<Rightarrow> int \<times> 'w host" where
  "pack K spc safe meta out_name st =
     (let stage = snp PATH_MAX (bytes ''/tmp/hbpkg_build_'' @ safe);
          (_, st) = run_system K (snp 512 (bytes ''rm -rf '' @ q1 stage @ bytes '' && mkdir -p '' @ q1 (stage @ bytes ''/HBPKG/files''))) st;
          (_, st) = run_system K (snp 512 (bytes ''cp '' @ q1 spc @ bytes '' '' @ q1 (stage @ bytes ''/HBPKG/meta.toml''))) st;
          st = fold (build_file K stage) (files meta) st;
          (rc, st) = run_system K (snp 512 (bytes ''tar -czf '' @ q1 out_name @ bytes '' -C '' @ q1 stage @ bytes '' HBPKG'')) st
      in if rc \<noteq> 0 then (1, log_error (bytes ''tar failed (exit '' @ int_text rc @ bytes '')'') st)
         else let (_, st) = run_system K (snp 512 (bytes ''rm -rf '' @ q1 stage)) st
              in (0, log_info (bytes ''Built: '' @ out_name) st))"

definition cmd_build :: "'w os \<Rightarrow> str list \<Rightarrow> 'w host \<Rightarrow> int \<times> 'w host" where
  "cmd_build K args st =
     (if args = [] then (1, errs (bytes ''Usage: hbpkg build <spec.toml>'' @ [10]) st)
      else let spc = hd args; (r, meta, st) = meta_parse_toml K spc meta_zero st
           in if r \<noteq> 0 then (1, log_error (bytes ''Cannot parse spec: '' @ spc) st)
              else (case sanitise_name (Some (name meta)) HBPKG_NAME_LEN of
                      None \<Rightarrow> (1, log_error (bytes ''Invalid package name in spec: '' @ name meta) st)
                    | Some safe \<Rightarrow>
                        let out_name = snp PATH_MAX (safe @ [45] @ version meta @ bytes ''.hbp'');
                            st = log_info (bytes ''Building '' @ out_name @ bytes '' ...'') st
                        in pack K spc safe meta out_name st))"

text \<open>The loop of \<open>cmd_audit\<close>: the records seen, the good and the suspect ones, and the host.\<close>

fun audit_loop :: "pkg_record list \<Rightarrow> int \<Rightarrow> int \<Rightarrow> int \<Rightarrow> 'w host \<Rightarrow> (int \<times> int \<times> int) \<times> 'w host" where
  "audit_loop [] tot good bad st = ((tot, good, bad), st)"
| "audit_loop (r # rs) tot good bad st =
     (if rec_name r \<noteq> [] then audit_loop rs (tot + 1) (good + 1) bad st
      else audit_loop rs (tot + 1) good (bad + 1) (log_warn (bytes ''  Corrupt record at index '' @ int_text (tot + 1)) st))"

definition cmd_audit :: "'w os \<Rightarrow> 'w host \<Rightarrow> int \<times> 'w host" where
  "cmd_audit K st =
     (let st = log_info (bytes ''Auditing installed packages ...'') st
      in case fopen_read K HBPKG_DB_PATH st of None \<Rightarrow> (0, log_warn (bytes ''No package database found.'') st)
         | Some db \<Rightarrow>
             let ((tot, good, bad), st) = audit_loop (records db) 0 0 0 st
             in (if bad > 0 then 1 else 0,
                 log_info (bytes ''Audit complete: '' @ int_text tot @ bytes '' packages, '' @ int_text good @ bytes '' OK, '' @
                   int_text bad @ bytes '' suspect.'') st))"

definition help_lines :: "string list" where
  "help_lines =
    [''Usage: hbpkg <command> [args]'', [], ''Commands:'',
     ''  install <name[@ver]>  Install a package (+ dependencies)'',
     ''  remove  <name>        Uninstall a package'',
     ''  update                Refresh the package repository index'',
     ''  upgrade [name]        Upgrade all (or specific) packages'',
     ''  search  <query>       Search available packages'',
     ''  info    <name>        Show installed package details'',
     ''  list    [--installed] List available or installed packages'',
     ''  build   <spec.toml>   Build a .hbp package from a spec file'',
     ''  audit                 Verify installed package integrity'',
     ''  help                  Show this help text'', []]"

definition cmd_help :: "'w host \<Rightarrow> 'w host" where
  "cmd_help st =
     outs (bytes ''hbpkg v1.0.0 '' @ dash @ bytes '' Mellivora OS Package Manager'' @ [10, 10] @
       concat (map (\<lambda>l. bytes l @ [10]) help_lines) @
       bytes ''Package DB:     '' @ HBPKG_DB_PATH @ [10] @
       bytes ''Package cache:  '' @ HBPKG_CACHE_DIR @ [10] @
       bytes ''Repository:     '' @ HBPKG_REPO_URL @ [10]) st"

definition main_hbpkg :: "nat \<Rightarrow> 'w os \<Rightarrow> str list \<Rightarrow> 'w host \<Rightarrow> (int \<times> 'w host) option" where
  "main_hbpkg n K av st =
     (if length av < 2 then Some (0, cmd_help st)
      else let cmd = av ! 1; args = drop 2 av
           in if cmd = bytes ''install'' then cmd_install n K args st
              else if cmd = bytes ''remove'' then Some (cmd_remove K args st)
              else if cmd = bytes ''update'' then Some (cmd_update K st)
              else if cmd = bytes ''upgrade'' then cmd_upgrade n K args st
              else if cmd = bytes ''search'' then Some (cmd_search K args st)
              else if cmd = bytes ''info'' then Some (cmd_info K args st)
              else if cmd = bytes ''list'' then Some (cmd_list K args st)
              else if cmd = bytes ''build'' then Some (cmd_build K args st)
              else if cmd = bytes ''audit'' then Some (cmd_audit K st)
              else if cmd = bytes ''help'' then Some (0, cmd_help st)
              else Some (1, errs (bytes ''hbpkg: unknown command '' @ q1 cmd @ bytes '' (try '' @ q1 (bytes ''hbpkg help'') @ bytes '')'' @ [10]) st))"

end
