(* ===== verification/Mv_Hbpkg_Safe.thy ===== *)
theory Mv_Hbpkg_Safe
  imports Mv_Hbpkg
begin

text \<open>
  What the commands of \<^verbatim>\<open>tools/hbpkg.c\<close> keep: the command lines that an installation hands to the shell,
  the packages it leaves alone, and the installations that never end.
\<close>

section \<open>The shell and the database\<close>

text \<open>Running a list of command lines one after the other, whatever they return.\<close>

fun run_all :: "'w os \<Rightarrow> str list \<Rightarrow> (str \<rightharpoonup> str) \<times> 'w \<Rightarrow> (str \<rightharpoonup> str) \<times> 'w" where
  "run_all K [] s = s"
| "run_all K (c # cs) s = run_all K cs (snd (o_system K c s))"

lemma run_all_append: "run_all K (cs @ ds) s = run_all K ds (run_all K cs s)"
  by (induction cs arbitrary: s) auto

lemma run_system_state: "run_system K c st = (r, st') \<Longrightarrow> (disk st', env st') = snd (o_system K c (disk st, env st))"
  by (auto simp: run_system_def split: prod.splits)

text \<open>The hypothesis that a command line of the package manager does not write its database itself.\<close>

definition shell_keeps_db :: "'w os \<Rightarrow> bool" where
  "shell_keeps_db K \<longleftrightarrow> (\<forall>c d w. fst (snd (o_system K c (d, w))) HBPKG_DB_PATH = d HBPKG_DB_PATH)"

text \<open>The database only grows, by whole records.\<close>

definition db_grows :: "'w host \<Rightarrow> 'w host \<Rightarrow> bool" where
  "db_grows st st' \<longleftrightarrow> (\<exists>rs. db_bytes st' = db_bytes st @ concat rs \<and> (\<forall>r \<in> set rs. length r = 256))"

lemma db_grows_refl: "db_bytes st' = db_bytes st \<Longrightarrow> db_grows st st'"
  unfolding db_grows_def by (rule exI [of _ "[]"]) simp

lemma db_grows_trans: "db_grows a b \<Longrightarrow> db_grows b c \<Longrightarrow> db_grows a c"
proof -
  assume "db_grows a b" "db_grows b c"
  then obtain rs rs' where "db_bytes b = db_bytes a @ concat rs" "\<forall>r \<in> set rs. length r = 256"
      "db_bytes c = db_bytes b @ concat rs'" "\<forall>r \<in> set rs'. length r = 256"
    unfolding db_grows_def by blast
  then have "db_bytes c = db_bytes a @ concat (rs @ rs') \<and> (\<forall>r \<in> set (rs @ rs'). length r = 256)" by auto
  then show ?thesis unfolding db_grows_def by blast
qed

lemma db_bytes_disk: "disk st' HBPKG_DB_PATH = disk st HBPKG_DB_PATH \<Longrightarrow> db_bytes st' = db_bytes st"
  by (simp add: db_bytes_def)

lemma db_bytes_logs [simp]:
  "db_bytes (outs s st) = db_bytes st" "db_bytes (errs s st) = db_bytes st" "db_bytes (log_info s st) = db_bytes st"
  "db_bytes (log_warn s st) = db_bytes st" "db_bytes (log_error s st) = db_bytes st"
  "db_bytes (mkdir_host K p st) = db_bytes st" "db_bytes (resolving m st) = db_bytes st" "db_bytes (dep_failed d st) = db_bytes st"
  "db_bytes (usage_install st) = db_bytes st" "db_bytes (traversal_rejected f st) = db_bytes st" "db_bytes (copy_failed f st) = db_bytes st"
  by (simp_all add: db_bytes_def mkdir_host_def resolving_def dep_failed_def usage_install_def traversal_rejected_def copy_failed_def)

lemma db_bytes_system: "shell_keeps_db K \<Longrightarrow> run_system K c st = (r, st') \<Longrightarrow> db_bytes st' = db_bytes st"
proof -
  assume k: "shell_keeps_db K" and r: "run_system K c st = (r, st')"
  have "disk st' = fst (snd (o_system K c (disk st, env st)))" using arg_cong [OF run_system_state [OF r], of fst] by simp
  then show ?thesis using k by (intro db_bytes_disk) (simp add: shell_keeps_db_def)
qed

lemma db_bytes_meta: "meta_parse_toml K p m st = (r, m', st') \<Longrightarrow> db_bytes st' = db_bytes st"
  by (auto simp: meta_parse_toml_def Let_def split: option.splits if_splits)

lemma db_bytes_prepare:
  assumes k: "shell_keeps_db K" and p: "prepare K a st = (x, st')"
  shows "db_bytes st' = db_bytes st"
proof -
  have f: "db_bytes s' = db_bytes s" if "fetch K safe s = (r, s')" for safe s r s'
    using that db_bytes_system [OF k] by (auto simp: fetch_def Let_def split: prod.splits if_splits)
  have u: "db_bytes s' = db_bytes s" if "unpack K safe s = (y, s')" for safe s y s'
    using that
    by (auto simp: unpack_def extract_hbp_def verify_def Let_def split: prod.splits if_splits
        dest!: db_bytes_system [OF k] db_bytes_meta)
  show ?thesis
    using p f u by (auto simp: prepare_def Let_def split: prod.splits if_splits option.splits)
qed

lemma copy_files_db: "shell_keeps_db K \<Longrightarrow> copy_files K dir fs st = (r, st') \<Longrightarrow> db_bytes st' = db_bytes st"
proof (induction fs arbitrary: st)
  case (Cons f fs)
  then show ?case
    by (auto simp: Let_def split: prod.splits if_splits dest!: db_bytes_system [OF Cons.prems(1)] Cons.IH)
qed simp

lemma db_bytes_script: "shell_keeps_db K \<Longrightarrow> run_install_script K d p st = (r, st') \<Longrightarrow> db_bytes st' = db_bytes st"
  by (auto simp: run_install_script_def Let_def split: prod.splits if_splits dest!: db_bytes_system)

lemma db_add_grows: "db_pkg_add K m st = (r, st') \<Longrightarrow> db_grows st st'"
proof -
  assume a: "db_pkg_add K m st = (r, st')"
  have d: "db_bytes (db_ensure_dirs K st) = db_bytes st" by (simp add: db_ensure_dirs_def)
  have e: "disk (db_ensure_dirs K st) = disk st" by (simp add: db_ensure_dirs_def mkdir_host_def)
  have "db_bytes st' = db_bytes st \<or> (\<exists>now. db_bytes st' = db_bytes st @ make_record m now)"
    using a d unfolding db_pkg_add_def Let_def by (auto simp: db_bytes_def e split: if_splits option.splits)
  then show ?thesis
  proof
    assume "\<exists>now. db_bytes st' = db_bytes st @ make_record m now"
    then obtain now where "db_bytes st' = db_bytes st @ concat [make_record m now]" by auto
    then show ?thesis unfolding db_grows_def by (intro exI [of _ "[make_record m now]"]) simp
  qed (rule db_grows_refl)
qed

lemma complete_grows:
  assumes k: "shell_keeps_db K" and c: "complete K safe m st = (r, st')"
  shows "db_grows st st'"
proof -
  obtain r1 s1 where 1: "run_install_script K (extract_dir safe) (bytes ''pre'') st = (r1, s1)" by fastforce
  obtain r2 s2 where 2: "install_files K (extract_dir safe) m s1 = (r2, s2)" by fastforce
  obtain r3 s3 where 3: "run_install_script K (extract_dir safe) (bytes ''post'') s2 = (r3, s3)" by fastforce
  obtain r4 s4 where 4: "db_pkg_add K m s3 = (r4, s4)" by fastforce
  have same: "db_bytes s2 = db_bytes st" "db_bytes s3 = db_bytes st"
    using db_bytes_script [OF k 1] copy_files_db [OF k 2 [unfolded install_files_def]] db_bytes_script [OF k 3] by simp_all
  have g: "db_grows st s4" using db_grows_trans [OF db_grows_refl [OF same(2)] db_add_grows [OF 4]] .
  have "st' = log_error (bytes ''  File install failed for '' @ safe) s2 \<or> db_bytes st' = db_bytes s4"
    using c unfolding complete_def 1 2 prod.case Let_def 3 4 by (auto split: if_splits)
  then show ?thesis
  proof
    assume "st' = log_error (bytes ''  File install failed for '' @ safe) s2"
    then show ?thesis using same(1) by (intro db_grows_refl) simp
  next
    assume "db_bytes st' = db_bytes s4"
    then show ?thesis using db_grows_trans [OF g db_grows_refl] by blast
  qed
qed

section \<open>Installing\<close>

lemma install_grows:
  "shell_keeps_db K \<Longrightarrow> cmd_install n K args st = Some (r, st') \<Longrightarrow> db_grows st st'"
  "shell_keeps_db K \<Longrightarrow> install_args n K args st = Some (r, st') \<Longrightarrow> db_grows st st'"
  "shell_keeps_db K \<Longrightarrow> install_deps n K ds st = Some (r, st') \<Longrightarrow> db_grows st st'"
proof (induction n K args st and n K args st and n K ds st arbitrary: r st' and r st' and r st'
    rule: cmd_install_install_args_install_deps.induct)
  case (4 n K a as st)
  obtain x s1 where p: "prepare K a st = (x, s1)" by fastforce
  have g1: "db_grows st s1" by (rule db_grows_refl) (rule db_bytes_prepare [OF "4.prems"(1) p])
  show ?case
  proof (cases x)
    case Failed
    then show ?thesis using "4.prems" p g1 by simp
  next
    case Present
    then show ?thesis using "4.prems" p g1 "4.IH"(1) [OF p [symmetric] Present "4.prems"(1)] db_grows_trans by simp blast
  next
    case (Ready safe meta)
    let ?pre = "if deps meta \<noteq> [] then install_deps n K (deps meta) (resolving meta s1) else Some (0, s1)"
    obtain q s2 where d: "?pre = Some (q, s2)" using "4.prems"(2) p Ready by (auto split: option.splits)
    have "db_grows s1 s2"
    proof (cases "deps meta = []")
      case True
      then show ?thesis using d by (simp add: db_grows_refl)
    next
      case False
      then have "db_grows (resolving meta s1) s2"
        using d "4.IH"(2) [OF p [symmetric] Ready False "4.prems"(1)] by simp
      then show ?thesis using db_grows_trans [OF db_grows_refl] by (metis db_bytes_logs(7))
    qed
    then have g2: "db_grows st s2" by (rule db_grows_trans [OF g1])
    obtain c s3 where e: "complete K safe meta s2 = (c, s3)" by fastforce
    have g3: "db_grows st s3" by (rule db_grows_trans [OF g2 complete_grows [OF "4.prems"(1) e]])
    show ?thesis
    proof (cases "q = 0 \<and> c = 0")
      case False
      then show ?thesis using "4.prems"(2) p Ready d e g2 g3 by (auto split: if_splits)
    next
      case True
      then have i: "install_args n K as s3 = Some (r, st')" using "4.prems"(2) p Ready d e by (auto split: if_splits)
      have "db_grows s3 st'"
        using "4.IH"(3) [OF p [symmetric] Ready d refl _ e [symmetric] _ "4.prems"(1) i] True by simp
      then show ?thesis by (rule db_grows_trans [OF g3])
    qed
  qed
next
  case (6 n K d ds st)
  show ?case
  proof (cases "db_pkg_installed K d st")
    case True
    then show ?thesis using 6 by simp
  next
    case False
    obtain q s1 where c: "cmd_install n K [d] st = Some (q, s1)" using "6.prems"(2) False by (auto split: option.splits)
    have g: "db_grows st s1" by (rule "6.IH"(1) [OF False "6.prems"(1) c])
    show ?thesis
    proof (cases "q = 0")
      case True
      then have i: "install_deps n K ds s1 = Some (r, st')" using "6.prems"(2) False c by simp
      then show ?thesis using db_grows_trans [OF g] "6.IH"(2) [OF False c refl _ "6.prems"(1) i] True by simp
    next
      case nz: False
      then have "st' = dep_failed d s1" using "6.prems"(2) False c by simp
      then show ?thesis using db_grows_trans [OF g db_grows_refl] by simp
    qed
  qed
qed (auto intro: db_grows_refl split: if_splits)

lemma find_rec_grows: "256 dvd length db \<Longrightarrow> \<forall>r \<in> set rs. length r = 256 \<Longrightarrow> find_rec n (records db) = Some x \<Longrightarrow>
    256 dvd length (db @ concat rs) \<and> find_rec n (records (db @ concat rs)) = Some x"
proof (induction rs rule: rev_induct)
  case (snoc r rs)
  then have ih: "256 dvd length (db @ concat rs)" "find_rec n (records (db @ concat rs)) = Some x" by simp_all
  have "length r = 256" using snoc.prems(2) by simp
  then show ?case
    using pkg_db.find_put [OF ih(1), of r n] pkg_db.ok_put [OF ih(1), of r] ih(2) by simp
qed simp

section \<open>Properties\<close>



text \<open>A path that stays below the directory it is joined to: not absolute, and without two dots in a
  row anywhere.\<close>

definition relative_path :: "str \<Rightarrow> bool" where
  "relative_path f \<longleftrightarrow> (\<nexists>v. f = bytes ''/'' @ v) \<and> (\<nexists>u v. f = u @ bytes ''..'' @ v)"

lemma contains_iff: "contains x s \<longleftrightarrow> (\<exists>u v. s = u @ x @ v)"
proof (induction s)
  case (Cons c s)
  have "take (length x) (c # s) = x \<longleftrightarrow> (\<exists>v. c # s = x @ v)"
    by (metis append_eq_conv_conj append_take_drop_id)
  then show ?case unfolding contains.simps Cons.IH by (metis Cons_eq_append_conv append_Cons append_Nil)
qed simp

lemma unsafe_path_iff: "unsafe_path f \<longleftrightarrow> \<not> relative_path f"
  unfolding unsafe_path_def relative_path_def contains_iff by (cases f) auto

lemma copy_files_prefix:
  "copy_files K dir fs st = (r, st') \<Longrightarrow> \<exists>k \<le> length fs. (\<forall>f \<in> set (take k fs). relative_path f) \<and>
    (disk st', env st') = run_all K (concat (map (\<lambda>f. [mkdir_cmd f, copy_cmd dir f]) (take k fs))) (disk st, env st) \<and>
    (r = 0 \<longrightarrow> k = length fs)"
proof (induction fs arbitrary: st)
  case (Cons f fs)
  obtain r1 s1 where 1: "run_system K (mkdir_cmd f) st = (r1, s1)" by fastforce
  obtain r2 s2 where 2: "run_system K (copy_cmd dir f) s1 = (r2, s2)" by fastforce
  have s: "(disk s2, env s2) = run_all K [mkdir_cmd f, copy_cmd dir f] (disk st, env st)"
    using run_system_state [OF 1] run_system_state [OF 2] by simp
  consider "\<not> relative_path f" | "relative_path f" "r2 \<noteq> 0" | "relative_path f" "r2 = 0" by blast
  then show ?case
  proof cases
    case 1
    then show ?thesis using Cons.prems by (intro exI [of _ 0]) (auto simp: traversal_rejected_def unsafe_path_iff)
  next
    case c: 2
    then have "st' = copy_failed f s2" "r = - 1" using Cons.prems 1 2 by (auto simp: unsafe_path_iff)
    then show ?thesis using s c by (intro exI [of _ 1]) (simp add: copy_failed_def)
  next
    case c: 3
    then have "copy_files K dir fs s2 = (r, st')" using Cons.prems 1 2 by (auto simp: unsafe_path_iff)
    from Cons.IH [OF this] obtain k where "k \<le> length fs" "\<forall>f \<in> set (take k fs). relative_path f"
        "(disk st', env st') = run_all K (concat (map (\<lambda>f. [mkdir_cmd f, copy_cmd dir f]) (take k fs))) (disk s2, env s2)"
        "r = 0 \<longrightarrow> k = length fs" by blast
    then show ?thesis using s c by (intro exI [of _ "Suc k"]) simp
  qed
qed simp

text \<open>C29: The only command lines that copying the files of a package hands to the shell are those of a
  prefix of its file list in which every path is relative and has no two dots in a row; success means
  that the whole list is such.\<close>

theorem install_files_safe:
  assumes "install_files K dir meta st = (r, st')"
  shows "\<exists>k \<le> length (files meta). (\<forall>f \<in> set (take k (files meta)). relative_path f) \<and>
    (disk st', env st') = run_all K (concat (map (\<lambda>f. [mkdir_cmd f, copy_cmd dir f]) (take k (files meta)))) (disk st, env st) \<and>
    (r = 0 \<longrightarrow> k = length (files meta))"
  using copy_files_prefix assms unfolding install_files_def .

theorem install_files_safe_witness:
  "\<exists>st'. install_files easy_os (bytes ''d'') (meta_zero\<lparr>files := [bytes ''bin/ls'', bytes ''../x'']\<rparr>) bare_host = (- 1, st')"
proof -
  let ?m = "meta_zero\<lparr>files := [bytes ''bin/ls'', bytes ''../x'']\<rparr>"
  obtain r st' where i: "install_files easy_os (bytes ''d'') ?m bare_host = (r, st')" by fastforce
  have u: "unsafe_path (bytes ''../x'')" by (simp add: unsafe_path_def)
  then have "r \<noteq> 0" using install_files_safe [OF i] by (auto simp: unsafe_path_iff)
  moreover have "r = 0 \<or> r = - 1"
    using i u by (auto simp: install_files_def meta_zero_def Let_def split: prod.splits if_splits)
  ultimately show ?thesis using i by blast
qed

section \<open>Installations that succeed and installations that never end\<close>

text \<open>A shell whose commands succeed and leave the files that are there alone.\<close>

definition shell_adds :: "'w os \<Rightarrow> bool" where
  "shell_adds K \<longleftrightarrow> (\<forall>c d w. fst (o_system K c (d, w)) = 0 \<and>
     (\<forall>p x. d p = Some x \<longrightarrow> fst (snd (o_system K c (d, w))) p = Some x))"

definition extends :: "'w host \<Rightarrow> 'w host \<Rightarrow> bool" where
  "extends st st' \<longleftrightarrow> db_bytes st' = db_bytes st \<and> (\<forall>p x. disk st p = Some x \<longrightarrow> disk st' p = Some x)"

lemma extends_trans: "extends a b \<Longrightarrow> extends b c \<Longrightarrow> extends a c"
  by (simp add: extends_def)

lemma extends_logs [simp]:
  "extends st (log_info s st)" "extends st (log_warn s st)" "extends st (log_error s st)" "extends st (resolving m st)"
  "extends st st"
  by (simp_all add: extends_def resolving_def)

lemma extends_system:
  assumes "shell_keeps_db K" "shell_adds K"
  shows "\<exists>st'. run_system K c st = (0, st') \<and> extends st st'"
proof -
  obtain r st' where r: "run_system K c st = (r, st')" by fastforce
  obtain q d w where q: "o_system K c (disk st, env st) = (q, d, w)" by (metis prod_cases3)
  have "q = 0" "\<forall>p x. disk st p = Some x \<longrightarrow> d p = Some x"
    using assms(2) [unfolded shell_adds_def, rule_format, of c "disk st" "env st"] q by simp_all
  then show ?thesis
    using r q db_bytes_system [OF assms(1) r] by (auto simp: run_system_def extends_def)
qed

lemma extract_ok:
  assumes "shell_keeps_db K" "shell_adds K"
  shows "\<exists>st'. extract_hbp K h d st = (0, st') \<and> extends st st'"
proof -
  let ?c = "snp (PATH_MAX * 2 + 64) (bytes ''mkdir -p '' @ q1 d @ bytes '' && tar -xzf '' @ q1 h @ bytes '' -C '' @ q1 d)"
  obtain st' where "run_system K ?c st = (0, st')" "extends st st'" using extends_system [OF assms] by blast
  then show ?thesis by (simp add: extract_hbp_def del: bytes_Cons)
qed

text \<open>A package in the cache, unpacked, whose name can be given on the command line.\<close>

definition cached :: "'w os \<Rightarrow> str \<Rightarrow> pkg_meta_t \<Rightarrow> 'w host \<Rightarrow> bool" where
  "cached K a m st \<longleftrightarrow> a \<noteq> [] \<and> length a \<le> 63 \<and> (\<forall>c \<in> set a. name_char c) \<and> writable m \<and>
     disk st (hbp_path a) \<noteq> None \<and> disk st (meta_path a) = Some (toml_text m) \<and> \<not> db_pkg_installed K a st"

lemma cached_extends: "db_usable K \<Longrightarrow> cached K a m st \<Longrightarrow> extends st st' \<Longrightarrow> cached K a m st'"
  by (auto simp: cached_def extends_def db_pkg_installed_def get_bytes)

lemma prepare_ready:
  assumes "db_usable K" "shell_keeps_db K" "shell_adds K" "cached K a m st"
  shows "\<exists>st'. prepare K a st = (Ready a m, st') \<and> extends st st'"
proof -
  note c = assms(4) [unfolded cached_def]
  have "c \<noteq> 64" if "name_char c" for c
    using that by (auto simp: name_char_def isalnum_def isalpha_def isdigit_def islower_def isupper_def uc_def)
  then have "64 \<notin> set a" using c by blast
  then have s: "split_arg a = Some (a, [])" using c by (simp add: split_arg_def HBPKG_NAME_LEN_def)
  have v: "sanitise_name (Some a) HBPKG_NAME_LEN = Some a" using c by (simp add: HBPKG_NAME_LEN_def sanitise_name_spec)
  let ?s1 = "log_info (bytes ''Installing '' @ a @ bytes '' ...'') st"
  have f: "fetch K a ?s1 = (0, ?s1)" using c by (auto simp: fetch_def stat_ok_def)
  obtain s2 where x: "extract_hbp K (hbp_path a) (extract_dir a) ?s1 = (0, s2)" "extends ?s1 s2"
    using extract_ok [OF assms(2,3)] by blast
  have e2: "extends st s2" by (rule extends_trans [OF _ x(2)]) simp
  have "fopen_read K (meta_path a) s2 = Some (toml_text m)"
    using e2 c assms(1) by (auto simp: fopen_read_def db_usable_def extends_def)
  then have p: "meta_parse_toml K (meta_path a) meta_zero s2 = (0, m, s2)"
    using meta_read_back c by blast
  have "\<exists>s3. verify K a m s2 = (0, s3) \<and> extends s2 s3" by (simp add: verify_def meta_verify_sig_def)
  then obtain s3 where y: "verify K a m s2 = (0, s3)" "extends s2 s3" by blast
  have "unpack K a ?s1 = (Ready a m, s3)" using x(1) p y(1) by (simp add: unpack_def)
  then have "prepare K a st = (Ready a m, s3)" using s v c f by (simp add: prepare_def)
  then show ?thesis using extends_trans [OF e2 y(2)] by blast
qed

lemma copy_files_ok:
  assumes "shell_keeps_db K" "shell_adds K"
  shows "\<forall>f \<in> set fs. \<not> unsafe_path f \<Longrightarrow> \<exists>st'. copy_files K dir fs st = (0, st') \<and> extends st st'"
proof (induction fs arbitrary: st)
  case (Cons f fs)
  obtain s1 where 1: "run_system K (mkdir_cmd f) st = (0, s1)" "extends st s1" using extends_system [OF assms] by blast
  obtain s2 where 2: "run_system K (copy_cmd dir f) s1 = (0, s2)" "extends s1 s2" using extends_system [OF assms] by blast
  obtain s3 where 3: "copy_files K dir fs s2 = (0, s3)" "extends s2 s3" using Cons by auto
  have "extends st s3" by (rule extends_trans [OF 1(2) extends_trans [OF 2(2) 3(2)]])
  then show ?case using 1(1) 2(1) 3(1) Cons.prems by simp
qed simp

lemma script_ok:
  assumes "shell_keeps_db K" "shell_adds K"
  shows "\<exists>r st'. run_install_script K dir ph st = (r, st') \<and> extends st st'"
proof -
  let ?s = "snp PATH_MAX (dir @ bytes ''/HBPKG/install.sh'')"
  obtain st' where "run_system K (snp (PATH_MAX + 32) (bytes ''PHASE='' @ ph @ bytes '' sh '' @ q1 ?s)) st = (0, st')" "extends st st'"
    using extends_system [OF assms] by blast
  then show ?thesis by (cases "stat_ok K ?s st") (simp_all add: run_install_script_def Let_def del: bytes_Cons)
qed

lemma complete_ok:
  assumes "db_usable K" "shell_keeps_db K" "shell_adds K" "\<forall>f \<in> set (files m). \<not> unsafe_path f"
  shows "\<exists>now st'. complete K a m st = (0, st') \<and> db_bytes st' = db_bytes st @ make_record m now"
proof -
  obtain r1 s1 where 1: "run_install_script K (extract_dir a) (bytes ''pre'') st = (r1, s1)" "extends st s1"
    using script_ok [OF assms(2,3)] by blast
  obtain s2 where 2: "install_files K (extract_dir a) m s1 = (0, s2)" "extends s1 s2"
    using copy_files_ok [OF assms(2-4)] by (auto simp: install_files_def)
  obtain r3 s3 where 3: "run_install_script K (extract_dir a) (bytes ''post'') s2 = (r3, s3)" "extends s2 s3"
    using script_ok [OF assms(2,3)] by blast
  have b: "db_bytes s3 = db_bytes st" using 1(2) 2(2) 3(2) by (simp add: extends_def)
  obtain r4 s4 where 4: "db_pkg_add K m s3 = (r4, s4)" by fastforce
  have d: "disk (db_ensure_dirs K s3) = disk s3" by (simp add: db_ensure_dirs_def mkdir_host_def)
  have "r4 = 0 \<and> db_bytes s4 = db_bytes s3 @ make_record m (o_now K (env (db_ensure_dirs K s3)))"
    using 4 assms(1) by (auto simp: db_pkg_add_def Let_def db_usable_def db_bytes_def d split: option.splits)
  then show ?thesis using 1(1) 2(1) 3(1) 4 b by (fastforce simp: complete_def Let_def)
qed

lemma deps_installed:
  "\<forall>d \<in> set ds. db_pkg_installed K d st \<Longrightarrow> install_deps n K ds st = Some (0, st)"
  by (induction ds) auto


text \<open>A host with one cached package, given by its dependencies.\<close>

definition vi_meta :: "str list \<Rightarrow> pkg_meta_t" where
  "vi_meta ds = meta_zero\<lparr>name := bytes ''vi'', version := bytes ''1'', deps := ds, files := [bytes ''bin/vi'']\<rparr>"

definition vi_host :: "str list \<Rightarrow> unit host" where
  "vi_host ds = bare_host\<lparr>disk := [hbp_path (bytes ''vi'') \<mapsto> [], meta_path (bytes ''vi'') \<mapsto> toml_text (vi_meta ds)]\<rparr>"

lemma easy_shell: "shell_keeps_db easy_os" "shell_adds easy_os"
  by (simp_all add: shell_keeps_db_def shell_adds_def easy_os_def)

lemma vi_empty_db: "db_bytes (vi_host ds) = []"
  by (simp add: db_bytes_def vi_host_def bare_host_def HBPKG_DB_PATH_def hbp_path_def meta_path_def extract_dir_def
      HBPKG_CACHE_DIR_def snp_def PATH_MAX_def)

lemma vi_cached: "writable (vi_meta ds) \<Longrightarrow> cached easy_os (bytes ''vi'') (vi_meta ds) (vi_host ds)"
proof -
  assume w: "writable (vi_meta ds)"
  have "\<forall>c \<in> set (bytes ''vi''). name_char c" by code_simp
  moreover have "hbp_path (bytes ''vi'') \<noteq> meta_path (bytes ''vi'')" by code_simp
  moreover have "\<not> db_pkg_installed easy_os (bytes ''vi'') (vi_host ds)"
    by (simp add: db_pkg_installed_def get_bytes [OF easy_usable] vi_empty_db records.simps [of "[]"])
  ultimately show ?thesis using w by (simp add: cached_def vi_host_def)
qed


text \<open>A package that lists itself as its first dependency is never installed: no number of levels of
  the recursion is enough. The same package is refused by no check, as the order of dependencies is not
  computed before the installation.\<close>

theorem install_self_dependency_diverges:
  assumes "db_usable K" "shell_keeps_db K" "shell_adds K" "cached K a m st" "deps m = a # ds"
  shows "cmd_install n K [a] st = None"
  using assms(4)
proof (induction n arbitrary: st)
  case (Suc n)
  obtain s1 where 1: "prepare K a st = (Ready a m, s1)" "extends st s1"
    using prepare_ready [OF assms(1-3) Suc.prems] by blast
  have c: "cached K a m (resolving m s1)"
    by (rule cached_extends [OF assms(1) Suc.prems]) (rule extends_trans [OF 1(2)], simp)
  then have "\<not> db_pkg_installed K a (resolving m s1)" by (simp add: cached_def)
  then show ?case using 1(1) Suc.IH [OF c] assms(5) by simp
qed simp

theorem install_self_dependency_diverges_witness:
  "cmd_install 100 easy_os [bytes ''vi''] (vi_host [bytes ''vi'']) = None"
proof -
  have "writable (vi_meta [bytes ''vi''])" by code_simp
  from install_self_dependency_diverges [OF easy_usable easy_shell vi_cached [OF this]] show ?thesis
    by (simp add: vi_meta_def)
qed

text \<open>Upgrading an installed package changes nothing: the installation it calls stops at once.\<close>

lemma upgrade_installed_keeps:
  assumes "db_usable K" "a \<noteq> []" "length a \<le> 63" "\<forall>c \<in> set a. name_char c" "64 \<notin> set a" "db_pkg_installed K a st"
  shows "\<exists>st'. cmd_upgrade (Suc n) K [a] st = Some (0, st') \<and> disk st' = disk st \<and> env st' = env st"
proof -
  have s: "split_arg a = Some (a, [])" using assms(3,5) by (simp add: split_arg_def HBPKG_NAME_LEN_def)
  have v: "sanitise_name (Some a) HBPKG_NAME_LEN = Some a"
    using assms(2-4) by (simp add: HBPKG_NAME_LEN_def sanitise_name_spec)
  have "db_pkg_installed K a (log_info x st)" for x using assms(6) by (simp add: db_pkg_installed_def db_pkg_get_def)
  then show ?thesis by (simp add: cmd_upgrade_def prepare_def s v)
qed

text \<open>A quote in a file name ends the quoting of the command line: the rest of the name is read by the
  shell. The check of the paths lets it through.\<close>

lemma quote_reaches_shell:
  "\<not> unsafe_path (39 # bytes '';reboot;'')"
  "copy_cmd (bytes ''d'') (39 # bytes '';reboot;'') =
     bytes ''cp '' @ [39] @ bytes ''d/HBPKG/files/'' @ [39] @ bytes '';reboot;'' @ [39] @ bytes '' '' @ [39] @ bytes ''/'' @ [39] @ bytes '';reboot;'' @ [39]"
  by (simp_all add: unsafe_path_def copy_cmd_def q1_def snp_def PATH_MAX_def)

end
