(* ===== verification/Mv_Decimal.thy ===== *)
theory Mv_Decimal
  imports Mv_Prelude "HOL-Library.Signed_Division"
begin

text \<open>
  Decimal output of the sample programs. They have no \<^verbatim>\<open>printf\<close>: each divides by a power of ten and its
  quotients, and prints a digit once one was not zero. The loop is the same in all of them, so it is
  here once, with the reference it meets; what \<^verbatim>\<open>putchar\<close> is given is the list of bytes written. Division
  truncates, as in C; the numbers are in the range of \<^verbatim>\<open>int\<close>, where no step of the loop overflows.
\<close>

definition digit_byte :: "int \<Rightarrow> u8" where
  "digit_byte d = word_of_int (48 + d)"

function dec_loop :: "int \<Rightarrow> int \<Rightarrow> bool \<Rightarrow> bool \<times> u8 list" where
  "dec_loop n d started =
     (if d > 0
      then let t = n sdiv d; started = (started \<or> t > 0);
               (s, out) = dec_loop (n - t * d) (d sdiv 10) started
           in (s, (if started then [digit_byte t] else []) @ out)
      else (started, []))"
  by auto
termination
  by (relation "measure (\<lambda>(n, d, s). nat d)") (auto simp: signed_divide_int_def)

declare dec_loop.simps [simp del]

text \<open>The reference: the decimal digits of a natural number.\<close>

fun decimal :: "nat \<Rightarrow> u8 list" where
  "decimal n = (if n < 10 then [] else decimal (n div 10)) @ [of_nat (48 + n mod 10)]"

declare decimal.simps [simp del]

definition digit_at :: "nat \<Rightarrow> nat \<Rightarrow> u8" where
  "digit_at n i = of_nat (48 + n div 10 ^ i mod 10)"

lemma decimal_digits:
  "0 < n \<Longrightarrow> 10 ^ k \<le> n \<Longrightarrow> n < 10 ^ Suc k \<Longrightarrow> decimal n = map (digit_at n) (rev [0..<Suc k])"
proof (induction k arbitrary: n)
  case 0
  then show ?case by (simp add: decimal.simps [of n] digit_at_def)
next
  case (Suc k)
  have lo: "10 ^ k \<le> n div 10" using Suc.prems(2) by (simp add: less_eq_div_iff_mult_less_eq mult.commute)
  have hi: "n div 10 < 10 ^ Suc k" using Suc.prems(3) by (simp add: less_mult_imp_div_less mult.commute)
  have "(1 :: nat) \<le> 10 ^ k" by simp
  then have IH: "decimal (n div 10) = map (digit_at (n div 10)) (rev [0..<Suc k])" using Suc.IH [of "n div 10"] lo hi by linarith
  have "10 \<le> n" using Suc.prems(2) \<open>1 \<le> 10 ^ k\<close> unfolding power_Suc by linarith
  then have "decimal n = map (digit_at (n div 10)) (rev [0..<Suc k]) @ [digit_at n 0]"
    unfolding decimal.simps [of n] IH by (simp add: digit_at_def)
  also have "map (digit_at (n div 10)) (rev [0..<Suc k]) = map (digit_at n) (map Suc (rev [0..<Suc k]))"
    by (simp add: digit_at_def div_mult2_eq)
  also have "map (digit_at n) (map Suc (rev [0..<Suc k])) @ [digit_at n 0] = map (digit_at n) (map Suc (rev [0..<Suc k]) @ [0])"
    by (simp only: map_append list.map)
  also have "map Suc (rev [0..<Suc k]) @ [0] = rev [0..<Suc (Suc k)]"
    by (metis map_Suc_upt rev.simps(2) rev_map upt_conv_Cons zero_less_Suc)
  finally show ?case .
qed

lemma sdiv_nat: "int n sdiv int d = int (n div d)"
  by (cases "n = 0"; cases "d = 0") (simp_all add: signed_divide_int_def zdiv_int)

lemma power_sdiv_10: "(10 :: int) ^ Suc k sdiv 10 = 10 ^ k"
  using sdiv_nat [of "10 ^ Suc k" 10] by simp

lemma digit_at_mod: "i < k \<Longrightarrow> digit_at (n mod 10 ^ k) i = digit_at n i"
proof -
  assume "i < k"
  then obtain j where k: "k = i + Suc j" using less_iff_Suc_add by auto
  have "n mod (a * b) div a = n div a mod b" if "0 < a" for a b :: nat
    using that by (simp add: mod_mult2_eq)
  then have "n mod 10 ^ k div 10 ^ i = n div 10 ^ i mod 10 ^ Suc j" unfolding k power_add by simp
  then show ?thesis by (simp add: digit_at_def mod_mod_cancel)
qed

lemma dec_loop_started:
  "n < 10 ^ Suc k \<Longrightarrow> dec_loop (int n) (10 ^ k) True = (True, map (digit_at n) (rev [0..<Suc k]))"
proof (induction k arbitrary: n)
  case 0
  then show ?case
    by (simp add: dec_loop.simps [of "int n" 1] dec_loop.simps [of 0 0] signed_divide_int_def digit_byte_def digit_at_def)
next
  case (Suc k)
  have q: "int n sdiv 10 ^ Suc k = int (n div 10 ^ Suc k)" using sdiv_nat [of n "10 ^ Suc k"] by simp
  have r: "int n - int (n div 10 ^ Suc k) * 10 ^ Suc k = int (n mod 10 ^ Suc k)"
    by (simp add: minus_div_mult_eq_mod zdiv_int zmod_int)
  have b: "digit_byte (int (n div 10 ^ Suc k)) = digit_at n (Suc k)"
    using Suc.prems by (simp add: digit_byte_def digit_at_def less_mult_imp_div_less)
  have "n mod 10 ^ Suc k < 10 ^ Suc k" by simp
  from Suc.IH [OF this]
  have "dec_loop (int n) (10 ^ Suc k) True = (True, digit_at n (Suc k) # map (digit_at (n mod 10 ^ Suc k)) (rev [0..<Suc k]))"
    unfolding dec_loop.simps [of "int n" "10 ^ Suc k"] q Let_def r power_sdiv_10 b by simp
  also have "map (digit_at (n mod 10 ^ Suc k)) (rev [0..<Suc k]) = map (digit_at n) (rev [0..<Suc k])"
    by (rule map_cong [OF refl], rule digit_at_mod) auto
  finally show ?case by simp
qed

lemma dec_loop_decimal:
  "n < 10 ^ Suc k \<Longrightarrow> dec_loop (int n) (10 ^ k) False = (n \<noteq> 0, if n = 0 then [] else decimal n)"
proof (induction k arbitrary: n)
  case 0
  then show ?case
    by (simp add: dec_loop.simps [of "int n" 1] dec_loop.simps [of 0 0] signed_divide_int_def digit_byte_def decimal.simps [of n])
next
  case (Suc k)
  show ?case
  proof (cases "n < 10 ^ Suc k")
    case True
    have "int n sdiv 10 ^ Suc k = 0" using sdiv_nat [of n "10 ^ Suc k"] True by simp
    then show ?thesis
      using Suc.IH [OF True] unfolding dec_loop.simps [of "int n" "10 ^ Suc k"] by (simp add: power_sdiv_10 del: power_Suc)
  next
    case False
    have q: "int n sdiv 10 ^ Suc k = int (n div 10 ^ Suc k)" using sdiv_nat [of n "10 ^ Suc k"] by simp
    have "0 < n div 10 ^ Suc k" using False by (simp add: div_greater_zero_iff del: power_Suc)
    then have "dec_loop (int n) (10 ^ Suc k) False = dec_loop (int n) (10 ^ Suc k) True"
      unfolding dec_loop.simps [of "int n" "10 ^ Suc k"] q by simp
    moreover have "0 < n" using False by (metis not_gr0 zero_less_numeral zero_less_power)
    ultimately show ?thesis
      using dec_loop_started [OF Suc.prems] decimal_digits [of n "Suc k"] False Suc.prems by simp
  qed
qed

lemma decimal_nonempty: "decimal n \<noteq> []"
  by (simp add: decimal.simps [of n])

lemma sint_eq_iff: "sint x = sint y \<longleftrightarrow> x = (y :: u32)"
  by (auto intro: signed_word_eqI)

text \<open>A word that is not negative, and a word with its sign.\<close>

lemma decimal_0 [simp]: "decimal 0 = [48]"
  by (simp add: decimal.simps)

lemma dec_loop_word:
  assumes "0 \<le> sint w" "sint w < 10 ^ Suc k" "(w :: u32) \<noteq> 0"
  shows "snd (dec_loop (sint w) (10 ^ k) False) = decimal (nat (sint w))"
proof -
  have "nat (sint w) < 10 ^ Suc k" using assms by (simp add: nat_less_iff)
  from dec_loop_decimal [OF this] show ?thesis using assms(1,3) sint_eq_iff [of w 0] by simp
qed

definition signed_decimal :: "u32 \<Rightarrow> u8 list" where
  "signed_decimal v = (if sint v < 0 then 45 # decimal (nat (- sint v)) else decimal (nat (sint v)))"

lemma sint_minus:
  assumes "v \<noteq> 0x80000000"
  shows "sint (- v :: u32) = - sint v"
proof -
  have r: "- (2 ^ 31) \<le> sint v" "sint v < 2 ^ 31" using sint_range_size [of v] by (simp_all add: word_size)
  moreover have "sint v \<noteq> - (2 ^ 31)"
  proof
    assume m: "sint v = - (2 ^ 31)"
    have "word_of_int (sint v) = v" by simp
    then show False using assms unfolding m by simp
  qed
  ultimately have t: "signed_take_bit 31 (- sint v) = - sint v" by (intro signed_take_bit_int_eq_self) simp_all
  have "- v = word_of_int (- sint v)" by (simp add: wi_hom_neg [symmetric])
  then have "sint (- v) = sint (word_of_int (- sint v) :: u32)" by (rule arg_cong)
  also have "\<dots> = signed_take_bit 31 (- sint v)" by (subst signed_of_int) simp
  finally show ?thesis unfolding t .
qed


section \<open>What a printer of numbers promises\<close>

text \<open>Reading the digits gives the number back, so two numbers never look the same.\<close>

definition decimal_read :: "u8 list \<Rightarrow> nat" where
  "decimal_read bs = foldl (\<lambda>n b. 10 * n + (unat b - 48)) 0 bs"

lemma unat_digit_byte: "unat (of_nat (48 + n mod 10) :: u8) = 48 + n mod 10"
  by (simp only: unat_of_nat) (simp add: mod_less)

lemma decimal_read_decimal: "decimal_read (decimal n) = n"
proof (induction n rule: decimal.induct)
  case (1 n)
  then show ?case
    by (subst decimal.simps) (simp add: decimal_read_def unat_digit_byte del: of_nat_add)
qed

lemma decimal_byte: "b \<in> set (decimal n) \<Longrightarrow> 48 \<le> b \<and> b \<le> 57"
proof (induction n rule: decimal.induct)
  case (1 n)
  have "48 \<le> (of_nat (48 + n mod 10) :: u8) \<and> (of_nat (48 + n mod 10) :: u8) \<le> 57"
    by (simp add: word_le_nat_alt unat_digit_byte del: of_nat_add)
  then show ?case using 1 by (subst (asm) (2) decimal.simps) (auto split: if_splits)
qed

lemma decimal_no_sign: "decimal n \<noteq> 45 # bs"
proof
  assume "decimal n = 45 # bs"
  then have "48 \<le> (45 :: u8)" using decimal_byte [of 45 n] by simp
  then show False by simp
qed

lemma decimal_inj: "decimal m = decimal n \<longleftrightarrow> m = n"
  using decimal_read_decimal by metis

lemma signed_decimal_inj: "signed_decimal v = signed_decimal w \<longleftrightarrow> v = w"
proof
  assume eq: "signed_decimal v = signed_decimal w"
  have "sint v = sint w"
  proof (cases "sint v < 0"; cases "sint w < 0")
    assume "sint v < 0" "\<not> sint w < 0"
    then show ?thesis using eq [symmetric] decimal_no_sign [of "nat (sint w)"] by (simp add: signed_decimal_def)
  next
    assume "\<not> sint v < 0" "sint w < 0"
    then show ?thesis using eq decimal_no_sign [of "nat (sint v)"] by (simp add: signed_decimal_def)
  qed (use eq in \<open>simp_all add: signed_decimal_def decimal_inj\<close>)
  then show "v = w" by (simp add: sint_eq_iff)
qed simp

text \<open>Each program has a printer of its own, right for the numbers that fit its first power of ten.\<close>

locale decimal_printer =
  fixes print :: "u32 \<Rightarrow> u8 list" and fits :: "u32 \<Rightarrow> bool"
  assumes prints: "fits w \<Longrightarrow> print w = signed_decimal w"
begin

lemma prints_nonneg: "fits w \<Longrightarrow> 0 \<le> sint w \<Longrightarrow> print w = decimal (nat (sint w))"
  using prints by (simp add: signed_decimal_def)

lemma prints_apart: "fits v \<Longrightarrow> fits w \<Longrightarrow> print v = print w \<longleftrightarrow> v = w"
  by (simp add: prints signed_decimal_inj)

lemma prints_row:
  "\<forall>w \<in> set ws. fits w \<Longrightarrow> concat (map (\<lambda>w. print w @ sep) ws) = concat (map (\<lambda>w. signed_decimal w @ sep) ws)"
  by (induction ws) (simp_all add: prints)

end

end
