(* ===== verification/Mv_Sample_Sort.thy ===== *)
theory Mv_Sample_Sort
  imports Mv_Decimal "HOL-Library.Multiset"
begin

text \<open>
  \<^verbatim>\<open>samples/sort.c\<close>: selection sort and bubble sort of sixteen numbers. The sixteen variables are a list;
  \<^verbatim>\<open>getv\<close> and \<^verbatim>\<open>setv\<close> choose by an index and do nothing for one outside. The variables that carry values
  between the functions (\<^verbatim>\<open>va\<close>, \<^verbatim>\<open>vb\<close>, \<^verbatim>\<open>tmp\<close>) are arguments and results. Modelled is the first copy of the
  functions, lines 6 to 141; the file has a second one behind \<^verbatim>\<open>main\<close>.
\<close>

section \<open>The program\<close>

definition getv :: "u32 list \<Rightarrow> nat \<Rightarrow> u32 \<Rightarrow> u32" where
  "getv a ii va = (if ii < 16 then a ! ii else va)"

definition setv :: "u32 list \<Rightarrow> nat \<Rightarrow> u32 \<Rightarrow> u32 list" where
  "setv a ii tmp = (if ii < 16 then a[ii := tmp] else a)"

definition print_num :: "u32 \<Rightarrow> u8 list" where
  "print_num pn = (if pn = 0 then [48] else snd (dec_loop (sint pn) 10000 False))"

function print_loop :: "u32 list \<Rightarrow> nat \<Rightarrow> u32 \<Rightarrow> u8 list" where
  "print_loop a ii va =
     (if ii < 16 then let va = getv a ii va in print_num va @ [32] @ print_loop a (ii + 1) va else [])"
  by auto
termination by (relation "measure (\<lambda>(a, ii, va). 16 - ii)") auto

definition print_arr :: "u32 list \<Rightarrow> u8 list" where
  "print_arr a = print_loop a 0 0 @ [10]"

text \<open>The search for the smallest element: its value and index, and the value read last.\<close>

function min_loop :: "u32 list \<Rightarrow> nat \<Rightarrow> u32 \<Rightarrow> nat \<Rightarrow> u32 \<Rightarrow> u32 \<times> nat \<times> u32" where
  "min_loop a inner mval midx va =
     (if inner < 16
      then let va = getv a inner va; cv = va
           in if sint cv < sint mval then min_loop a (inner + 1) cv inner va else min_loop a (inner + 1) mval midx va
      else (mval, midx, va))"
  by auto
termination by (relation "measure (\<lambda>(a, inner, mval, midx, va). 16 - inner)") auto

function sel_loop :: "u32 list \<Rightarrow> nat \<Rightarrow> u32 \<Rightarrow> u32 list" where
  "sel_loop a outer va =
     (if outer < 15
      then let va = getv a outer va;
               (mval, midx, va) = min_loop a (outer + 1) va outer va
           in if midx \<noteq> outer
              then let vb = getv a outer va;
                       va = getv a midx vb;
                       a = setv a outer va;
                       a = setv a midx vb
                   in sel_loop a (outer + 1) va
              else sel_loop a (outer + 1) va
      else a)"
  by auto
termination by (relation "measure (\<lambda>(a, outer, va). 15 - outer)") auto

definition sel_sort :: "u32 list \<Rightarrow> u32 list" where
  "sel_sort a = sel_loop a 0 0"

text \<open>One pass of bubble sort: the array, whether something was swapped, and the value read last.\<close>

function bub_loop :: "u32 list \<Rightarrow> nat \<Rightarrow> int \<Rightarrow> bool \<Rightarrow> u32 \<Rightarrow> u32 list \<times> bool \<times> u32" where
  "bub_loop a jj pass swapped va =
     (if int jj < pass
      then let vb = getv a jj va;
               va = getv a (jj + 1) vb
           in if sint vb > sint va
              then let a = setv a jj va; a = setv a (jj + 1) vb in bub_loop a (jj + 1) pass True va
              else bub_loop a (jj + 1) pass swapped va
      else (a, swapped, va))"
  by auto
termination by (relation "measure (\<lambda>(a, jj, pass, s, va). nat (pass - int jj))") auto

function pass_loop :: "u32 list \<Rightarrow> int \<Rightarrow> u32 \<Rightarrow> u32 list" where
  "pass_loop a pass va =
     (if pass > 0
      then case bub_loop a 0 pass False va of
        (a, swapped, va) \<Rightarrow> pass_loop a ((if \<not> swapped then 0 else pass) - 1) va
      else a)"
  by auto
termination by (relation "measure (\<lambda>(a, pass, va). nat pass)") auto

definition bub_sort :: "u32 list \<Rightarrow> u32 list" where
  "bub_sort a = pass_loop a 15 0"

definition load_data :: "u32 list" where
  "load_data = [64, 34, 25, 12, 22, 11, 90, 7, 47, 83, 3, 58, 19, 72, 41, 55]"

text \<open>The program on sixteen numbers; the source has one such list.\<close>

definition sort_program :: "u32 list \<Rightarrow> u8 list" where
  "sort_program data = bytes ''Sort Demo'' @ [10, 10] @ bytes ''Unsorted: '' @ print_arr data @
     bytes ''Selection sort: '' @ print_arr (sel_sort data) @ bytes ''Bubble sort: '' @ print_arr (bub_sort data) @
     bytes ''Done.'' @ [10]"

definition sort_main :: "u8 list" where
  "sort_main = sort_program load_data"

declare print_loop.simps [simp del] min_loop.simps [simp del] sel_loop.simps [simp del] bub_loop.simps [simp del] pass_loop.simps [simp del]

section \<open>Sorting\<close>

definition swap_at :: "u32 list \<Rightarrow> nat \<Rightarrow> nat \<Rightarrow> u32 list" where
  "swap_at a i j = a[i := a ! j, j := a ! i]"

lemma mset_swap_at [simp]: "i < length a \<Longrightarrow> j < length a \<Longrightarrow> mset (swap_at a i j) = mset a"
  by (simp add: swap_at_def mset_swap)

lemma length_swap_at [simp]: "length (swap_at a i j) = length a"
  by (simp add: swap_at_def)

lemma nth_swap_at: "i < length a \<Longrightarrow> j < length a \<Longrightarrow> swap_at a i j ! k = (if k = j then a ! i else if k = i then a ! j else a ! k)"
  by (auto simp: swap_at_def nth_list_update)

lemma min_loop_finds:
  "length a = 16 \<Longrightarrow> midx < 16 \<Longrightarrow> a ! midx = mval \<Longrightarrow> l \<le> midx \<Longrightarrow> midx < inner \<Longrightarrow> (\<forall>k. l \<le> k \<and> k < inner \<longrightarrow> sint mval \<le> sint (a ! k)) \<Longrightarrow>
     \<exists>m v. min_loop a inner mval midx va = (a ! m, m, v) \<and> l \<le> m \<and> m < 16 \<and> (\<forall>k. l \<le> k \<and> k < 16 \<longrightarrow> sint (a ! m) \<le> sint (a ! k))"
proof (induction "16 - inner" arbitrary: inner mval midx va)
  case 0
  then show ?case by (auto simp: min_loop.simps [of a inner])
next
  case (Suc d)
  then have i: "inner < 16" "d = 16 - Suc inner" by simp_all
  show ?case
  proof (cases "sint (a ! inner) < sint mval")
    case True
    have "\<forall>k. l \<le> k \<and> k < Suc inner \<longrightarrow> sint (a ! inner) \<le> sint (a ! k)"
      using Suc.prems(6) True by (fastforce simp: less_Suc_eq)
    then show ?thesis
      using Suc.hyps(1) [of "Suc inner" inner "a ! inner" "a ! inner"] Suc.prems i True
      by (simp add: min_loop.simps [of a inner] getv_def Let_def)
  next
    case False
    have "\<forall>k. l \<le> k \<and> k < Suc inner \<longrightarrow> sint mval \<le> sint (a ! k)"
      using Suc.prems(6) False by (auto simp: less_Suc_eq)
    then show ?thesis
      using Suc.hyps(1) [of "Suc inner" midx mval "a ! inner"] Suc.prems i False
      by (simp add: min_loop.simps [of a inner] getv_def Let_def)
  qed
qed

lemma sel_step:
  assumes "length a = 16" "outer < 15"
  shows "\<exists>m v. outer \<le> m \<and> m < 16 \<and> (\<forall>k. outer \<le> k \<and> k < 16 \<longrightarrow> sint (a ! m) \<le> sint (a ! k)) \<and>
    sel_loop a outer va = sel_loop (swap_at a outer m) (outer + 1) v"
proof -
  have "\<forall>k. outer \<le> k \<and> k < outer + 1 \<longrightarrow> sint (a ! outer) \<le> sint (a ! k)" using less_Suc_eq_le by fastforce
  then obtain m v where m: "min_loop a (outer + 1) (a ! outer) outer (a ! outer) = (a ! m, m, v)" "outer \<le> m" "m < 16"
      "\<forall>k. outer \<le> k \<and> k < 16 \<longrightarrow> sint (a ! m) \<le> sint (a ! k)"
    using min_loop_finds [of a outer "a ! outer" outer "outer + 1" "a ! outer"] assms by auto
  show ?thesis
  proof (cases "m = outer")
    case True
    then have "swap_at a outer m = a" by (simp add: swap_at_def)
    moreover have "sel_loop a outer va = sel_loop a (outer + 1) v"
      using m(1) assms True by (simp add: sel_loop.simps [of a outer va] getv_def Let_def)
    ultimately show ?thesis using m(2-4) by metis
  next
    case False
    then have "sel_loop a outer va = sel_loop (swap_at a outer m) (outer + 1) (a ! m)"
      using m assms by (simp add: sel_loop.simps [of a outer va] getv_def setv_def swap_at_def Let_def)
    then show ?thesis using m by blast
  qed
qed

text \<open>Sorted up to an index, and what is below it is not above what follows.\<close>

definition sorted_to :: "u32 list \<Rightarrow> nat \<Rightarrow> bool" where
  "sorted_to a n \<longleftrightarrow> (\<forall>i j. i < j \<and> i < n \<and> j < 16 \<longrightarrow> sint (a ! i) \<le> sint (a ! j))"

lemma sel_loop_sorts:
  "length a = 16 \<Longrightarrow> outer \<le> 15 \<Longrightarrow> sorted_to a outer \<Longrightarrow>
     length (sel_loop a outer va) = 16 \<and> sorted_to (sel_loop a outer va) 15 \<and> mset (sel_loop a outer va) = mset a"
proof (induction "15 - outer" arbitrary: a outer va)
  case 0
  then have "outer = 15" by simp
  then show ?case using 0 by (simp add: sel_loop.simps [of a 15 va])
next
  case (Suc d)
  then have o: "outer < 15" "d = 15 - Suc outer" by simp_all
  then obtain m v where m: "outer \<le> m" "m < 16" "\<forall>k. outer \<le> k \<and> k < 16 \<longrightarrow> sint (a ! m) \<le> sint (a ! k)"
      "sel_loop a outer va = sel_loop (swap_at a outer m) (outer + 1) v"
    using sel_step [of a outer va] Suc.prems(1) by blast
  have "sorted_to (swap_at a outer m) (outer + 1)"
    using Suc.prems o m(1-3) by (auto simp: sorted_to_def nth_swap_at less_Suc_eq)
  then show ?case
    using Suc.hyps(1) [of "outer + 1" "swap_at a outer m" v] o Suc.prems(1) m by simp
qed

lemma sorted_to_sorted: "length a = 16 \<Longrightarrow> sorted_to a 15 \<Longrightarrow> sorted (map sint a)"
  by (auto simp: sorted_to_def sorted_iff_nth_mono_less)


subsection \<open>Bubble sort\<close>

text \<open>From an index on everything is in its place.\<close>

definition settled_from :: "u32 list \<Rightarrow> nat \<Rightarrow> bool" where
  "settled_from a n \<longleftrightarrow> (\<forall>i j. i < j \<and> n \<le> j \<and> j < 16 \<longrightarrow> sint (a ! i) \<le> sint (a ! j))"

text \<open>A pass that has come to an index has the largest element so far there; it only reorders what is before the end.\<close>

definition bubbled :: "u32 list \<Rightarrow> nat \<Rightarrow> bool" where
  "bubbled a n \<longleftrightarrow> (\<forall>i < n. sint (a ! i) \<le> sint (a ! n))"

definition rising :: "u32 list \<Rightarrow> nat \<Rightarrow> bool" where
  "rising a n \<longleftrightarrow> (\<forall>i < n. sint (a ! i) \<le> sint (a ! Suc i))"

lemma bub_step:
  assumes "length a = 16" "jj < pass" "pass < 16" 
  shows "\<exists>v. bub_loop a jj (int pass) s va =
    (if sint (a ! jj) > sint (a ! Suc jj) then bub_loop (swap_at a jj (Suc jj)) (Suc jj) (int pass) True v
     else bub_loop a (Suc jj) (int pass) s v)"
  using assms by (auto simp: bub_loop.simps [of a jj] getv_def setv_def swap_at_def Let_def list_update_swap)

lemma bub_loop_bubbles:
  "length a = 16 \<Longrightarrow> jj \<le> pass \<Longrightarrow> pass < 16 \<Longrightarrow> settled_from a (Suc pass) \<Longrightarrow> bubbled a jj \<Longrightarrow> (\<not> s \<longrightarrow> rising a jj) \<Longrightarrow>
     \<exists>a' s' v. bub_loop a jj (int pass) s va = (a', s', v) \<and> length a' = 16 \<and> mset a' = mset a \<and> settled_from a' (Suc pass) \<and>
       bubbled a' pass \<and> (\<not> s' \<longrightarrow> rising a' pass)"
proof (induction "pass - jj" arbitrary: a jj s va)
  case 0
  then have "jj = pass" by simp
  then show ?case using 0 by (simp add: bub_loop.simps [of a pass])
next
  case (Suc d)
  then have j: "jj < pass" "d = pass - Suc jj" by simp_all
  obtain v where step: "bub_loop a jj (int pass) s va =
    (if sint (a ! jj) > sint (a ! Suc jj) then bub_loop (swap_at a jj (Suc jj)) (Suc jj) (int pass) True v
     else bub_loop a (Suc jj) (int pass) s v)" using bub_step [of a jj pass s va] Suc.prems j by blast
  show ?case
  proof (cases "sint (a ! jj) > sint (a ! Suc jj)")
    case True
    have "settled_from (swap_at a jj (Suc jj)) (Suc pass)"
      using Suc.prems j True by (auto simp: settled_from_def nth_swap_at)
    moreover have "bubbled (swap_at a jj (Suc jj)) (Suc jj)"
      using Suc.prems j True by (auto simp: bubbled_def nth_swap_at less_Suc_eq)
    ultimately show ?thesis
      using Suc.hyps(1) [of "Suc jj" "swap_at a jj (Suc jj)" True v] Suc.prems j True step by auto
  next
    case False
    have "bubbled a (Suc jj)" using Suc.prems(5) False by (fastforce simp: bubbled_def less_Suc_eq)
    moreover have "\<not> s \<longrightarrow> rising a (Suc jj)" using Suc.prems(6) False by (auto simp: rising_def less_Suc_eq)
    ultimately show ?thesis
      using Suc.hyps(1) [of "Suc jj" a s v] Suc.prems j False step by auto
  qed
qed

lemma settled_more:
  assumes "settled_from a (Suc n)" "bubbled a n"
  shows "settled_from a n"
  unfolding settled_from_def
proof (intro allI impI)
  fix i j assume "i < j \<and> n \<le> j \<and> j < 16"
  then show "sint (a ! i) \<le> sint (a ! j)" using assms by (cases "j = n") (auto simp: settled_from_def bubbled_def)
qed

lemma rising_sorted: "rising a n \<Longrightarrow> i < j \<Longrightarrow> j \<le> n \<Longrightarrow> sint (a ! i) \<le> sint (a ! j)"
proof (induction j)
  case (Suc j)
  have "sint (a ! j) \<le> sint (a ! Suc j)" using Suc.prems by (simp add: rising_def)
  then show ?case using Suc by (cases "i = j") auto
qed simp

lemma rising_settled: "rising a n \<Longrightarrow> settled_from a (Suc n) \<Longrightarrow> settled_from a 0"
  unfolding settled_from_def by (metis not_less_eq_eq rising_sorted)

lemma pass_loop_sorts:
  "length a = 16 \<Longrightarrow> pass < 16 \<Longrightarrow> settled_from a (Suc pass) \<Longrightarrow>
     length (pass_loop a (int pass) va) = 16 \<and> settled_from (pass_loop a (int pass) va) 1 \<and> mset (pass_loop a (int pass) va) = mset a"
proof (induction pass arbitrary: a va)
  case 0
  then show ?case by (simp add: pass_loop.simps [of a 0])
next
  case (Suc p)
  have "bubbled a 0" "\<not> False \<longrightarrow> rising a 0" by (simp_all add: bubbled_def rising_def)
  then obtain a' s' v where b: "bub_loop a 0 (int (Suc p)) False va = (a', s', v)" "length a' = 16" "mset a' = mset a"
      "settled_from a' (Suc (Suc p))" "bubbled a' (Suc p)" "\<not> s' \<longrightarrow> rising a' (Suc p)"
    using bub_loop_bubbles [of a 0 "Suc p" False va] Suc.prems by blast
  have step: "pass_loop a (int (Suc p)) va = pass_loop a' ((if \<not> s' then 0 else int (Suc p)) - 1) v"
    using b(1) by (simp add: pass_loop.simps [of a "int (Suc p)"] del: of_nat_Suc)
  show ?case
  proof (cases s')
    case True
    then show ?thesis using step Suc.IH [of a' v] Suc.prems b settled_more by auto
  next
    case False
    then have "settled_from a' 0" using rising_settled b(4,6) by blast
    then have "settled_from a' 1" by (simp add: settled_from_def)
    moreover have "pass_loop a' (-1) v = a'" by (simp add: pass_loop.simps [of a' "-1"])
    ultimately show ?thesis using step b(2,3) False by simp
  qed
qed

lemma settled_sorted: "length a = 16 \<Longrightarrow> settled_from a 1 \<Longrightarrow> sorted (map sint a)"
  by (auto simp: settled_from_def sorted_iff_nth_mono_less)

text \<open>A sorted permutation is the one the library sorts to: words with the same value are the same.\<close>

lemma sorted_is_sort_key:
  assumes "mset ys = mset (xs :: u32 list)" "sorted (map sint ys)"
  shows "ys = sort_key sint xs"
proof -
  have "filter (\<lambda>x. sint k = sint x) ys = filter (\<lambda>x. sint k = sint x) xs" for k :: u32
  proof -
    have e: "(\<lambda>x. sint k = sint x) = (HOL.eq k)" by (auto simp: fun_eq_iff sint_eq_iff)
    show ?thesis unfolding e using assms(1) by (metis replicate_count_mset_eq_filter_eq)
  qed
  then show ?thesis using properties_for_sort_key [of ys xs sint] assms by simp
qed

lemma sel_sort_sorts: "length a = 16 \<Longrightarrow> sel_sort a = sort_key sint a"
  using sel_loop_sorts [of a 0 0] sorted_to_sorted sorted_is_sort_key [of "sel_sort a" a] by (simp add: sel_sort_def sorted_to_def)

lemma bub_sort_sorts: "length a = 16 \<Longrightarrow> bub_sort a = sort_key sint a"
  using pass_loop_sorts [of a 15 0] settled_sorted sorted_is_sort_key [of "bub_sort a" a]
  by (simp add: bub_sort_def settled_from_def)

section \<open>The output\<close>

lemma print_num_decimal: "0 \<le> sint x \<Longrightarrow> sint x < 100000 \<Longrightarrow> print_num x = decimal (nat (sint x))"
  using dec_loop_word [of x 4] by (simp add: print_num_def)

interpretation num_printer: decimal_printer print_num "\<lambda>x. 0 \<le> sint x \<and> sint x < 100000"
  by unfold_locales (simp add: print_num_decimal signed_decimal_def)

definition number_line :: "u32 list \<Rightarrow> u8 list" where
  "number_line xs = concat (map (\<lambda>x. decimal (nat (sint x)) @ [32]) xs) @ [10]"

lemma print_arr_line:
  assumes "length a = 16" "\<forall>x \<in> set a. 0 \<le> sint x \<and> sint x < 100000"
  shows "print_arr a = number_line a"
proof -
  have "print_loop a ii va = concat (map (\<lambda>x. print_num x @ [32]) (drop ii a))" for ii va
  proof (induction "16 - ii" arbitrary: ii va)
    case 0
    then show ?case using assms(1) by (simp add: print_loop.simps [of a ii])
  next
    case (Suc d)
    then have i: "ii < length a" "d = 16 - Suc ii" using assms(1) by simp_all
    then show ?case
      using Suc.hyps(1) [of "Suc ii" "a ! ii"] assms(1) Cons_nth_drop_Suc [OF i(1), symmetric]
      by (simp add: print_loop.simps [of a ii] getv_def Let_def)
  qed
  moreover have "map (\<lambda>x. print_num x @ [32]) a = map (\<lambda>x. decimal (nat (sint x)) @ [32]) a"
    using assms(2) by (simp add: num_printer.prints_nonneg)
  ultimately show ?thesis by (simp only: print_arr_def number_line_def drop_0)
qed

text \<open>The sample sorts: for any sixteen numbers both functions give the same sorted permutation, and for
  numbers of up to five digits the program prints them in decimal, unsorted and sorted twice.\<close>

theorem sort_program_correct:
  assumes "length data = 16"
  shows "sel_sort data = sort_key sint data \<and> bub_sort data = sort_key sint data \<and>
    ((\<forall>x \<in> set data. 0 \<le> sint x \<and> sint x < 100000) \<longrightarrow>
      sort_program data = bytes ''Sort Demo'' @ [10, 10] @ bytes ''Unsorted: '' @ number_line data @
        bytes ''Selection sort: '' @ number_line (sort_key sint data) @ bytes ''Bubble sort: '' @ number_line (sort_key sint data) @
        bytes ''Done.'' @ [10])"
  using assms by (auto simp: sel_sort_sorts bub_sort_sorts sort_program_def print_arr_line)

theorem sort_program_correct_witness:
  "sort_main = bytes ''Sort Demo'' @ [10, 10] @ bytes ''Unsorted: 64 34 25 12 22 11 90 7 47 83 3 58 19 72 41 55 '' @ [10] @
     bytes ''Selection sort: 3 7 11 12 19 22 25 34 41 47 55 58 64 72 83 90 '' @ [10] @
     bytes ''Bubble sort: 3 7 11 12 19 22 25 34 41 47 55 58 64 72 83 90 '' @ [10] @ bytes ''Done.'' @ [10]"
proof -
  have l: "length load_data = 16" by (simp add: load_data_def)
  have v: "\<forall>x \<in> set load_data. 0 \<le> sint x \<and> sint x < 100000" by (simp add: load_data_def)
  have s: "sort_key sint load_data = [3, 7, 11, 12, 19, 22, 25, 34, 41, 47, 55, 58, 64, 72, 83, 90]" by (simp add: load_data_def)
  have "number_line load_data = bytes ''64 34 25 12 22 11 90 7 47 83 3 58 19 72 41 55 '' @ [10]"
    by (simp add: number_line_def load_data_def decimal.simps)
  moreover have "number_line (sort_key sint load_data) = bytes ''3 7 11 12 19 22 25 34 41 47 55 58 64 72 83 90 '' @ [10]"
    unfolding s by (simp add: number_line_def decimal.simps)
  ultimately show ?thesis using sort_program_correct [OF l] v by (simp add: sort_main_def)
qed

end
