(* ===== verification/Mv_Sample_Sha.thy ===== *)
theory Mv_Sample_Sha
  imports Mv_Sha256 Mv_Decimal
begin

text \<open>
  \<^verbatim>\<open>samples/sha256.c\<close>: the hash of one block, with a message schedule of sixteen words that are reused in
  turn. The variables \<^verbatim>\<open>W0\<close> to \<^verbatim>\<open>W15\<close> and \<^verbatim>\<open>H0\<close> to \<^verbatim>\<open>H7\<close> are lists; \<^verbatim>\<open>wi\<close> is a natural number, which counts from 0 to
  64. The standard it is compared with is the one of \<^theory_text>\<open>Mv_Sha256\<close>.
\<close>

unbundle bit_operations_syntax

section \<open>The program\<close>

function hex_loop :: "u32 \<Rightarrow> int \<Rightarrow> u8 list" where
  "hex_loop phv phi =
     (if phi \<ge> 0
      then let phd = drop_bit (nat phi) phv AND 0xF
           in (if phd < 10 then 48 + ucast phd else 87 + ucast phd) # hex_loop phv (phi - 4)
      else [])"
  by auto
termination by (relation "measure (\<lambda>(phv, phi). nat (phi + 1))") auto

definition print_hex32 :: "u32 \<Rightarrow> u8 list" where
  "print_hex32 phv = hex_loop phv 28"

definition sample_K :: "u32 list" where
  "sample_K = concat [
     [0x428a2f98, 0x71374491],
     [0xb5c0fbcf, 0xe9b5dba5],
     [0x3956c25b, 0x59f111f1],
     [0x923f82a4, 0xab1c5ed5],
     [0xd807aa98, 0x12835b01],
     [0x243185be, 0x550c7dc3],
     [0x72be5d74, 0x80deb1fe],
     [0x9bdc06a7, 0xc19bf174],
     [0xe49b69c1, 0xefbe4786],
     [0x0fc19dc6, 0x240ca1cc],
     [0x2de92c6f, 0x4a7484aa],
     [0x5cb0a9dc, 0x76f988da],
     [0x983e5152, 0xa831c66d],
     [0xb00327c8, 0xbf597fc7],
     [0xc6e00bf3, 0xd5a79147],
     [0x06ca6351, 0x14292967],
     [0x27b70a85, 0x2e1b2138],
     [0x4d2c6dfc, 0x53380d13],
     [0x650a7354, 0x766a0abb],
     [0x81c2c92e, 0x92722c85],
     [0xa2bfe8a1, 0xa81a664b],
     [0xc24b8b70, 0xc76c51a3],
     [0xd192e819, 0xd6990624],
     [0xf40e3585, 0x106aa070],
     [0x19a4c116, 0x1e376c08],
     [0x2748774c, 0x34b0bcb5],
     [0x391c0cb3, 0x4ed8aa4a],
     [0x5b9cca4f, 0x682e6ff3],
     [0x748f82ee, 0x78a5636f],
     [0x84c87814, 0x8cc70208],
     [0x90befffa, 0xa4506ceb],
     [0xbef9a3f7, 0xc67178f2]]"

definition getK :: "nat \<Rightarrow> u32 \<Rightarrow> u32" where
  "getK wi T2 = (if wi < 64 then sample_K ! wi else T2)"

text \<open>The word of this round, put where the one of sixteen rounds before was.\<close>

definition expand :: "u32 list \<Rightarrow> nat \<Rightarrow> u32 list" where
  "expand W wi =
     (if wi \<ge> 16
      then let x = W ! ((wi - 15) mod 16);
               ms0 = (drop_bit 7 x OR push_bit 25 x) XOR (drop_bit 18 x OR push_bit 14 x) XOR drop_bit 3 x;
               y = W ! ((wi - 2) mod 16);
               ms1 = (drop_bit 17 y OR push_bit 15 y) XOR (drop_bit 19 y OR push_bit 13 y) XOR drop_bit 10 y;
               mw7 = W ! ((wi - 7) mod 16);
               mw16 = W ! (wi mod 16)
           in W[wi mod 16 := mw16 + ms0 + mw7 + ms1]
      else W)"

definition compress_round :: "nat \<Rightarrow> u32 \<Rightarrow> u32 \<times> sha_state \<Rightarrow> u32 \<times> sha_state" where
  "compress_round wi wv s =
     (case s of (T2, ra, rb, rc, rd, re, rf, rg, rh) \<Rightarrow>
        let T2 = getK wi T2;
            S1 = (drop_bit 6 re OR push_bit 26 re) XOR (drop_bit 11 re OR push_bit 21 re) XOR (drop_bit 25 re OR push_bit 7 re);
            Ch = (re AND rf) XOR (NOT re AND rg);
            T1 = rh + S1 + Ch + T2 + wv;
            S0 = (drop_bit 2 ra OR push_bit 30 ra) XOR (drop_bit 13 ra OR push_bit 19 ra) XOR (drop_bit 22 ra OR push_bit 10 ra);
            Maj = (ra AND rb) XOR (ra AND rc) XOR (rb AND rc);
            tmp = S0 + Maj
        in (T2, T1 + tmp, ra, rb, rc, rd + T1, re, rf, rg))"

function compress_loop :: "u32 list \<Rightarrow> nat \<Rightarrow> u32 \<times> sha_state \<Rightarrow> sha_state" where
  "compress_loop W wi s =
     (if wi < 64
      then let W = expand W wi in compress_loop W (wi + 1) (compress_round wi (W ! (wi mod 16)) s)
      else snd s)"
  by auto
termination by (relation "measure (\<lambda>(W, wi, s). 64 - wi)") auto

definition sha256_compress :: "u32 list \<Rightarrow> u32 list \<Rightarrow> u32 list" where
  "sha256_compress H W =
     (case compress_loop W 0 (0, H ! 0, H ! 1, H ! 2, H ! 3, H ! 4, H ! 5, H ! 6, H ! 7) of
        (ra, rb, rc, rd, re, rf, rg, rh) \<Rightarrow>
          [H ! 0 + ra, H ! 1 + rb, H ! 2 + rc, H ! 3 + rd, H ! 4 + re, H ! 5 + rf, H ! 6 + rg, H ! 7 + rh])"

definition sample_W :: "u32 list" where
  "sample_W = [0x48656C6C, 0x6F2C204D, 0x656C6C69, 0x766F7261, 0x21800000, 0, 0, 0, 0, 0, 0, 0, 0, 0, 0, 0x00000088]"

definition sample_H :: "u32 list" where
  "sample_H = [0x6a09e667, 0xbb67ae85] @ [0x3c6ef372, 0xa54ff53a] @
     [0x510e527f, 0x9b05688c] @ [0x1f83d9ab, 0x5be0cd19]"

definition sha_main :: "u8 list" where
  "sha_main = bytes ''SHA-256('' @ [34] @ bytes ''Hello, Mellivora!'' @ [34] @ bytes '') = '' @
     concat (map print_hex32 (sha256_compress sample_H sample_W)) @ [10]"

declare hex_loop.simps [simp del] compress_loop.simps [simp del]

section \<open>The rolling schedule\<close>

lemma sample_K_eq: "sample_K = sha_K"
  by (simp add: sample_K_def sha_K_def)

lemma sample_H_eq: "sample_H = sha_H"
  by (simp add: sample_H_def sha_H_def)

text \<open>The slots hold the last sixteen words of the schedule.\<close>

definition rolling :: "u8 list \<Rightarrow> u32 list \<Rightarrow> nat \<Rightarrow> bool" where
  "rolling B W n \<longleftrightarrow> length W = 16 \<and> (\<forall>j. n - 16 \<le> j \<and> j < n \<longrightarrow> W ! (j mod 16) = fips_W B j)"

lemma mod_16_neq: "j < n \<Longrightarrow> n < j + 16 \<Longrightarrow> j mod 16 \<noteq> n mod (16 :: nat)"
proof
  assume a: "j < n" "n < j + 16" "j mod 16 = n mod 16"
  then have "16 dvd n - j" by (metis less_imp_le mod_eq_dvd_iff_nat)
  then show False using a(1,2) by (auto dest: dvd_imp_le)
qed

lemma expand_rolls:
  assumes "rolling B W (max wi 16)"
  shows "rolling B (expand W wi) (max (wi + 1) 16) \<and> expand W wi ! (wi mod 16) = fips_W B wi"
proof (cases "wi \<ge> 16")
  case False
  then show ?thesis using assms by (simp add: expand_def rolling_def max_def)
next
  case True
  then have W: "length W = 16" "\<And>j. wi - 16 \<le> j \<Longrightarrow> j < wi \<Longrightarrow> W ! (j mod 16) = fips_W B j"
    using assms by (auto simp: rolling_def max_def)
  have m: "(wi - 16) mod 16 = wi mod 16" using True by (simp add: le_mod_geq)
  have "expand W wi = W[wi mod 16 := fips_W B (wi - 16) + sigma0 (fips_W B (wi - 15)) + fips_W B (wi - 7) + sigma1 (fips_W B (wi - 2))]"
    using True W(2) [of "wi - 15"] W(2) [of "wi - 2"] W(2) [of "wi - 7"] W(2) [of "wi - 16"] m
    by (simp add: expand_def Let_def sigma0_def sigma1_def rotr_at)
  moreover have "fips_W B wi = fips_W B (wi - 16) + sigma0 (fips_W B (wi - 15)) + fips_W B (wi - 7) + sigma1 (fips_W B (wi - 2))"
    using True by (subst fips_W.simps) (simp add: ac_simps)
  ultimately have e: "expand W wi = W[wi mod 16 := fips_W B wi]" by simp
  have "W[wi mod 16 := fips_W B wi] ! (j mod 16) = fips_W B j" if "wi + 1 - 16 \<le> j" "j < wi + 1" for j
  proof (cases "j = wi")
    case False
    then have "j mod 16 \<noteq> wi mod 16" using that True by (intro mod_16_neq) linarith+
    then show ?thesis using that False W(2) [of j] by simp
  qed (use W(1) in simp)
  then show ?thesis unfolding e rolling_def using W(1) True by (simp add: max_def)
qed

lemma compress_round_fips:
  assumes "wi < 64" "wv = fips_W B wi"
  shows "snd (compress_round wi wv (T2, st)) = fips_round B st wi"
  using assms sha_K_fips [OF assms(1)]
  by (cases st) (simp add: compress_round_def fips_round_def getK_def sample_K_eq Let_def rotr_at
      Sigma0_def Sigma1_def fips_Ch_def fips_Maj_def split: prod.splits)

lemma compress_loop_fips:
  "rolling B W (max wi 16) \<Longrightarrow> wi \<le> 64 \<Longrightarrow> compress_loop W wi s = foldl (fips_round B) (snd s) [wi..<64]"
proof (induction "64 - wi" arbitrary: W wi s)
  case 0
  then have "wi = 64" by simp
  then show ?case by (simp add: compress_loop.simps [of W 64])
next
  case (Suc d)
  then have w: "wi < 64" "d = 64 - (wi + 1)" by simp_all
  obtain T2 st where s: "s = (T2, st)" by (cases s)
  note e = expand_rolls [OF Suc.prems(1)]
  have r: "snd (compress_round wi (expand W wi ! (wi mod 16)) s) = fips_round B st wi"
    using compress_round_fips [OF w(1)] e s by blast
  have "compress_loop W wi s = compress_loop (expand W wi) (wi + 1) (compress_round wi (expand W wi ! (wi mod 16)) s)"
    using w(1) by (simp add: compress_loop.simps [of W wi] Let_def)
  also have "\<dots> = foldl (fips_round B) (fips_round B st wi) [wi + 1..<64]"
    using Suc.hyps(1) [of "wi + 1" "expand W wi"] w e r by simp
  also have "\<dots> = foldl (fips_round B) (snd s) [wi..<64]" using w(1) s by (simp add: upt_rec [of wi])
  finally show ?case .
qed

lemma compress_fips:
  assumes "length H = 8" "W = map (fips_M B) [0..<16]"
  shows "sha256_compress H W = fips_block H B"
proof -
  have "rolling B W (max 0 16)" using assms(2) by (auto simp: rolling_def fips_W.simps [of B])
  from compress_loop_fips [OF this] 
  have l: "compress_loop W 0 s = foldl (fips_round B) (snd s) [0..<64]" for s by simp
  obtain h0 h1 h2 h3 h4 h5 h6 h7 where "H = [h0, h1, h2, h3, h4, h5, h6, h7]"
    using assms(1) by (auto simp: length_Suc_conv numeral_eq_Suc)
  then show ?thesis by (simp add: sha256_compress_def fips_block_def l add.commute split: prod.splits)
qed

lemma print_hex32_hex8: "print_hex32 = hex8"
  by (rule ext) (simp add: print_hex32_def hex_loop.simps hex8_def hex_digit_def Let_def upt_rec)

lemma chunks_one: "length b = 64 \<Longrightarrow> chunks b = [b]"
  by (cases b) (simp_all add: chunks.simps)

text \<open>The sample hash: the compression with sixteen reused words is the one of FIPS 180-4 for any block and any state,
  and the program prints the hash of its text.\<close>

theorem sha_sample_correct:
  "sha_main = bytes ''SHA-256('' @ [34] @ bytes ''Hello, Mellivora!'' @ [34] @ bytes '') = '' @
     concat (map hex8 (fips_sha256 (bytes ''Hello, Mellivora!''))) @ [10]"
proof -
  let ?B = "fips_pad (bytes ''Hello, Mellivora!'')"
  have l: "length ?B = 64" by (simp add: fips_pad_def big_endian64_def)
  then have "chunks ?B = [?B]" by (rule chunks_one)
  moreover have "sample_W = map (fips_M ?B) [0..<16]" by code_simp
  ultimately have "sha256_compress sample_H sample_W = fips_sha256 (bytes ''Hello, Mellivora!'')"
    using compress_fips [of sample_H sample_W ?B] by (simp add: fips_sha256_def sample_H_eq sha_H_fips [symmetric] sha_H_def)
  then show ?thesis by (simp add: sha_main_def print_hex32_hex8)
qed

end
