(* ===== verification/Mv_Sample_Calc.thy ===== *)
theory Mv_Sample_Calc
  imports Mv_Decimal
begin

text \<open>
  \<^verbatim>\<open>samples/calc.c\<close>: a calculator that reads lines of numbers and operators and works from left to right. The
  global variables are a record; the input is the bytes that \<^verbatim>\<open>getchar\<close> will return, the output those given to
  \<^verbatim>\<open>putchar\<close>. None is a program that goes no further: it waits for input that never comes, or divides the
  smallest number by -1, which the processor refuses.
\<close>

section \<open>The program\<close>

record calc =
  calc_ch :: int
  num :: u32
  result :: u32
  oper :: int
  slots :: "int list"
  input :: "u8 list"
  out :: "u8 list"

definition getchar :: "calc \<Rightarrow> calc option" where
  "getchar st = (case input st of [] \<Rightarrow> None | c # r \<Rightarrow> Some (st\<lparr>calc_ch := uint c, input := r\<rparr>))"

definition putchars :: "u8 list \<Rightarrow> calc \<Rightarrow> calc" where
  "putchars s st = st\<lparr>out := out st @ s\<rparr>"

definition print_dec :: "u32 \<Rightarrow> u8 list" where
  "print_dec pr_num =
     (let (sign, pr_d) = (if sint pr_num < 0 then ([45], 0 - pr_num) else ([], pr_num))
      in if pr_d = 0 then sign @ [48] else sign @ snd (dec_loop (sint pr_d) 1000000000 False))"

text \<open>\<^verbatim>\<open>print_str\<close> goes over the variables \<^verbatim>\<open>print_s0\<close> to \<^verbatim>\<open>print_s15\<close> and uses \<^verbatim>\<open>ch\<close> for each of them.\<close>

definition print_slot :: "calc \<Rightarrow> nat \<Rightarrow> calc" where
  "print_slot st i =
     (let c = (if i < 16 then slots st ! i else 0); st = st\<lparr>calc_ch := c\<rparr>
      in if c > 0 then putchars [word_of_int c] st else st)"

definition print_str :: "nat \<Rightarrow> calc \<Rightarrow> calc" where
  "print_str print_len st = foldl print_slot st [0..<print_len]"

definition set_slots :: "int list \<Rightarrow> calc \<Rightarrow> calc" where
  "set_slots s st = st\<lparr>slots := s @ drop (length s) (slots st)\<rparr>"

definition print_text :: "int list \<Rightarrow> calc \<Rightarrow> calc" where
  "print_text s st = putchars [10] (print_str (length s) (set_slots s st))"

partial_function (option) skip_spaces :: "calc \<Rightarrow> calc option" where
  "skip_spaces st = (if calc_ch st = 32 then Option.bind (getchar st) skip_spaces else Some st)"

partial_function (option) read_digits :: "calc \<Rightarrow> calc option" where
  "read_digits st =
     (if calc_ch st \<ge> 48 \<and> calc_ch st \<le> 57
      then Option.bind (getchar (st\<lparr>num := num st * 10 + word_of_int (calc_ch st - 48)\<rparr>)) read_digits
      else Some st)"

definition read_number :: "calc \<Rightarrow> calc option" where
  "read_number st =
     (let st = st\<lparr>num := 0\<rparr>; neg = (calc_ch st = 45)
      in Option.bind (if neg then getchar st else Some st) (\<lambda>st.
         Option.bind (read_digits st) (\<lambda>st. Some (if neg then st\<lparr>num := 0 - num st\<rparr> else st))))"

partial_function (option) rest_of_line :: "calc \<Rightarrow> calc option" where
  "rest_of_line st = (if calc_ch st \<noteq> 10 \<and> calc_ch st \<noteq> 13 then Option.bind (getchar st) rest_of_line else Some st)"

definition divide :: "u32 \<Rightarrow> u32 \<Rightarrow> u32 option" where
  "divide a b = (if a = 0x80000000 \<and> b = - 1 then None else Some (word_of_int (sint a sdiv sint b)))"

definition apply_operator :: "calc \<Rightarrow> calc option" where
  "apply_operator st =
     (if oper st = 43 then Some (st\<lparr>result := result st + num st\<rparr>)
      else if oper st = 45 then Some (st\<lparr>result := result st - num st\<rparr>)
      else if oper st = 42 then Some (st\<lparr>result := result st * num st\<rparr>)
      else if oper st = 47
      then if num st = 0
           then rest_of_line ((print_text [68, 105, 118, 32, 98, 121, 32, 48] st)\<lparr>oper := 0\<rparr>)
           else map_option (\<lambda>r. st\<lparr>result := r\<rparr>) (divide (result st) (num st))
      else Some st)"

definition is_operator :: "int \<Rightarrow> bool" where
  "is_operator c \<longleftrightarrow> c = 43 \<or> c = 45 \<or> c = 42 \<or> c = 47"

partial_function (option) operators :: "calc \<Rightarrow> calc option" where
  "operators st =
     (if calc_ch st \<noteq> 10 \<and> calc_ch st \<noteq> 13
      then Option.bind (skip_spaces st) (\<lambda>st.
        let st = st\<lparr>oper := calc_ch st\<rparr>
        in if \<not> is_operator (oper st)
           then Option.bind (rest_of_line (print_text [69, 114, 114, 111, 114] st)) (\<lambda>st. operators (st\<lparr>oper := 0\<rparr>))
           else Option.bind (getchar st) (\<lambda>st. Option.bind (skip_spaces st) (\<lambda>st.
             Option.bind (read_number st) (\<lambda>st. Option.bind (apply_operator st) operators))))
      else Some st)"

definition print_result :: "calc \<Rightarrow> calc" where
  "print_result st = (if oper st \<noteq> 0 then putchars ([61, 32] @ print_dec (result st) @ [10]) st else st)"

definition calc_line :: "calc \<Rightarrow> calc option" where
  "calc_line st =
     Option.bind (skip_spaces st) (\<lambda>st. Option.bind (read_number st) (\<lambda>st.
     Option.bind (operators (st\<lparr>result := num st\<rparr>)) (\<lambda>st. Some (print_result st))))"

partial_function (option) calc_loop :: "calc \<Rightarrow> calc option" where
  "calc_loop st =
     Option.bind (getchar (putchars [62, 32] st)) (\<lambda>st.
       if calc_ch st = 113 \<or> calc_ch st = 81 then Some st else Option.bind (calc_line st) calc_loop)"

definition calc_start :: "u8 list \<Rightarrow> calc" where
  "calc_start inp = \<lparr>calc_ch = 0, num = 0, result = 0, oper = 0, slots = replicate 16 0, input = inp, out = []\<rparr>"

definition calc_main :: "u8 list \<Rightarrow> u8 list option" where
  "calc_main inp =
     Option.bind (calc_loop (print_text [67, 97, 108, 99, 32, 45, 32, 73, 110, 116, 101, 103, 101, 114] (calc_start inp)))
       (\<lambda>st. Some (out (print_text [66, 121, 101, 33] st)))"

declare skip_spaces.simps [code] read_digits.simps [code] rest_of_line.simps [code] operators.simps [code] calc_loop.simps [code]

section \<open>The specification: lines of a calculation\<close>

type_synonym literal = "bool \<times> nat list"

definition lit_text :: "literal \<Rightarrow> u8 list" where
  "lit_text l = (if fst l then [45] else []) @ map (\<lambda>d. of_nat (48 + d)) (snd l)"

definition digits_value :: "u32 \<Rightarrow> nat list \<Rightarrow> u32" where
  "digits_value n ds = foldl (\<lambda>n d. n * 10 + of_nat d) n ds"

definition lit_value :: "literal \<Rightarrow> u32" where
  "lit_value l = (if fst l then - digits_value 0 (snd l) else digits_value 0 (snd l))"

definition lit_ok :: "literal \<Rightarrow> bool" where
  "lit_ok l \<longleftrightarrow> snd l \<noteq> [] \<and> list_all (\<lambda>d. d < 10) (snd l)"

text \<open>An operation: blanks, the operator, blanks and the number.\<close>

type_synonym operation = "nat \<times> u8 \<times> nat \<times> literal"

fun op_text :: "operation \<Rightarrow> u8 list" where
  "op_text (a, f, b, l) = replicate a 32 @ [f] @ replicate b 32 @ lit_text l"

fun op_ok :: "operation \<Rightarrow> bool" where
  "op_ok (a, f, b, l) \<longleftrightarrow> f \<in> {43, 45, 42, 47} \<and> lit_ok l"

definition meaning :: "u8 \<Rightarrow> u32 \<Rightarrow> u32 \<Rightarrow> u32 option" where
  "meaning f x y = (if f = 43 then Some (x + y) else if f = 45 then Some (x - y) else if f = 42 then Some (x * y)
     else if y = 0 then None else divide x y)"

fun value_of :: "u32 \<Rightarrow> operation list \<Rightarrow> u32 option" where
  "value_of v [] = Some v"
| "value_of v ((a, f, b, l) # ops) = Option.bind (meaning f v (lit_value l)) (\<lambda>v. value_of v ops)"

fun last_op :: "int \<Rightarrow> operation list \<Rightarrow> int" where
  "last_op f [] = f"
| "last_op g ((a, f, b, l) # ops) = last_op (uint f) ops"

type_synonym line = "nat \<times> literal \<times> operation list"

fun line_text :: "line \<Rightarrow> u8 list" where
  "line_text (n, l, ops) = replicate n 32 @ lit_text l @ concat (map op_text ops) @ [10]"

fun line_ok :: "line \<Rightarrow> bool" where
  "line_ok (n, l, ops) \<longleftrightarrow> lit_ok l \<and> list_all op_ok ops \<and>
     (case value_of (lit_value l) ops of None \<Rightarrow> False | Some v \<Rightarrow> v \<noteq> 0x80000000)"

text \<open>What is printed for lines, with the operator left from the line before: nothing for a line that is a single
  number as long as no operator was read.\<close>

fun answers :: "int \<Rightarrow> line list \<Rightarrow> u8 list" where
  "answers g [] = bytes ''> ''"
| "answers g ((n, l, ops) # ls) =
     bytes ''> '' @
     (if last_op g ops = 0 then [] else bytes ''= '' @ signed_decimal (the (value_of (lit_value l) ops)) @ [10]) @
     answers (last_op g ops) ls"


section \<open>Reading\<close>

text \<open>A state that has a text before it: the first byte was read, the rest will be.\<close>

definition at :: "calc \<Rightarrow> u8 list \<Rightarrow> calc" where
  "at st s = st\<lparr>calc_ch := uint (hd s), input := tl s\<rparr>"

lemma at_simps [simp]:
  "calc_ch (at st s) = uint (hd s)" "input (at st s) = tl s" "num (at st s) = num st" "result (at st s) = result st"
  "oper (at st s) = oper st" "out (at st s) = out st" "slots (at st s) = slots st"
  "(at st s)\<lparr>num := n\<rparr> = at (st\<lparr>num := n\<rparr>) s" "(at st s)\<lparr>result := v\<rparr> = at (st\<lparr>result := v\<rparr>) s"
  "(at st s)\<lparr>oper := f\<rparr> = at (st\<lparr>oper := f\<rparr>) s"
  by (simp_all add: at_def)

lemma getchar_at: "s \<noteq> [] \<Longrightarrow> getchar (at st (c # s)) = Some (at st s)"
  by (cases s) (simp_all add: getchar_def at_def)

lemma uint_eq_byte: "uint (c :: u8) = uint d \<longleftrightarrow> c = d"
  by (rule word_uint_eq_iff [symmetric])

lemma skip_spaces_at: "hd s \<noteq> 32 \<Longrightarrow> s \<noteq> [] \<Longrightarrow> skip_spaces (at st (replicate n 32 @ s)) = Some (at st s)"
proof (induction n)
  case 0
  have "uint (hd s) \<noteq> 32" using 0(1) uint_eq_byte [of "hd s" 32] by simp
  then show ?case by (simp add: skip_spaces.simps)
next
  case (Suc n)
  then show ?case by (simp add: skip_spaces.simps [of "at st (32 # replicate n 32 @ s)"] getchar_at)
qed

definition not_digit :: "u8 \<Rightarrow> bool" where
  "not_digit c \<longleftrightarrow> uint c < 48 \<or> uint c > 57"

lemma uint_digit: "d < 10 \<Longrightarrow> uint (of_nat (48 + d) :: u8) = 48 + int d"
  by (simp add: unsigned_of_nat take_bit_nat_eq_self uint_nat del: of_nat_add)

lemma read_digits_at:
  "list_all (\<lambda>d. d < 10) ds \<Longrightarrow> s \<noteq> [] \<Longrightarrow> not_digit (hd s) \<Longrightarrow>
     read_digits (at st (map (\<lambda>d. of_nat (48 + d)) ds @ s)) = Some (at (st\<lparr>num := digits_value (num st) ds\<rparr>) s)"
proof (induction ds arbitrary: st)
  case Nil
  then show ?case by (auto simp: read_digits.simps not_digit_def digits_value_def)
next
  case (Cons d ds)
  let ?s = "map (\<lambda>d. of_nat (48 + d)) ds @ s"
  have "read_digits (at st (of_nat (48 + d) # ?s)) = read_digits (at (st\<lparr>num := num st * 10 + of_nat d\<rparr>) ?s)"
    using Cons.prems uint_digit [of d] by (simp add: read_digits.simps [of "at st (of_nat (48 + d) # ?s)"] getchar_at del: of_nat_add)
  then show ?case using Cons.IH [of "st\<lparr>num := num st * 10 + of_nat d\<rparr>"] Cons.prems by (simp add: digits_value_def)
qed

lemma lit_text_hd:
  assumes "lit_ok l"
  obtains c t where "lit_text l = c # t" "c = 45 \<or> \<not> not_digit c"
proof (cases "fst l")
  case True
  then show thesis using that by (simp add: lit_text_def)
next
  case False
  obtain d ds where d: "snd l = d # ds" "d < 10" using assms by (cases "snd l") (auto simp: lit_ok_def)
  have "\<not> not_digit (of_nat (48 + d))" unfolding not_digit_def uint_digit [OF d(2)] using d(2) by simp
  then show thesis using that False d(1) by (simp add: lit_text_def)
qed

lemma read_number_at:
  assumes "lit_ok l" "s \<noteq> []" "not_digit (hd s)"
  shows "read_number (at st (lit_text l @ s)) = Some (at (st\<lparr>num := lit_value l\<rparr>) s)"
proof (cases "fst l")
  case True
  then show ?thesis
    using assms read_digits_at [of "snd l" s "st\<lparr>num := 0\<rparr>"] by (simp add: read_number_def lit_text_def lit_value_def lit_ok_def getchar_at)
next
  case False
  obtain d ds where d: "snd l = d # ds" "d < 10" using assms(1) by (cases "snd l") (auto simp: lit_ok_def)
  then have "uint (hd (lit_text l @ s)) \<noteq> 45" using False uint_digit [of d] by (simp add: lit_text_def)
  then show ?thesis
    using assms False read_digits_at [of "snd l" s "st\<lparr>num := 0\<rparr>"] by (simp add: read_number_def lit_text_def lit_value_def lit_ok_def)
qed


section \<open>A line\<close>

lemma operator_bytes: "f \<in> {43, 45, 42, 47} \<Longrightarrow> is_operator (uint f) \<and> not_digit f \<and> f \<noteq> 32 \<and> f \<noteq> 10 \<and> f \<noteq> 13"
  by (auto simp: is_operator_def not_digit_def)

lemma not_newline: "uint (c :: u8) = 10 \<longleftrightarrow> c = 10" "uint c = 13 \<longleftrightarrow> c = 13"
  using uint_eq_byte [of c 10] uint_eq_byte [of c 13] by simp_all

text \<open>What follows a number does not go on with it.\<close>

lemma ops_text_hd:
  assumes "list_all op_ok ops"
  shows "not_digit (hd (concat (map op_text ops) @ 10 # r))"
proof (cases ops)
  case Nil
  then show ?thesis by (simp add: not_digit_def)
next
  case (Cons x xs)
  obtain a f b l where x: "x = (a, f, b, l)" by (cases x)
  then have "f \<in> {43, 45, 42, 47}" using assms Cons by simp
  then show ?thesis using operator_bytes [of f] Cons x by (cases a) (auto simp: not_digit_def)
qed

lemma apply_operator_meaning:
  assumes "f \<in> {43, 45, 42, 47}" "meaning f (result st) (num st) = Some v" "oper st = uint f"
  shows "apply_operator st = Some (st\<lparr>result := v\<rparr>)"
  using assms by (auto simp: apply_operator_def meaning_def split: if_splits)

lemma operators_step:
  assumes "op_ok (a, f, b, l)" "s \<noteq> []" "not_digit (hd s)" "meaning f (result st) (lit_value l) = Some v"
  shows "operators (at st (op_text (a, f, b, l) @ s)) = operators (at (st\<lparr>oper := uint f, num := lit_value l, result := v\<rparr>) s)"
proof -
  have f: "f \<in> {43, 45, 42, 47}" "lit_ok l" using assms(1) by simp_all
  note o = operator_bytes [OF f(1)]
  obtain c t where c: "lit_text l = c # t" "c = 45 \<or> \<not> not_digit c" by (rule lit_text_hd [OF f(2)])
  then have c32: "c \<noteq> 32" by (auto simp: not_digit_def)
  let ?s = "lit_text l @ s"
  have hd: "hd (replicate a 32 @ f # replicate b 32 @ ?s) \<noteq> 10 \<and> hd (replicate a 32 @ f # replicate b 32 @ ?s) \<noteq> 13"
    using o by (cases a) simp_all
  have 1: "skip_spaces (at st (replicate a 32 @ f # replicate b 32 @ ?s)) = Some (at st (f # replicate b 32 @ ?s))"
    by (rule skip_spaces_at) (use o in simp_all)
  have 2: "getchar (at (st\<lparr>oper := uint f\<rparr>) (f # replicate b 32 @ ?s)) = Some (at (st\<lparr>oper := uint f\<rparr>) (replicate b 32 @ ?s))"
    by (rule getchar_at) (simp add: c)
  have 3: "skip_spaces (at (st\<lparr>oper := uint f\<rparr>) (replicate b 32 @ ?s)) = Some (at (st\<lparr>oper := uint f\<rparr>) ?s)"
    by (rule skip_spaces_at) (simp_all add: c c32)
  have 4: "read_number (at (st\<lparr>oper := uint f\<rparr>) ?s) = Some (at (st\<lparr>oper := uint f, num := lit_value l\<rparr>) s)"
    by (rule read_number_at [OF f(2) assms(2,3)])
  have 5: "apply_operator (at (st\<lparr>oper := uint f, num := lit_value l\<rparr>) s) =
      Some (at (st\<lparr>oper := uint f, num := lit_value l, result := v\<rparr>) s)"
    using apply_operator_meaning [OF f(1), of "at (st\<lparr>oper := uint f, num := lit_value l\<rparr>) s" v] assms(4) by simp
  show ?thesis
    using hd o by (simp add: operators.simps [of "at st (replicate a 32 @ f # replicate b 32 @ ?s)"] not_newline 1 2 3 4 5 Let_def)
qed

lemma operators_at:
  "list_all op_ok ops \<Longrightarrow> value_of (result st) ops = Some v \<Longrightarrow>
     \<exists>n. operators (at st (concat (map op_text ops) @ 10 # r)) =
       Some (at (st\<lparr>oper := last_op (oper st) ops, num := n, result := v\<rparr>) (10 # r))"
proof (induction ops arbitrary: st)
  case Nil
  have "operators (at st (10 # r)) = Some (at (st\<lparr>oper := oper st, num := num st, result := result st\<rparr>) (10 # r))"
    by (simp add: operators.simps)
  then show ?case using Nil by (intro exI [of _ "num st"]) simp
next
  case (Cons x ops)
  obtain a f b l where x: "x = (a, f, b, l)" by (cases x)
  obtain w where w: "meaning f (result st) (lit_value l) = Some w" "value_of w ops = Some v"
    using Cons.prems(2) x by (auto simp: bind_eq_Some_conv)
  let ?st = "st\<lparr>oper := uint f, num := lit_value l, result := w\<rparr>"
  have "operators (at st (op_text x @ concat (map op_text ops) @ 10 # r)) = operators (at ?st (concat (map op_text ops) @ 10 # r))"
    unfolding x by (rule operators_step [OF _ _ ops_text_hd w(1)]) (use Cons.prems(1) x in simp_all)
  then show ?case using Cons.IH [of ?st] Cons.prems(1) w(2) x by simp
qed

lemma calc_line_at:
  assumes "line_ok (n, l, ops)" "value_of (lit_value l) ops = Some v"
  shows "\<exists>m. calc_line (at st (line_text (n, l, ops) @ r)) =
    Some (print_result (at (st\<lparr>oper := last_op (oper st) ops, num := m, result := v\<rparr>) (10 # r)))"
proof -
  let ?s = "concat (map op_text ops) @ 10 # r"
  have l: "lit_ok l" "list_all op_ok ops" using assms(1) by simp_all
  obtain c t where c: "lit_text l = c # t" "c = 45 \<or> \<not> not_digit c" by (rule lit_text_hd [OF l(1)])
  then have "c \<noteq> 32" by (auto simp: not_digit_def)
  then have 1: "skip_spaces (at st (replicate n 32 @ lit_text l @ ?s)) = Some (at st (lit_text l @ ?s))"
    by (intro skip_spaces_at) (simp_all add: c(1))
  have 2: "read_number (at st (lit_text l @ ?s)) = Some (at (st\<lparr>num := lit_value l\<rparr>) ?s)"
    by (rule read_number_at [OF l(1) _ ops_text_hd [OF l(2)]]) simp
  obtain m where "operators (at (st\<lparr>num := lit_value l, result := lit_value l\<rparr>) ?s) =
      Some (at (st\<lparr>oper := last_op (oper st) ops, num := m, result := v\<rparr>) (10 # r))"
    using operators_at [OF l(2), of "st\<lparr>num := lit_value l, result := lit_value l\<rparr>" v r] assms(2) by auto
  then show ?thesis using 1 2 by (auto simp: calc_line_def)
qed

section \<open>The output\<close>

lemma print_dec_decimal: "v \<noteq> 0x80000000 \<Longrightarrow> print_dec v = signed_decimal v"
proof -
  assume v: "v \<noteq> 0x80000000"
  have main: "(if w = 0 then [48] else snd (dec_loop (sint w) 1000000000 False)) = decimal (nat (sint w))" if "0 \<le> sint w" for w :: u32
    using dec_loop_word [of w 9] that sint_range_size [of w] by (simp add: word_size)
  show ?thesis
    using main [of v] main [of "- v"] sint_minus [OF v] by (auto simp: print_dec_def signed_decimal_def)
qed

interpretation dec_printer: decimal_printer print_dec "\<lambda>v. v \<noteq> 0x80000000"
  by unfold_locales (rule print_dec_decimal)

lemma print_str_texts:
  assumes "\<forall>c \<in> set s. 0 < c" "length s \<le> 16"
  shows "out (print_str (length s) (set_slots s st)) = out st @ map word_of_int s"
    "input (print_str (length s) (set_slots s st)) = input st" "oper (print_str (length s) (set_slots s st)) = oper st"
proof -
  let ?st = "set_slots s st"
  have "foldl print_slot ?st [0..<n] = ?st\<lparr>calc_ch := if n = 0 then calc_ch st else s ! (n - 1), out := out st @ map word_of_int (take n s)\<rparr>"
    if "n \<le> length s" for n
    using that
  proof (induction n)
    case 0
    then show ?case by (simp add: set_slots_def)
  next
    case (Suc n)
    have "0 < s ! n" using assms(1) Suc.prems by simp
    moreover have "slots ?st ! n = s ! n" "n < 16" using Suc.prems assms(2) by (simp_all add: set_slots_def nth_append)
    ultimately show ?case
      using Suc by (simp add: print_slot_def putchars_def Let_def take_Suc_conv_app_nth)
  qed
  from this [of "length s"] show "out (print_str (length s) ?st) = out st @ map word_of_int s" "input (print_str (length s) ?st) = input st"
    "oper (print_str (length s) ?st) = oper st"
    by (simp_all add: print_str_def set_slots_def)
qed

lemma line_first:
  assumes "line_ok (n, l, ops)"
  shows "\<exists>c t. line_text (n, l, ops) = c # t \<and> c \<noteq> 113 \<and> c \<noteq> 81"
proof (cases n)
  case 0
  obtain c t where "lit_text l = c # t" "c = 45 \<or> \<not> not_digit c" using lit_text_hd [of l] assms by auto
  then show ?thesis using 0 by (auto simp: not_digit_def)
qed simp

lemma calc_loop_answers:
  "list_all line_ok ls \<Longrightarrow> input st = concat (map line_text ls) @ 113 # r \<Longrightarrow>
     \<exists>st'. calc_loop st = Some st' \<and> out st' = out st @ answers (oper st) ls"
proof (induction ls arbitrary: st)
  case Nil
  then show ?case by (simp add: calc_loop.simps [of st] getchar_def putchars_def)
next
  case (Cons x ls)
  obtain n l ops where x: "x = (n, l, ops)" by (cases x)
  have ok: "line_ok (n, l, ops)" using Cons.prems(1) x by simp
  then obtain v where v: "value_of (lit_value l) ops = Some v" "v \<noteq> 0x80000000" by (auto split: option.splits)
  obtain c t where c: "line_text (n, l, ops) = c # t" "c \<noteq> 113" "c \<noteq> 81" using line_first [OF ok] by blast
  let ?r = "concat (map line_text ls) @ 113 # r"
  have g: "getchar (putchars [62, 32] st) = Some (at (putchars [62, 32] st) (line_text (n, l, ops) @ ?r))"
    using Cons.prems(2) x c(1) by (simp add: getchar_def at_def putchars_def del: line_text.simps)
  obtain m where m: "calc_line (at (putchars [62, 32] st) (line_text (n, l, ops) @ ?r)) =
      Some (print_result (at ((putchars [62, 32] st)\<lparr>oper := last_op (oper (putchars [62, 32] st)) ops, num := m, result := v\<rparr>) (10 # ?r)))"
    using calc_line_at [OF ok v(1)] by blast
  let ?st = "print_result (at ((putchars [62, 32] st)\<lparr>oper := last_op (oper st) ops, num := m, result := v\<rparr>) (10 # ?r))"
  have st: "input ?st = ?r" "oper ?st = last_op (oper st) ops"
    "out ?st = out st @ [62, 32] @ (if last_op (oper st) ops = 0 then [] else [61, 32] @ signed_decimal v @ [10])"
    using dec_printer.prints [OF v(2)] by (simp_all add: print_result_def putchars_def)
  have "calc_loop st = calc_loop ?st"
    using g m c uint_eq_byte [of c 113] uint_eq_byte [of c 81]
    by (simp add: calc_loop.simps [of st] putchars_def del: line_text.simps)
  then show ?case using Cons.IH [OF _ st(1)] Cons.prems(1) st(2,3) x v(1) by auto
qed



text \<open>Outside these lines: \<^verbatim>\<open>print_str\<close> overwrites the newline in \<^verbatim>\<open>ch\<close>, so after a division by zero at the end of
  a line, and after a blank there, the next line is lost.\<close>

lemma calc_division_by_zero_loses_line:
  "calc_main (bytes ''1/0'' @ [10] @ bytes ''2+2'' @ [10] @ bytes ''3+3'' @ [10] @ bytes ''q'') =
     Some (bytes ''Calc - Integer'' @ [10] @ bytes ''> Div by 0'' @ [10] @ bytes ''> = 6'' @ [10] @ bytes ''> Bye!'' @ [10])"
  by code_simp

lemma calc_blank_at_end_loses_line:
  "calc_main (bytes ''1+1 '' @ [10] @ bytes ''2+2'' @ [10] @ bytes ''3+3'' @ [10] @ bytes ''q'') =
     Some (bytes ''Calc - Integer'' @ [10] @ bytes ''> Error'' @ [10] @ bytes ''> = 6'' @ [10] @ bytes ''> Bye!'' @ [10])"
  by code_simp

end
