(* ===== verification/Mv_Sample_Matrix.thy ===== *)
theory Mv_Sample_Matrix
  imports Mv_Decimal
begin

text \<open>
  \<^verbatim>\<open>samples/matrix_mul.c\<close>: the product of two matrices of four rows and four columns. The sixteen variables of a matrix
  are a list of rows; the functions that choose one by two indices do nothing for an index outside,
  so the value they would set is an argument. The indices are natural numbers, counted up from 0.
\<close>

type_synonym matrix = "u32 list list"

section \<open>Output of a number\<close>

definition print_int :: "u32 \<Rightarrow> u8 list" where
  "print_int pn =
     (if pn = 0 then [48]
      else let neg = (sint pn < 0); pn = (if neg then 0 - pn else pn)
           in (if neg then [45] else []) @ snd (dec_loop (sint pn) 1000 False))"

function digits_loop :: "u32 \<Rightarrow> int \<Rightarrow> int" where
  "digits_loop dv2 digits = (if sint dv2 \<ge> 10 then digits_loop (word_of_int (sint dv2 sdiv 10)) (digits + 1) else digits)"
  by auto
termination
proof (relation "measure (\<lambda>(v, d). nat (sint v))")
  fix v :: u32 and d :: int
  assume v: "10 \<le> sint v"
  then have "sint v sdiv 10 = sint v div 10" "0 \<le> sint v div 10" "sint v div 10 < sint v" by (auto simp: signed_divide_int_def)
  moreover have "sint v < 2 ^ 31" using sint_range_size [of v] by (simp add: word_size)
  moreover have "sint (word_of_int k :: u32) = k" if "0 \<le> k" "k < 2 ^ 31" for k
    using that by (subst signed_of_int) (simp add: signed_take_bit_int_eq_self)
  ultimately show "((word_of_int (sint v sdiv 10), d + 1), v, d) \<in> measure (\<lambda>(v, d). nat (sint v))" using v by simp
qed simp

definition print_field :: "u32 \<Rightarrow> u8 list" where
  "print_field field_val =
     (let (digits, dval) = (if sint field_val < 0 then (2, 0 - field_val) else (1, field_val));
          pw = 6 - digits_loop dval digits
      in replicate (nat pw) 32 @ print_int field_val)"

section \<open>The matrices\<close>

definition entry :: "matrix \<Rightarrow> nat \<Rightarrow> nat \<Rightarrow> u32 \<Rightarrow> u32" where
  "entry m i j old = (if i < 4 \<and> j < 4 then m ! i ! j else old)"

definition get_aik :: "matrix \<Rightarrow> nat \<Rightarrow> nat \<Rightarrow> u32 \<Rightarrow> u32" where
  "get_aik a ri ki aik = entry a ri ki aik"

definition get_bkj :: "matrix \<Rightarrow> nat \<Rightarrow> nat \<Rightarrow> u32 \<Rightarrow> u32" where
  "get_bkj b ki ci bkj = entry b ki ci bkj"

definition get_cij :: "matrix \<Rightarrow> nat \<Rightarrow> nat \<Rightarrow> u32 \<Rightarrow> u32" where
  "get_cij c ri ci pn = entry c ri ci pn"

definition set_cij :: "matrix \<Rightarrow> nat \<Rightarrow> nat \<Rightarrow> u32 \<Rightarrow> matrix" where
  "set_cij c ri ci acc = (if ri < 4 \<and> ci < 4 then c[ri := (c ! ri)[ci := acc]] else c)"

function row_loop :: "matrix \<Rightarrow> nat \<Rightarrow> nat \<Rightarrow> u32 \<Rightarrow> u8 list" where
  "row_loop c ri ci pn =
     (if ci < 4 then let field_val = get_cij c ri ci pn in print_field field_val @ row_loop c ri (ci + 1) field_val else [])"
  by auto
termination by (relation "measure (\<lambda>(c, ri, ci, pn). 4 - ci)") auto

function rows_loop :: "matrix \<Rightarrow> nat \<Rightarrow> u8 list" where
  "rows_loop c ri = (if ri < 4 then [124] @ row_loop c ri 0 0 @ [32, 124, 10] @ rows_loop c (ri + 1) else [])"
  by auto
termination by (relation "measure (\<lambda>(c, ri). 4 - ri)") auto

definition print_matrix_4x4 :: "matrix \<Rightarrow> u8 list" where
  "print_matrix_4x4 c = rows_loop c 0"

function acc_loop :: "matrix \<Rightarrow> matrix \<Rightarrow> nat \<Rightarrow> nat \<Rightarrow> nat \<Rightarrow> u32 \<Rightarrow> u32 \<Rightarrow> u32 \<Rightarrow> u32" where
  "acc_loop a b ri ci ki aik bkj acc =
     (if ki < 4
      then let aik = get_aik a ri ki aik; bkj = get_bkj b ki ci bkj
           in acc_loop a b ri ci (ki + 1) aik bkj (acc + aik * bkj)
      else acc)"
  by auto
termination by (relation "measure (\<lambda>(a, b, ri, ci, ki, x, y, acc). 4 - ki)") auto

function col_loop :: "matrix \<Rightarrow> matrix \<Rightarrow> nat \<Rightarrow> nat \<Rightarrow> matrix \<Rightarrow> matrix" where
  "col_loop a b ri ci c =
     (if ci < 4 then col_loop a b ri (ci + 1) (set_cij c ri ci (acc_loop a b ri ci 0 0 0 0)) else c)"
  by auto
termination by (relation "measure (\<lambda>(a, b, ri, ci, c). 4 - ci)") auto

function mul_loop :: "matrix \<Rightarrow> matrix \<Rightarrow> nat \<Rightarrow> matrix \<Rightarrow> matrix" where
  "mul_loop a b ri c = (if ri < 4 then mul_loop a b (ri + 1) (col_loop a b ri 0 c) else c)"
  by auto
termination by (relation "measure (\<lambda>(a, b, ri, c). 4 - ri)") auto

text \<open>To print A and B their values are copied into C, where the product is put later.\<close>

definition print_A :: "matrix \<Rightarrow> u8 list \<times> matrix" where
  "print_A a = (print_matrix_4x4 a, a)"

definition print_B :: "matrix \<Rightarrow> u8 list \<times> matrix" where
  "print_B b = (print_matrix_4x4 b, b)"

definition matrix_program :: "matrix \<Rightarrow> matrix \<Rightarrow> u8 list" where
  "matrix_program a b =
     (let (out_a, c) = print_A a;
          (out_b, c) = print_B b;
          c = mul_loop a b 0 c
      in bytes ''A ='' @ [10] @ out_a @ [10] @ bytes ''B ='' @ [10] @ out_b @ [10] @
         bytes ''C = A * B ='' @ [10] @ print_matrix_4x4 c @ [10])"

definition matrix_A :: matrix where
  "matrix_A = [[1, 0, 0, 1], [0, 2, 0, 0], [0, 0, 3, 0], [4, 0, 0, 5]]"

definition matrix_B :: matrix where
  "matrix_B = [[1, 0, 0, 0], [2, 1, 0, 0], [3, 2, 1, 0], [4, 3, 2, 1]]"

definition matrix_main :: "u8 list" where
  "matrix_main = matrix_program matrix_A matrix_B"

declare digits_loop.simps [simp del] row_loop.simps [simp del] rows_loop.simps [simp del] acc_loop.simps [simp del]
  col_loop.simps [simp del] mul_loop.simps [simp del]

section \<open>The product\<close>

definition is_matrix :: "matrix \<Rightarrow> bool" where
  "is_matrix m \<longleftrightarrow> length m = 4 \<and> list_all (\<lambda>r. length r = 4) m"

definition product :: "matrix \<Rightarrow> matrix \<Rightarrow> matrix" where
  "product a b = map (\<lambda>i. map (\<lambda>j. \<Sum>k \<leftarrow> [0..<4]. a ! i ! k * b ! k ! j) [0..<4]) [0..<4]"

lemma acc_loop_sum: "i < 4 \<Longrightarrow> j < 4 \<Longrightarrow> acc_loop a b i j 0 0 0 0 = (\<Sum>k \<leftarrow> [0..<4]. a ! i ! k * b ! k ! j)"
  by (simp add: acc_loop.simps get_aik_def get_bkj_def entry_def Let_def upt_rec)

lemma list_4: "length xs = 4 \<longleftrightarrow> (\<exists>a b c d. xs = [a, b, c, d])"
  by (auto simp: length_Suc_conv numeral_eq_Suc)

lemma col_loop_row:
  assumes "i < 4" "is_matrix c"
  shows "col_loop a b i 0 c = c[i := map (\<lambda>j. \<Sum>k \<leftarrow> [0..<4]. a ! i ! k * b ! k ! j) [0..<4]]"
proof -
  have l: "length c = 4" "length (c ! i) = 4" using assms by (auto simp: is_matrix_def list_all_length)
  then obtain w x y z where r: "c ! i = [w, x, y, z]" using list_4 [of "c ! i"] by auto
  define s where "s = (\<lambda>j. \<Sum>k \<leftarrow> [0..<4]. a ! i ! k * b ! k ! j)"
  have acc: "acc_loop a b i j 0 0 0 0 = s j" if "j < 4" for j using acc_loop_sum [OF assms(1) that] by (simp add: s_def)
  have "col_loop a b i 0 c = c[i := [s 0, s 1, s 2, s 3]]"
    using assms(1) l(1) r by (simp add: col_loop.simps set_cij_def acc numeral_eq_Suc)
  also have "[s 0, s 1, s 2, s 3] = map s [0..<4]" by (simp add: upt_rec numeral_eq_Suc)
  finally show ?thesis by (simp only: s_def)
qed

lemma is_matrix_update: "is_matrix c \<Longrightarrow> length r = 4 \<Longrightarrow> is_matrix (c[i := r])"
  by (auto simp: is_matrix_def list_all_iff dest!: set_update_subset_insert [THEN subsetD])

lemma mul_loop_product:
  assumes "is_matrix c"
  shows "mul_loop a b 0 c = product a b"
proof -
  define row where "row = (\<lambda>i. map (\<lambda>j. \<Sum>k \<leftarrow> [0..<4]. a ! i ! k * b ! k ! j) [0..<4])"
  have m: "is_matrix (d[j := row i])" if "is_matrix d" for d i j using is_matrix_update [OF that, of "row i"] by (simp add: row_def)
  have col: "col_loop a b i 0 d = d[i := row i]" if "i < 4" "is_matrix d" for d i
    using col_loop_row [OF that] by (simp add: row_def)
  have "mul_loop a b 0 c = c[0 := row 0, 1 := row 1, 2 := row 2, 3 := row 3]"
    using assms by (simp add: mul_loop.simps col m numeral_eq_Suc)
  also have "\<dots> = [row 0, row 1, row 2, row 3]" using assms list_4 [of c] by (auto simp: is_matrix_def)
  also have "\<dots> = map row [0..<4]" by (simp add: upt_rec numeral_eq_Suc)
  finally show ?thesis by (simp only: row_def product_def)
qed

section \<open>The output\<close>

text \<open>A number at the right of six columns.\<close>

definition field :: "u32 \<Rightarrow> u8 list" where
  "field v = replicate (6 - length (signed_decimal v)) 32 @ signed_decimal v"

definition matrix_lines :: "matrix \<Rightarrow> u8 list" where
  "matrix_lines m = concat (map (\<lambda>r. [124] @ concat (map field r) @ [32, 124, 10]) m)"

definition small :: "u32 \<Rightarrow> bool" where
  "small v \<longleftrightarrow> \<bar>sint v\<bar> < 10000"

lemma small_minus:
  assumes "small v"
  shows "sint (- v) = - sint v"
proof (rule sint_minus)
  show "v \<noteq> 0x80000000" using assms by (auto simp: small_def)
qed

lemma print_int_decimal: "small v \<Longrightarrow> print_int v = signed_decimal v"
  using dec_loop_word [of v 3] dec_loop_word [of "- v" 3] small_minus [of v]
  by (auto simp: print_int_def signed_decimal_def small_def Let_def)

interpretation int_printer: decimal_printer print_int small
  by unfold_locales (rule print_int_decimal)

lemma length_decimal: "length (decimal n) = (if n < 10 then 1 else Suc (length (decimal (n div 10))))"
  by (simp add: decimal.simps [of n])

lemma digits_loop_count: "0 \<le> sint w \<Longrightarrow> digits_loop w d = d + int (length (decimal (nat (sint w)))) - 1"
proof (induction w d rule: digits_loop.induct)
  case (1 w d)
  show ?case
  proof (cases "sint w \<ge> 10")
    case True
    have q: "sint w sdiv 10 = int (nat (sint w) div 10)" using sdiv_nat [of "nat (sint w)" 10] True by simp
    have "sint w < 2 ^ 31" using sint_range_size [of w] by (simp add: word_size)
    then have s: "sint (word_of_int (sint w sdiv 10) :: u32) = sint w sdiv 10"
      unfolding q by (subst signed_of_int) (simp add: signed_take_bit_int_eq_self)
    have "digits_loop w d = d + 1 + int (length (decimal (nat (sint w) div 10))) - 1"
      using 1(1) [OF True] True unfolding s by (simp add: digits_loop.simps [of w d] q)
    moreover have "\<not> nat (sint w) < 10" using True by simp
    ultimately show ?thesis unfolding length_decimal [of "nat (sint w)"] by simp
  next
    case False
    then show ?thesis using length_decimal [of "nat (sint w)"] by (simp add: digits_loop.simps [of w d])
  qed
qed

lemma print_field_field:
  assumes "small v"
  shows "print_field v = field v"
proof -
  have "(if sint v < 0 then 6 - digits_loop (0 - v) 2 else 6 - digits_loop v 1) = 6 - int (length (signed_decimal v))"
    using digits_loop_count [of v 1] digits_loop_count [of "- v" 2] small_minus [OF assms] by (simp add: signed_decimal_def)
  then have "print_field v = replicate (nat (6 - int (length (signed_decimal v)))) 32 @ print_int v"
    by (auto simp: print_field_def Let_def split: if_splits)
  then show ?thesis using int_printer.prints [OF assms] by (simp add: field_def nat_minus_as_int)
qed

lemma row_loop_fields:
  assumes "i < 4" "is_matrix m" "list_all small (m ! i)"
  shows "row_loop m i 0 p = concat (map field (m ! i))"
proof -
  have "length (m ! i) = 4" using assms(1,2) by (auto simp: is_matrix_def list_all_length)
  then obtain w x y z where "m ! i = [w, x, y, z]" using list_4 [of "m ! i"] by auto
  then show ?thesis
    using assms(1,3) by (simp add: row_loop.simps get_cij_def entry_def print_field_field Let_def numeral_eq_Suc)
qed

lemma print_matrix_lines:
  assumes "is_matrix m" "list_all (list_all small) m"
  shows "print_matrix_4x4 m = matrix_lines m"
proof -
  obtain a b c d where m: "m = [a, b, c, d]" using assms(1) list_4 [of m] by (auto simp: is_matrix_def)
  have r: "row_loop m i 0 0 = concat (map field (m ! i))" if "i < 4" for i
    using row_loop_fields [OF that assms(1)] assms(2) that m by (auto simp: list_all_length)
  have "print_matrix_4x4 m = concat (map (\<lambda>i. [124] @ row_loop m i 0 0 @ [32, 124, 10]) [0, 1, 2, 3])"
    by (simp add: print_matrix_4x4_def rows_loop.simps numeral_eq_Suc)
  then show ?thesis using r m by (simp add: matrix_lines_def)
qed

text \<open>The sample product: for any two matrices of four rows and columns the loops put their product, modulo 2 to the 32, into
  C; and when the entries have at most four digits the program prints the three matrices in columns.\<close>

theorem matrix_program_correct:
  assumes "is_matrix a" "is_matrix b"
  shows "(\<forall>c. is_matrix c \<longrightarrow> mul_loop a b 0 c = product a b) \<and>
    (list_all (list_all small) a \<and> list_all (list_all small) b \<and> list_all (list_all small) (product a b) \<longrightarrow>
     matrix_program a b = bytes ''A ='' @ [10] @ matrix_lines a @ [10] @ bytes ''B ='' @ [10] @ matrix_lines b @ [10] @
       bytes ''C = A * B ='' @ [10] @ matrix_lines (product a b) @ [10])"
proof -
  have "is_matrix (product a b)" by (simp add: is_matrix_def product_def list_all_iff)
  then show ?thesis
    using assms by (simp add: mul_loop_product matrix_program_def print_A_def print_B_def print_matrix_lines)
qed


theorem matrix_program_correct_witness:
  "matrix_main = bytes ''A ='' @ [10] @
     bytes ''|     1     0     0     1 |'' @ [10] @ bytes ''|     0     2     0     0 |'' @ [10] @
     bytes ''|     0     0     3     0 |'' @ [10] @ bytes ''|     4     0     0     5 |'' @ [10, 10] @ bytes ''B ='' @ [10] @
     bytes ''|     1     0     0     0 |'' @ [10] @ bytes ''|     2     1     0     0 |'' @ [10] @
     bytes ''|     3     2     1     0 |'' @ [10] @ bytes ''|     4     3     2     1 |'' @ [10, 10] @ bytes ''C = A * B ='' @ [10] @
     bytes ''|     5     3     2     1 |'' @ [10] @ bytes ''|     4     2     0     0 |'' @ [10] @
     bytes ''|     9     6     3     0 |'' @ [10] @ bytes ''|    24    15    10     5 |'' @ [10, 10]"
proof -
  have m: "is_matrix matrix_A" "is_matrix matrix_B" by (simp_all add: is_matrix_def matrix_A_def matrix_B_def)
  have s: "list_all (list_all small) matrix_A \<and> list_all (list_all small) matrix_B \<and> list_all (list_all small) (product matrix_A matrix_B)"
    by code_simp
  from matrix_program_correct [OF m] s have "matrix_program matrix_A matrix_B = bytes ''A ='' @ [10] @ matrix_lines matrix_A @ [10] @
      bytes ''B ='' @ [10] @ matrix_lines matrix_B @ [10] @ bytes ''C = A * B ='' @ [10] @ matrix_lines (product matrix_A matrix_B) @ [10]"
    by blast
  moreover have "matrix_lines matrix_A = bytes ''|     1     0     0     1 |'' @ [10] @ bytes ''|     0     2     0     0 |'' @ [10] @
     bytes ''|     0     0     3     0 |'' @ [10] @ bytes ''|     4     0     0     5 |'' @ [10]" by code_simp
  moreover have "matrix_lines matrix_B = bytes ''|     1     0     0     0 |'' @ [10] @ bytes ''|     2     1     0     0 |'' @ [10] @
     bytes ''|     3     2     1     0 |'' @ [10] @ bytes ''|     4     3     2     1 |'' @ [10]" by code_simp
  moreover have "matrix_lines (product matrix_A matrix_B) = bytes ''|     5     3     2     1 |'' @ [10] @ bytes ''|     4     2     0     0 |'' @ [10] @
     bytes ''|     9     6     3     0 |'' @ [10] @ bytes ''|    24    15    10     5 |'' @ [10]" by code_simp
  ultimately show ?thesis by (simp only: matrix_main_def append_assoc append.simps)
qed

end
