(* ===== verification/Mv_Sample_Bf.thy ===== *)
theory Mv_Sample_Bf
  imports Mv_Prelude
begin

text \<open>
  \<^verbatim>\<open>samples/bf.c\<close>: an interpreter for one fixed Brainfuck program. The variables of the program and of the tape are
  lists; of the twenty tape variables the code uses the first ten. The places of the brackets are
  written into the two jump loops, which are partial functions: None is a jump that finds no end.
\<close>

section \<open>The program\<close>

definition bf_code :: "int list" where
  "bf_code = map uint (bytes (concat
     [''+++++'', ''+++'', ''['', ''>++++'', ''['', ''>++'', ''>+++'', ''>+++'', ''>+'', ''<<<<'', ''-'', '']'', ''>+'', ''>+'', ''>-'', ''>>+'',
      ''[<]'', ''<-'', '']'', ''>>.'', ''>---.'', ''+++++'', ''++..'', ''+++.'', ''>>.'', ''<-.'', ''<.'', ''+++.'', ''-----'', ''-.'',
      ''-----'', ''---.'', ''>>+.'', ''>++.'']))"

definition plen :: int where "plen = 106"

record bf =
  tape :: "u32 list"
  pc :: int
  dp :: int
  out :: "u8 list"

definition fetch :: "int \<Rightarrow> int" where
  "fetch p = (if 0 \<le> p \<and> p < 106 then bf_code ! nat p else 0)"

definition cell :: "bf \<Rightarrow> u32" where
  "cell st = (if 0 \<le> dp st \<and> dp st < 10 then tape st ! nat (dp st) else 0)"

definition add_cell :: "u32 \<Rightarrow> bf \<Rightarrow> bf" where
  "add_cell d st = (if 0 \<le> dp st \<and> dp st < 10 then st\<lparr>tape := (tape st)[nat (dp st) := tape st ! nat (dp st) + d]\<rparr> else st)"

partial_function (option) forward :: "int \<Rightarrow> int \<Rightarrow> int option" where
  "forward p depth =
     (if depth > 0
      then let p = p + 1;
               depth = (if p = 14 then depth + 1 else depth);
               depth = (if p = 43 then depth + 1 else depth);
               depth = (if p = 33 then depth - 1 else depth);
               depth = (if p = 45 then depth - 1 else depth);
               depth = (if p = 48 then depth - 1 else depth)
           in forward p depth
      else Some p)"

partial_function (option) backward :: "int \<Rightarrow> int \<Rightarrow> int option" where
  "backward p depth =
     (if depth > 0
      then let p = p - 1;
               depth = (if p = 8 then depth - 1 else depth);
               depth = (if p = 14 then depth - 1 else depth);
               depth = (if p = 43 then depth - 1 else depth);
               depth = (if p = 33 then depth + 1 else depth);
               depth = (if p = 45 then depth + 1 else depth);
               depth = (if p = 48 then depth + 1 else depth)
           in backward p depth
      else Some p)"

text \<open>One instruction; the last step moves behind it.\<close>

definition bf_step :: "bf \<Rightarrow> bf option" where
  "bf_step st =
     (let c = fetch (pc st)
      in map_option (\<lambda>st. st\<lparr>pc := pc st + 1\<rparr>)
        (if c = 43 then Some (add_cell 1 st)
         else if c = 45 then Some (add_cell (- 1) st)
         else if c = 62 then Some (st\<lparr>dp := dp st + 1\<rparr>)
         else if c = 60 then Some (st\<lparr>dp := dp st - 1\<rparr>)
         else if c = 46 then Some (st\<lparr>out := out st @ [ucast (cell st)]\<rparr>)
         else if c = 91 then (if cell st = 0 then map_option (\<lambda>p. st\<lparr>pc := p\<rparr>) (forward (pc st) 1) else Some st)
         else if c = 93 then (if sint (cell st) > 0 then map_option (\<lambda>p. st\<lparr>pc := p\<rparr>) (backward (pc st) 1) else Some st)
         else Some st))"

partial_function (option) bf_loop :: "bf \<Rightarrow> bf option" where
  "bf_loop st = (if pc st < plen then Option.bind (bf_step st) bf_loop else Some st)"

definition bf_start :: bf where
  "bf_start = \<lparr>tape = replicate 20 0, pc = 0, dp = 0, out = bytes ''BF Interpreter'' @ [10, 10]\<rparr>"

definition bf_main :: "u8 list option" where
  "bf_main = map_option (\<lambda>st. out st @ [10] @ bytes ''Done'' @ [10]) (bf_loop bf_start)"

declare forward.simps [code] backward.simps [code] bf_loop.simps [code]

lemma bf_code_bytes [code]: "bf_code = [43, 43, 43, 43, 43, 43, 43, 43, 91, 62, 43, 43, 43, 43, 91, 62, 43, 43, 62, 43, 43, 43, 62, 43, 43, 43, 62, 43, 60, 60,
    60, 60, 45, 93, 62, 43, 62, 43, 62, 45, 62, 62, 43, 91, 60, 93, 60, 45, 93, 62, 62, 46, 62, 45, 45, 45, 46, 43, 43, 43,
    43, 43, 43, 43, 46, 46, 43, 43, 43, 46, 62, 62, 46, 60, 45, 46, 60, 46, 43, 43, 43, 46, 45, 45, 45, 45, 45, 45, 46, 45,
    45, 45, 45, 45, 45, 45, 45, 46, 62, 62, 43, 46, 62, 43, 43, 46]"
  by (simp add: bf_code_def)

section \<open>What it does\<close>

text \<open>Two places match when they are brackets, what is between opens as much as it closes, and no part from the
  first place on closes it before.\<close>

definition opened :: "nat \<Rightarrow> nat \<Rightarrow> int" where
  "opened p q = (\<Sum>c \<leftarrow> take (q - p + 1) (drop p bf_code). if c = 91 then 1 else if c = 93 then -1 else 0)"

definition matching :: "nat \<Rightarrow> nat \<Rightarrow> bool" where
  "matching p q \<longleftrightarrow> p < q \<and> bf_code ! p = 91 \<and> bf_code ! q = 93 \<and> opened p q = 0 \<and> list_all (\<lambda>r. opened p r > 0) [p..<q]"

text \<open>The places written into the jump loops are those of the program: every jump goes to the matching bracket, and back.\<close>

lemma bf_jumps_match:
  "filter (\<lambda>p. bf_code ! p = 91) [0..<106] = [8, 14, 43]"
  "list_all (\<lambda>p. case forward (int p) 1 of None \<Rightarrow> False | Some q \<Rightarrow> matching p (nat q) \<and> backward q 1 = Some (int p)) [8, 14, 43]"
  by code_simp+

text \<open>The sample interpreter ends and prints what its program is known to print.\<close>

theorem bf_main_correct:
  "bf_main = Some (bytes ''BF Interpreter'' @ [10, 10] @ bytes ''Hello World!'' @ [10, 10] @ bytes ''Done'' @ [10])"
  by code_simp

end
