(* ===== verification/Mv_Sample_Hanoi.thy ===== *)
theory Mv_Sample_Hanoi
  imports Mv_Decimal
begin

text \<open>
  \<^verbatim>\<open>samples/hanoi.c\<close>: the tower of Hanoi with four disks, by counting: the disk of a move is the number of zero bits
  at the end of its number. The four variables for the pegs are a list. The numbers are small, so that
  \<^verbatim>\<open>int\<close> does not overflow.
\<close>

section \<open>The program\<close>

function lowest_bit :: "int \<Rightarrow> int \<Rightarrow> int option" where
  "lowest_bit x to =
     (if x = 0 then None else if (x sdiv 2) * 2 = x then lowest_bit (x sdiv 2) (to + 1) else Some to)"
  by auto
termination by (relation "measure (\<lambda>(x, to). nat \<bar>x\<bar>)") (auto simp: signed_divide_int_def)

function power_loop :: "int \<Rightarrow> int \<Rightarrow> int \<Rightarrow> int" where
  "power_loop n from tot = (if from < n then power_loop n (from + 1) (tot * 2) else tot)"
  by auto
termination by (relation "measure (\<lambda>(n, from, tot). nat (n - from))") auto

definition print_count :: "int \<Rightarrow> u8 list" where
  "print_count n = (case dec_loop n 100 False of (started, out) \<Rightarrow> out @ (if started then [] else [48]))"

definition cur_peg :: "int list \<Rightarrow> int \<Rightarrow> int" where
  "cur_peg d disk = (if 0 \<le> disk \<and> disk \<le> 3 then d ! nat disk else 1)"

definition next_peg :: "int \<Rightarrow> int \<Rightarrow> int" where
  "next_peg disk cur = (if disk = 0 \<or> disk = 2 then cur mod 3 + 1 else (cur + 1) mod 3 + 1)"

definition move_line :: "int \<Rightarrow> int \<Rightarrow> int \<Rightarrow> int \<Rightarrow> u8 list" where
  "move_line count disk cur nxt = print_count count @ bytes ''. Disk '' @ [word_of_int (49 + disk)] @ bytes '': Peg '' @
     [word_of_int (48 + cur)] @ bytes '' -> Peg '' @ [word_of_int (48 + nxt)] @ [10]"

definition set_peg :: "int list \<Rightarrow> int \<Rightarrow> int \<Rightarrow> int list" where
  "set_peg d disk p = (if 0 \<le> disk \<and> disk \<le> 3 then d[nat disk := p] else d)"

text \<open>The loop over the moves: None is a search for a bit that never ends. It returns the pegs and the output.\<close>

function move_loop :: "int \<Rightarrow> int \<Rightarrow> int list \<Rightarrow> (int list \<times> u8 list) option" where
  "move_loop tot from d =
     (if from \<le> tot
      then Option.bind (lowest_bit from 0) (\<lambda>disk.
        let cur = cur_peg d disk; nxt = next_peg disk cur
        in map_option (\<lambda>(e, out). (e, move_line from disk cur nxt @ out)) (move_loop tot (from + 1) (set_peg d disk nxt)))
      else Some (d, []))"
  by auto
termination by (relation "measure (\<lambda>(tot, from, d). nat (tot + 1 - from))") auto

definition hanoi_main :: "u8 list option" where
  "hanoi_main =
     (let tot = power_loop 4 0 1 - 1
      in map_option (\<lambda>(d, out). bytes ''Tower of Hanoi (4 disks)'' @ [10] @ out @ [10] @ bytes ''Total: '' @
           print_count tot @ bytes '' moves'' @ [10]) (move_loop tot 1 [1, 1, 1, 1]))"

declare lowest_bit.simps [simp del] power_loop.simps [simp del] move_loop.simps [simp del]

section \<open>The specification\<close>

text \<open>The solution: move what is above the largest disk out of the way, the disk, and the rest on it. A move is a
  disk, counted from the smallest, and two pegs.\<close>

fun solve :: "nat \<Rightarrow> int \<Rightarrow> int \<Rightarrow> int \<Rightarrow> (nat \<times> int \<times> int) list" where
  "solve 0 a b c = []"
| "solve (Suc n) a b c = solve n a c b @ [(n, a, c)] @ solve n b a c"

text \<open>The rules: a disk lies where it is taken from, and no smaller disk is on it or on the peg it goes to. The result
  is the pegs at the end.\<close>

fun play :: "int list \<Rightarrow> (nat \<times> int \<times> int) list \<Rightarrow> int list option" where
  "play d [] = Some d"
| "play d ((k, p, q) # ms) =
     (if k < length d \<and> d ! k = p \<and> p \<noteq> q \<and> (\<forall>j < k. d ! j \<noteq> p \<and> d ! j \<noteq> q) then play (d[k := q]) ms else None)"

definition tower :: "int list \<Rightarrow> nat \<Rightarrow> int \<Rightarrow> int list" where
  "tower d n p = replicate n p @ drop n d"

lemma play_append: "play d (xs @ ys) = Option.bind (play d xs) (\<lambda>d. play d ys)"
  by (induction xs arbitrary: d) auto

text \<open>The solution keeps the rules and moves the tower, for any number of disks.\<close>

lemma solve_plays:
  "n \<le> length d \<Longrightarrow> distinct [a, b, c] \<Longrightarrow> play (tower d n a) (solve n a b c) = Some (tower d n c)"
proof (induction n arbitrary: d a b c)
  case (Suc n)
  have t: "tower d (Suc n) p = tower (d[n := p]) n p" for p
    using Suc.prems(1) by (simp add: tower_def replicate_append_same [symmetric] Cons_nth_drop_Suc [symmetric])
  have u: "(tower (d[n := a]) n b)[n := c] = tower (d[n := c]) n b"
    using Suc.prems(1) by (simp add: tower_def list_update_append Cons_nth_drop_Suc [symmetric])
  have v: "tower (d[n := a]) n b ! n = a" "\<forall>j < n. tower (d[n := a]) n b ! j = b" "n < length (tower (d[n := a]) n b)"
    using Suc.prems(1) by (simp_all add: tower_def nth_append)
  have "play (tower (d[n := a]) n a) (solve n a c b) = Some (tower (d[n := a]) n b)" using Suc by auto
  moreover have "play (tower (d[n := a]) n b) ((n, a, c) # solve n b a c) = play (tower (d[n := c]) n b) (solve n b a c)"
    using v Suc.prems(2) u by auto
  moreover have "play (tower (d[n := c]) n b) (solve n b a c) = Some (tower (d[n := c]) n c)" using Suc by auto
  ultimately show ?case unfolding t by (simp add: play_append)
qed (simp add: tower_def)

lemma length_solve: "length (solve n a b c) = 2 ^ n - 1"
proof (induction n arbitrary: a b c)
  case (Suc n)
  have "(1 :: nat) \<le> 2 ^ n" by simp
  then show ?case using Suc by simp
qed simp

definition spec_line :: "nat \<times> nat \<times> int \<times> int \<Rightarrow> u8 list" where
  "spec_line m = (case m of (i, k, p, q) \<Rightarrow> decimal i @ bytes ''. Disk '' @ decimal (k + 1) @ bytes '': Peg '' @ decimal (nat p) @
     bytes '' -> Peg '' @ decimal (nat q) @ [10])"

text \<open>The sample tower: it prints, numbered from 1, the moves of the recursive solution from peg 1 to peg 3, which keep
  the rules of the game and move all disks.\<close>

theorem hanoi_main_correct:
  "hanoi_main = Some (bytes ''Tower of Hanoi (4 disks)'' @ [10] @ concat (map spec_line (zip [1..<16] (solve 4 1 2 3))) @ [10] @
     bytes ''Total: 15 moves'' @ [10]) \<and>
   play (replicate 4 1) (solve 4 1 2 3) = Some (replicate 4 3)"
proof
  show "hanoi_main = Some (bytes ''Tower of Hanoi (4 disks)'' @ [10] @ concat (map spec_line (zip [1..<16] (solve 4 1 2 3))) @ [10] @
     bytes ''Total: 15 moves'' @ [10])" by code_simp
  show "play (replicate 4 1) (solve 4 1 2 3) = Some (replicate 4 3)"
    using solve_plays [of 4 "[0, 0, 0, 0]" 1 2 3] by (simp add: tower_def)
qed

end
