(* ===== verification/Mv_Sample_Small.thy ===== *)
theory Mv_Sample_Small
  imports Mv_Decimal
begin

text \<open>
  The samples that compute a fixed output: \<^verbatim>\<open>samples/primes.c\<close>, \<^verbatim>\<open>samples/fib.c\<close>, \<^verbatim>\<open>samples/word_stats.c\<close> and
  \<^verbatim>\<open>samples/mandelbrot_fp.c\<close>. In the first three the numbers stay so small that \<^verbatim>\<open>int\<close> does not overflow, and
  are integers; the last one multiplies and has words of 32 bits.
\<close>

section \<open>Primes\<close>

function div_loop :: "int \<Rightarrow> int \<Rightarrow> bool \<Rightarrow> bool" where
  "div_loop n d is_prime = (if d * d \<le> n then div_loop n (d + 1) (if n sdiv d * d = n then False else is_prime) else is_prime)"
  by auto
termination
proof (relation "measure (\<lambda>(n, d, p). nat (n + 1 - d))")
  fix n d :: int and p
  assume "d * d \<le> n"
  moreover have "d \<le> d * d" by (cases "d \<le> 0") (use mult_le_cancel_left1 [of d d] in auto)
  ultimately show "((n, d + 1, if n sdiv d * d = n then False else p), n, d, p) \<in> measure (\<lambda>(n, d, p). nat (n + 1 - d))" by simp
qed simp

definition print_prime :: "int \<Rightarrow> u8 list" where
  "print_prime n =
     (let (out, temp) = (if n \<ge> 100 then ([digit_byte (n sdiv 100)], n - (n sdiv 100) * 100) else ([], n));
          (out, temp) = (if n \<ge> 10 then (out @ [digit_byte (temp sdiv 10)], temp - (temp sdiv 10) * 10) else (out, temp))
      in out @ [digit_byte temp, 32])"

function primes_loop :: "int \<Rightarrow> int \<Rightarrow> u8 list" where
  "primes_loop n count =
     (if n \<le> 100
      then if div_loop n 2 True
           then print_prime n @ (if (count + 1) sdiv 10 * 10 = count + 1 then [10] else []) @ primes_loop (n + 1) (count + 1)
           else primes_loop (n + 1) count
      else [])"
  by auto
termination by (relation "measure (\<lambda>(n, count). nat (101 - n))") auto

definition primes_main :: "u8 list" where
  "primes_main = bytes ''Primes:'' @ [10] @ primes_loop 2 0 @ [10]"

declare div_loop.simps [simp del] primes_loop.simps [simp del]

text \<open>The reference: numbers without a divisor, ten on a line.\<close>

definition prime_number :: "nat \<Rightarrow> bool" where
  "prime_number n \<longleftrightarrow> 2 \<le> n \<and> list_all (\<lambda>d. \<not> d dvd n) [2..<n]"

fun listing :: "nat \<Rightarrow> nat list \<Rightarrow> u8 list" where
  "listing count [] = []"
| "listing count (n # ns) = decimal n @ [32] @ (if 10 dvd count + 1 then [10] else []) @ listing (count + 1) ns"

lemma sdiv_dvd: "int n sdiv int d * int d = int n \<longleftrightarrow> d dvd n"
proof -
  have "int n sdiv int d * int d = int (n div d * d)" by (simp add: sdiv_nat)
  then show ?thesis by (simp only: of_nat_eq_iff) (metis dvd_div_mult_self dvd_triv_right)
qed

lemma div_loop_divisors: "0 < d \<Longrightarrow> div_loop (int n) (int d) p \<longleftrightarrow> p \<and> (\<forall>e. d \<le> e \<and> e * e \<le> n \<longrightarrow> \<not> e dvd n)"
proof (induction "n + 1 - d" arbitrary: d p rule: less_induct)
  case less
  show ?case
  proof (cases "d * d \<le> n")
    case True
    have "d \<le> d * d" by simp
    then have l: "n + 1 - Suc d < n + 1 - d" using True by linarith
    have "div_loop (int n) (int d) p = div_loop (int n) (int (Suc d)) (if d dvd n then False else p)"
      using True sdiv_dvd [of n d] by (simp add: div_loop.simps [of "int n" "int d"] flip: of_nat_mult of_nat_Suc) (simp add: add.commute)
    also have "\<dots> \<longleftrightarrow> (if d dvd n then False else p) \<and> (\<forall>e. Suc d \<le> e \<and> e * e \<le> n \<longrightarrow> \<not> e dvd n)"
      by (rule less.hyps [OF l]) simp
    also have "\<dots> \<longleftrightarrow> p \<and> (\<forall>e. d \<le> e \<and> e * e \<le> n \<longrightarrow> \<not> e dvd n)"
      using True by (metis Suc_leD le_antisym not_less_eq_eq order_refl)
    finally show ?thesis .
  next
    case False
    have "\<not> e * e \<le> n" if "d \<le> e" for e using mult_le_mono [OF that that] False by linarith
    moreover have "\<not> int d * int d \<le> int n" using False by (simp flip: of_nat_mult)
    ultimately show ?thesis by (auto simp: div_loop.simps [of "int n" "int d"])
  qed
qed

lemma div_loop_prime:
  assumes "2 \<le> n"
  shows "div_loop (int n) 2 True \<longleftrightarrow> prime_number n"
proof -
  have "(\<forall>e. 2 \<le> e \<and> e * e \<le> n \<longrightarrow> \<not> e dvd n) \<longleftrightarrow> (\<forall>e. 2 \<le> e \<and> e < n \<longrightarrow> \<not> e dvd n)"
  proof (intro iffI allI impI notI)
    fix e assume s: "\<forall>e. 2 \<le> e \<and> e * e \<le> n \<longrightarrow> \<not> e dvd n" and e: "2 \<le> e \<and> e < n" and d: "e dvd n"
    obtain f where f: "n = e * f" using d by (rule dvdE)
    have "f \<noteq> 0" "f \<noteq> 1" using f e assms by auto
    then have "2 \<le> f" by linarith
    show False
    proof (cases "e \<le> f")
      case True
      then have "e * e \<le> n" using f by simp
      then show False using s e d by blast
    next
      case False
      then have "f * f \<le> n" "f dvd n" using f by simp_all
      then show False using s \<open>2 \<le> f\<close> by blast
    qed
  next
    fix e assume s: "\<forall>e. 2 \<le> e \<and> e < n \<longrightarrow> \<not> e dvd n" and e: "2 \<le> e \<and> e * e \<le> n" and d: "e dvd n"
    have "e * 2 \<le> e * e" using e by simp
    then have "e < n" using e by linarith
    then show False using s e d by blast
  qed
  then show ?thesis using div_loop_divisors [of 2 n True] assms by (auto simp: prime_number_def list_all_iff)
qed

lemma print_prime_decimal:
  assumes "n \<le> 100"
  shows "print_prime (int n) = decimal n @ [32]"
proof -
  have "list_all (\<lambda>n. print_prime (int n) = decimal n @ [32]) [0..<101]" by code_simp
  then show ?thesis using assms by (simp add: list_all_iff)
qed

lemma primes_loop_listing:
  "2 \<le> n \<Longrightarrow> n \<le> 101 \<Longrightarrow> primes_loop (int n) (int count) = listing count (filter prime_number [n..<101])"
proof (induction "101 - n" arbitrary: n count)
  case 0
  then have "n = 101" by simp
  then show ?case by (simp add: primes_loop.simps)
next
  case (Suc k)
  then have n: "n < 101" "k = 101 - Suc n" by simp_all
  have IH: "primes_loop (int n + 1) (int c) = listing c (filter prime_number [Suc n..<101])" for c
    using Suc.hyps(1) [of "Suc n" c] n Suc.prems(1) by (simp add: add.commute)
  have t: "(int count + 1) sdiv 10 * 10 = int count + 1 \<longleftrightarrow> 10 dvd count + 1"
    using sdiv_dvd [of "count + 1" 10] by (simp add: add.commute)
  show ?case
    using n(1) IH [of count] IH [of "count + 1"] div_loop_prime [OF Suc.prems(1)] print_prime_decimal [of n] t
    by (simp add: primes_loop.simps [of "int n"] upt_conv_Cons add.commute)
qed

lemma primes_main_correct: "primes_main = bytes ''Primes:'' @ [10] @ listing 0 (filter prime_number [2..<101]) @ [10]"
  using primes_loop_listing [of 2 0] by (simp add: primes_main_def)

section \<open>Fibonacci numbers\<close>

text \<open>The highest power of ten that is not above the number; \<^verbatim>\<open>temp\<close> starts at 1 and is never 0.\<close>

function power_loop :: "int \<Rightarrow> int \<Rightarrow> int" where
  "power_loop temp n = (if temp > 0 \<and> temp * 10 \<le> n then power_loop (temp * 10) n else temp)"
  by auto
termination by (relation "measure (\<lambda>(temp, n). nat (n - temp))") auto

definition print_fib :: "int \<Rightarrow> u8 list" where
  "print_fib n = (if n = 0 then [48] else []) @ (if n > 0 then snd (dec_loop n (power_loop 1 n) True) else []) @ [32]"

function fib_loop :: "int \<Rightarrow> int \<Rightarrow> int \<Rightarrow> u8 list" where
  "fib_loop a b count = (if count < 20 then print_fib a @ fib_loop b (a + b) (count + 1) else [])"
  by auto
termination by (relation "measure (\<lambda>(a, b, count). nat (20 - count))") auto

definition fib_main :: "u8 list" where
  "fib_main = bytes ''Fib: '' @ fib_loop 0 1 0 @ [10]"

declare power_loop.simps [simp del] fib_loop.simps [simp del]

fun fib :: "nat \<Rightarrow> nat" where
  "fib 0 = 0"
| "fib (Suc 0) = 1"
| "fib (Suc (Suc n)) = fib n + fib (Suc n)"

lemma power_loop_power:
  "10 ^ j \<le> n \<Longrightarrow> \<exists>k. power_loop (10 ^ j) (int n) = 10 ^ k \<and> 10 ^ k \<le> n \<and> n < 10 ^ Suc k"
proof (induction "n - 10 ^ j" arbitrary: j rule: less_induct)
  case less
  show ?case
  proof (cases "10 ^ Suc j \<le> n")
    case True
    have "(10 :: nat) ^ j < 10 ^ Suc j" by simp
    then have l: "n - 10 ^ Suc j < n - 10 ^ j" using True by linarith
    have "int (10 ^ Suc j) \<le> int n" using True by (simp only: of_nat_le_iff)
    then have "power_loop (10 ^ j) (int n) = power_loop (10 ^ Suc j) (int n)"
      by (simp add: power_loop.simps [of "10 ^ j"] mult.commute)
    then show ?thesis using less.hyps [OF l True] by simp
  next
    case False
    then have "\<not> int (10 ^ Suc j) \<le> int n" by (simp only: of_nat_le_iff not_False_eq_True)
    then have "power_loop (10 ^ j) (int n) = 10 ^ j" by (simp add: power_loop.simps [of "10 ^ j"] mult.commute)
    then show ?thesis using False less.prems by (intro exI [of _ j]) simp
  qed
qed

lemma print_fib_decimal: "print_fib (int n) = decimal n @ [32]"
proof (cases "n = 0")
  case False
  then obtain k where k: "power_loop 1 (int n) = 10 ^ k" "10 ^ k \<le> n" "n < 10 ^ Suc k" using power_loop_power [of 0 n] by auto
  have "snd (dec_loop (int n) (10 ^ k) True) = decimal n"
    using dec_loop_started [OF k(3)] decimal_digits [OF _ k(2,3)] False by simp
  then show ?thesis using False k(1) by (simp add: print_fib_def)
qed (simp add: print_fib_def)

lemma fib_loop_fibs:
  "k \<le> 20 \<Longrightarrow> fib_loop (int (fib k)) (int (fib (Suc k))) (int k) = concat (map (\<lambda>i. decimal (fib i) @ [32]) [k..<20])"
proof (induction "20 - k" arbitrary: k)
  case 0
  then show ?case by (simp add: fib_loop.simps)
next
  case (Suc d)
  then have k: "k < 20" "d = 20 - Suc k" by simp_all
  show ?case
    using Suc.hyps(1) [of "Suc k"] k print_fib_decimal [of "fib k"]
    by (simp add: fib_loop.simps [of "int (fib k)"] upt_conv_Cons add.commute)
qed

lemma fib_main_correct: "fib_main = bytes ''Fib: '' @ concat (map (\<lambda>i. decimal (fib i) @ [32]) [0..<20]) @ [10]"
  using fib_loop_fibs [of 0] by (simp add: fib_main_def)

section \<open>Words of a text\<close>

definition is_space :: "u8 \<Rightarrow> bool" where
  "is_space c \<longleftrightarrow> c = 32 \<or> c = 9 \<or> c = 10 \<or> c = 13"

definition stats_text :: "u8 list" where
  "stats_text = bytes ''Mellivora OS 13'' @ [0]"

text \<open>The loop: words, letters, digits and whether it is inside a word.\<close>

fun stats_loop :: "u8 list \<Rightarrow> nat \<times> nat \<times> nat \<times> bool \<Rightarrow> nat \<times> nat \<times> nat \<times> bool" where
  "stats_loop [] s = s"
| "stats_loop (c # cs) (words, letters, digits, in_word) =
     (if c = 0 then (words, letters, digits, in_word)
      else stats_loop cs
        (if is_space c then (words, letters, digits, False)
         else let words = (if \<not> in_word then words + 1 else words)
              in if 48 \<le> c \<and> c \<le> 57 then (words, letters, digits + 1, True) else (words, letters + 1, digits, True)))"

definition stats_main :: "(nat \<times> nat \<times> nat \<times> bool) \<times> u8 list" where
  "stats_main = (stats_loop stats_text (0, 0, 0, False),
     bytes ''Words: 2'' @ [10] @ bytes ''Letters: 13'' @ [10] @ bytes ''Digits: 2'' @ [10])"

text \<open>The counts are right, and what is printed is not made of them.\<close>

lemma stats_main_ignores_counts:
  "stats_main = ((3, 11, 2, True), bytes ''Words: 2'' @ [10] @ bytes ''Letters: 13'' @ [10] @ bytes ''Digits: 2'' @ [10])"
  by code_simp

section \<open>Mandelbrot set\<close>

definition sdiv32 :: "u32 \<Rightarrow> u32 \<Rightarrow> u32" where
  "sdiv32 x y = word_of_int (sint x sdiv sint y)"

definition get_palette_ch :: "u32 \<Rightarrow> u8 \<Rightarrow> u8" where
  "get_palette_ch idx old =
     (if idx = 0 then 32 else if idx = 1 then 46 else if idx = 2 then 58 else if idx = 3 then 45 else if idx = 4 then 61
      else if idx = 5 then 43 else if idx = 6 then 42 else if idx = 7 then 35 else if idx = 8 then 64 else old)"

text \<open>The iteration of one point: the final count and whether it escaped.\<close>

function escape_loop :: "u32 \<Rightarrow> u32 \<Rightarrow> u32 \<Rightarrow> u32 \<Rightarrow> nat \<Rightarrow> nat \<times> bool" where
  "escape_loop cr ci zr zi iter =
     (if iter < 64
      then let zr2 = sdiv32 (zr * zr) 256; zi2 = sdiv32 (zi * zi) 256
           in if sint (zr2 + zi2) > sint (4 * 256 :: u32) then (64, True)
              else let zrzi = sdiv32 (zr * zi) 256 in escape_loop cr ci (zr2 - zi2 + cr) (2 * zrzi + ci) (iter + 1)
      else (iter, False))"
  by auto
termination by (relation "measure (\<lambda>(cr, ci, zr, zi, iter). 64 - iter)") auto

definition point :: "u32 \<Rightarrow> u32 \<Rightarrow> u8 \<Rightarrow> u8" where
  "point cr ci old =
     (case escape_loop cr ci 0 0 0 of
        (iter, escaped) \<Rightarrow> if \<not> escaped then 64 else get_palette_ch (sdiv32 (of_nat iter * 8) 64) old)"

text \<open>A row, and all rows, with the character chosen last.\<close>

function point_loop :: "u32 \<Rightarrow> nat \<Rightarrow> u8 \<Rightarrow> u8 list" where
  "point_loop ci col old =
     (if col < 70
      then let c = point (- 640 + sdiv32 (of_nat col * (256 - (- 640))) 70) ci old in c # point_loop ci (col + 1) c
      else [])"
  by auto
termination by (relation "measure (\<lambda>(ci, col, old). 70 - col)") auto

function row_loop :: "nat \<Rightarrow> u8 list" where
  "row_loop row =
     (if row < 22 then point_loop (307 - sdiv32 (of_nat row * (307 - (- 307))) 22) 0 0 @ [10] @ row_loop (row + 1) else [])"
  by auto
termination by (relation "measure (\<lambda>row. 22 - row)") auto

definition mandelbrot_main :: "u8 list" where
  "mandelbrot_main = bytes ''Mandelbrot Set (fixed-point)'' @ [10] @ row_loop 0"

declare escape_loop.simps [simp del] point_loop.simps [simp del] row_loop.simps [simp del]

text \<open>To leave the loop, an escape sets the count to its end. The character is then chosen by the count: every
  point is drawn alike, inside or outside.\<close>

lemma escape_loop_count: "iter \<le> 64 \<Longrightarrow> fst (escape_loop cr ci zr zi iter) = 64"
proof (induction "64 - iter" arbitrary: zr zi iter)
  case 0
  then have "iter = 64" by simp
  then show ?case by (simp add: escape_loop.simps [of cr ci zr zi 64])
next
  case (Suc d)
  then have i: "iter < 64" "d = 64 - Suc iter" by simp_all
  then show ?case using Suc.hyps(1) by (simp add: escape_loop.simps [of cr ci zr zi iter] Let_def)
qed

lemma point_full: "point cr ci old = 64"
  using escape_loop_count [of 0 cr ci 0 0]
  by (auto simp: point_def sdiv32_def get_palette_ch_def signed_divide_int_def split: prod.splits)

lemma point_loop_full: "point_loop ci col old = replicate (70 - col) 64"
proof (induction "70 - col" arbitrary: col old)
  case 0
  then show ?case by (simp add: point_loop.simps [of ci col])
next
  case (Suc d)
  then have c: "col < 70" "d = 70 - Suc col" by simp_all
  then have "70 - col = Suc (70 - Suc col)" by simp
  then show ?case using Suc.hyps(1) [of "Suc col" 64] c by (simp add: point_loop.simps [of ci col] point_full Let_def)
qed

lemma mandelbrot_draws_one_character:
  "mandelbrot_main = bytes ''Mandelbrot Set (fixed-point)'' @ [10] @ concat (replicate 22 (replicate 70 64 @ [10]))"
proof -
  have "row_loop row = concat (replicate (22 - row) (replicate 70 64 @ [10]))" for row
  proof (induction "22 - row" arbitrary: row)
    case 0
    then show ?case by (simp add: row_loop.simps [of row])
  next
    case (Suc d)
    then have r: "row < 22" "d = 22 - Suc row" by simp_all
    then have "22 - row = Suc (22 - Suc row)" by simp
    then show ?case using Suc.hyps(1) [of "Suc row"] r by (simp add: row_loop.simps [of row] point_loop_full)
  qed
  then show ?thesis by (simp add: mandelbrot_main_def)
qed

end
