(* ===== verification/Mv_Sample_Wumpus.thy ===== *)
theory Mv_Sample_Wumpus
  imports Mv_Prelude
begin

text \<open>
  \<^verbatim>\<open>samples/wumpus.c\<close>: a game in a cave of eight rooms, as a step relation. A state holds the variables of the game,
  the bytes \<^verbatim>\<open>getchar\<close> will return and those given to \<^verbatim>\<open>putchar\<close>; None is a program that waits for input that
  never comes. The random numbers are computed on 32 bits; all other numbers are small.
\<close>

section \<open>The program\<close>

record game =
  player :: int
  wumpus :: int
  pit1 :: int
  pit2 :: int
  bats :: int
  arrows :: int
  alive :: bool
  won :: bool
  seed :: int
  inp :: "u8 list"
  out :: "u8 list"

definition puts :: "u8 list \<Rightarrow> game \<Rightarrow> game" where
  "puts s g = g\<lparr>out := out g @ s\<rparr>"

definition getchar :: "game \<Rightarrow> (int \<times> game) option" where
  "getchar g = (case inp g of [] \<Rightarrow> None | c # r \<Rightarrow> Some (uint c, g\<lparr>inp := r\<rparr>))"

text \<open>The three rooms next to a room.\<close>

definition exits :: "int \<Rightarrow> int list" where
  "exits r =
     (if r = 0 then [1, 3, 7] else if r = 1 then [0, 2, 4] else if r = 2 then [1, 3, 5] else if r = 3 then [0, 2, 6]
      else if r = 4 then [1, 5, 7] else if r = 5 then [2, 4, 6] else if r = 6 then [3, 5, 7] else [0, 4, 6])"

definition lcg :: "u32 \<Rightarrow> u32" where
  "lcg s = (s * 1103515245 + 12345) AND 32767"

definition room :: "u32 \<Rightarrow> int" where
  "room s = uint s mod 8"

definition avoid :: "int \<Rightarrow> int list \<Rightarrow> int \<Rightarrow> int" where
  "avoid d taken r = (if r \<in> set taken then (r + d) mod 8 else r)"

text \<open>The five places in the order of the source: a step of the generator, the room, and the distance to go when the
  room is taken (the player comes first and finds all rooms free).\<close>

fun place :: "u32 \<Rightarrow> int list \<Rightarrow> int list \<Rightarrow> u32 \<times> int list" where
  "place s taken [] = (s, taken)"
| "place s taken (d # ds) = place (lcg s) (taken @ [avoid d taken (room (lcg s))]) ds"

definition place_all :: "int \<Rightarrow> game \<Rightarrow> game" where
  "place_all c g =
     (case place (if c \<ge> 48 \<and> c \<le> 57 then word_of_int (37 + (c - 48) * 17) else 37) [] [0, 1, 2, 3, 4] of
        (s, r) \<Rightarrow> g\<lparr>player := r ! 0, wumpus := r ! 1, pit1 := r ! 2, pit2 := r ! 3, bats := r ! 4,
                    arrows := 3, alive := True, won := False, seed := uint s\<rparr>)"

definition room_digit :: "int \<Rightarrow> u8" where
  "room_digit r = word_of_int (48 + r)"

definition describe :: "game \<Rightarrow> u8 list" where
  "describe g =
     (let adj = exits (player g)
      in bytes ''Room '' @ [room_digit (player g), 10] @
         (if wumpus g \<in> set adj then bytes ''You smell a Wumpus!'' @ [10] else []) @
         (if pit1 g \<in> set adj \<or> pit2 g \<in> set adj then bytes ''You feel a draft'' @ [10] else []) @
         (if bats g \<in> set adj then bytes ''You hear bats'' @ [10] else []) @
         bytes ''Exits: '' @ [room_digit (adj ! 0), 32, room_digit (adj ! 1), 32, room_digit (adj ! 2), 10] @
         bytes ''Arrows: '' @ [room_digit (arrows g), 10] @ bytes ''Move or Shoot? '')"

definition enter :: "int \<Rightarrow> game \<Rightarrow> game" where
  "enter r g =
     (let g = g\<lparr>player := r\<rparr>;
          g = (if player g = wumpus g then (puts (bytes ''The Wumpus got you!'' @ [10]) g)\<lparr>alive := False\<rparr> else g);
          g = (if player g = pit1 g \<or> player g = pit2 g then (puts (bytes ''Fell in a pit!'' @ [10]) g)\<lparr>alive := False\<rparr> else g)
      in if player g = bats g
         then let g = puts (bytes ''Bats!'' @ [10]) g;
                  s = (seed g * 7 + 3) - ((seed g * 7 + 3) div 8) * 8;
                  s = (if s < 0 then 0 - s else s)
              in g\<lparr>seed := s, player := s\<rparr>
         else g)"

definition do_move :: "game \<Rightarrow> (int \<times> game) option" where
  "do_move g =
     map_option (\<lambda>(c, h). (c, let h = puts [10] h in
       if c - 48 \<in> set (exits (player g)) then enter (c - 48) h else puts (bytes ''No exit'' @ [10]) h))
     (getchar (puts (bytes ''Which room? '') g))"

definition hit_or_miss :: "int \<Rightarrow> game \<Rightarrow> game" where
  "hit_or_miss r g =
     (let g = g\<lparr>arrows := arrows g - 1\<rparr>
      in if r = wumpus g then (puts (bytes ''You got the Wumpus!'' @ [10]) g)\<lparr>won := True, alive := False\<rparr>
         else let g = puts (bytes ''Miss!'' @ [10]) g
              in if arrows g = 0 then (puts (bytes ''No arrows!'' @ [10]) g)\<lparr>alive := False\<rparr> else g)"

definition do_shoot :: "game \<Rightarrow> game option" where
  "do_shoot g =
     (if arrows g > 0
      then map_option (\<lambda>(c, g). hit_or_miss (c - 48) (puts [10] g)) (getchar (puts (bytes ''Which room? '') g))
      else Some g)"

text \<open>One round. The second test is of \<^verbatim>\<open>ch\<close> again, which holds the room after a move.\<close>

definition round_of :: "game \<Rightarrow> game option" where
  "round_of g =
     Option.bind (getchar (puts (describe g) g)) (\<lambda>(c, g).
     Option.bind (if c = 109 \<or> c = 77 then do_move (puts [10] g) else Some (c, puts [10] g)) (\<lambda>(c, g).
       if c = 115 \<or> c = 83 then do_shoot g else Some g))"

partial_function (option) game_loop :: "game \<Rightarrow> game option" where
  "game_loop g = (if alive g then Option.bind (round_of g) game_loop else Some g)"

definition title :: "u8 list" where
  "title = bytes ''Hunt the Wumpus!'' @ [10, 10] @ bytes ''Seed (0-9): ''"

definition game_start :: "u8 list \<Rightarrow> game" where
  "game_start s = \<lparr>player = 0, wumpus = 0, pit1 = 0, pit2 = 0, bats = 0, arrows = 0, alive = False, won = False, seed = 0, inp = s, out = title\<rparr>"

definition new_game :: "u8 list \<Rightarrow> game option" where
  "new_game s =
     Option.bind (getchar (game_start s)) (\<lambda>(c, g). map_option (\<lambda>(d, g). place_all c g) (getchar g))"

definition wumpus_main :: "u8 list \<Rightarrow> u8 list option" where
  "wumpus_main s =
     Option.bind (new_game s) (\<lambda>g. map_option (\<lambda>g. out g @ [10] @ (if won g then bytes ''You Win!'' else bytes ''Game Over'') @ [10])
       (game_loop g))"

declare game_loop.simps [code]

section \<open>The rules\<close>

inductive plays :: "game \<Rightarrow> game \<Rightarrow> bool" where
  here: "plays g g"
| next_round: "plays g h \<Longrightarrow> alive h \<Longrightarrow> round_of h = Some k \<Longrightarrow> plays g k"

definition in_cave :: "int \<Rightarrow> bool" where
  "in_cave r \<longleftrightarrow> 0 \<le> r \<and> r < 8"

definition game_ok :: "game \<Rightarrow> bool" where
  "game_ok g \<longleftrightarrow> in_cave (player g) \<and> in_cave (wumpus g) \<and> in_cave (pit1 g) \<and> in_cave (pit2 g) \<and> in_cave (bats g) \<and>
     0 \<le> arrows g \<and> arrows g \<le> 3 \<and> 0 \<le> seed g \<and> (alive g \<longrightarrow> 0 < arrows g) \<and> \<not> (alive g \<and> won g)"

text \<open>The tunnels lead both ways.\<close>

lemma exits_symmetric:
  assumes "in_cave r" "q \<in> set (exits r)"
  shows "in_cave q \<and> r \<in> set (exits q) \<and> q \<noteq> r"
proof -
  have "list_all (\<lambda>r. list_all (\<lambda>q. in_cave q \<and> r \<in> set (exits q) \<and> q \<noteq> r) (exits r)) [0..7]" by code_simp
  moreover have "r \<in> set [0..7]" using assms(1) by (simp add: in_cave_def)
  ultimately show ?thesis using assms(2) unfolding list_all_iff by blast
qed

lemma avoid_in_cave: "in_cave r \<Longrightarrow> in_cave (avoid d taken r)"
  by (simp add: avoid_def in_cave_def)

lemma room_in_cave: "in_cave (room s)"
  by (simp add: room_def in_cave_def)

lemma place_in_cave:
  "place s taken ds = (t, r) \<Longrightarrow> list_all in_cave taken \<Longrightarrow> list_all in_cave r \<and> length r = length taken + length ds"
  by (induction s taken ds rule: place.induct) (auto simp: avoid_in_cave room_in_cave)

lemma place_ok: "game_ok (place_all c g)" "alive (place_all c g)"
proof -
  obtain s r where r: "place (if c \<ge> 48 \<and> c \<le> 57 then word_of_int (37 + (c - 48) * 17) else 37) [] [0, 1, 2, 3, 4] = (s, r)"
    by (rule prod.exhaust)
  have "list_all in_cave r" "length r = 5" using place_in_cave [OF r] by simp_all
  then show "game_ok (place_all c g)" "alive (place_all c g)"
    unfolding place_all_def r by (simp_all add: game_ok_def list_all_length)
qed

lemma puts_ok [simp]: "game_ok (puts s g) = game_ok g"
  by (simp add: puts_def game_ok_def)

lemma game_ok_upd [simp]:
  "game_ok g \<Longrightarrow> in_cave r \<Longrightarrow> game_ok (g\<lparr>player := r\<rparr>)"
  "game_ok g \<Longrightarrow> game_ok (g\<lparr>alive := False\<rparr>)"
  "game_ok g \<Longrightarrow> in_cave r \<Longrightarrow> 0 \<le> r \<Longrightarrow> game_ok (g\<lparr>seed := r, player := r\<rparr>)"
  by (simp_all add: game_ok_def)

lemma carried_in_cave: "in_cave (let s = (x * 7 + 3) - ((x * 7 + 3) div 8) * 8 in if s < 0 then 0 - s else s)"
  by (simp add: in_cave_def minus_div_mult_eq_mod Let_def)

lemma enter_ok:
  assumes "game_ok g" "in_cave r"
  shows "game_ok (enter r g)"
proof -
  define g1 where "g1 = (let g = g\<lparr>player := r\<rparr> in if player g = wumpus g then (puts (bytes ''The Wumpus got you!'' @ [10]) g)\<lparr>alive := False\<rparr> else g)"
  define g2 where "g2 = (if player g1 = pit1 g1 \<or> player g1 = pit2 g1 then (puts (bytes ''Fell in a pit!'' @ [10]) g1)\<lparr>alive := False\<rparr> else g1)"
  define g3 where "g3 = puts (bytes ''Bats!'' @ [10]) g2"
  define s where "s = (let s = (seed g3 * 7 + 3) - ((seed g3 * 7 + 3) div 8) * 8 in if s < 0 then 0 - s else s)"
  have "game_ok g1" using assms by (simp add: g1_def Let_def game_ok_def puts_def)
  then have g2: "game_ok g2" by (simp add: g2_def)
  then have "game_ok g3" by (simp add: g3_def)
  moreover have "in_cave s" unfolding s_def by (rule carried_in_cave)
  ultimately have "game_ok (g3\<lparr>seed := s, player := s\<rparr>)" by (simp add: in_cave_def)
  moreover have "enter r g = (if player g2 = bats g2 then g3\<lparr>seed := s, player := s\<rparr> else g2)"
    unfolding enter_def g1_def g2_def g3_def s_def Let_def ..
  ultimately show ?thesis using g2 by simp
qed

lemma hit_or_miss_ok: "game_ok g \<Longrightarrow> 0 < arrows g \<Longrightarrow> game_ok (hit_or_miss r g)"
  by (simp add: hit_or_miss_def game_ok_def puts_def Let_def)

lemma getchar_ok: "getchar g = Some (c, h) \<Longrightarrow> game_ok h = game_ok g \<and> player h = player g \<and> arrows h = arrows g"
  by (auto simp: getchar_def game_ok_def split: list.splits)

lemma do_move_ok:
  assumes "game_ok g" "do_move g = Some (c, h)"
  shows "game_ok h"
proof -
  obtain k where k: "getchar (puts (bytes ''Which room? '') g) = Some (c, k)"
      "h = (let k = puts [10] k in if c - 48 \<in> set (exits (player g)) then enter (c - 48) k else puts (bytes ''No exit'' @ [10]) k)"
    using assms(2) by (auto simp: do_move_def)
  have "game_ok k" using getchar_ok [OF k(1)] assms(1) by simp
  moreover have "in_cave (c - 48)" if "c - 48 \<in> set (exits (player g))"
    using exits_symmetric [OF _ that] assms(1) by (simp add: game_ok_def)
  ultimately show ?thesis using k(2) enter_ok by (auto simp: Let_def simp del: bytes_Cons)
qed

lemma do_shoot_ok:
  assumes "game_ok g" "do_shoot g = Some h"
  shows "game_ok h"
proof (cases "arrows g > 0")
  case True
  then obtain c k where k: "getchar (puts (bytes ''Which room? '') g) = Some (c, k)" "h = hit_or_miss (c - 48) (puts [10] k)"
    using assms(2) by (auto simp: do_shoot_def)
  have "game_ok k" using getchar_ok [OF k(1)] assms(1) by simp
  moreover have "arrows k = arrows g" using getchar_ok [OF k(1)] by (simp add: puts_def)
  ultimately show ?thesis using k(2) hit_or_miss_ok [of "puts [10] k"] True by (simp add: puts_def game_ok_def)
qed (use assms in \<open>simp add: do_shoot_def\<close>)

lemma round_ok:
  assumes "game_ok g" "round_of g = Some h"
  shows "game_ok h"
proof -
  obtain c k where k: "getchar (puts (describe g) g) = Some (c, k)"
    "Option.bind (if c = 109 \<or> c = 77 then do_move (puts [10] k) else Some (c, puts [10] k))
      (\<lambda>(c, g). if c = 115 \<or> c = 83 then do_shoot g else Some g) = Some h"
    using assms(2) by (auto simp: round_of_def bind_eq_Some_conv)
  have "game_ok (puts [10] k)" using getchar_ok [OF k(1)] assms(1) by simp
  moreover obtain d m where "(if c = 109 \<or> c = 77 then do_move (puts [10] k) else Some (c, puts [10] k)) = Some (d, m)"
      "(if d = 115 \<or> d = 83 then do_shoot m else Some m) = Some h"
    using k(2) by (auto simp: bind_eq_Some_conv)
  ultimately show ?thesis using do_move_ok do_shoot_ok by (metis option.inject prod.inject)
qed

lemma plays_ok: "plays g h \<Longrightarrow> game_ok g \<Longrightarrow> game_ok h"
  by (induction rule: plays.induct) (auto intro: round_ok)

text \<open>The loop ends only where the rules end.\<close>

lemma new_game_ok: "new_game s = Some g \<Longrightarrow> game_ok g \<and> alive g"
  by (auto simp: new_game_def bind_eq_Some_conv place_ok)

lemma plays_next: "plays h k \<Longrightarrow> alive g \<Longrightarrow> round_of g = Some h \<Longrightarrow> plays g k"
proof (induction rule: plays.induct)
  case (here h)
  then show ?case using plays.here plays.next_round by blast
next
  case (next_round h m k)
  then show ?case using plays.next_round by blast
qed

lemma game_loop_plays:
  assumes "game_loop g = Some h"
  shows "plays g h \<and> \<not> alive h"
proof (rule game_loop.raw_induct [OF _ assms])
  fix loop g h
  assume IH: "\<And>g h. loop g = Some h \<Longrightarrow> plays g h \<and> \<not> alive h"
    and l: "(if alive g then Option.bind (round_of g) loop else Some g) = Some h"
  show "plays g h \<and> \<not> alive h"
  proof (cases "alive g")
    case True
    then obtain k where k: "round_of g = Some k" "loop k = Some h" using l by (auto simp: bind_eq_Some_conv)
    then show ?thesis using IH [OF k(2)] plays_next True by blast
  qed (use l plays.here in simp)
qed



text \<open>An arrow into the room of the wumpus wins, wherever the player is.\<close>

lemma shot_wins:
  assumes "0 < arrows g" "inp g = c # r" "uint c - 48 = wumpus g"
  shows "\<exists>h. do_shoot g = Some h \<and> won h \<and> \<not> alive h"
  using assms by (simp add: do_shoot_def getchar_def puts_def hit_or_miss_def Let_def)


definition places :: "game \<Rightarrow> int list" where
  "places g = [player g, wumpus g, pit1 g, pit2 g, bats g]"

text \<open>Modulo 8 the generator goes through all rooms before it repeats one. So whatever byte is given for the seed,
  everyone starts in a different room, and no room has to be avoided.\<close>

lemma and_15_bits: "(x :: u32) AND 32767 = take_bit 15 x"
  by (simp add: take_bit_eq_mask mask_eq_exp_minus_1)

lemma room_lcg: "room (lcg s) = (5 * room s + 1) mod 8"
proof -
  have "uint (lcg s) = uint (s * 1103515245 + 12345) mod 2 ^ 15"
    unfolding lcg_def and_15_bits unsigned_take_bit_eq by (rule take_bit_eq_mod)
  then have "room (lcg s) = uint (s * 1103515245 + 12345) mod 8" by (simp add: room_def mod_mod_cancel)
  also have "\<dots> = (uint s * 1103515245 mod 4294967296 + 12345) mod 8" by (simp add: uint_word_ariths mod_mod_cancel)
  also have "\<dots> = (uint s * 1103515245 mod 4294967296 mod 8 + 12345) mod 8" by (rule mod_add_left_eq [symmetric])
  also have "uint s * 1103515245 mod 4294967296 mod 8 = uint s * 1103515245 mod 8" by (rule mod_mod_cancel) simp
  also have "(uint s * 1103515245 mod 8 + 12345) mod 8 = (uint s * 1103515245 + 12345) mod 8" by (rule mod_add_left_eq)
  also have "uint s * 1103515245 + 12345 = 5 * uint s + 1 + 8 * (137939405 * uint s + 1543)" by simp
  also have "\<dots> mod 8 = (5 * uint s + 1) mod 8" by (rule mod_mult_self2)
  also have "\<dots> = (5 * room s + 1) mod 8" unfolding room_def by (metis mod_add_left_eq mod_mult_right_eq)
  finally show ?thesis .
qed

lemma place_free: "room (lcg s) \<notin> set taken \<Longrightarrow> place s taken (d # ds) = place (lcg s) (taken @ [room (lcg s)]) ds"
  by (simp add: avoid_def)

lemma places_distinct: "distinct (places (place_all c g))"
proof -
  define s where "s = (if c \<ge> 48 \<and> c \<le> 57 then word_of_int (37 + (c - 48) * 17) else 37 :: u32)"
  define t1 t2 t3 t4 where "t1 = lcg s" and "t2 = lcg t1" and "t3 = lcg t2" and "t4 = lcg t3"
  note t = t1_def t2_def t3_def t4_def
  have mem: "room t1 \<in> set [0..7]" unfolding room_def set_upto by simp
  have "list_all (\<lambda>r. let a = (5 * r + 1) mod 8; b = (5 * a + 1) mod 8; c = (5 * b + 1) mod 8 in distinct [r, a, b, c, (5 * c + 1) mod 8]) [0..7]"
    by code_simp
  then have all: "\<forall>r \<in> set [0..7]. let a = (5 * r + 1) mod 8; b = (5 * a + 1) mod 8; c = (5 * b + 1) mod 8 in distinct [r, a, b, c, (5 * c + 1) mod 8]"
    unfolding list_all_iff .
  have d: "distinct [room t1, room t2, room t3, room t4, room (lcg t4)]"
    using bspec [OF all mem] unfolding Let_def t2_def t3_def t4_def room_lcg .
  then have d': "distinct [room (lcg t4), room t4, room t3, room t2, room t1]" by (metis distinct_rev rev.simps append.simps)
  define r1 r2 r3 r4 r5 where "r1 = room t1" and "r2 = room t2" and "r3 = room t3" and "r4 = room t4" and "r5 = room (lcg t4)"
  note r = r1_def [symmetric] r2_def [symmetric] r3_def [symmetric] r4_def [symmetric] r5_def [symmetric]
  have "place s [] [0, 1, 2, 3, 4] = (lcg t4, [room t1, room t2, room t3, room t4, room (lcg t4)])"
    using d d' unfolding r by (simp add: place_free t [symmetric] r del: place.simps(2))
  then show ?thesis using d unfolding place_all_def s_def [symmetric] by (simp add: places_def del: place.simps)
qed

text \<open>The bats: a room they carry the player to is not looked at, so the player can be with the wumpus and live.\<close>

lemma bats_skip_hazards:
  "case Option.bind (Option.bind (new_game (bytes ''3'' @ [10] @ bytes ''m2m5'')) round_of) round_of of
     None \<Rightarrow> False | Some g \<Rightarrow> player g = wumpus g \<and> alive g"
  by code_simp

end
