(* ===== verification/Mv_Json.thy ===== *)
theory Mv_Json
  imports Mv_Prelude
begin

text \<open>
  \<^verbatim>\<open>samples/json_parse.c\<close>: a tokenizer for JSON over fixed global arrays. A read or write outside an array is
  the value None, so that a result shows that every access was inside. Indices are natural numbers: the
  source only counts them up from 0. What \<^verbatim>\<open>putchar\<close> is given is the list of bytes written.
\<close>

section \<open>The tokenizer\<close>

record json =
  json_buf :: "u8 list"
  json_len :: nat
  pos :: nat
  tok_type :: nat
  tok_val :: "u8 list"
  tok_vlen :: nat

definition arr_get :: "u8 list \<Rightarrow> nat \<Rightarrow> u8 option" where
  "arr_get a i = (if i < length a then Some (a ! i) else None)"

definition arr_put :: "u8 list \<Rightarrow> nat \<Rightarrow> u8 \<Rightarrow> u8 list option" where
  "arr_put a i c = (if i < length a then Some (a[i := c]) else None)"

text \<open>Stores from an index on, one after the other.\<close>

fun arr_puts :: "u8 list \<Rightarrow> nat \<Rightarrow> u8 list \<Rightarrow> u8 list option" where
  "arr_puts a i [] = Some a"
| "arr_puts a i (c # cs) = Option.bind (arr_put a i c) (\<lambda>a. arr_puts a (i + 1) cs)"

definition json_ws :: "u8 \<Rightarrow> bool" where
  "json_ws c \<longleftrightarrow> c = 32 \<or> c = 9 \<or> c = 10 \<or> c = 13"

function ws_loop :: "u8 list \<Rightarrow> nat \<Rightarrow> nat \<Rightarrow> nat option" where
  "ws_loop b n p =
     (if p < n then Option.bind (arr_get b p) (\<lambda>c. if json_ws c then ws_loop b n (p + 1) else Some p) else Some p)"
  by auto
termination by (relation "measure (\<lambda>(b, n, p). n - p)") auto

definition skip_ws :: "json \<Rightarrow> json option" where
  "skip_ws st = map_option (\<lambda>p. st\<lparr>pos := p\<rparr>) (ws_loop (json_buf st) (json_len st) (pos st))"

fun lit_loop :: "u8 list \<Rightarrow> nat \<Rightarrow> nat \<Rightarrow> u8 list \<Rightarrow> bool option" where
  "lit_loop b n p [] = Some True"
| "lit_loop b n p (c # cs) =
     (if p \<ge> n then Some False else Option.bind (arr_get b p) (\<lambda>d. if d \<noteq> c then Some False else lit_loop b n (p + 1) cs))"

definition match_lit :: "u8 list \<Rightarrow> json \<Rightarrow> (bool \<times> json) option" where
  "match_lit s st =
     map_option (\<lambda>ok. (ok, if ok then st\<lparr>pos := pos st + length s\<rparr> else st))
       (lit_loop (json_buf st) (json_len st) (pos st) s)"

text \<open>The loop over the bytes of a string: the position, the number of bytes stored and the array.\<close>

function json_string :: "u8 list \<Rightarrow> nat \<Rightarrow> nat \<Rightarrow> nat \<Rightarrow> u8 list \<Rightarrow> (nat \<times> nat \<times> u8 list) option" where
  "json_string b n p i v =
     (if p < n
      then Option.bind (arr_get b p) (\<lambda>c.
        if c = 34 then Some (p, i, v)
        else if c = 92 \<and> p + 1 < n
        then Option.bind (arr_get b (p + 1)) (\<lambda>d. Option.bind (arr_puts v i [92, d]) (\<lambda>v.
          if i + 2 \<ge> 126 then Some (p + 2, i + 2, v) else json_string b n (p + 2) (i + 2) v))
        else Option.bind (arr_put v i c) (\<lambda>v.
          if i + 1 \<ge> 126 then Some (p + 1, i + 1, v) else json_string b n (p + 1) (i + 1) v))
      else Some (p, i, v))"
  by auto
termination by (relation "measure (\<lambda>(b, n, p, i, v). n - p)") auto

text \<open>The loop over the bytes of a number.\<close>

definition json_digit :: "u8 \<Rightarrow> bool" where
  "json_digit c \<longleftrightarrow> 48 \<le> c \<and> c \<le> 57"

function json_number :: "u8 list \<Rightarrow> nat \<Rightarrow> nat \<Rightarrow> nat \<Rightarrow> u8 list \<Rightarrow> (nat \<times> nat \<times> u8 list) option" where
  "json_number b n p i v =
     (if p < n
      then Option.bind (arr_get b p) (\<lambda>c.
        if json_digit c \<or> c = 46
        then Option.bind (arr_put v i c) (\<lambda>v. if i + 1 \<ge> 126 then Some (p + 1, i + 1, v) else json_number b n (p + 1) (i + 1) v)
        else if c = 101 \<or> c = 69
        then Option.bind (arr_put v i c) (\<lambda>v.
          if p + 1 < n
          then Option.bind (arr_get b (p + 1)) (\<lambda>d.
            if d = 43 \<or> d = 45
            then Option.bind (arr_put v (i + 1) d) (\<lambda>v.
              if i + 2 \<ge> 126 then Some (p + 2, i + 2, v) else json_number b n (p + 2) (i + 2) v)
            else if i + 1 \<ge> 126 then Some (p + 1, i + 1, v) else json_number b n (p + 1) (i + 1) v)
          else if i + 1 \<ge> 126 then Some (p + 1, i + 1, v) else json_number b n (p + 1) (i + 1) v)
        else Some (p, i, v))
      else Some (p, i, v))"
  by auto
termination by (relation "measure (\<lambda>(b, n, p, i, v). n - p)") auto

declare ws_loop.simps [simp del] json_string.simps [simp del] json_number.simps [simp del]

text \<open>A token of one fixed text: its type, its bytes stored with a NUL, and the position behind it.\<close>

definition fixed_token :: "nat \<Rightarrow> u8 list \<Rightarrow> json \<Rightarrow> json option" where
  "fixed_token ty s st = map_option (\<lambda>v. st\<lparr>tok_type := ty, tok_val := v\<rparr>) (arr_puts (tok_val st) 0 (s @ [0]))"

definition long_token :: "nat \<Rightarrow> nat \<times> nat \<times> u8 list \<Rightarrow> json \<Rightarrow> json option" where
  "long_token ty r st =
     (case r of (p, i, v) \<Rightarrow> map_option (\<lambda>v. st\<lparr>tok_type := ty, pos := p, tok_val := v, tok_vlen := i\<rparr>) (arr_put v i 0))"

definition string_token :: "json \<Rightarrow> json option" where
  "string_token st =
     Option.bind (json_string (json_buf st) (json_len st) (pos st + 1) 0 (tok_val st)) (\<lambda>(p, i, v).
       long_token 7 (if p < json_len st then p + 1 else p, i, v) st)"

definition number_token :: "u8 \<Rightarrow> json \<Rightarrow> json option" where
  "number_token c st =
     Option.bind (if c = 45 then map_option (\<lambda>v. (pos st + 1, 1, v)) (arr_put (tok_val st) 0 c) else Some (pos st, 0, tok_val st))
       (\<lambda>(p, i, v). Option.bind (json_number (json_buf st) (json_len st) p i v) (\<lambda>r. long_token 8 r st))"

definition unknown_token :: "u8 \<Rightarrow> json \<Rightarrow> json option" where
  "unknown_token c st = fixed_token 255 [c] (st\<lparr>pos := pos st + 1\<rparr>)"

text \<open>The three words: a word that does not match falls through to the unknown byte.\<close>

definition word_token :: "u8 \<Rightarrow> nat \<Rightarrow> u8 list \<Rightarrow> json \<Rightarrow> json option" where
  "word_token c ty s st =
     Option.bind (match_lit s st) (\<lambda>(ok, st). if ok then fixed_token ty s st else unknown_token c st)"

text \<open>The choice by the first byte of a token.\<close>

definition token_at :: "u8 \<Rightarrow> json \<Rightarrow> json option" where
  "token_at c st =
     (if c = 123 then fixed_token 1 [c] (st\<lparr>pos := pos st + 1\<rparr>)
      else if c = 125 then fixed_token 2 [c] (st\<lparr>pos := pos st + 1\<rparr>)
      else if c = 91 then fixed_token 3 [c] (st\<lparr>pos := pos st + 1\<rparr>)
      else if c = 93 then fixed_token 4 [c] (st\<lparr>pos := pos st + 1\<rparr>)
      else if c = 58 then fixed_token 5 [c] (st\<lparr>pos := pos st + 1\<rparr>)
      else if c = 44 then fixed_token 6 [c] (st\<lparr>pos := pos st + 1\<rparr>)
      else if c = 34 then string_token st
      else if c = 45 \<or> json_digit c then number_token c st
      else if c = 116 then word_token c 9 (bytes ''true'') st
      else if c = 102 then word_token c 10 (bytes ''false'') st
      else if c = 110 then word_token c 11 (bytes ''null'') st
      else unknown_token c st)"

definition next_token :: "json \<Rightarrow> json option" where
  "next_token st =
     Option.bind (arr_put (tok_val st) 0 0) (\<lambda>v.
     Option.bind (skip_ws (st\<lparr>tok_vlen := 0, tok_val := v\<rparr>)) (\<lambda>st.
       if pos st \<ge> json_len st then Some (st\<lparr>tok_type := 0\<rparr>)
       else Option.bind (arr_get (json_buf st) (pos st)) (\<lambda>c. token_at c st)))"

section \<open>The program\<close>

text \<open>The bytes printed before the NUL.\<close>

definition print_str :: "u8 list \<Rightarrow> u8 list" where
  "print_str s = takeWhile (\<lambda>c. c \<noteq> 0) s"

text \<open>The digits as they are stored, last first.\<close>

fun digit_loop :: "nat \<Rightarrow> u8 list" where
  "digit_loop n = (if n = 0 then [] else of_nat (n - (n div 10) * 10 + 48) # digit_loop (n div 10))"

declare digit_loop.simps [simp del]

definition print_int :: "u32 \<Rightarrow> u8 list" where
  "print_int n =
     (let (sign, n) = (if sint n < 0 then ([45], 0 - n) else ([], n))
      in if n = 0 then sign @ [48] else sign @ rev (digit_loop (if sint n > 0 then unat n else 0)))"

text \<open>The thirteen arrays of names, in the order of the types, the name for any other type last; the array of COLON has
  one byte more than it needs.\<close>

definition init_names :: "u8 list list" where
  "init_names = [bytes ''END'' @ [0], bytes ''LBRACE'' @ [0], bytes ''RBRACE'' @ [0], bytes ''LBRACK'' @ [0], bytes ''RBRACK'' @ [0],
     bytes ''COLON'' @ [0, 0], bytes ''COMMA'' @ [0], bytes ''STRING'' @ [0], bytes ''NUMBER'' @ [0], bytes ''TRUE'' @ [0],
     bytes ''FALSE'' @ [0], bytes ''NULL'' @ [0], bytes ''UNKNOWN'' @ [0]]"

definition print_type :: "nat \<Rightarrow> u8 list" where
  "print_type t = print_str (init_names ! (if t \<le> 11 then t else 12))"

definition token_line :: "nat \<Rightarrow> json \<Rightarrow> u8 list" where
  "token_line k st = bytes ''  '' @ print_int (of_nat k) @ bytes ''  '' @ print_type (tok_type st) @
     (if tok_vlen st > 0
      then bytes ''  '' @ (if tok_type st = 7 then [34] else []) @ print_str (tok_val st) @ (if tok_type st = 7 then [34] else [])
      else []) @ [10]"

text \<open>The loop, with the number of tokens printed so far; it stops behind the 201st.\<close>

function token_loop :: "nat \<Rightarrow> json \<Rightarrow> (nat \<times> u8 list) option" where
  "token_loop k st =
     Option.bind (next_token st) (\<lambda>st.
       if tok_type st = 0 \<or> k + 1 > 200 then Some (k + 1, token_line k st)
       else map_option (\<lambda>(t, out). (t, token_line k st @ out)) (token_loop (k + 1) st))"
  by auto
termination by (relation "measure (\<lambda>(k, st). 201 - k)") auto

declare token_loop.simps [simp del]

definition json_text :: "u8 list" where
  "json_text = bytes ''{\"os\":\"Mellivora\",\"ver\":12,\"bits\":32,\"ok\":true,\"list\":[1,2,3]}''"

text \<open>The arrays are zero at the start.\<close>

definition json_start :: json where
  "json_start = \<lparr>json_buf = replicate 512 0, json_len = 0, pos = 0, tok_type = 0, tok_val = replicate 128 0, tok_vlen = 0\<rparr>"

definition fill_json :: "u8 list \<Rightarrow> json \<Rightarrow> json option" where
  "fill_json s st = map_option (\<lambda>b. st\<lparr>json_buf := b, json_len := length s\<rparr>) (arr_puts (json_buf st) 0 (s @ [0]))"

text \<open>The program on a text; the source has one text, a literal.\<close>

definition json_program :: "u8 list \<Rightarrow> u8 list option" where
  "json_program s =
     Option.bind (fill_json s json_start) (\<lambda>st.
       map_option (\<lambda>(k, out). bytes ''Input: '' @ print_str (json_buf st) @ [10, 10] @ bytes ''Tokens:'' @ [10] @ out @
         [10] @ bytes ''Total tokens: '' @ print_int (of_nat k) @ [10]) (token_loop 0 (st\<lparr>pos := 0\<rparr>)))"

definition json_main :: "u8 list option" where
  "json_main = json_program json_text"

section \<open>What is left to read\<close>

definition json_ok :: "json \<Rightarrow> bool" where
  "json_ok st \<longleftrightarrow> json_len st \<le> length (json_buf st) \<and> length (tok_val st) = 128 \<and> pos st \<le> json_len st"

definition left_over :: "json \<Rightarrow> u8 list" where
  "left_over st = drop (pos st) (take (json_len st) (json_buf st))"

lemma left_Cons:
  assumes "n \<le> length b" "drop p (take n b) = c # r"
  shows "p < n" "arr_get b p = Some c" "drop (Suc p) (take n b) = r"
proof -
  have l: "p < length (take n b)" using assms(2) by (metis drop_all list.distinct(1) not_less)
  then show p: "p < n" by simp
  have "drop p (take n b) = take n b ! p # drop (Suc p) (take n b)" using l by (rule Cons_nth_drop_Suc [symmetric])
  then show "arr_get b p = Some c" "drop (Suc p) (take n b) = r" using assms p by (simp_all add: arr_get_def)
qed

lemma left_Nil: "n \<le> length b \<Longrightarrow> drop p (take n b) = [] \<longleftrightarrow> n \<le> p"
  by simp

lemma arr_put_ok: "i < length v \<Longrightarrow> \<exists>v'. arr_put v i c = Some v' \<and> length v' = length v \<and> take (Suc i) v' = take i v @ [c]"
  by (simp add: arr_put_def take_Suc_conv_app_nth)

lemma arr_puts_ok:
  "i + length cs \<le> length v \<Longrightarrow>
     \<exists>v'. arr_puts v i cs = Some v' \<and> length v' = length v \<and> take (i + length cs) v' = take i v @ cs"
proof (induction cs arbitrary: i v)
  case (Cons c cs)
  obtain v1 where 1: "arr_put v i c = Some v1" "length v1 = length v" "take (Suc i) v1 = take i v @ [c]"
    using arr_put_ok [of i v c] Cons.prems by auto
  obtain v2 where "arr_puts v1 (Suc i) cs = Some v2" "length v2 = length v1" "take (Suc i + length cs) v2 = take (Suc i) v1 @ cs"
    using Cons.IH [of "Suc i" v1] Cons.prems 1(2) by auto
  then show ?case using 1 by simp
qed simp

subsection \<open>Blanks and words\<close>

lemma ws_loop_skips:
  "n \<le> length b \<Longrightarrow> p \<le> n \<Longrightarrow>
     ws_loop b n p = Some (p + length (takeWhile json_ws (drop p (take n b))))"
proof (induction b n p rule: ws_loop.induct)
  case (1 b n p)
  show ?case
  proof (cases "drop p (take n b)")
    case Nil
    then have "\<not> p < n" using left_Nil [OF 1(2)] by simp
    then show ?thesis using Nil by (simp add: ws_loop.simps [of b n p])
  next
    case (Cons c r)
    note l = left_Cons [OF 1(2) Cons]
    show ?thesis
      using 1(1) [OF l(1,2)] 1(2) l Cons by (cases "json_ws c") (simp_all add: ws_loop.simps [of b n p])
  qed
qed

lemma lit_loop_match:
  "n \<le> length b \<Longrightarrow> p \<le> n \<Longrightarrow>
     lit_loop b n p s = Some (take (length s) (drop p (take n b)) = s)"
proof (induction b n p s rule: lit_loop.induct)
  case (2 b n p c cs)
  show ?case
  proof (cases "drop p (take n b)")
    case Nil
    then have "p \<ge> n" using left_Nil [OF 2(2)] by simp
    then show ?thesis using Nil by simp
  next
    case (Cons d r)
    note l = left_Cons [OF 2(2) Cons]
    show ?thesis using 2(1) [OF _ l(2)] 2(2,3) l Cons by simp
  qed
qed simp

subsection \<open>Strings and numbers\<close>

text \<open>The inside of a string: every backslash is followed by a byte, and a quote only stands behind one.\<close>

fun escaped :: "u8 list \<Rightarrow> bool" where
  "escaped [] = True"
| "escaped (c # s) = (if c = 92 then (case s of [] \<Rightarrow> False | d # s' \<Rightarrow> escaped s') else c \<noteq> 34 \<and> escaped s)"

lemma json_string_reads:
  "n \<le> length b \<Longrightarrow> drop p (take n b) = s @ 34 # r \<Longrightarrow> escaped s \<Longrightarrow> i + length s \<le> 126 \<Longrightarrow> length v = 128 \<Longrightarrow>
     \<exists>v'. json_string b n p i v = Some (p + length s, i + length s, v') \<and> length v' = 128 \<and>
       take (i + length s) v' = take i v @ s"
proof (induction s arbitrary: p i v rule: escaped.induct)
  case 1
  then show ?case using left_Cons [OF 1(1), of p 34 r] by (simp add: json_string.simps)
next
  case (2 c s)
  have c: "drop p (take n b) = c # s @ 34 # r" using 2(4) by simp
  note l = left_Cons [OF 2(3) c]
  show ?case
  proof (cases "c = 92")
    case True
    then obtain d s' where s: "s = d # s'" "escaped s'" using 2(5) by (auto split: list.splits)
    note l2 = left_Cons [OF 2(3), of "Suc p" d "s' @ 34 # r"]
    have d: "Suc p < n" "arr_get b (Suc p) = Some d" "drop (Suc (Suc p)) (take n b) = s' @ 34 # r" using l2 l(3) s(1) by simp_all
    obtain v1 where v1: "arr_puts v i [92, d] = Some v1" "length v1 = 128" "take (i + 2) v1 = take i v @ [92, d]"
      using arr_puts_ok [of i "[92, d]" v] 2(6,7) s(1) by auto
    have step: "json_string b n p i v = (if i + 2 \<ge> 126 then Some (p + 2, i + 2, v1) else json_string b n (p + 2) (i + 2) v1)"
      using l(1,2) True d(1,2) v1(1) by (simp add: json_string.simps [of b n p i v] del: arr_puts.simps)
    show ?thesis
    proof (cases "i + 2 \<ge> 126")
      case True
      then have "s' = []" using 2(6) s(1) by (cases s') auto
      then show ?thesis using step True v1 s(1) \<open>c = 92\<close> by simp
    next
      case False
      then show ?thesis
        using 2(1) [OF \<open>c = 92\<close> s(1), of "p + 2" "i + 2" v1] 2(3,6) d(3) s v1 step \<open>c = 92\<close> by auto
    qed
  next
    case False
    obtain v1 where v1: "arr_put v i c = Some v1" "length v1 = 128" "take (Suc i) v1 = take i v @ [c]"
      using arr_put_ok [of i v c] 2(6,7) by auto
    have "c \<noteq> 34" "escaped s" using 2(5) False by auto
    then have step: "json_string b n p i v = (if i + 1 \<ge> 126 then Some (p + 1, i + 1, v1) else json_string b n (p + 1) (i + 1) v1)"
      using l(1,2) False v1(1) by (simp add: json_string.simps [of b n p i v])
    show ?thesis
    proof (cases "i + 1 \<ge> 126")
      case True
      then have "s = []" using 2(6) by (cases s) auto
      then show ?thesis using step True v1 by simp
    next
      case i: False
      then show ?thesis
        using 2(2) [OF False, of "p + 1" "i + 1" v1] 2(3,6) l(3) v1 step \<open>escaped s\<close> by auto
    qed
  qed
qed

text \<open>A number behind its sign: digits, dots, and exponent letters with an optional sign. It goes on as long
  as it can.\<close>

definition num_char :: "u8 \<Rightarrow> bool" where
  "num_char c \<longleftrightarrow> json_digit c \<or> c = 46 \<or> c = 101 \<or> c = 69"

fun num_rest :: "u8 list \<Rightarrow> bool" where
  "num_rest [] = True"
| "num_rest (c # s) = (if json_digit c \<or> c = 46 then num_rest s
     else if c = 101 \<or> c = 69 then (case s of [] \<Rightarrow> True | d # s' \<Rightarrow> if d = 43 \<or> d = 45 then num_rest s' else num_rest s)
     else False)"

definition num_stop :: "u8 list \<Rightarrow> u8 list \<Rightarrow> bool" where
  "num_stop s r \<longleftrightarrow> (case r of [] \<Rightarrow> True
     | c # _ \<Rightarrow> \<not> num_char c \<and> \<not> (s \<noteq> [] \<and> (last s = 101 \<or> last s = 69) \<and> (c = 43 \<or> c = 45)))"

lemma num_stop_tl: "num_stop (c # s) r \<Longrightarrow> s \<noteq> [] \<Longrightarrow> num_stop s r"
  by (auto simp: num_stop_def split: list.splits)

lemma num_stop_Nil: "num_stop s r \<Longrightarrow> num_stop [] r"
  by (auto simp: num_stop_def split: list.splits)

lemma json_number_stops:
  assumes "n \<le> length b" "drop p (take n b) = r" "num_stop [] r"
  shows "json_number b n p i v = Some (p, i, v)"
proof (cases r)
  case Nil
  then show ?thesis using left_Nil [OF assms(1)] assms(2) by (simp add: json_number.simps)
next
  case (Cons c r')
  then have "\<not> num_char c" using assms(3) by (simp add: num_stop_def)
  then show ?thesis
    using left_Cons [OF assms(1), of p c r'] assms(2) Cons by (simp add: json_number.simps [of b n p i v] num_char_def)
qed

text \<open>One step: a digit, a dot or a bare exponent letter; or an exponent letter with its sign.\<close>

lemma json_number_one:
  assumes "n \<le> length b" "drop p (take n b) = c # t" "arr_put v i c = Some v1" "num_char c"
    and "\<not> (json_digit c \<or> c = 46) \<longrightarrow> (case t of [] \<Rightarrow> True | d # _ \<Rightarrow> d \<noteq> 43 \<and> d \<noteq> 45)"
  shows "json_number b n p i v = (if i + 1 \<ge> 126 then Some (p + 1, i + 1, v1) else json_number b n (p + 1) (i + 1) v1)"
proof -
  note l = left_Cons [OF assms(1,2)]
  have "if Suc p < n then \<exists>d. arr_get b (Suc p) = Some d \<and> (json_digit c \<or> c = 46 \<or> d \<noteq> 43 \<and> d \<noteq> 45) else True"
  proof (cases t)
    case Nil
    then show ?thesis using l(3) left_Nil [OF assms(1), of "Suc p"] by simp
  next
    case (Cons d t')
    then show ?thesis using left_Cons [OF assms(1), of "Suc p" d t'] l(3) assms(5) by auto
  qed
  then show ?thesis
    using l(1,2) assms(3,4) by (auto simp: json_number.simps [of b n p i v] num_char_def split: if_splits)
qed

lemma json_number_signed:
  assumes "n \<le> length b" "drop p (take n b) = c # d # t" "arr_puts v i [c, d] = Some v1" "c = 101 \<or> c = 69" "d = 43 \<or> d = 45"
  shows "json_number b n p i v = (if i + 2 \<ge> 126 then Some (p + 2, i + 2, v1) else json_number b n (p + 2) (i + 2) v1)"
proof -
  note l = left_Cons [OF assms(1,2)] and l2 = left_Cons [OF assms(1), of "Suc p" d t]
  have "\<not> (json_digit c \<or> c = 46)" using assms(4) by (auto simp: json_digit_def)
  then show ?thesis
    using l l2 assms(3-5) by (auto simp: json_number.simps [of b n p i v] bind_eq_Some_conv)
qed

lemma json_number_reads:
  "n \<le> length b \<Longrightarrow> drop p (take n b) = s @ r \<Longrightarrow> num_rest s \<Longrightarrow> num_stop s r \<Longrightarrow> i + length s \<le> 126 \<Longrightarrow> length v = 128 \<Longrightarrow>
     \<exists>v'. json_number b n p i v = Some (p + length s, i + length s, v') \<and> length v' = 128 \<and>
       take (i + length s) v' = take i v @ s"
proof (induction "length s" arbitrary: s p i v rule: less_induct)
  case less
  show ?case
  proof (cases s)
    case Nil
    then show ?thesis using json_number_stops [OF less.prems(1), of p r] less.prems by simp
  next
    case (Cons c t)
    show ?thesis
    proof (cases "\<exists>d t'. t = d # t' \<and> (c = 101 \<or> c = 69) \<and> (d = 43 \<or> d = 45)")
      case True
      then obtain d t' where t: "t = d # t'" "c = 101 \<or> c = 69" "d = 43 \<or> d = 45" by blast
      obtain v1 where v1: "arr_puts v i [c, d] = Some v1" "length v1 = 128" "take (i + 2) v1 = take i v @ [c, d]"
        using arr_puts_ok [of i "[c, d]" v] less.prems(5,6) Cons t(1) by auto
      have step: "json_number b n p i v = (if i + 2 \<ge> 126 then Some (p + 2, i + 2, v1) else json_number b n (p + 2) (i + 2) v1)"
        using json_number_signed [OF less.prems(1) _ v1(1) t(2,3), of p "t' @ r"] less.prems(2) Cons t(1) by simp
      have d: "drop (p + 2) (take n b) = t' @ r"
        using left_Cons(3) [OF less.prems(1), of p c "d # t' @ r"] left_Cons(3) [OF less.prems(1), of "Suc p" d "t' @ r"]
          less.prems(2) Cons t(1) by simp
      have nr: "num_rest t'" using less.prems(3) Cons t by (auto simp: json_digit_def)
      have ns: "num_stop t' r"
        using less.prems(4) num_stop_tl num_stop_Nil Cons t(1) by (metis list.distinct(1))
      show ?thesis
      proof (cases "i + 2 \<ge> 126")
        case True
        then have "t' = []" using less.prems(5) Cons t(1) by (cases t') auto
        then show ?thesis using step True v1 Cons t(1) by simp
      next
        case False
        then show ?thesis
          using less.hyps [OF _ less.prems(1) d nr ns, of "i + 2" v1] less.prems(5) v1 step Cons t(1) by auto
      qed
    next
      case False
      have nc: "num_char c" using less.prems(3) Cons by (auto simp: num_char_def split: if_splits)
      obtain v1 where v1: "arr_put v i c = Some v1" "length v1 = 128" "take (Suc i) v1 = take i v @ [c]"
        using arr_put_ok [of i v c] less.prems(5,6) Cons by auto
      have nx: "\<not> (json_digit c \<or> c = 46) \<longrightarrow> (case t @ r of [] \<Rightarrow> True | d # _ \<Rightarrow> d \<noteq> 43 \<and> d \<noteq> 45)"
        using False nc less.prems(4) Cons by (cases t) (auto simp: num_char_def num_stop_def split: list.splits)
      have step: "json_number b n p i v = (if i + 1 \<ge> 126 then Some (p + 1, i + 1, v1) else json_number b n (p + 1) (i + 1) v1)"
        using json_number_one [OF less.prems(1) _ v1(1) nc nx, of p] less.prems(2) Cons by simp
      have d: "drop (p + 1) (take n b) = t @ r"
        using left_Cons(3) [OF less.prems(1), of p c "t @ r"] less.prems(2) Cons by simp
      have nr: "num_rest t"
      proof (cases t)
        case t: (Cons d t')
        then have "num_rest (c # d # t')" using less.prems(3) Cons by (simp del: num_rest.simps)
        then show ?thesis using False t num_rest.simps(2) [of c "d # t'"] by (auto simp del: num_rest.simps split: if_splits)
      qed simp
      have ns: "num_stop t r"
        using less.prems(4) num_stop_tl num_stop_Nil Cons by metis
      show ?thesis
      proof (cases "i + 1 \<ge> 126")
        case True
        then have "t = []" using less.prems(5) Cons by (cases t) auto
        then show ?thesis using step True v1 Cons by simp
      next
        case False
        then show ?thesis
          using less.hyps [OF _ less.prems(1) d nr ns, of "i + 1" v1] less.prems(5) v1 step Cons by auto
      qed
    qed
  qed
qed

section \<open>Tokens\<close>

datatype token = Mark u8 | Text "u8 list" | Number "u8 list" | Word "u8 list" | Other u8

fun token_text :: "token \<Rightarrow> u8 list" where
  "token_text (Mark c) = [c]"
| "token_text (Text s) = 34 # s @ [34]"
| "token_text (Number s) = s"
| "token_text (Word s) = s"
| "token_text (Other c) = [c]"

fun token_value :: "token \<Rightarrow> u8 list" where
  "token_value (Text s) = s"
| "token_value t = token_text t"

fun token_code :: "token \<Rightarrow> nat" where
  "token_code (Mark c) = (if c = 123 then 1 else if c = 125 then 2 else if c = 91 then 3 else if c = 93 then 4 else if c = 58 then 5 else 6)"
| "token_code (Text s) = 7"
| "token_code (Number s) = 8"
| "token_code (Word s) = (if s = bytes ''true'' then 9 else if s = bytes ''false'' then 10 else 11)"
| "token_code (Other c) = 255"

fun token_vlen :: "token \<Rightarrow> nat" where
  "token_vlen (Text s) = length s"
| "token_vlen (Number s) = length s"
| "token_vlen t = 0"

definition mark_bytes :: "u8 list" where
  "mark_bytes = bytes ''{}[]:,''"

fun token_ok :: "token \<Rightarrow> bool" where
  "token_ok (Mark c) \<longleftrightarrow> c \<in> set mark_bytes"
| "token_ok (Text s) \<longleftrightarrow> escaped s \<and> length s \<le> 126 \<and> 0 \<notin> set s"
| "token_ok (Number s) \<longleftrightarrow> s \<noteq> [] \<and> length s \<le> 126 \<and> (if hd s = 45 then num_rest (tl s) else json_digit (hd s) \<and> num_rest s)"
| "token_ok (Word s) \<longleftrightarrow> s = bytes ''true'' \<or> s = bytes ''false'' \<or> s = bytes ''null''"
| "token_ok (Other c) \<longleftrightarrow> c \<notin> set mark_bytes \<and> \<not> json_ws c \<and> \<not> json_digit c \<and> c \<noteq> 0 \<and> c \<noteq> 34 \<and> c \<noteq> 45 \<and> c \<noteq> 116 \<and> c \<noteq> 102 \<and> c \<noteq> 110"

text \<open>A number must be followed by something that does not carry it on.\<close>

fun token_end :: "token \<Rightarrow> u8 list \<Rightarrow> bool" where
  "token_end (Number s) r \<longleftrightarrow> num_stop (if hd s = 45 then tl s else s) r"
| "token_end t r \<longleftrightarrow> True"

text \<open>The state after a token.\<close>

definition holds_token :: "token \<Rightarrow> u8 list \<Rightarrow> json \<Rightarrow> json \<Rightarrow> bool" where
  "holds_token t r st st' \<longleftrightarrow> json_ok st' \<and> left_over st' = r \<and> tok_type st' = token_code t \<and> tok_vlen st' = token_vlen t \<and>
     print_str (tok_val st') = token_value t \<and> json_buf st' = json_buf st \<and> json_len st' = json_len st"

lemma print_str_NUL: "0 \<notin> set s \<Longrightarrow> print_str (s @ 0 # r) = s"
  by (induction s) (auto simp: print_str_def)

lemma print_str_take:
  assumes "take (length s) v = s" "length s < length v" "v ! length s = 0" "0 \<notin> set s"
  shows "print_str v = s"
proof -
  have "v = s @ v ! length s # drop (Suc (length s)) v" using assms(1,2) by (metis id_take_nth_drop)
  then show ?thesis using assms(3,4) print_str_NUL by metis
qed

lemma print_str_put:
  assumes "take (length s) v = s" "length s < length v" "0 \<notin> set s"
  shows "\<exists>v'. arr_put v (length s) 0 = Some v' \<and> print_str v' = s \<and> length v' = length v"
  using assms print_str_take [of s "v[length s := 0]"] by (simp add: arr_put_def)

lemma left_over_skip:
  assumes "json_ok st" "left_over st = s @ r"
  shows "json_ok (st\<lparr>pos := pos st + length s\<rparr>)" "left_over (st\<lparr>pos := pos st + length s\<rparr>) = r"
proof -
  have "drop (length s) (left_over st) = r" using assms(2) by simp
  then show "left_over (st\<lparr>pos := pos st + length s\<rparr>) = r" by (simp add: left_over_def add.commute)
  have "length (left_over st) = json_len st - pos st" using assms(1) by (simp add: left_over_def json_ok_def)
  then show "json_ok (st\<lparr>pos := pos st + length s\<rparr>)" using assms by (auto simp: json_ok_def)
qed

lemma fixed_token_holds:
  assumes "json_ok st" "length s < 128" "0 \<notin> set s"
  shows "\<exists>v. fixed_token ty s st = Some (st\<lparr>tok_type := ty, tok_val := v\<rparr>) \<and> print_str v = s \<and> length v = 128"
proof -
  obtain v where v: "arr_puts (tok_val st) 0 (s @ [0]) = Some v" "length v = 128" "take (Suc (length s)) v = s @ [0]"
    using arr_puts_ok [of 0 "s @ [0]" "tok_val st"] assms(1,2) by (auto simp: json_ok_def)
  have "take (length s) v = take (length s) (take (Suc (length s)) v)" "v ! length s = take (Suc (length s)) v ! length s"
    by (simp_all add: min_def)
  then have "take (length s) v = s" "v ! length s = 0" unfolding v(3) by simp_all
  then have "print_str v = s" using print_str_take [of s v] assms(2,3) v(2) by simp
  then show ?thesis using v by (intro exI [of _ v]) (simp add: fixed_token_def)
qed

lemma fixed_token_reads:
  assumes "json_ok st" "left_over st = s @ r" "tok_vlen st = 0" "length s < 128" "0 \<notin> set s"
    and "token_code t = ty" "token_value t = s" "token_vlen t = 0"
  shows "\<exists>st'. fixed_token ty s (st\<lparr>pos := pos st + length s\<rparr>) = Some st' \<and> holds_token t r st st'"
  using left_over_skip [OF assms(1,2)] fixed_token_holds [of "st\<lparr>pos := pos st + length s\<rparr>" s ty] assms(3-)
  by (auto simp: holds_token_def json_ok_def left_over_def)

lemma long_token_reads:
  assumes "json_ok st" "left_over st = s @ r" "take (length w) v = w" "length v = 128" "length w \<le> 126" "0 \<notin> set w"
    and "token_code t = ty" "token_value t = w" "token_vlen t = length w"
  shows "\<exists>st'. long_token ty (pos st + length s, length w, v) st = Some st' \<and> holds_token t r st st'"
  using left_over_skip [OF assms(1,2)] print_str_put [of w v] assms(3-)
  by (auto simp: holds_token_def json_ok_def left_over_def long_token_def)

lemma json_digit_nonzero: "json_digit c \<Longrightarrow> c \<noteq> 0"
  by (auto simp: json_digit_def)

lemma json_digit_not:
  "\<not> json_digit 123" "\<not> json_digit 125" "\<not> json_digit 91" "\<not> json_digit 93" "\<not> json_digit 58" "\<not> json_digit 44" "\<not> json_digit 34"
  by (simp_all add: json_digit_def)

lemma num_rest_nonzero: "num_rest s \<Longrightarrow> 0 \<notin> set s"
proof (induction s rule: num_rest.induct)
  case (2 c s)
  have "c \<noteq> 0" using 2(4) json_digit_nonzero by (auto split: if_splits)
  moreover have "0 \<notin> set s"
  proof (cases "json_digit c \<or> c = 46")
    case True
    then show ?thesis using 2(1,4) by simp
  next
    case False
    then have e: "c = 101 \<or> c = 69" using 2(4) by (auto split: if_splits)
    show ?thesis
    proof (cases s)
      case (Cons d s')
      then show ?thesis using 2(2) [OF False e Cons] 2(3) [OF False e Cons] 2(4) False e
        by (cases "d = 43 \<or> d = 45") auto
    qed simp
  qed
  ultimately show ?case by simp
qed simp

lemma string_token_reads:
  assumes "json_ok st" "left_over st = token_text (Text s) @ r" "token_ok (Text s)"
  shows "\<exists>st'. string_token st = Some st' \<and> holds_token (Text s) r st st'"
proof -
  have n: "json_len st \<le> length (json_buf st)" "length (tok_val st) = 128" using assms(1) by (simp_all add: json_ok_def)
  have "drop (pos st) (take (json_len st) (json_buf st)) = 34 # s @ 34 # r" using assms(2) by (simp add: left_over_def)
  from left_Cons(3) [OF n(1) this] have d: "drop (pos st + 1) (take (json_len st) (json_buf st)) = s @ 34 # r" by simp
  obtain v where v: "json_string (json_buf st) (json_len st) (pos st + 1) 0 (tok_val st) = Some (pos st + 1 + length s, length s, v)"
      "length v = 128" "take (length s) v = s"
    using json_string_reads [OF n(1) d, of 0 "tok_val st"] assms(3) n(2) by auto
  have "drop (length s) (s @ 34 # r) = 34 # r" by simp
  then have "drop (pos st + 1 + length s) (take (json_len st) (json_buf st)) = 34 # r"
    using arg_cong [OF d, of "drop (length s)"] by (simp add: add.commute)
  from left_Cons(1) [OF n(1) this] have "pos st + 1 + length s < json_len st" .
  then have "string_token st = long_token 7 (pos st + length (34 # s @ [34]), length s, v) st"
    using v(1) by (simp add: string_token_def)
  then show ?thesis
    using long_token_reads [OF assms(1), of "34 # s @ [34]" r s v "Text s" 7] assms(2,3) v(2,3) by simp
qed

lemma number_token_reads:
  assumes "json_ok st" "left_over st = s @ r" "token_ok (Number s)" "token_end (Number s) r"
  shows "\<exists>st'. number_token (hd s) st = Some st' \<and> holds_token (Number s) r st st'"
proof -
  have n: "json_len st \<le> length (json_buf st)" "length (tok_val st) = 128" using assms(1) by (simp_all add: json_ok_def)
  have d: "drop (pos st) (take (json_len st) (json_buf st)) = s @ r" using assms(2) by (simp add: left_over_def)
  have "\<exists>v. number_token (hd s) st = long_token 8 (pos st + length s, length s, v) st \<and> length v = 128 \<and> take (length s) v = s \<and> 0 \<notin> set s"
  proof (cases "hd s = 45")
    case True
    then obtain u where s: "s = 45 # u" using assms(3) by (cases s) auto
    have u: "num_rest u" "num_stop u r" "length u \<le> 125" using assms(3,4) s by simp_all
    obtain v0 where v0: "arr_put (tok_val st) 0 45 = Some v0" "length v0 = 128" "take 1 v0 = [45]"
      using arr_put_ok [of 0 "tok_val st" 45] n(2) by auto
    have "drop (pos st + 1) (take (json_len st) (json_buf st)) = u @ r"
      using left_Cons(3) [OF n(1), of "pos st" 45 "u @ r"] d s by simp
    then obtain v where "json_number (json_buf st) (json_len st) (pos st + 1) 1 v0 = Some (pos st + 1 + length u, 1 + length u, v)"
        "length v = 128" "take (1 + length u) v = [45] @ u"
      using json_number_reads [OF n(1) _ u(1,2), of "pos st + 1" 1 v0] u(3) v0 by auto
    then show ?thesis using v0(1) s num_rest_nonzero [OF u(1)] by (auto simp: number_token_def)
  next
    case False
    then have u: "num_rest s" "num_stop s r" "length s \<le> 126" using assms(3,4) by simp_all
    obtain v where "json_number (json_buf st) (json_len st) (pos st) 0 (tok_val st) = Some (pos st + length s, length s, v)"
        "length v = 128" "take (length s) v = s"
      using json_number_reads [OF n(1) d u(1,2), of 0 "tok_val st"] u(3) n(2) by auto
    then show ?thesis using False num_rest_nonzero [OF u(1)] by (auto simp: number_token_def)
  qed
  then obtain v where v: "number_token (hd s) st = long_token 8 (pos st + length s, length s, v) st" "length v = 128"
      "take (length s) v = s" "0 \<notin> set s" by blast
  then show ?thesis
    using long_token_reads [OF assms(1,2) v(3,2) _ v(4), of "Number s" 8] assms(3) by simp
qed

lemma word_token_reads:
  assumes "json_ok st" "left_over st = s @ r" "tok_vlen st = 0" "length s < 128" "0 \<notin> set s"
    and "token_code t = ty" "token_value t = s" "token_vlen t = 0"
  shows "\<exists>st'. word_token c ty s st = Some st' \<and> holds_token t r st st'"
proof -
  have "lit_loop (json_buf st) (json_len st) (pos st) s = Some True"
    using lit_loop_match [of "json_len st" "json_buf st" "pos st" s] assms(1,2) by (simp add: json_ok_def left_over_def)
  then have "word_token c ty s st = fixed_token ty s (st\<lparr>pos := pos st + length s\<rparr>)"
    by (simp add: word_token_def match_lit_def)
  then show ?thesis using fixed_token_reads [OF assms] by simp
qed

lemma token_at_reads:
  assumes "json_ok st" "left_over st = token_text t @ r" "tok_vlen st = 0" "token_ok t" "token_end t r"
  shows "\<exists>st'. token_at (hd (token_text t)) st = Some st' \<and> holds_token t r st st'"
proof (cases t)
  case (Mark c)
  have f: "\<exists>st'. fixed_token (token_code t) [c] (st\<lparr>pos := pos st + length [c]\<rparr>) = Some st' \<and> holds_token t r st st'"
    by (rule fixed_token_reads) (use assms Mark in \<open>auto simp: mark_bytes_def\<close>)
  have "c = 123 \<or> c = 125 \<or> c = 91 \<or> c = 93 \<or> c = 58 \<or> c = 44" using assms(4) Mark by (simp add: mark_bytes_def)
  then have "token_at c st = fixed_token (token_code t) [c] (st\<lparr>pos := pos st + 1\<rparr>)"
    by (elim disjE) (simp_all add: token_at_def Mark)
  then show ?thesis using f Mark by simp
next
  case (Text s)
  then show ?thesis using string_token_reads [of st s r] assms by (simp add: token_at_def json_digit_def)
next
  case (Number s)
  then have "hd s = 45 \<or> json_digit (hd s)" "s \<noteq> []" using assms(4) by (auto split: if_splits)
  then have "hd s \<noteq> 123 \<and> hd s \<noteq> 125 \<and> hd s \<noteq> 91 \<and> hd s \<noteq> 93 \<and> hd s \<noteq> 58 \<and> hd s \<noteq> 44 \<and> hd s \<noteq> 34"
    using json_digit_not by (elim disjE) (simp, metis)
  then have "token_at (hd s) st = number_token (hd s) st"
    using \<open>hd s = 45 \<or> json_digit (hd s)\<close> by (simp add: token_at_def)
  then show ?thesis using number_token_reads [of st s r] assms Number by simp
next
  case (Word s)
  have "\<exists>st'. word_token (hd s) (token_code t) s st = Some st' \<and> holds_token t r st st'"
    by (rule word_token_reads) (use assms Word in auto)
  moreover have "token_at (hd s) st = word_token (hd s) (token_code t) s st"
  proof -
    have "s = bytes ''true'' \<or> s = bytes ''false'' \<or> s = bytes ''null''" using assms(4) Word by simp
    then show ?thesis by (elim disjE) (simp_all add: token_at_def json_digit_def Word)
  qed
  ultimately show ?thesis using Word by simp
next
  case (Other c)
  have f: "\<exists>st'. fixed_token 255 [c] (st\<lparr>pos := pos st + length [c]\<rparr>) = Some st' \<and> holds_token t r st st'"
    by (rule fixed_token_reads) (use assms Other in auto)
  have "token_at c st = unknown_token c st" using assms(4) Other by (simp add: token_at_def mark_bytes_def)
  then show ?thesis using f Other by (simp add: unknown_token_def)
qed


section \<open>Reading a whole text\<close>

lemma first_of_token: "token_ok t \<Longrightarrow> \<exists>c s. token_text t = c # s \<and> \<not> json_ws c"
  by (cases t) (auto simp: mark_bytes_def json_ws_def json_digit_def neq_Nil_conv split: if_splits)

text \<open>The state behind the blanks, where \<^verbatim>\<open>next_token\<close> looks at its first byte.\<close>

lemma next_token_skips:
  assumes "json_ok st" "left_over st = ws @ r" "\<forall>c \<in> set ws. json_ws c" "r = [] \<or> \<not> json_ws (hd r)"
  obtains st0 where "json_ok st0" "left_over st0 = r" "tok_vlen st0 = 0" "tok_val st0 ! 0 = 0"
    "json_buf st0 = json_buf st" "json_len st0 = json_len st"
    "next_token st = (if r = [] then Some (st0\<lparr>tok_type := 0\<rparr>) else token_at (hd r) st0)"
proof -
  define st0 where "st0 = st\<lparr>tok_vlen := 0, tok_val := (tok_val st)[0 := 0], pos := pos st + length ws\<rparr>"
  have 0: "json_ok st0" "left_over st0 = r"
    using left_over_skip [OF assms(1,2)] by (simp_all add: st0_def json_ok_def left_over_def)
  have n: "json_len st \<le> length (json_buf st)" "length (tok_val st) = 128" "pos st \<le> json_len st"
    using assms(1) by (simp_all add: json_ok_def)
  have tw: "takeWhile json_ws (ws @ r) = ws" using assms(3,4) by (cases r) (auto simp: takeWhile_append)
  have ws: "ws_loop (json_buf st) (json_len st) (pos st) = Some (pos st + length ws)"
    using ws_loop_skips [OF n(1,3)] assms(2) tw by (simp add: left_over_def)
  have nx: "next_token st = (if pos st0 \<ge> json_len st0 then Some (st0\<lparr>tok_type := 0\<rparr>)
      else Option.bind (arr_get (json_buf st0) (pos st0)) (\<lambda>c. token_at c st0))"
    using n(2) ws by (simp add: next_token_def arr_put_def skip_ws_def st0_def)
  have rest: "next_token st = (if r = [] then Some (st0\<lparr>tok_type := 0\<rparr>) else token_at (hd r) st0)"
  proof (cases r)
    case Nil
    then have "json_len st0 \<le> pos st0" using 0 left_Nil [of "json_len st0" "json_buf st0" "pos st0"] by (simp add: json_ok_def left_over_def)
    then show ?thesis using nx Nil by simp
  next
    case (Cons c r')
    then show ?thesis
      using nx 0 left_Cons [of "json_len st0" "json_buf st0" "pos st0" c r'] by (simp add: json_ok_def left_over_def)
  qed
  show thesis
    by (rule that [OF 0 _ _ _ _ rest]) (use n(2) in \<open>simp_all add: st0_def\<close>)
qed

lemma next_token_reads:
  assumes "json_ok st" "left_over st = ws @ token_text t @ r" "\<forall>c \<in> set ws. json_ws c" "token_ok t" "token_end t r"
  shows "\<exists>st'. next_token st = Some st' \<and> holds_token t r st st'"
proof -
  obtain c s where c: "token_text t = c # s" "\<not> json_ws c" using first_of_token [OF assms(4)] by blast
  then obtain st0 where st0: "json_ok st0" "left_over st0 = token_text t @ r" "tok_vlen st0 = 0"
      "json_buf st0 = json_buf st" "json_len st0 = json_len st" "next_token st = token_at (hd (token_text t)) st0"
    using next_token_skips [OF assms(1-3)] by auto
  then obtain st' where "token_at (hd (token_text t)) st0 = Some st'" "holds_token t r st0 st'"
    using token_at_reads [OF st0(1-3) assms(4,5)] by blast
  then show ?thesis using st0(4-6) by (simp add: holds_token_def)
qed

lemma next_token_end:
  assumes "json_ok st" "left_over st = ws" "\<forall>c \<in> set ws. json_ws c"
  shows "\<exists>st'. next_token st = Some st' \<and> tok_type st' = 0 \<and> tok_vlen st' = 0"
proof -
  obtain st0 where "tok_vlen st0 = 0" "next_token st = Some (st0\<lparr>tok_type := 0\<rparr>)"
    using next_token_skips [of st ws "[]"] assms by auto
  then show ?thesis by simp
qed


subsection \<open>The specification: a text and what is printed for it\<close>

fun token_name :: "token \<Rightarrow> u8 list" where
  "token_name (Mark c) = (if c = 123 then bytes ''LBRACE'' else if c = 125 then bytes ''RBRACE'' else if c = 91 then bytes ''LBRACK''
     else if c = 93 then bytes ''RBRACK'' else if c = 58 then bytes ''COLON'' else bytes ''COMMA'')"
| "token_name (Text s) = bytes ''STRING''"
| "token_name (Number s) = bytes ''NUMBER''"
| "token_name (Word s) = (if s = bytes ''true'' then bytes ''TRUE'' else if s = bytes ''false'' then bytes ''FALSE'' else bytes ''NULL'')"
| "token_name (Other c) = bytes ''UNKNOWN''"

fun token_shown :: "token \<Rightarrow> u8 list" where
  "token_shown (Text s) = (if s = [] then [] else bytes ''  '' @ [34] @ s @ [34])"
| "token_shown (Number s) = bytes ''  '' @ s"
| "token_shown t = []"

fun json_source :: "(u8 list \<times> token) list \<Rightarrow> u8 list \<Rightarrow> u8 list" where
  "json_source [] e = e"
| "json_source ((ws, t) # xs) e = ws @ token_text t @ json_source xs e"

fun json_source_ok :: "(u8 list \<times> token) list \<Rightarrow> u8 list \<Rightarrow> bool" where
  "json_source_ok [] e \<longleftrightarrow> list_all json_ws e"
| "json_source_ok ((ws, t) # xs) e \<longleftrightarrow> list_all json_ws ws \<and> token_ok t \<and> token_end t (json_source xs e) \<and> json_source_ok xs e"

fun token_prints :: "nat \<Rightarrow> (u8 list \<times> token) list \<Rightarrow> u8 list" where
  "token_prints k [] = bytes ''  '' @ print_int (of_nat k) @ bytes ''  END'' @ [10]"
| "token_prints k ((ws, t) # xs) =
     bytes ''  '' @ print_int (of_nat k) @ bytes ''  '' @ token_name t @ token_shown t @ [10] @ token_prints (k + 1) xs"

lemma token_name_code: "token_ok t \<Longrightarrow> print_type (token_code t) = token_name t"
  by (cases t) (auto simp: print_type_def init_names_def print_str_def mark_bytes_def)

lemma token_line_prints:
  assumes "token_ok t" "holds_token t r st st'"
  shows "token_line k st' = bytes ''  '' @ print_int (of_nat k) @ bytes ''  '' @ token_name t @ token_shown t @ [10]"
  using assms token_name_code [OF assms(1)] by (cases t) (simp_all add: token_line_def holds_token_def)

lemma token_code_pos: "token_code t \<noteq> 0"
  by (cases t) simp_all

lemma token_loop_prints:
  "json_ok st \<Longrightarrow> left_over st = json_source xs e \<Longrightarrow> json_source_ok xs e \<Longrightarrow> k + length xs \<le> 200 \<Longrightarrow>
     token_loop k st = Some (k + length xs + 1, token_prints k xs)"
proof (induction xs arbitrary: k st)
  case Nil
  then obtain st' where "next_token st = Some st'" "tok_type st' = 0" "tok_vlen st' = 0"
    using next_token_end [of st e] by (auto simp: list_all_iff)
  then show ?case by (simp add: token_loop.simps [of k st] token_line_def print_type_def init_names_def print_str_def)
next
  case (Cons x xs)
  obtain ws t where x: "x = (ws, t)" by (cases x)
  then obtain st' where st': "next_token st = Some st'" "holds_token t (json_source xs e) st st'"
    using next_token_reads [of st ws t "json_source xs e"] Cons.prems by (auto simp: list_all_iff)
  have "token_loop (k + 1) st' = Some (k + 1 + length xs + 1, token_prints (k + 1) xs)"
    using Cons.IH [of st' "k + 1"] Cons.prems st'(2) x by (simp add: holds_token_def)
  moreover have "tok_type st' \<noteq> 0" using st'(2) token_code_pos by (simp add: holds_token_def)
  ultimately show ?case
    using st'(1) token_line_prints [OF _ st'(2), of k] Cons.prems x by (simp add: token_loop.simps [of k st])
qed

lemma fill_json_fills:
  assumes "length s < 512" "0 \<notin> set s"
  shows "\<exists>b. fill_json s json_start = Some (json_start\<lparr>json_buf := b, json_len := length s\<rparr>) \<and> length b = 512 \<and>
    take (length s) b = s \<and> print_str b = s"
proof -
  obtain b where b: "arr_puts (json_buf json_start) 0 (s @ [0]) = Some b" "length b = 512" "take (Suc (length s)) b = s @ [0]"
    using arr_puts_ok [of 0 "s @ [0]" "json_buf json_start"] assms(1) by (auto simp: json_start_def)
  have "take (length s) b = take (length s) (take (Suc (length s)) b)" "b ! length s = take (Suc (length s)) b ! length s"
    by (simp_all add: min_def)
  then have t: "take (length s) b = s" "b ! length s = 0" unfolding b(3) by simp_all
  then have "print_str b = s" using print_str_take [of s b] assms b(2) by simp
  then show ?thesis using b t(1) by (intro exI [of _ b]) (simp add: fill_json_def)
qed



text \<open>The tokens of the program's own text.\<close>

definition json_tokens :: "token list" where
  "json_tokens = [Mark 123, Text (bytes ''os''), Mark 58, Text (bytes ''Mellivora''), Mark 44, Text (bytes ''ver''), Mark 58,
     Number (bytes ''12''), Mark 44, Text (bytes ''bits''), Mark 58, Number (bytes ''32''), Mark 44, Text (bytes ''ok''), Mark 58,
     Word (bytes ''true''), Mark 44, Text (bytes ''list''), Mark 58, Mark 91, Number (bytes ''1''), Mark 44, Number (bytes ''2''),
     Mark 44, Number (bytes ''3''), Mark 93, Mark 125]"



section \<open>Any text\<close>

text \<open>A result of a loop that started at \<^term>\<open>p\<close>: the position is still inside and the array has room for the NUL.\<close>

definition loop_ok :: "nat \<Rightarrow> nat \<Rightarrow> (nat \<times> nat \<times> u8 list) option \<Rightarrow> bool" where
  "loop_ok n p r \<longleftrightarrow> (case r of None \<Rightarrow> False | Some (p', i', v') \<Rightarrow> p \<le> p' \<and> p' \<le> n \<and> i' \<le> 127 \<and> length v' = 128)"

lemma loop_ok_later: "loop_ok n q r \<Longrightarrow> p \<le> q \<Longrightarrow> loop_ok n p r"
  by (auto simp: loop_ok_def split: option.splits)

lemma json_string_ok:
  "n \<le> length b \<Longrightarrow> p \<le> n \<Longrightarrow> i < 126 \<Longrightarrow> length v = 128 \<Longrightarrow> loop_ok n p (json_string b n p i v)"
proof (induction b n p i v rule: json_string.induct)
  case (1 b n p i v)
  show ?case
  proof (cases "p < n")
    case True
    then have c: "arr_get b p = Some (b ! p)" using 1(3) by (simp add: arr_get_def)
    show ?thesis
    proof (cases "b ! p = 34 \<or> b ! p = 92 \<and> p + 1 < n")
      case False
      have "arr_put v i (b ! p) = Some (v[i := b ! p])" using 1(5,6) by (simp add: arr_put_def)
      then show ?thesis
        using 1(2) [OF True c] False True c 1(3,5,6) loop_ok_later [of n "p + 1" _ p]
        by (auto simp: json_string.simps [of b n p i v] loop_ok_def)
    next
      case q: True
      show ?thesis
      proof (cases "b ! p = 34")
        case False
        then have d: "arr_get b (p + 1) = Some (b ! (p + 1))" "b ! p = 92" "p + 1 < n" using q 1(3) by (simp_all add: arr_get_def)
        have a: "arr_puts v i [92, b ! (p + 1)] = Some (v[i := 92, i + 1 := b ! (p + 1)])" using 1(5,6) by (simp add: arr_put_def)
        have "json_string b n p i v = (if i + 2 \<ge> 126 then Some (p + 2, i + 2, v[i := 92, i + 1 := b ! (p + 1)])
            else json_string b n (p + 2) (i + 2) (v[i := 92, i + 1 := b ! (p + 1)]))"
          using True c d a by (simp add: json_string.simps [of b n p i v] del: arr_puts.simps)
        then show ?thesis
          using 1(1) [OF True c False _ d(1) a] d 1(3,5,6) loop_ok_later [of n "p + 2" _ p] by (auto simp: loop_ok_def)
      qed (use True c 1(5,6) in \<open>simp add: json_string.simps [of b n p i v] loop_ok_def\<close>)
    qed
  qed (use 1(4-6) in \<open>auto simp: json_string.simps loop_ok_def\<close>)
qed


text \<open>One step of the number loop: it stops where it is, or takes one or two bytes and stops or goes on.\<close>

lemma json_number_step:
  assumes "n \<le> length b" "p \<le> n" "i < 126" "length v = 128"
  obtains "json_number b n p i v = Some (p, i, v)" "p < n \<longrightarrow> \<not> num_char (b ! p)"
  | k v' where "k = 1 \<or> k = 2" "p + k \<le> n" "length v' = 128" "num_char (b ! p)"
      "json_number b n p i v = (if i + k \<ge> 126 then Some (p + k, i + k, v') else json_number b n (p + k) (i + k) v')"
proof (cases "p < n \<and> num_char (b ! p)")
  case False
  then have "json_number b n p i v = Some (p, i, v)"
    using assms by (auto simp: json_number.simps [of b n p i v] arr_get_def num_char_def)
  then show thesis using that(1) False by blast
next
  case True
  then have d: "drop p (take n b) = b ! p # drop (Suc p) (take n b)" using assms(1) by (simp add: Cons_nth_drop_Suc [symmetric])
  have put: "arr_put v i (b ! p) = Some (v[i := b ! p])" using assms(3,4) by (simp add: arr_put_def)
  show thesis
  proof (cases "Suc p < n \<and> (b ! p = 101 \<or> b ! p = 69) \<and> (b ! Suc p = 43 \<or> b ! Suc p = 45)")
    case t: True
    then have "drop p (take n b) = b ! p # b ! Suc p # drop (Suc (Suc p)) (take n b)"
      using d assms(1) by (simp add: Cons_nth_drop_Suc [symmetric])
    moreover have "arr_puts v i [b ! p, b ! Suc p] = Some (v[i := b ! p, i + 1 := b ! Suc p])" using assms(3,4) by (simp add: arr_put_def)
    ultimately show thesis
      using json_number_signed [OF assms(1)] t True assms(4) by (intro that(2) [of 2 "v[i := b ! p, i + 1 := b ! Suc p]"]) auto
  next
    case f: False
    have "\<not> (json_digit (b ! p) \<or> b ! p = 46) \<longrightarrow> (case drop (Suc p) (take n b) of [] \<Rightarrow> True | d # _ \<Rightarrow> d \<noteq> 43 \<and> d \<noteq> 45)"
    proof (cases "Suc p < n")
      case True
      then have "drop (Suc p) (take n b) = b ! Suc p # drop (Suc (Suc p)) (take n b)" using assms(1) by (simp add: Cons_nth_drop_Suc [symmetric])
      then show ?thesis using f True \<open>p < n \<and> num_char (b ! p)\<close> by (auto simp: num_char_def)
    qed simp
    then show thesis
      using json_number_one [OF assms(1) d put] True assms(4) by (intro that(2) [of 1 "v[i := b ! p]"]) auto
  qed
qed

lemma json_number_ok:
  "n \<le> length b \<Longrightarrow> p \<le> n \<Longrightarrow> i < 126 \<Longrightarrow> length v = 128 \<Longrightarrow>
     loop_ok n (if p < n \<and> num_char (b ! p) then Suc p else p) (json_number b n p i v)"
proof (induction "n - p" arbitrary: p i v rule: less_induct)
  case less
  show ?case
  proof (rule json_number_step [OF less.prems])
    assume "json_number b n p i v = Some (p, i, v)" "p < n \<longrightarrow> \<not> num_char (b ! p)"
    then show ?thesis using less.prems by (auto simp: loop_ok_def)
  next
    fix k v'
    assume k: "k = 1 \<or> k = 2" "p + k \<le> n" "length v' = 128" "num_char (b ! p)"
      "json_number b n p i v = (if i + k \<ge> 126 then Some (p + k, i + k, v') else json_number b n (p + k) (i + k) v')"
    show ?thesis
    proof (cases "i + k \<ge> 126")
      case True
      then show ?thesis using k less.prems(3) by (auto simp: loop_ok_def)
    next
      case False
      have "loop_ok n (Suc p) (json_number b n (p + k) (i + k) v')"
        by (rule loop_ok_later [OF less.hyps [of "p + k" "i + k" v']]) (use less.prems k False in auto)
      then show ?thesis using k(5) False loop_ok_later by auto
    qed
  qed
qed

text \<open>What every token leaves behind.\<close>

definition token_safe :: "json \<Rightarrow> json option \<Rightarrow> bool" where
  "token_safe st r \<longleftrightarrow> (case r of None \<Rightarrow> False | Some st' \<Rightarrow> json_ok st' \<and> json_buf st' = json_buf st \<and> json_len st' = json_len st \<and>
     0 \<in> set (tok_val st') \<and> tok_vlen st' \<le> 127 \<and> pos st < pos st')"

lemma fixed_token_safe:
  assumes "json_ok st" "length s \<le> 5" "pos st + length s \<le> json_len st" "s \<noteq> []" "tok_vlen st = 0" 
  shows "token_safe st (fixed_token ty s (st\<lparr>pos := pos st + length s\<rparr>))"
proof -
  obtain v where v: "arr_puts (tok_val st) 0 (s @ [0]) = Some v" "length v = 128" "take (Suc (length s)) v = s @ [0]"
    using arr_puts_ok [of 0 "s @ [0]" "tok_val st"] assms(1,2) by (auto simp: json_ok_def)
  have "0 \<in> set (take (Suc (length s)) v)" unfolding v(3) by simp
  then have "0 \<in> set v" by (rule in_set_takeD)
  then show ?thesis using v assms by (auto simp: token_safe_def fixed_token_def json_ok_def)
qed

lemma NUL_stored: "i \<le> 127 \<Longrightarrow> length v = 128 \<Longrightarrow> 0 \<in> set (v[i := (0 :: u8)])"
  by (rule set_update_memI) simp

lemma long_token_safe:
  assumes "json_ok st" "loop_ok (json_len st) (Suc (pos st)) r"
  shows "token_safe st (Option.bind r (\<lambda>r. long_token ty r st))"
  using assms by (auto simp: token_safe_def long_token_def json_ok_def arr_put_def loop_ok_def NUL_stored split: option.splits)

lemma string_token_safe:
  assumes "json_ok st" "pos st < json_len st"
  shows "token_safe st (string_token st)"
proof -
  let ?r = "json_string (json_buf st) (json_len st) (pos st + 1) 0 (tok_val st)"
  have r: "loop_ok (json_len st) (Suc (pos st)) ?r"
    using json_string_ok [of "json_len st" "json_buf st" "Suc (pos st)" 0 "tok_val st"] assms by (simp add: json_ok_def)
  define skip where "skip = (\<lambda>(p, i, v). (if p < json_len st then p + 1 else p, i :: nat, v :: u8 list))"
  have "loop_ok (json_len st) (Suc (pos st)) (map_option skip ?r)"
    using r by (auto simp: loop_ok_def skip_def split: option.splits)
  moreover have "string_token st = Option.bind (map_option skip ?r) (\<lambda>r. long_token 7 r st)"
    by (cases ?r) (auto simp: string_token_def skip_def)
  ultimately show ?thesis using long_token_safe [OF assms(1)] by simp
qed

lemma number_token_safe:
  assumes "json_ok st" "pos st < json_len st" "c = 45 \<or> json_digit c" "json_buf st ! pos st = c"
  shows "token_safe st (number_token c st)"
proof -
  have n: "json_len st \<le> length (json_buf st)" "length (tok_val st) = 128" using assms(1) by (simp_all add: json_ok_def)
  show ?thesis
  proof (cases "c = 45")
    case True
    then have "loop_ok (json_len st) (Suc (pos st)) (json_number (json_buf st) (json_len st) (Suc (pos st)) 1 ((tok_val st)[0 := c]))"
      by (intro loop_ok_later [OF json_number_ok [OF n(1)]]) (use n(2) assms(2) in auto)
    moreover have "number_token c st = Option.bind (json_number (json_buf st) (json_len st) (Suc (pos st)) 1 ((tok_val st)[0 := c])) (\<lambda>r. long_token 8 r st)"
      using True n(2) by (simp add: number_token_def arr_put_def)
    ultimately show ?thesis using long_token_safe [OF assms(1)] by simp
  next
    case False
    then have "loop_ok (json_len st) (Suc (pos st)) (json_number (json_buf st) (json_len st) (pos st) 0 (tok_val st))"
      using json_number_ok [OF n(1), of "pos st" 0 "tok_val st"] n(2) assms by (simp add: num_char_def)
    moreover have "number_token c st = Option.bind (json_number (json_buf st) (json_len st) (pos st) 0 (tok_val st)) (\<lambda>r. long_token 8 r st)"
      using False by (simp add: number_token_def)
    ultimately show ?thesis using long_token_safe [OF assms(1)] by simp
  qed
qed

lemma word_token_safe:
  assumes "json_ok st" "pos st < json_len st" "tok_vlen st = 0" "length s \<le> 5" "s \<noteq> []"
  shows "token_safe st (word_token c ty s st)"
proof -
  have n: "json_len st \<le> length (json_buf st)" "pos st \<le> json_len st" using assms(1) by (simp_all add: json_ok_def)
  have "token_safe st (unknown_token c st)"
    using fixed_token_safe [OF assms(1), of "[c]" 255] assms(2,3) by (simp add: unknown_token_def)
  moreover have "token_safe st (fixed_token ty s (st\<lparr>pos := pos st + length s\<rparr>))"
    if "take (length s) (drop (pos st) (take (json_len st) (json_buf st))) = s"
  proof (rule fixed_token_safe [OF assms(1,4) _ assms(5,3)])
    from that have "length s \<le> length (drop (pos st) (take (json_len st) (json_buf st)))" by (metis length_take min.cobounded1)
    then show "pos st + length s \<le> json_len st" using n by simp
  qed
  ultimately show ?thesis
    using lit_loop_match [OF n, of s] by (simp add: word_token_def match_lit_def)
qed

lemma token_at_safe:
  assumes "json_ok st" "pos st < json_len st" "tok_vlen st = 0" "json_buf st ! pos st = c"
  shows "token_safe st (token_at c st)"
proof -
  have f: "token_safe st (fixed_token ty [c] (st\<lparr>pos := pos st + 1\<rparr>))" for ty
    using fixed_token_safe [OF assms(1), of "[c]" ty] assms(2,3) by simp
  have w: "token_safe st (word_token c 9 (bytes ''true'') st)" "token_safe st (word_token c 10 (bytes ''false'') st)"
    "token_safe st (word_token c 11 (bytes ''null'') st)"
    using word_token_safe [OF assms(1-3)] by simp_all
  have u: "token_safe st (unknown_token c st)" using f by (simp add: unknown_token_def)
  show ?thesis
    unfolding token_at_def using f w u string_token_safe [OF assms(1,2)] number_token_safe [OF assms(1,2) _ assms(4)]
    by (simp only: split: if_split) blast
qed

lemma next_token_inside:
  assumes "json_ok st"
  shows "\<exists>st'. next_token st = Some st' \<and> json_ok st' \<and> json_buf st' = json_buf st \<and> json_len st' = json_len st \<and>
    0 \<in> set (tok_val st') \<and> tok_vlen st' \<le> 127 \<and>
    (pos st < pos st' \<or> tok_type st' = 0 \<and> pos st' = json_len st)"
proof -
  define ws where "ws = takeWhile json_ws (left_over st)"
  define r where "r = dropWhile json_ws (left_over st)"
  have l: "left_over st = ws @ r" by (simp add: ws_def r_def)
  have w: "\<forall>c \<in> set ws. json_ws c" by (auto simp: ws_def dest: set_takeWhileD)
  have h: "r = [] \<or> \<not> json_ws (hd r)" unfolding r_def using hd_dropWhile by blast
  obtain st0 where st0: "json_ok st0" "left_over st0 = r" "tok_vlen st0 = 0" "tok_val st0 ! 0 = 0"
      "json_buf st0 = json_buf st" "json_len st0 = json_len st"
      "next_token st = (if r = [] then Some (st0\<lparr>tok_type := 0\<rparr>) else token_at (hd r) st0)"
    by (rule next_token_skips [OF assms l w h])
  have n: "json_len st \<le> length (json_buf st)" "pos st0 \<le> json_len st" "length (tok_val st0) = 128" using st0(1,5,6) by (simp_all add: json_ok_def)
  show ?thesis
  proof (cases r)
    case Nil
    then have "pos st0 = json_len st" using st0(2,5,6) n left_Nil [OF n(1), of "pos st0"] by (simp add: left_over_def)
    moreover have "0 \<in> set (tok_val st0)" using nth_mem [of 0 "tok_val st0"] n(3) st0(4) by simp
    ultimately show ?thesis using st0 Nil by (simp add: json_ok_def)
  next
    case (Cons c r')
    have "pos st0 < json_len st0 \<and> json_buf st0 ! pos st0 = c"
      using left_Cons [OF n(1), of "pos st0" c r'] st0(2,5,6) Cons by (simp add: left_over_def arr_get_def split: if_splits)
    then have "token_safe st0 (token_at c st0)" using token_at_safe st0(1,3) by blast
    moreover have "pos st \<le> pos st0"
      using arg_cong [OF l, of length] arg_cong [OF st0(2), of length] st0(5,6) assms n by (auto simp: left_over_def json_ok_def)
    ultimately show ?thesis
      using st0(5-7) Cons by (auto simp: token_safe_def split: option.splits)
  qed
qed

lemma token_loop_returns:
  "json_ok st \<Longrightarrow> k \<le> 200 \<Longrightarrow> \<exists>t out. token_loop k st = Some (t, out) \<and> k < t \<and> t \<le> 201"
proof (induction "201 - k" arbitrary: k st rule: less_induct)
  case less
  obtain st' where st': "next_token st = Some st'" "json_ok st'" using next_token_inside [OF less.prems(1)] by blast
  show ?case
  proof (cases "tok_type st' = 0 \<or> k + 1 > 200")
    case True
    then show ?thesis using st' less.prems by (simp add: token_loop.simps [of k st])
  next
    case False
    then obtain t out where "token_loop (k + 1) st' = Some (t, out)" "k < t" "t \<le> 201"
      using less.hyps [of "k + 1" st'] st'(2) by fastforce
    then show ?thesis using False st'(1) by (simp add: token_loop.simps [of k st])
  qed
qed

text \<open>C36: Any bytes: from every state inside its buffer, \<^verbatim>\<open>next_token\<close> reads and writes only inside the arrays, leaves
  a state inside its buffer with a NUL in \<^verbatim>\<open>tok_val\<close> and at most 127 bytes counted before it, and either
  takes at least one byte or is at the end, and then says so. The loop of the program ends after 1 to 201
  tokens.\<close>

theorem json_tokenizer_safe:
  assumes "json_ok st"
  shows "(\<exists>st'. next_token st = Some st' \<and> json_ok st' \<and> json_buf st' = json_buf st \<and> json_len st' = json_len st \<and>
      0 \<in> set (tok_val st') \<and> tok_vlen st' \<le> 127 \<and> (pos st < pos st' \<or> tok_type st' = 0 \<and> pos st' = json_len st)) \<and>
    (\<exists>t out. token_loop 0 st = Some (t, out) \<and> 0 < t \<and> t \<le> 201)"
  using next_token_inside [OF assms] token_loop_returns [OF assms, of 0] by simp

text \<open>It is applied to a full buffer of quotes, a text with no end of its strings.\<close>

theorem json_tokenizer_safe_witness:
  "let st = json_start\<lparr>json_buf := replicate 512 34, json_len := 512\<rparr> in
     json_ok st \<and> (\<exists>st'. next_token st = Some st' \<and> json_ok st' \<and> 0 \<in> set (tok_val st')) \<and> (\<exists>r. token_loop 0 st = Some r)"
proof -
  have ok: "json_ok (json_start\<lparr>json_buf := replicate 512 34, json_len := 512\<rparr>)" by (simp add: json_ok_def json_start_def)
  then show ?thesis using json_tokenizer_safe [OF ok] unfolding Let_def by blast
qed

text \<open>A string that is cut at 126 bytes: the byte behind the cut is taken for the closing quote and lost, and the rest
  of the string is read as tokens of its own.\<close>

lemma json_string_cut_loses_byte:
  "let st = json_start\<lparr>json_buf := 34 # replicate 126 97 @ [98, 34] @ replicate 383 0, json_len := 129\<rparr> in
     map_option (\<lambda>st. (tok_type st, tok_vlen st, left_over st)) (next_token st) = Some (7, 126, [34])"
  by code_simp


section \<open>Numbers\<close>

definition decimal_value :: "u8 list \<Rightarrow> nat" where
  "decimal_value s = foldl (\<lambda>n d. 10 * n + (unat d - 48)) 0 s"

lemma digit_loop_value: "decimal_value (rev (digit_loop n)) = n"
proof (induction n rule: digit_loop.induct)
  case (1 n)
  show ?case
  proof (cases "n = 0")
    case False
    have "n - n div 10 * 10 = n mod 10" by (metis minus_div_mult_eq_mod)
    moreover have "unat (of_nat (n mod 10 + 48) :: u8) = n mod 10 + 48" using mod_less_divisor [of 10 n] by (simp add: unsigned_of_nat take_bit_nat_eq_self del: of_nat_add)
    ultimately show ?thesis
      using 1 [OF False] False by (simp add: digit_loop.simps [of n] decimal_value_def)
  qed (simp add: digit_loop.simps decimal_value_def)
qed

lemma digit_loop_length: "n < 10 ^ k \<Longrightarrow> length (digit_loop n) \<le> k"
proof (induction k arbitrary: n)
  case (Suc k)
  then have "n div 10 < 10 ^ k" by (simp add: less_mult_imp_div_less mult.commute)
  then show ?case using Suc.IH by (simp add: digit_loop.simps [of n])
qed (simp add: digit_loop.simps)

text \<open>\<^verbatim>\<open>print_int\<close> on a number that is not negative: at most ten digits, fewer than \<^verbatim>\<open>d_buf\<close> holds, and they read
  back as the number.\<close>

lemma print_int_reads_back:
  assumes "n < 2 ^ 31"
  shows "decimal_value (print_int (of_nat n)) = n" "length (print_int (of_nat n)) \<le> 10"
proof -
  have u: "unat (of_nat n :: u32) = n" using assms by (intro unat_of_nat_u32) simp
  have s: "sint (of_nat n :: u32) = int n"
    using assms by (simp add: signed_of_nat signed_take_bit_int_eq_self)
  have z: "(of_nat n :: u32) = 0 \<longleftrightarrow> n = 0"
  proof
    assume "(of_nat n :: u32) = 0"
    then show "n = 0" using u by (simp only: unsigned_0)
  qed simp
  show "decimal_value (print_int (of_nat n)) = n"
    by (cases "n = 0") (simp_all add: print_int_def s z u digit_loop_value, simp add: decimal_value_def)
  have "n < 10 ^ 10" using assms by simp
  then show "length (print_int (of_nat n)) \<le> 10"
    using digit_loop_length [of n 10] by (simp add: print_int_def s z u)
qed

end
