(* ===== verification/Mv_Sample_Echo.thy ===== *)
theory Mv_Sample_Echo
  imports Mv_Json
begin

text \<open>
  \<^verbatim>\<open>samples/echo_server.c\<close>: a server that sends back what it receives. The system calls belong to the kernel: what they
  return is a list of answers, one for each call whose result the program uses, with the bytes that
  \<^verbatim>\<open>SYS_RECV\<close> stores; what the program asks for is the list of events. A server that has no answer left waits.
  A store behind the end of an array sets \<open>fault\<close>.
\<close>

section \<open>The program\<close>

datatype event = Print "u8 list" | Socket int | Bind int int | Listen int | Accept int | Recv int nat | Send int "u8 list" | Sockclose int

record server =
  answers :: "(int \<times> u8 list) list"
  events :: "event list"
  server_fd :: int
  client_fd :: int
  recv_buf :: "u8 list"
  msg_buf :: "u8 list"
  fault :: bool

definition emit :: "event \<Rightarrow> server \<Rightarrow> server" where
  "emit e st = st\<lparr>events := events st @ [e]\<rparr>"

definition sys_print :: "u8 list \<Rightarrow> server \<Rightarrow> server" where
  "sys_print s st = emit (Print (print_str s)) st"

definition say :: "string \<Rightarrow> server \<Rightarrow> server" where
  "say s st = sys_print (bytes ''echo_server: '' @ bytes s @ [10, 0]) st"

definition sys_send :: "int \<Rightarrow> u8 list \<Rightarrow> server \<Rightarrow> server" where
  "sys_send fd s st = emit (Send fd s) st"

definition sys_sockclose :: "int \<Rightarrow> server \<Rightarrow> server" where
  "sys_sockclose fd st = emit (Sockclose fd) st"

text \<open>A call that is answered: the result, the bytes and the state.\<close>

definition ask :: "event \<Rightarrow> server \<Rightarrow> (int \<times> u8 list \<times> server) option" where
  "ask e st = (case answers st of [] \<Rightarrow> None | (v, d) # r \<Rightarrow> Some (v, d, emit e (st\<lparr>answers := r\<rparr>)))"

definition sys_socket :: "int \<Rightarrow> server \<Rightarrow> (int \<times> server) option" where
  "sys_socket ty st = map_option (\<lambda>(v, d, st). (v, st)) (ask (Socket ty) st)"

definition sys_bind :: "int \<Rightarrow> int \<Rightarrow> server \<Rightarrow> (int \<times> server) option" where
  "sys_bind fd port st = map_option (\<lambda>(v, d, st). (v, st)) (ask (Bind fd port) st)"

definition sys_listen :: "int \<Rightarrow> server \<Rightarrow> (int \<times> server) option" where
  "sys_listen fd st = map_option (\<lambda>(v, d, st). (v, st)) (ask (Listen fd) st)"

definition sys_accept :: "int \<Rightarrow> server \<Rightarrow> (int \<times> server) option" where
  "sys_accept fd st = map_option (\<lambda>(v, d, st). (v, st)) (ask (Accept fd) st)"

definition sys_recv :: "int \<Rightarrow> nat \<Rightarrow> server \<Rightarrow> (int \<times> server) option" where
  "sys_recv fd maxlen st =
     map_option (\<lambda>(v, d, st). (v, st\<lparr>recv_buf := d @ drop (length d) (recv_buf st)\<rparr>)) (ask (Recv fd maxlen) st)"

definition print_int_nl :: "u8 list \<Rightarrow> u32 \<Rightarrow> server \<Rightarrow> server" where
  "print_int_nl prefix v st =
     (case arr_puts (msg_buf st) 0 (print_str prefix @ print_int v @ [10, 0]) of
        None \<Rightarrow> st\<lparr>fault := True\<rparr>
      | Some m \<Rightarrow> sys_print m (st\<lparr>msg_buf := m\<rparr>))"

definition only_newline :: "u8 list \<Rightarrow> bool" where
  "only_newline s \<longleftrightarrow> list_all (\<lambda>c. c = 10 \<or> c = 13) s"

text \<open>The session: it returns whether it ended; otherwise the server waits in \<^verbatim>\<open>SYS_RECV\<close>.\<close>

function recv_loop :: "server \<Rightarrow> bool \<times> server" where
  "recv_loop st =
     (case sys_recv (client_fd st) 511 st of
        None \<Rightarrow> (False, st)
      | Some (got, st) \<Rightarrow>
          if got \<le> 0 then (True, st)
          else let st = (if nat got < length (recv_buf st) then st\<lparr>recv_buf := (recv_buf st)[nat got := 0]\<rparr> else st\<lparr>fault := True\<rparr>);
                   s = take (nat got) (recv_buf st);
                   st = sys_send (client_fd st) s st
               in if only_newline s then (True, st) else recv_loop st)"
  by auto
termination
  by (relation "measure (\<lambda>st. length (answers st))")
    (auto simp: sys_recv_def ask_def emit_def sys_send_def Let_def split: list.splits)

definition handle_client :: "server \<Rightarrow> bool \<times> server" where
  "handle_client st =
     (case recv_loop (say ''client connected'' st) of
        (ended, st) \<Rightarrow> if ended then (True, say ''client disconnected'' (sys_sockclose (client_fd st) st)) else (False, st))"

declare recv_loop.simps [simp del]

text \<open>What the code does with a chunk: it stores the NUL and sends the chunk back.\<close>

definition echo_chunk :: "int \<Rightarrow> server \<Rightarrow> u8 list \<times> server" where
  "echo_chunk got st =
     (let st = (if nat got < length (recv_buf st) then st\<lparr>recv_buf := (recv_buf st)[nat got := 0]\<rparr> else st\<lparr>fault := True\<rparr>);
          s = take (nat got) (recv_buf st)
      in (s, sys_send (client_fd st) s st))"

lemma recv_loop_step:
  "recv_loop st =
     (case sys_recv (client_fd st) 511 st of
        None \<Rightarrow> (False, st)
      | Some (got, st) \<Rightarrow>
          if got \<le> 0 then (True, st)
          else case echo_chunk got st of (s, st) \<Rightarrow> if only_newline s then (True, st) else recv_loop st)"
  unfolding recv_loop.simps [of st] by (cases "sys_recv (client_fd st) 511 st") (auto simp: echo_chunk_def Let_def)

lemma sys_recv_answers: "sys_recv fd n st = Some (got, k) \<Longrightarrow> length (answers k) < length (answers st)"
  by (auto simp: sys_recv_def ask_def emit_def split: list.splits)

lemma echo_chunk_answers: "answers (snd (echo_chunk got st)) = answers st"
  by (simp add: echo_chunk_def Let_def sys_send_def emit_def)

lemma recv_loop_answers: "length (answers (snd (recv_loop st))) \<le> length (answers st)"
proof (induction "length (answers st)" arbitrary: st rule: less_induct)
  case less
  show ?case
  proof (cases "sys_recv (client_fd st) 511 st")
    case None
    then show ?thesis by (simp add: recv_loop_step [of st])
  next
    case (Some a)
    then obtain got k where a: "sys_recv (client_fd st) 511 st = Some (got, k)" by (cases a) simp
    obtain s m where m: "echo_chunk got k = (s, m)" by (cases "echo_chunk got k")
    have l: "length (answers k) < length (answers st)" "answers m = answers k"
      using sys_recv_answers [OF a] echo_chunk_answers [of got k] m by simp_all
    then have "length (answers (snd (recv_loop m))) \<le> length (answers m)" using less.hyps [of m] by simp
    then show ?thesis using a m l by (simp add: recv_loop_step [of st])
  qed
qed

lemma emit_simps [simp]:
  "answers (emit e st) = answers st" "events (emit e st) = events st @ [e]" "client_fd (emit e st) = client_fd st"
  "server_fd (emit e st) = server_fd st" "recv_buf (emit e st) = recv_buf st" "msg_buf (emit e st) = msg_buf st" "fault (emit e st) = fault st"
  by (simp_all add: emit_def)

lemma say_simps [simp]:
  "answers (say s st) = answers st" "client_fd (say s st) = client_fd st" "server_fd (say s st) = server_fd st"
  "recv_buf (say s st) = recv_buf st" "msg_buf (say s st) = msg_buf st" "fault (say s st) = fault st"
  by (simp_all add: say_def sys_print_def)

lemma handle_client_answers: "length (answers (snd (handle_client st))) \<le> length (answers st)"
proof -
  obtain ended k where k: "recv_loop (say ''client connected'' st) = (ended, k)" by (rule prod.exhaust)
  then show ?thesis using recv_loop_answers [of "say ''client connected'' st"] by (simp add: handle_client_def sys_sockclose_def)
qed

text \<open>The loop over clients has no end; it returns where the server waits for an answer.\<close>

function accept_loop :: "server \<Rightarrow> server" where
  "accept_loop st =
     (case sys_accept (server_fd st) st of
        None \<Rightarrow> st
      | Some (fd, st) \<Rightarrow>
          let st = st\<lparr>client_fd := fd\<rparr>
          in if fd < 0 then accept_loop (say ''accept() error, retrying'' st)
             else case handle_client st of (ended, st) \<Rightarrow> if ended then accept_loop st else st)"
  by auto
termination
proof (relation "measure (\<lambda>st. length (answers st))", goal_cases)
  case 1
  then show ?case by simp
next
  case (2 st a fd k)
  then show ?case by (auto simp: sys_accept_def ask_def split: list.splits)
next
  case (3 st a fd k b ended m)
  have "length (answers k) < length (answers st)" using 3 by (auto simp: sys_accept_def ask_def split: list.splits)
  moreover have "snd (handle_client (k\<lparr>client_fd := fd\<rparr>)) = m" using 3 by (auto simp: prod_eq_iff)
  then have "length (answers m) \<le> length (answers k)" using handle_client_answers [of "k\<lparr>client_fd := fd\<rparr>"] by simp
  ultimately show ?case by simp
qed

text \<open>\<^verbatim>\<open>main\<close> with its exit code, or None where it waits: from the port on, and the whole.\<close>

definition echo_serve :: "server \<Rightarrow> server \<times> int option" where
  "echo_serve st =
     (case sys_bind (server_fd st) 8080 st of
        None \<Rightarrow> (st, None)
      | Some (n, st) \<Rightarrow>
          if n < 0 then (sys_sockclose (server_fd st) (say ''bind() failed'' st), Some 1)
          else case sys_listen (server_fd st) st of
            None \<Rightarrow> (st, None)
          | Some (n, st) \<Rightarrow>
              if n < 0 then (sys_sockclose (server_fd st) (say ''listen() failed'' st), Some 1)
              else (accept_loop (say ''send an empty line to close a session.''
                (say ''listening -- connect with: chat 127.0.0.1 8080'' st)), None))"

definition echo_main :: "server \<Rightarrow> server \<times> int option" where
  "echo_main st =
     (let st = say ''starting on port 8080'' st
      in case sys_socket 1 st of
        None \<Rightarrow> (st, None)
      | Some (fd, st) \<Rightarrow>
          let st = st\<lparr>server_fd := fd\<rparr>
          in if fd < 0 then (say ''socket() failed'' st, Some 1)
             else echo_serve (print_int_nl (bytes ''echo_server: server_fd='' @ [0]) (word_of_int fd) st))"

definition echo_start :: "(int \<times> u8 list) list \<Rightarrow> server" where
  "echo_start a = \<lparr>answers = a, events = [], server_fd = 0, client_fd = 0, recv_buf = replicate 512 0, msg_buf = replicate 64 0, fault = False\<rparr>"

declare accept_loop.simps [simp del]


section \<open>What a client sees\<close>

definition chunk_ok :: "u8 list \<Rightarrow> bool" where
  "chunk_ok c \<longleftrightarrow> c \<noteq> [] \<and> length c \<le> 511"

text \<open>A session: the descriptor, the chunks that are not only newlines, and the last answer: no bytes, or a chunk of
  newlines.\<close>

type_synonym session = "int \<times> u8 list list \<times> int \<times> u8 list"

fun session_ok :: "session \<Rightarrow> bool" where
  "session_ok (fd, cs, v, e) \<longleftrightarrow> 0 \<le> fd \<and> list_all (\<lambda>c. chunk_ok c \<and> \<not> only_newline c) cs \<and>
     (v \<le> 0 \<and> length e \<le> 512 \<or> chunk_ok e \<and> only_newline e \<and> v = int (length e))"

fun session_answers :: "session \<Rightarrow> (int \<times> u8 list) list" where
  "session_answers (fd, cs, v, e) = (fd, []) # map (\<lambda>c. (int (length c), c)) cs @ [(v, e)]"

definition echoed :: "int \<Rightarrow> u8 list \<Rightarrow> event list" where
  "echoed fd c = [Recv fd 511, Send fd c]"

definition line_of :: "string \<Rightarrow> event" where
  "line_of s = Print (bytes ''echo_server: '' @ bytes s @ [10])"

fun session_events :: "int \<Rightarrow> session \<Rightarrow> event list" where
  "session_events sfd (fd, cs, v, e) =
     [Accept sfd, line_of ''client connected''] @ concat (map (echoed fd) cs) @
     (if v \<le> 0 then [Recv fd 511] else echoed fd e) @ [Sockclose fd, line_of ''client disconnected'']"

lemma say_line: "0 \<notin> set (bytes s) \<Longrightarrow> say s st = emit (line_of s) st"
proof -
  assume s: "0 \<notin> set (bytes s)"
  have "print_str ((bytes ''echo_server: '' @ bytes s @ [10]) @ 0 # []) = bytes ''echo_server: '' @ bytes s @ [10]"
    by (rule print_str_NUL) (use s in simp)
  then show ?thesis by (simp add: say_def sys_print_def line_of_def)
qed

text \<open>What stays as it is: no fault, and arrays of the right size.\<close>

definition sound :: "server \<Rightarrow> bool" where
  "sound st \<longleftrightarrow> \<not> fault st \<and> length (recv_buf st) = 512 \<and> length (msg_buf st) = 64"

lemma sys_recv_chunk:
  assumes "answers st = (v, c) # r" "sound st" "length c \<le> 512"
  shows "\<exists>k. sys_recv fd 511 st = Some (v, k) \<and> answers k = r \<and> events k = events st @ [Recv fd 511] \<and> sound k \<and>
    client_fd k = client_fd st \<and> server_fd k = server_fd st \<and> take (length c) (recv_buf k) = c"
  using assms by (simp add: sys_recv_def ask_def sound_def)

lemma echo_chunk_sends:
  assumes "sound st" "chunk_ok c" "take (length c) (recv_buf st) = c"
  shows "\<exists>k. echo_chunk (int (length c)) st = (c, k) \<and> answers k = answers st \<and> events k = events st @ [Send (client_fd st) c] \<and>
    sound k \<and> client_fd k = client_fd st \<and> server_fd k = server_fd st"
  using assms by (simp add: echo_chunk_def Let_def sys_send_def sound_def chunk_ok_def)

lemma recv_loop_echoes:
  "answers st = map (\<lambda>c. (int (length c), c)) cs @ (v, e) # r \<Longrightarrow> session_ok (fd, cs, v, e) \<Longrightarrow> sound st \<Longrightarrow> client_fd st = fd \<Longrightarrow>
     \<exists>k. recv_loop st = (True, k) \<and> answers k = r \<and> sound k \<and> client_fd k = fd \<and> server_fd k = server_fd st \<and>
       events k = events st @ concat (map (echoed fd) cs) @ (if v \<le> 0 then [Recv fd 511] else echoed fd e)"
proof (induction cs arbitrary: st)
  case Nil
  have "length e \<le> 512" using Nil.prems(2) by (auto simp: chunk_ok_def)
  then obtain k where k: "sys_recv fd 511 st = Some (v, k)" "answers k = r" "events k = events st @ [Recv fd 511]" "sound k"
      "client_fd k = fd" "server_fd k = server_fd st" "take (length e) (recv_buf k) = e"
    using sys_recv_chunk [of st v e r fd] Nil.prems by auto
  show ?case
  proof (cases "v \<le> 0")
    case True
    then show ?thesis using k Nil.prems(4) by (simp add: recv_loop_step [of st])
  next
    case False
    then have e: "chunk_ok e" "only_newline e" "v = int (length e)" using Nil.prems(2) by auto
    then obtain m where "echo_chunk v k = (e, m)" "answers m = r" "events m = events k @ [Send fd e]" "sound m" "client_fd m = fd" "server_fd m = server_fd st"
      using echo_chunk_sends [OF k(4) e(1) k(7)] k by auto
    then show ?thesis using k False e(2) Nil.prems(4) by (simp add: recv_loop_step [of st] echoed_def)
  qed
next
  case (Cons c cs)
  have c: "chunk_ok c" "\<not> only_newline c" using Cons.prems(2) by simp_all
  have "length c \<le> 512" using c(1) by (simp add: chunk_ok_def)
  then obtain k where k: "sys_recv fd 511 st = Some (int (length c), k)" "answers k = map (\<lambda>c. (int (length c), c)) cs @ (v, e) # r"
      "events k = events st @ [Recv fd 511]" "sound k" "client_fd k = fd" "server_fd k = server_fd st" "take (length c) (recv_buf k) = c"
    using sys_recv_chunk [of st "int (length c)" c _ fd] Cons.prems by auto
  obtain m where m: "echo_chunk (int (length c)) k = (c, m)" "answers m = answers k" "events m = events k @ [Send fd c]" "sound m" "client_fd m = fd"
      "server_fd m = server_fd st"
    using echo_chunk_sends [OF k(4) c(1) k(7)] k by auto
  have "\<not> int (length c) \<le> 0" using c(1) by (simp add: chunk_ok_def)
  then have "recv_loop st = recv_loop m" using k(1) m(1) c(2) Cons.prems(4) by (simp add: recv_loop_step [of st])
  then show ?case using Cons.IH [of m] Cons.prems(2) k m by (simp add: echoed_def)
qed

lemma handle_client_session:
  assumes "answers st = map (\<lambda>c. (int (length c), c)) cs @ (v, e) # r" "session_ok (fd, cs, v, e)" "sound st" "client_fd st = fd"
  shows "\<exists>k. handle_client st = (True, k) \<and> answers k = r \<and> sound k \<and> server_fd k = server_fd st \<and>
    events k = events st @ tl (session_events sfd (fd, cs, v, e))"
proof -
  have s: "0 \<notin> set (bytes ''client connected'')" "0 \<notin> set (bytes ''client disconnected'')" by simp_all
  have "sound (emit x st')" if "sound st'" for x st' using that by (simp add: sound_def)
  note em = this say_line [OF s(1)] say_line [OF s(2)]
  obtain k where k: "recv_loop (emit (line_of ''client connected'') st) = (True, k)" "answers k = r" "sound k" "client_fd k = fd"
      "server_fd k = server_fd st" "events k = events st @ [line_of ''client connected''] @ concat (map (echoed fd) cs) @
        (if v \<le> 0 then [Recv fd 511] else echoed fd e)"
    using recv_loop_echoes [of "emit (line_of ''client connected'') st" cs v e r fd] assms em(1) by auto
  show ?thesis using k em by (simp add: handle_client_def sys_sockclose_def)
qed

lemma accept_loop_sessions:
  "answers st = concat (map session_answers ss) \<Longrightarrow> list_all session_ok ss \<Longrightarrow> sound st \<Longrightarrow> server_fd st = sfd \<Longrightarrow>
     sound (accept_loop st) \<and> answers (accept_loop st) = [] \<and>
     events (accept_loop st) = events st @ concat (map (session_events sfd) ss)"
proof (induction ss arbitrary: st)
  case Nil
  then show ?case by (simp add: accept_loop.simps [of st] sys_accept_def ask_def)
next
  case (Cons x ss)
  obtain fd cs v e where x: "x = (fd, cs, v, e)" by (cases x)
  let ?r = "map (\<lambda>c. (int (length c), c)) cs @ (v, e) # concat (map session_answers ss)"
  let ?k = "(emit (Accept sfd) (st\<lparr>answers := ?r\<rparr>))\<lparr>client_fd := fd\<rparr>"
  have a: "sys_accept sfd st = Some (fd, emit (Accept sfd) (st\<lparr>answers := ?r\<rparr>))"
    using Cons.prems(1) x by (simp add: sys_accept_def ask_def)
  have ok: "session_ok (fd, cs, v, e)" "\<not> fd < 0" using Cons.prems(2) x by simp_all
  have "sound ?k" using Cons.prems(3) by (simp add: sound_def)
  then obtain m where m: "handle_client ?k = (True, m)" "answers m = concat (map session_answers ss)" "sound m" "server_fd m = sfd"
      "events m = events st @ [Accept sfd] @ tl (session_events sfd x)"
    using handle_client_session [of ?k cs v e _ fd sfd] ok(1) Cons.prems(4) x by auto
  have "accept_loop st = accept_loop m"
    using a m(1) ok(2) Cons.prems(4) by (simp add: accept_loop.simps [of st] Let_def)
  then show ?case using Cons.IH [of m] Cons.prems(2) m x by simp
qed

section \<open>The whole server\<close>

lemma digit_loop_bytes: "0 \<notin> set (digit_loop n)"
proof (induction n rule: digit_loop.induct)
  case (1 n)
  have "unat (of_nat (n mod 10 + 48) :: u8) = n mod 10 + 48"
    using mod_less_divisor [of 10 n] by (simp add: unsigned_of_nat take_bit_nat_eq_self del: of_nat_add)
  then have "(of_nat (n mod 10 + 48) :: u8) \<noteq> 0" by (metis add_is_0 unsigned_0 zero_neq_numeral)
  then show ?case using 1 by (simp add: digit_loop.simps [of n] minus_div_mult_eq_mod)
qed

lemma print_int_bytes: "0 \<notin> set (print_int v)"
  using digit_loop_bytes by (simp add: print_int_def split: prod.splits)

lemma print_int_nl_prints:
  assumes "sound st" "length p \<le> 40" "0 \<notin> set p" "length (print_int v) \<le> 10"
  shows "\<exists>m. print_int_nl (p @ [0]) v st = emit (Print (p @ print_int v @ [10])) (st\<lparr>msg_buf := m\<rparr>) \<and> length m = 64"
proof -
  let ?s = "p @ print_int v @ [10]"
  have p: "print_str (p @ [0]) = p" using print_str_NUL [OF assms(3), of "[]"] by simp
  have "0 + length (?s @ [0]) \<le> length (msg_buf st)" using assms by (simp add: sound_def)
  then obtain m where m: "arr_puts (msg_buf st) 0 (?s @ [0]) = Some m" "length m = 64" "take (length (?s @ [0])) m = ?s @ [0]"
    using arr_puts_ok [of 0 "?s @ [0]" "msg_buf st"] assms(1) by (auto simp: sound_def)
  have "m = take (length (?s @ [0])) m @ drop (length (?s @ [0])) m" by simp
  also have "\<dots> = ?s @ 0 # drop (length (?s @ [0])) m" unfolding m(3) by simp
  finally have e: "m = ?s @ 0 # drop (length (?s @ [0])) m" .
  have "0 \<notin> set ?s" using assms(3) print_int_bytes by simp
  then have "print_str m = ?s" by (subst e) (rule print_str_NUL)
  then show ?thesis using m p by (auto simp: print_int_nl_def sys_print_def)
qed

definition startup_events :: "int \<Rightarrow> event list" where
  "startup_events sfd =
     [line_of ''starting on port 8080'', Socket 1, Print (bytes ''echo_server: server_fd='' @ print_int (word_of_int sfd) @ [10]),
      Bind sfd 8080, Listen sfd, line_of ''listening -- connect with: chat 127.0.0.1 8080'', line_of ''send an empty line to close a session.'']"

lemma echo_serve_starts:
  assumes "answers st = [(0, []), (0, [])] @ r" "sound st"
  shows "\<exists>k. echo_serve st = (accept_loop k, None) \<and> answers k = r \<and> sound k \<and> server_fd k = server_fd st \<and>
    events k = events st @ [Bind (server_fd st) 8080, Listen (server_fd st), line_of ''listening -- connect with: chat 127.0.0.1 8080'',
      line_of ''send an empty line to close a session.'']"
proof -
  have l: "0 \<notin> set (bytes ''listening -- connect with: chat 127.0.0.1 8080'')" "0 \<notin> set (bytes ''send an empty line to close a session.'')"
    by simp_all
  note lines = say_line [OF l(1)] say_line [OF l(2)]
  let ?a = "emit (Bind (server_fd st) 8080) (st\<lparr>answers := (0, []) # r\<rparr>)"
  let ?b = "emit (Listen (server_fd st)) (?a\<lparr>answers := r\<rparr>)"
  have a: "sys_bind (server_fd st) 8080 st = Some (0, ?a)" "sys_listen (server_fd st) ?a = Some (0, ?b)"
    using assms(1) by (simp_all add: sys_bind_def sys_listen_def ask_def)
  let ?k = "emit (line_of ''send an empty line to close a session.'') (emit (line_of ''listening -- connect with: chat 127.0.0.1 8080'') ?b)"
  have "echo_serve st = (accept_loop ?k, None)" unfolding echo_serve_def lines using a by simp
  moreover have "answers ?k = r \<and> sound ?k \<and> server_fd ?k = server_fd st \<and>
    events ?k = events st @ [Bind (server_fd st) 8080, Listen (server_fd st), line_of ''listening -- connect with: chat 127.0.0.1 8080'',
      line_of ''send an empty line to close a session.'']" using assms(2) by (simp add: sound_def)
  ultimately show ?thesis by blast
qed

text \<open>C37: The sample server: when the socket, its port and the queue are granted, it serves any number of clients one
  after the other; each gets back every chunk that it sent, in order, up to an empty line or the end of
  its data, and is closed; the server never stores outside its arrays, and waits for the next client.\<close>

theorem echo_main_correct:
  assumes "0 \<le> sfd" "sfd < 2 ^ 31" "list_all session_ok ss"
  shows "\<exists>st. echo_main (echo_start ([(sfd, []), (0, []), (0, [])] @ concat (map session_answers ss))) = (st, None) \<and>
    \<not> fault st \<and> events st = startup_events sfd @ concat (map (session_events sfd) ss)"
proof -
  let ?r = "concat (map session_answers ss)"
  let ?i = "emit (line_of ''starting on port 8080'') (echo_start ([(sfd, []), (0, []), (0, [])] @ ?r))"
  define st0 where "st0 = (emit (Socket 1) (?i\<lparr>answers := [(0, []), (0, [])] @ ?r\<rparr>))\<lparr>server_fd := sfd\<rparr>"
  have s0: "sound st0" "server_fd st0 = sfd" "answers st0 = [(0, []), (0, [])] @ ?r"
      "events st0 = [line_of ''starting on port 8080'', Socket 1]"
    by (simp_all add: st0_def sound_def echo_start_def)
  have p: "length (print_int (word_of_int sfd)) \<le> 10"
    using print_int_reads_back(2) [of "nat sfd"] assms(1,2) by (simp add: nat_less_iff)
  have n: "length (bytes ''echo_server: server_fd='') \<le> 40" "0 \<notin> set (bytes ''echo_server: server_fd='')" by simp_all
  obtain m where m: "print_int_nl (bytes ''echo_server: server_fd='' @ [0]) (word_of_int sfd) st0 =
      emit (Print (bytes ''echo_server: server_fd='' @ print_int (word_of_int sfd) @ [10])) (st0\<lparr>msg_buf := m\<rparr>)" "length m = 64"
    using print_int_nl_prints [OF s0(1) n p] by blast
  let ?st = "emit (Print (bytes ''echo_server: server_fd='' @ print_int (word_of_int sfd) @ [10])) (st0\<lparr>msg_buf := m\<rparr>)"
  have s1: "answers ?st = [(0, []), (0, [])] @ ?r" "sound ?st" using s0 m(2) by (simp_all add: sound_def)
  obtain k where k: "echo_serve ?st = (accept_loop k, None)" "answers k = ?r" "sound k" "server_fd k = sfd" "events k = startup_events sfd"
    using echo_serve_starts [OF s1] s0(2,4) by (auto simp: startup_events_def simp del: bytes_Cons)
  have l: "0 \<notin> set (bytes ''starting on port 8080'')" by simp
  have "sys_socket 1 ?i = Some (sfd, emit (Socket 1) (?i\<lparr>answers := [(0, []), (0, [])] @ ?r\<rparr>))"
    by (simp add: sys_socket_def ask_def echo_start_def)
  then have "echo_main (echo_start ([(sfd, []), (0, []), (0, [])] @ ?r)) =
      echo_serve (print_int_nl (bytes ''echo_server: server_fd='' @ [0]) (word_of_int sfd) st0)"
    unfolding echo_main_def say_line [OF l] Let_def st0_def using assms(1) by (simp del: bytes_Cons)
  then have "echo_main (echo_start ([(sfd, []), (0, []), (0, [])] @ ?r)) = (accept_loop k, None)" unfolding m(1) k(1) .
  then show ?thesis using accept_loop_sessions [OF k(2) assms(3) k(3,4)] k(5) by (simp add: sound_def)
qed

theorem echo_main_correct_witness:
  "\<exists>st. echo_main (echo_start [(3, []), (0, []), (0, []), (4, []), (3, bytes ''hi'' @ [10]), (1, [10])]) = (st, None) \<and> \<not> fault st \<and>
     events st = startup_events 3 @ [Accept 3, line_of ''client connected'', Recv 4 511, Send 4 (bytes ''hi'' @ [10]), Recv 4 511, Send 4 [10],
       Sockclose 4, line_of ''client disconnected'']"
  using echo_main_correct [of 3 "[(4, [bytes ''hi'' @ [10]], 1, [10])]"]
  by (simp add: chunk_ok_def only_newline_def echoed_def)

end
