(* ===== verification/Mv_Sample_Screen.thy ===== *)
theory Mv_Sample_Screen
  imports Mv_Decimal
begin

text \<open>
  The samples that draw: \<^verbatim>\<open>samples/hello.c\<close>, \<^verbatim>\<open>samples/echo.c\<close>, \<^verbatim>\<open>samples/stars.c\<close>, \<^verbatim>\<open>samples/boxes.c\<close> and
  \<^verbatim>\<open>samples/matrix.c\<close>. What they give to \<^verbatim>\<open>putchar\<close> is a list of bytes. Rows and columns are small integers; the
  random numbers of the last program are words of 32 bits, which wrap, and its forty variables for the
  columns are a list.
\<close>

section \<open>Hello\<close>

definition hello_main :: "u8 list" where
  "hello_main = bytes ''Hello, World!'' @ [10]"

section \<open>Echo\<close>

text \<open>The input is what \<^verbatim>\<open>getchar\<close> will return; None is a program that waits for more.\<close>

fun echo_sample_loop :: "u8 list \<Rightarrow> u8 list option" where
  "echo_sample_loop [] = None"
| "echo_sample_loop (c # rest) = (if c \<noteq> 27 then map_option ((#) c) (echo_sample_loop rest) else Some [])"

definition echo_sample_main :: "u8 list \<Rightarrow> u8 list option" where
  "echo_sample_main inp = map_option (\<lambda>out. bytes ''Type text (ESC to quit):'' @ [10] @ out @ [10]) (echo_sample_loop inp)"

text \<open>The program shows what was typed before the first escape and ends, and waits as long as there is none.\<close>

lemma echo_sample_correct:
  "echo_sample_main inp =
     (if 27 \<in> set inp then Some (bytes ''Type text (ESC to quit):'' @ [10] @ takeWhile (\<lambda>c. c \<noteq> 27) inp @ [10]) else None)"
proof -
  have "echo_sample_loop inp = (if 27 \<in> set inp then Some (takeWhile (\<lambda>c. c \<noteq> 27) inp) else None)"
    by (induction inp) auto
  then show ?thesis by (simp add: echo_sample_main_def)
qed

section \<open>Stars\<close>

function repeat_loop :: "u8 \<Rightarrow> int \<Rightarrow> int \<Rightarrow> u8 list" where
  "repeat_loop b col n = (if col < n then b # repeat_loop b (col + 1) n else [])"
  by auto
termination by (relation "measure (\<lambda>(b, col, n). nat (n - col))") auto

function stars_rows :: "int \<Rightarrow> int \<Rightarrow> u8 list" where
  "stars_rows sz row =
     (if row \<le> sz
      then repeat_loop 32 0 (sz - row) @ repeat_loop 42 0 (row * 2 - 1) @ [10] @ stars_rows sz (row + 1)
      else [])"
  by auto
termination by (relation "measure (\<lambda>(sz, row). nat (sz + 1 - row))") auto

declare repeat_loop.simps [simp del] stars_rows.simps [simp del]

definition stars_main :: "u8 list" where
  "stars_main = stars_rows 15 1"

lemma repeat_loop_replicate: "repeat_loop b col n = replicate (nat (n - col)) b"
proof (induction b col n rule: repeat_loop.induct)
  case (1 b col n)
  show ?case
  proof (cases "col < n")
    case True
    then have "nat (n - col) = Suc (nat (n - (col + 1)))" by simp
    then show ?thesis using 1 [OF True] True by (simp add: repeat_loop.simps [of b col n])
  qed (simp add: repeat_loop.simps [of b col n])
qed

lemma stars_rows_lines:
  assumes "row \<le> Suc sz"
  shows "stars_rows (int sz) (int row) =
    concat (map (\<lambda>r. replicate (sz - r) 32 @ replicate (2 * r - 1) 42 @ [10]) [row..<Suc sz])"
  using assms
proof (induction "Suc sz - row" arbitrary: row)
  case 0
  then show ?case by (simp add: stars_rows.simps [of "int sz" "int row"])
next
  case (Suc d)
  then have "row \<le> sz" "d = Suc sz - Suc row" by simp_all
  moreover have "nat (int row * 2 - 1) = 2 * row - 1" "nat (int sz - int row) = sz - row" by simp_all
  moreover have "int (Suc row) = int row + 1" by simp
  ultimately show ?case
    using Suc.hyps(1) [of "Suc row", unfolded of_nat_Suc] upt_conv_Cons [of row "Suc sz"]
    by (simp add: stars_rows.simps [of "int sz" "int row"] repeat_loop_replicate add.commute del: upt_Suc)
qed

text \<open>The triangle: in line \<^term>\<open>r\<close> as many blanks as lines follow, and then \<^term>\<open>2 * r - 1\<close> stars.\<close>

lemma stars_main_correct:
  "stars_main = concat (map (\<lambda>r. replicate (15 - r) 32 @ replicate (2 * r - 1) 42 @ [10]) [1..<16])"
  using stars_rows_lines [of 1 15] by (simp add: stars_main_def)

section \<open>Boxes\<close>

definition box_byte :: "int \<Rightarrow> int \<Rightarrow> int \<Rightarrow> u8" where
  "box_byte sz row col =
     (let layer = row;
          layer = (if sz - 1 - row < layer then sz - 1 - row else layer);
          layer = (if col < layer then col else layer);
          layer = (if sz - 1 - col < layer then sz - 1 - col else layer);
          ch = layer - layer sdiv 2 * 2
      in if ch = 0 then 35 else 46)"

function box_cols :: "int \<Rightarrow> int \<Rightarrow> int \<Rightarrow> u8 list" where
  "box_cols sz row col = (if col < sz then box_byte sz row col # box_cols sz row (col + 1) else [])"
  by auto
termination by (relation "measure (\<lambda>(sz, row, col). nat (sz - col))") auto

function box_rows :: "int \<Rightarrow> int \<Rightarrow> u8 list" where
  "box_rows sz row = (if row < sz then box_cols sz row 0 @ [10] @ box_rows sz (row + 1) else [])"
  by auto
termination by (relation "measure (\<lambda>(sz, row). nat (sz - row))") auto

declare box_cols.simps [simp del] box_rows.simps [simp del]

definition boxes_main :: "u8 list" where
  "boxes_main = box_rows 21 0"

text \<open>The distance of a cell from the nearest edge decides; the other loops only walk over the square.\<close>

definition edge_distance :: "nat \<Rightarrow> nat \<Rightarrow> nat \<Rightarrow> nat" where
  "edge_distance n r c = min (min r (n - 1 - r)) (min c (n - 1 - c))"

lemma sdiv_2_even: "(int n - int n sdiv 2 * 2 = 0) = even n"
  by (simp add: signed_divide_int_def) presburger

lemma box_byte_distance:
  assumes "r < n" "c < n"
  shows "box_byte (int n) (int r) (int c) = (if even (edge_distance n r c) then 35 else 46)"
proof -
  have "int n - 1 - int r = int (n - 1 - r)" "int n - 1 - int c = int (n - 1 - c)" using assms by simp_all
  then have "box_byte (int n) (int r) (int c) =
      (let layer = int (edge_distance n r c) in if layer - layer sdiv 2 * 2 = 0 then 35 else 46)"
    by (auto simp: box_byte_def edge_distance_def Let_def min_def)
  then show ?thesis by (simp only: Let_def sdiv_2_even)
qed

lemma box_cols_line:
  assumes "c \<le> n" "r < n"
  shows "box_cols (int n) (int r) (int c) = map (\<lambda>c. if even (edge_distance n r c) then 35 else 46) [c..<n]"
  using assms(1)
proof (induction "n - c" arbitrary: c)
  case 0
  then show ?case by (simp add: box_cols.simps [of _ _ "int c"])
next
  case (Suc d)
  then have "c < n" "d = n - Suc c" by simp_all
  then show ?case
    using Suc.hyps(1) [of "Suc c"] upt_conv_Cons [of c n] box_byte_distance [OF assms(2), of c]
    by (simp add: box_cols.simps [of "int n" "int r" "int c"] add.commute)
qed

lemma box_rows_lines:
  assumes "r \<le> n"
  shows "box_rows (int n) (int r) =
    concat (map (\<lambda>r. map (\<lambda>c. if even (edge_distance n r c) then 35 else 46) [0..<n] @ [10]) [r..<n])"
  using assms
proof (induction "n - r" arbitrary: r)
  case 0
  then show ?case by (simp add: box_rows.simps [of _ "int r"])
next
  case (Suc d)
  then have "r < n" "d = n - Suc r" by simp_all
  then show ?case
    using Suc.hyps(1) [of "Suc r"] upt_conv_Cons [of r n] box_cols_line [of 0 n r]
    by (simp add: box_rows.simps [of "int n" "int r"] add.commute)
qed

lemma boxes_main_correct:
  "boxes_main = concat (map (\<lambda>r. map (\<lambda>c. if even (edge_distance 21 r c) then 35 else 46) [0..<21] @ [10]) [0..<21])"
  using box_rows_lines [of 0 21] by (simp add: boxes_main_def)


section \<open>Rain\<close>

text \<open>The random number is a word; its remainders are integers, since no step after it leaves the range of
  \<^verbatim>\<open>int\<close>. The absolute value of the smallest number is that number itself.\<close>

definition rain_next :: "u32 \<Rightarrow> u32" where
  "rain_next seed = seed * 1103515245 + 12345"

definition rain_rem :: "u32 \<Rightarrow> int \<Rightarrow> int" where
  "rain_rem seed k = (let r = seed; r = (if sint r < 0 then 0 - r else r) in sint r - sint r sdiv k * k)"

function drops_loop :: "nat \<Rightarrow> u32 \<Rightarrow> int list \<Rightarrow> u32 \<times> int list" where
  "drops_loop i seed d =
     (if i < 40 then let seed = rain_next seed in drops_loop (i + 1) seed (d[i := rain_rem seed 20]) else (seed, d))"
  by auto
termination by (relation "measure (\<lambda>(i, seed, d). 40 - i)") auto

definition rain_char :: "u32 \<Rightarrow> u8" where
  "rain_char seed = word_of_int (33 + rain_rem seed 90)"

definition rain_cell :: "int list \<Rightarrow> nat \<Rightarrow> nat \<Rightarrow> nat \<Rightarrow> u32 \<Rightarrow> u32 \<times> u8" where
  "rain_cell d frame row col seed =
     (let pos = (if col < 40 then d ! col else 0);
          pos = pos + int frame;
          pos = pos - pos sdiv 20 * 20
      in if int row = pos then let seed = rain_next seed in (seed, rain_char seed)
         else let j = int row - pos;
                  j = (if j < 0 then j + 20 else j)
              in if j < 4 then let seed = rain_next seed in (seed, rain_char seed) else (seed, 32))"

function rain_cols :: "int list \<Rightarrow> nat \<Rightarrow> nat \<Rightarrow> nat \<Rightarrow> u32 \<Rightarrow> u32 \<times> u8 list" where
  "rain_cols d frame row col seed =
     (if col < 40
      then let (seed, b) = rain_cell d frame row col seed; (seed, out) = rain_cols d frame row (col + 1) seed
           in (seed, [b, 32] @ out)
      else (seed, []))"
  by auto
termination by (relation "measure (\<lambda>(d, frame, row, col, seed). 40 - col)") auto

function rain_rows :: "int list \<Rightarrow> nat \<Rightarrow> nat \<Rightarrow> u32 \<Rightarrow> u32 \<times> u8 list" where
  "rain_rows d frame row seed =
     (if row < 20
      then let (seed, line) = rain_cols d frame row 0 seed; (seed, out) = rain_rows d frame (row + 1) seed
           in (seed, line @ [10] @ out)
      else (seed, []))"
  by auto
termination by (relation "measure (\<lambda>(d, frame, row, seed). 20 - row)") auto

function rain_frames :: "int list \<Rightarrow> nat \<Rightarrow> u32 \<Rightarrow> u32 \<times> u8 list" where
  "rain_frames d frame seed =
     (if frame < 20
      then let (seed, picture) = rain_rows d frame 0 seed; (seed, out) = rain_frames d (frame + 1) seed
           in (seed, picture @ [10] @ out)
      else (seed, []))"
  by auto
termination by (relation "measure (\<lambda>(d, frame, seed). 20 - frame)") auto

declare drops_loop.simps [simp del] rain_cols.simps [simp del] rain_rows.simps [simp del] rain_frames.simps [simp del]

definition rain_main :: "u8 list" where
  "rain_main = (let (seed, d) = drops_loop 0 12345 (replicate 40 0) in snd (rain_frames d 0 seed))"

text \<open>The reference: which cells are lit does not depend on the random numbers of the drawing. A picture says
  of every place of the output whether it shows the next random character or a fixed byte.\<close>

datatype rain_place = Lit | Shown u8

fun paint :: "rain_place list \<Rightarrow> u32 \<Rightarrow> u32 \<times> u8 list" where
  "paint [] seed = (seed, [])"
| "paint (Shown b # ps) seed = (case paint ps seed of (s, out) \<Rightarrow> (s, b # out))"
| "paint (Lit # ps) seed = (case paint ps (rain_next seed) of (s, out) \<Rightarrow> (s, rain_char (rain_next seed) # out))"

definition head_row :: "int list \<Rightarrow> nat \<Rightarrow> nat \<Rightarrow> nat" where
  "head_row d frame col = (nat (d ! col) + frame) mod 20"

definition lit :: "int list \<Rightarrow> nat \<Rightarrow> nat \<Rightarrow> nat \<Rightarrow> bool" where
  "lit d frame row col \<longleftrightarrow> (\<exists>k \<in> {0, 1, 2, 3}. row = (head_row d frame col + k) mod 20)"

definition row_picture :: "int list \<Rightarrow> nat \<Rightarrow> nat \<Rightarrow> rain_place list" where
  "row_picture d frame row = concat (map (\<lambda>col. [if lit d frame row col then Lit else Shown 32, Shown 32]) [0..<40])"

definition rain_picture :: "int list \<Rightarrow> rain_place list" where
  "rain_picture d = concat (map (\<lambda>frame. concat (map (\<lambda>row. row_picture d frame row @ [Shown 10]) [0..<20]) @ [Shown 10]) [0..<20])"

lemma sdiv_rem: "int n - int n sdiv int k * int k = int (n mod k)"
  unfolding sdiv_nat by (simp add: minus_div_mult_eq_mod zdiv_int zmod_int)

lemma paint_append: "paint (ps @ qs) seed = (let (s, a) = paint ps seed; (s, b) = paint qs s in (s, a @ b))"
  by (induction ps seed rule: paint.induct) (auto split: prod.splits)

definition drops_ok :: "int list \<Rightarrow> bool" where
  "drops_ok d \<longleftrightarrow> length d = 40 \<and> list_all (\<lambda>p. 0 \<le> p \<and> p < 20) d"

lemma rain_cell_paint:
  assumes "drops_ok d" "row < 20" "col < 40"
  shows "rain_cell d frame row col seed =
    (if lit d frame row col then (rain_next seed, rain_char (rain_next seed)) else (seed, 32))"
proof -
  have "0 \<le> d ! col" using assms(1,3) by (auto simp: drops_ok_def list_all_length)
  then obtain p where p: "d ! col = int p" using nonneg_int_cases by blast
  have q: "int p + int frame - (int p + int frame) sdiv 20 * 20 = int ((p + frame) mod 20)"
    using sdiv_rem [of "p + frame" 20] by simp
  define h where "h = (p + frame) mod 20"
  have "h < 20" by (simp add: h_def)
  have "lit d frame row col \<longleftrightarrow> row = h \<or> (if int row - int h < 0 then int row - int h + 20 else int row - int h) < 4"
    using assms(2) \<open>h < 20\<close> unfolding lit_def head_row_def p nat_int h_def [symmetric] by (auto simp: mod_if)
  then show ?thesis unfolding rain_cell_def Let_def using assms(3) by (simp add: p q h_def)
qed

lemma rain_cols_paint:
  assumes "drops_ok d" "row < 20" "col \<le> 40"
  shows "rain_cols d frame row col seed =
    paint (concat (map (\<lambda>col. [if lit d frame row col then Lit else Shown 32, Shown 32]) [col..<40])) seed"
  using assms(3)
proof (induction "40 - col" arbitrary: col seed)
  case 0
  then show ?case by (simp add: rain_cols.simps [of d frame row 40])
next
  case (Suc n)
  then have "col < 40" "n = 40 - Suc col" by simp_all
  then show ?case
    using Suc.hyps(1) [of "Suc col"] upt_conv_Cons [of col 40] rain_cell_paint [OF assms(1,2), of col frame]
    by (simp add: rain_cols.simps [of d frame row col] split: prod.split)
qed

lemma rain_rows_paint:
  assumes "drops_ok d" "row \<le> 20"
  shows "rain_rows d frame row seed = paint (concat (map (\<lambda>row. row_picture d frame row @ [Shown 10]) [row..<20])) seed"
  using assms(2)
proof (induction "20 - row" arbitrary: row seed)
  case 0
  then show ?case by (simp add: rain_rows.simps [of d frame 20])
next
  case (Suc n)
  then have "row < 20" "n = 20 - Suc row" by simp_all
  then show ?case
    using Suc.hyps(1) [of "Suc row"] upt_conv_Cons [of row 20] rain_cols_paint [OF assms(1), of row 0 frame]
    by (simp add: rain_rows.simps [of d frame row] row_picture_def [symmetric] paint_append split: prod.splits)
qed

lemma rain_frames_paint:
  assumes "drops_ok d" "frame \<le> 20"
  shows "rain_frames d frame seed =
    paint (concat (map (\<lambda>frame. concat (map (\<lambda>row. row_picture d frame row @ [Shown 10]) [0..<20]) @ [Shown 10]) [frame..<20])) seed"
  using assms(2)
proof (induction "20 - frame" arbitrary: frame seed)
  case 0
  then show ?case by (simp add: rain_frames.simps [of d 20])
next
  case (Suc n)
  then have "frame < 20" "n = 20 - Suc frame" by simp_all
  then show ?case
    using Suc.hyps(1) [of "Suc frame"] upt_conv_Cons [of frame 20] rain_rows_paint [OF assms(1), of 0 frame]
    by (simp add: rain_frames.simps [of d frame] paint_append split: prod.splits)
qed


lemma drops_start: "drops_ok (snd (drops_loop 0 12345 (replicate 40 0)))"
  by code_simp

text \<open>The rain: twenty frames of twenty lines of forty cells, each followed by a blank; the lit cells show the random characters in
  turn.\<close>

lemma rain_main_correct:
  "rain_main = (let (seed, d) = drops_loop 0 12345 (replicate 40 0) in snd (paint (rain_picture d) seed))"
proof -
  obtain seed d where d: "drops_loop 0 12345 (replicate 40 0) = (seed, d)" by fastforce
  have "drops_ok d" using drops_start by (simp add: d)
  from rain_frames_paint [OF this, of 0 seed] show ?thesis by (simp add: rain_main_def d rain_picture_def del: upt_Suc)
qed

text \<open>In every frame four rows of each column are lit. The head moves down by one row with each frame, and the three
  other rows are those it moves to in the next three frames: the trail is in front of the head.\<close>

lemma four_rows_lit: "card {row. row < 20 \<and> lit d frame row col} = 4"
proof -
  define h where "h = head_row d frame col"
  have "h < 20" by (simp add: h_def head_row_def)
  have "{row. row < 20 \<and> lit d frame row col} = {h mod 20, (h + 1) mod 20, (h + 2) mod 20, (h + 3) mod 20}"
    by (auto simp: lit_def h_def)
  also have "card \<dots> = 4" using \<open>h < 20\<close> by (auto simp: mod_if card_insert_if)
  finally show ?thesis .
qed

lemma rain_trail_ahead:
  "row < 20 \<Longrightarrow> lit d frame row col \<longleftrightarrow> (\<exists>k \<in> {0, 1, 2, 3}. row = head_row d (frame + k) col)"
  by (auto simp: lit_def head_row_def add.assoc mod_add_left_eq)

text \<open>A random character is visible, unless the random number is the smallest one.\<close>

lemma rain_char_visible:
  assumes "seed \<noteq> 0x80000000"
  shows "33 \<le> rain_char seed \<and> rain_char seed \<le> 122"
proof -
  define r where "r = (if sint seed < 0 then - seed else seed)"
  have "0 \<le> sint r" using sint_minus [OF assms] by (simp add: r_def)
  then have "rain_rem seed 90 = int (nat (sint r) mod 90)"
    using sdiv_rem [of "nat (sint r)" 90] by (simp add: rain_rem_def r_def Let_def split: if_splits)
  moreover define m where "m = nat (sint r) mod 90"
  ultimately have "rain_char seed = word_of_nat (33 + m)" "m < 90" by (simp_all add: rain_char_def m_def)
  then show ?thesis by (simp add: word_le_nat_alt unat_of_nat del: of_nat_add)
qed

end
