(* ===== verification/Spec2Isabelle.thy ===== *)
theory Spec2Isabelle
  imports Mv_Sort Mv_Stdlib Mv_Utf Mv_Time Mv_Posix Mv_Stream Mv_Format Mv_Thread Mv_Iface Mv_Args Mv_Kmod
    Mv_Elfcat Mv_Elfwc Mv_Elfinfo Mv_Mvapp
    Mv_Sha256 Mv_Topo Mv_Hbpkg_Safe
    Mv_Sample_Sort Mv_Sample_Sha Mv_Sample_Calc Mv_Sample_Matrix Mv_Sample_Bf Mv_Sample_Hanoi Mv_Sample_Small Mv_Sample_Wumpus Mv_Sample_Echo
    Mv_Sample_Screen
begin

text \<open>
  A verification library for the C code of Mellivora OS.

  The system is a kernel in assembly, programs in assembly, and the C side: a runtime that C programs
  are linked with (\<^verbatim>\<open>c/rt\<close>, \<^verbatim>\<open>c/include\<close>), a module the kernel loads (\<^verbatim>\<open>c/kmod\<close>), programs over the runtime
  (\<^verbatim>\<open>c/prog\<close>), programs for the small C compiler of the system (\<^verbatim>\<open>samples\<close>) and the package manager
  (\<^verbatim>\<open>tools/hbpkg.c\<close>), which is built for a host. This library models the C side. A program calls the runtime; the runtime calls the kernel through \<^verbatim>\<open>int 0x80\<close>, which is a
  parameter of the model wherever it appears, with what is relied on of it as a named hypothesis.

  \<^bold>\<open>Memory.\<close> The target is a flat 32-bit machine, so a pointer is a 32-bit word and memory a function from
  words to bytes (\<open>Mv_Prelude\<close>, \<open>Mv_Memory\<close>). Code that works on memory is modelled on it, down to the
  headers of heap blocks; code that only passes strings along is modelled on byte lists. \<^verbatim>\<open>int\<close> and
  \<^verbatim>\<open>unsigned\<close> are 32-bit words, or integers where the source cannot leave the range or the wrapping is
  written out. A loop that stops only at a terminator is a \<^theory_text>\<open>partial_function (option)\<close>; that it returns is
  part of what is proved of it.

  \<^bold>\<open>The runtime.\<close>
  \<^item> \<open>Mv_String\<close>: \<^verbatim>\<open>c/rt/string.c\<close>. What every routine returns and the exact memory it leaves;
    \<open>memmove\<close> on overlapping regions.
  \<^item> \<open>Mv_Heap\<close>, \<open>Mv_Heap_Inv\<close>, \<open>Mv_Alloc\<close>: \<^verbatim>\<open>c/rt/malloc.c\<close> over the program break (\<open>sys_sbrk\<close> of
    \<^verbatim>\<open>kernel/syscall.inc\<close>, the only kernel code modelled). The invariant says that blocks tile the heap and
    the free list is sorted and complete; \<open>malloc\<close>, \<open>free\<close> and \<open>realloc\<close> keep it and the bytes of every other
    live block, after any sequence of calls and stores live blocks are disjoint, and null is returned
    only when nothing fits. The locale \<open>allocator\<close> is the contract the clients use.
  \<^item> \<open>Mv_Sort\<close>: \<open>qsort\<close> and \<open>bsearch\<close> of \<^verbatim>\<open>c/rt/stdlib.c\<close> with the callback as a parameter (locale
    \<open>comparison\<close>): a stable sort after an odd number of merge passes, and the freed array of the caller
    after an even number.
  \<^item> \<open>Mv_Stdlib\<close>: the rest of \<^verbatim>\<open>c/rt/stdlib.c\<close>: \<open>strtol\<close> and its relatives, division, the random generator,
    \<open>strdup\<close>, \<open>getenv\<close>, the handlers of \<open>atexit\<close>, and the entry of a program, \<^verbatim>\<open>c/rt/start.c\<close>.
  \<^item> \<open>Mv_Utf\<close>: \<^verbatim>\<open>c/rt/utf.c\<close>. Decoding and encoding are inverse on scalar values, everything else is
    replaced with progress, and strings survive the way through UTF-16.
  \<^item> \<open>Mv_Time\<close>: \<^verbatim>\<open>c/rt/time.c\<close>. The calendar agrees with a reference calendar for every 32-bit time, \<open>mktime\<close>
    undoes \<open>localtime\<close>, \<open>strftime\<close> stays in its buffer.
  \<^item> \<open>Mv_Posix\<close>: \<^verbatim>\<open>c/rt/posix.c\<close>. The locales \<open>syscall_shim\<close>, \<open>kernel_reason_shim\<close> and \<open>fixed_reason_shim\<close>
    are the three ways a shim turns an answer of the kernel into \<^verbatim>\<open>errno\<close>; \<open>getopt\<close>, the locale and the
    character classes.
  \<^item> \<open>Mv_Stream\<close>, \<open>Mv_Format\<close>: \<^verbatim>\<open>c/rt/stdio.c\<close>. The streams with their buffers (locale \<open>byte_source\<close> for what
    \<open>fgets\<close> and \<open>getline\<close> read from), an invariant over every run of stream operations, and the formatter,
    whose output is that of a reference for every format.
  \<^item> \<open>Mv_Thread\<close>: \<^verbatim>\<open>c/rt/thread.c\<close>; \<open>Mv_Iface\<close>: \<^verbatim>\<open>c/rt/iface.c\<close> (locale \<open>refcounted\<close>); \<open>Mv_Args\<close>:
    \<^verbatim>\<open>c/rt/args.c\<close>; \<open>Mv_Kmod\<close>: \<^verbatim>\<open>c/kmod/kmod.c\<close>, whose self-test is run on the models of the routines it
    tests.

  \<^bold>\<open>The programs.\<close> \<open>Mv_Elfcat\<close>, \<open>Mv_Elfwc\<close> and \<open>Mv_Elfinfo\<close> are \<^verbatim>\<open>c/prog/elfcat.c\<close>, \<^verbatim>\<open>elfwc.c\<close> and \<^verbatim>\<open>elfinfo.c\<close>,
  put together from the models of what they call: \<open>mv_args\<close> on the memory of the process, \<open>getopt\<close>
  (\<open>Mv_Getopt\<close>: the loop over the options and where the operands end up), streams, \<open>printf\<close> and the console.
  \<open>Mv_Console\<close> describes a kernel by the files it holds and the bytes its console has shown (\<open>serves\<close>) and
  says what each call does in those terms. The theorems go from the command line to what is shown: for
  all files and all command lines with known options, the programs print what a reference on whole files
  prints and end with the right exit code. \<open>Mv_Mvapp\<close> is \<^verbatim>\<open>c/prog/mvapp\<close> over the interface objects: it counts its
  runs in the Sett, for any kernel that keeps the Sett, and reports a library that is missing.

  \<^bold>\<open>The package manager.\<close> \<open>Mv_Semver\<close> (versions and constraints), \<open>Mv_Sha256\<close> (the hash, equal to the
  function of FIPS 180-4 with the constants derived from primes), \<open>Mv_Topo\<close> (the dependency order),
  \<open>Mv_Pkg\<close> (names and the database, locale \<open>package_db\<close>), \<open>Mv_Pkg_Meta\<close> (the metadata parser),
  \<open>Mv_Hbpkg\<close> (every command and \<^verbatim>\<open>main\<close>) and \<open>Mv_Hbpkg_Safe\<close> (what an installation does: it succeeds when it
  should, keeps the other packages, and hands only checked paths to the shell).

  \<^bold>\<open>The samples.\<close> These programs use no runtime: what they give to \<^verbatim>\<open>putchar\<close> is a list of bytes, what
  \<^verbatim>\<open>getchar\<close> returns is taken from one. \<open>Mv_Decimal\<close> holds the output of numbers they share and the locale
  \<open>decimal_printer\<close>, which \<open>Mv_Sample_Sort\<close>, \<open>Mv_Sample_Calc\<close> and \<open>Mv_Sample_Matrix\<close> interpret.
  \<^item> \<open>Mv_Json\<close>: \<^verbatim>\<open>json_parse.c\<close>. For every text made of tokens the program prints those tokens; for every text at
    all the tokenizer stays in its arrays and moves on; what a long string loses is shown by an example.
  \<^item> \<open>Mv_Sample_Echo\<close>: \<^verbatim>\<open>echo_server.c\<close>, over the answers of the kernel: the events of a whole session, and that
    a client gets back what it sent.
  \<^item> \<open>Mv_Sample_Calc\<close>: \<^verbatim>\<open>calc.c\<close>, compared with an evaluator of expressions; \<open>Mv_Sample_Sort\<close>: \<^verbatim>\<open>sort.c\<close>, where both
    sorts give the sorted permutation; \<open>Mv_Sample_Matrix\<close>: \<^verbatim>\<open>matrix_mul.c\<close>, the matrix product;
    \<open>Mv_Sample_Sha\<close>: \<^verbatim>\<open>sha256.c\<close>, the function of the standard in \<open>Mv_Sha256\<close>.
  \<^item> \<open>Mv_Sample_Wumpus\<close>: \<^verbatim>\<open>wumpus.c\<close> as a step relation; the rules of the game hold in every state it reaches.
  \<^item> \<open>Mv_Sample_Bf\<close>: \<^verbatim>\<open>bf.c\<close>; \<open>Mv_Sample_Hanoi\<close>: \<^verbatim>\<open>hanoi.c\<close>; \<open>Mv_Sample_Small\<close>: \<^verbatim>\<open>primes.c\<close>, \<^verbatim>\<open>fib.c\<close>, \<^verbatim>\<open>word_stats.c\<close> and
    \<^verbatim>\<open>mandelbrot_fp.c\<close>: what each prints. \<open>Mv_Sample_Screen\<close>: \<^verbatim>\<open>hello.c\<close>, \<^verbatim>\<open>echo.c\<close>, \<^verbatim>\<open>stars.c\<close>, \<^verbatim>\<open>boxes.c\<close> and
    \<^verbatim>\<open>matrix.c\<close>, compared with descriptions of their pictures.

  \<^bold>\<open>Bounds.\<close> \<open>topo_visit\<close> counts the levels of its recursion; one level more than there are nodes is shown
  to be enough, since every level puts another node on the stack. \<open>cmd_install\<close> counts the levels of
  the recursion over dependencies; that some number is enough is proved for packages whose dependencies
  are installed, and that no number is enough for a package that depends on itself. The limit of 200
  tokens in \<open>Mv_Json\<close> is that of the program, which stops after it. Other loops are
  structural, or have a measure, or are partial functions whose lemmas show that they return.

  \<^bold>\<open>Not modelled.\<close> The kernel, drivers, boot code and the programs in assembly (\<^verbatim>\<open>kernel\<close>, \<^verbatim>\<open>programs\<close>,
  \<^verbatim>\<open>boot\<close>, \<^verbatim>\<open>install\<close>): they are NASM sources. The other programs of
  \<^verbatim>\<open>c/prog\<close> print whether the runtime answers as expected. \<^verbatim>\<open>samples/tcc_hello.c\<close> is one call of a builtin of the
  compiler, which is an assembly program. The functions behind \<^verbatim>\<open>main\<close> in \<^verbatim>\<open>samples/sort.c\<close> are a second version of those before it.
  Concurrency between processes and the scheduling of threads belong to the kernel.
\<close>

end
